(* ===== verification/Prelude.thy ===== *)
theory Prelude
  imports Main "HOL-Library.Word" "HOL-Library.Signed_Division"
begin

section \<open>Prelude: types, C string helpers and shared automation\<close>

text \<open>
  Shared by every component: the names of the machine types, the C library
  functions on byte strings that the sources call (\<open>memchr\<close>, \<open>strrchr\<close>), and facts on lists.
\<close>

unbundle bit_operations_syntax

type_synonym u8 = "8 word"
type_synonym u16 = "16 word"
type_synonym u32 = "32 word"
type_synonym u64 = "64 word"

text \<open>Pointers into a heap of equal-sized nodes; \<open>None\<close> is the null pointer.\<close>

type_synonym addr = nat
type_synonym ptr = "addr option"

text \<open>Storing a number in an \<open>int\<close>.\<close>

definition i32 :: "int \<Rightarrow> int" where
  "i32 x = sint (word_of_int x :: 32 word)"

lemma i32_id: "- (2 ^ 31) \<le> x \<Longrightarrow> x < 2 ^ 31 \<Longrightarrow> i32 x = x"
  by (simp add: i32_def sint_sbintrunc' signed_take_bit_int_eq_self)

subsection \<open>C string functions\<close>

text \<open>\<open>memchr\<close> / \<open>q_memchr\<close> / \<open>strchr\<close>: offset of the first occurrence.\<close>

fun memchr :: "char \<Rightarrow> string \<Rightarrow> nat option" where
  "memchr c [] = None"
| "memchr c (x # xs) = (if x = c then Some 0 else map_option Suc (memchr c xs))"

text \<open>\<open>strrchr\<close>: offset of the last occurrence.\<close>

fun memrchr :: "char \<Rightarrow> string \<Rightarrow> nat option" where
  "memrchr c [] = None"
| "memrchr c (x # xs) =
     (case memrchr c xs of
        Some i \<Rightarrow> Some (Suc i)
      | None \<Rightarrow> (if x = c then Some 0 else None))"

lemma memchr_None_iff [simp]: "memchr c xs = None \<longleftrightarrow> c \<notin> set xs"
  by (induction xs) auto

lemma memchr_SomeD:
  "memchr c xs = Some i \<Longrightarrow> i < length xs \<and> xs ! i = c \<and> c \<notin> set (take i xs)"
  by (induction xs arbitrary: i) (auto split: if_splits)

lemma memchr_first: "c \<notin> set xs \<Longrightarrow> memchr c (xs @ c # ys) = Some (length xs)"
  by (induction xs) auto

lemma memrchr_None_iff: "memrchr c xs = None \<longleftrightarrow> c \<notin> set xs"
proof (induction xs)
  case (Cons x xs)
  then show ?case by (cases "memrchr c xs") auto
qed simp

lemma memrchr_SomeD:
  "memrchr c xs = Some i \<Longrightarrow> i < length xs \<and> xs ! i = c \<and> c \<notin> set (drop (Suc i) xs)"
proof (induction xs arbitrary: i)
  case (Cons x xs)
  then show ?case
    by (cases "memrchr c xs") (auto simp: memrchr_None_iff split: if_splits)
qed simp

lemma memrchr_last: "c \<notin> set ys \<Longrightarrow> memrchr c (xs @ c # ys) = Some (length xs)"
proof (induction xs)
  case Nil
  then have "memrchr c ys = None" using memrchr_None_iff by blast
  then show ?case by simp
qed simp

lemma take_memchr: "memchr c xs = Some i \<Longrightarrow> take i xs = takeWhile (\<lambda>x. x \<noteq> c) xs"
  by (induction xs arbitrary: i) (auto split: if_splits)

subsection \<open>Generic list facts\<close>

lemma filter_removes_one:
  assumes "distinct (ys @ a # zs)"
  shows "filter (\<lambda>x. x \<noteq> a) (ys @ a # zs) = ys @ zs"
proof -
  from assms have "filter (\<lambda>x. x \<noteq> a) ys = ys" and "filter (\<lambda>x. x \<noteq> a) zs = zs"
    by (auto intro!: filter_True)
  then show ?thesis by simp
qed

lemma split_first:
  assumes "\<exists>x\<in>set xs. P x"
  obtains ys x zs where "xs = ys @ x # zs" and "P x" and "\<forall>y\<in>set ys. \<not> P y"
  using split_list_first_prop [OF assms] by blast

end
