(* ===== verification/Qvalue.thy ===== *)
theory Qvalue
  imports Prelude
begin

section \<open>q values: qvalue.c and qvalue.h\<close>

text \<open>
  A q value is an \<open>int\<close> in thousandths (\<open>qvalue_t\<close>); \<open>Q_UNSPECIFIED\<close> is -1.
  \<open>str2q\<close> is the scanner of qvalue.c: one equation per state of its
  enumeration; \<open>q2str\<close> and \<open>len_q\<close> are the printer and its length function.
  The output parameter \<open>*q\<close> is threaded through the loop, since the code writes it
  before it knows whether the input is well formed.
\<close>

abbreviation (input) Q_UNSPECIFIED :: int where "Q_UNSPECIFIED \<equiv> - 1"
abbreviation (input) MAX_Q :: int where "MAX_Q \<equiv> 1000"
abbreviation (input) MIN_Q :: int where "MIN_Q \<equiv> 0"

datatype q_error = E_Q_INV_CHAR | E_Q_TOO_BIG | E_Q_EMPTY | E_Q_DEC_MISSING

datatype q_state = ST_START | ST_0 | ST_1 | ST_0_PT | ST_1_PT | ST_1_PT_0 | ST_0_PT_N

record q_vars =
  q_val :: int
  q_digits :: int
  q_order :: int

definition between :: "char \<Rightarrow> char \<Rightarrow> char \<Rightarrow> bool" where
  "between lo c hi \<longleftrightarrow> (of_char lo :: int) \<le> of_char c \<and> (of_char c :: int) \<le> of_char hi"

definition digit_val :: "char \<Rightarrow> int" where
  "digit_val c = of_char c - of_char CHR ''0''"

text \<open>One iteration of the loop; \<open>Inl\<close> is a \<open>return\<close> from inside it.\<close>

fun str2q_step :: "q_state \<Rightarrow> char \<Rightarrow> q_vars \<Rightarrow> q_error + q_state \<times> q_vars" where
  "str2q_step ST_START c v =
     (if c = CHR '' '' \<or> c = CHR 0x09 then Inr (ST_START, v)
      else if c = CHR ''0'' then Inr (ST_0, v\<lparr>q_val := 0\<rparr>)
      else if c = CHR ''1'' then Inr (ST_1, v\<lparr>q_val := 1000\<rparr>)
      else if c = CHR ''.'' then Inr (ST_0_PT, v)
      else Inl E_Q_INV_CHAR)"
| "str2q_step ST_0 c v =
     (if c = CHR ''0'' then Inr (ST_0, v)
      else if c = CHR ''.'' then Inr (ST_0_PT, v)
      else if c = CHR ''1'' then Inr (ST_1, v\<lparr>q_val := 1000\<rparr>)
      else if between CHR ''2'' c CHR ''9'' then Inl E_Q_TOO_BIG
      else Inl E_Q_INV_CHAR)"
| "str2q_step ST_1 c v =
     (if c = CHR ''.'' then Inr (ST_1_PT, v)
      else if between CHR ''0'' c CHR ''9'' then Inl E_Q_TOO_BIG
      else Inl E_Q_INV_CHAR)"
| "str2q_step ST_0_PT c v =
     (if between CHR ''0'' c CHR ''9'' then
        Inr (ST_0_PT_N, v\<lparr>q_val := digit_val c * q_order v, q_order := q_order v div 10\<rparr>)
      else Inl E_Q_INV_CHAR)"
| "str2q_step ST_1_PT c v =
     (if c = CHR ''0'' then Inr (ST_1_PT_0, v)
      else if between CHR ''1'' c CHR ''9'' then Inl E_Q_TOO_BIG
      else Inl E_Q_INV_CHAR)"
| "str2q_step ST_1_PT_0 c v =
     (if c = CHR ''0'' then Inr (ST_1_PT_0, v)
      else if between CHR ''1'' c CHR ''9'' then Inl E_Q_TOO_BIG
      else Inl E_Q_INV_CHAR)"
| "str2q_step ST_0_PT_N c v =
     (if between CHR ''0'' c CHR ''9'' then
        (if q_digits v \<le> 3 then
           Inr (ST_0_PT_N, v\<lparr>q_val := q_val v + digit_val c * q_order v,
                            q_order := q_order v div 10, q_digits := q_digits v + 1\<rparr>)
         else Inr (ST_0_PT_N, v))
      else Inl E_Q_INV_CHAR)"

fun str2q_end :: "q_state \<Rightarrow> q_vars \<Rightarrow> q_error + int" where
  "str2q_end ST_START v = Inl E_Q_EMPTY"
| "str2q_end ST_0_PT v = Inl E_Q_DEC_MISSING"
| "str2q_end ST_1_PT v = Inl E_Q_DEC_MISSING"
| "str2q_end _ v = Inr (q_val v)"

fun str2q_loop :: "q_state \<Rightarrow> q_vars \<Rightarrow> string \<Rightarrow> q_error + int" where
  "str2q_loop st v [] = str2q_end st v"
| "str2q_loop st v (c # cs) =
     (case str2q_step st c v of
        Inl e \<Rightarrow> Inl e
      | Inr (st', v') \<Rightarrow> str2q_loop st' v' cs)"

text \<open>\<open>q0\<close> is what the caller's \<open>*q\<close> holds on entry.\<close>

definition str2q :: "int \<Rightarrow> string \<Rightarrow> q_error + int" where
  "str2q q0 s = str2q_loop ST_START \<lparr>q_val = q0, q_digits = 1, q_order = 100\<rparr> s"

definition len_q :: "int \<Rightarrow> nat" where
  "len_q q =
     (if q = Q_UNSPECIFIED then 0
      else if q \<ge> MAX_Q then 1
      else if q \<le> MIN_Q then 1
      else if q mod 100 = 0 then 2 + 1
      else if q mod 10 = 0 then 2 + 2
      else 2 + 3)"

definition digit_char :: "int \<Rightarrow> char" where
  "digit_char d = char_of (d + of_char CHR ''0'')"

definition q2str :: "int \<Rightarrow> string" where
  "q2str q =
     (if q = Q_UNSPECIFIED then ''''
      else if q \<ge> MAX_Q then ''1''
      else if q \<le> MIN_Q then ''0''
      else
        ''0.'' @ digit_char (q div 100) #
        (let q1 = q mod 100 in
         if q1 = 0 then []
         else digit_char (q1 div 10) #
           (let q2 = q1 mod 10 in if q2 = 0 then [] else [digit_char q2])))"

subsection \<open>Digits\<close>

lemma of_char_digit_char: "0 \<le> d \<Longrightarrow> d \<le> 9 \<Longrightarrow> (of_char (digit_char d) :: int) = 48 + d"
  by (simp add: digit_char_def)

lemma digit_char_facts [simp]:
  assumes "0 \<le> d" "d \<le> 9"
  shows "between CHR ''0'' (digit_char d) CHR ''9''" "digit_val (digit_char d) = d"
  using of_char_digit_char [OF assms] assms by (simp_all add: between_def digit_val_def)

lemma digit_val_bounds: "between CHR ''0'' c CHR ''9'' \<Longrightarrow> 0 \<le> digit_val c \<and> digit_val c \<le> 9"
  by (simp add: between_def digit_val_def)

subsection \<open>The scanner's invariant\<close>

text \<open>
  While digits are read, the value is a multiple of ten times the current order and
  below 1000; the order is 100, 10, 1 and then 0.
\<close>

fun q_inv :: "q_state \<Rightarrow> q_vars \<Rightarrow> bool" where
  "q_inv ST_0_PT_N v \<longleftrightarrow>
     0 \<le> q_val v \<and>
     (q_digits v, q_order v) \<in> {(1, 10), (2, 1), (3, 0), (4, 0)} \<and>
     q_val v + 10 * q_order v \<le> 1000 \<and> q_val v \<le> 999 \<and>
     (q_order v = 10 \<longrightarrow> q_val v mod 100 = 0) \<and> (q_order v = 1 \<longrightarrow> q_val v mod 10 = 0)"
| "q_inv ST_0 v \<longleftrightarrow> q_val v = 0 \<and> q_digits v = 1 \<and> q_order v = 100"
| "q_inv ST_START v \<longleftrightarrow> q_digits v = 1 \<and> q_order v = 100"
| "q_inv ST_0_PT v \<longleftrightarrow> q_digits v = 1 \<and> q_order v = 100"
| "q_inv _ v \<longleftrightarrow> q_val v = 1000"

lemma str2q_step_inv:
  assumes "q_inv st v" "str2q_step st c v = Inr (st', v')"
  shows "q_inv st' v'"
proof (cases st)
  case ST_0_PT
  with assms show ?thesis using digit_val_bounds [of c] by (auto split: if_splits)
next
  case ST_0_PT_N
  with assms show ?thesis using digit_val_bounds [of c] by (auto split: if_splits)
qed (use assms in \<open>auto split: if_splits\<close>)

lemma str2q_loop_range:
  "q_inv st v \<Longrightarrow> str2q_loop st v s = Inr q \<Longrightarrow> 0 \<le> q \<and> q \<le> 1000"
proof (induction s arbitrary: st v)
  case Nil
  then show ?case by (cases st) auto
next
  case (Cons c s)
  then show ?case by (auto split: sum.splits prod.splits dest: str2q_step_inv)
qed

lemma str2q_bounds: "str2q q0 s = Inr q \<Longrightarrow> 0 \<le> q \<and> q \<le> 1000"
  unfolding str2q_def by (rule str2q_loop_range [where st = ST_START]) auto

lemma len_q_q2str: "len_q q = length (q2str q)"
proof -
  have m: "q mod 100 mod 10 = q mod 10" by (rule mod_mod_cancel) simp
  then have "q mod 100 = 0 \<Longrightarrow> q mod 10 = 0" by simp
  with m show ?thesis
    unfolding len_q_def q2str_def Let_def by simp
qed

text \<open>
  Whatever bytes a q parameter holds and whatever the caller's variable held before, a
  successful scan yields a value between 0 and 1000.
\<close>

theorem str2q_range: "str2q q0 s = Inr q \<Longrightarrow> 0 \<le> q \<and> q \<le> 1000"
  by (rule str2q_bounds)

theorem str2q_range_witness: "str2q 7 ''0.3467'' = Inr 346 \<and> (0::int) \<le> 346 \<and> (346::int) \<le> 1000"
proof -
  have h: "str2q 7 ''0.3467'' = Inr 346"
    by (simp add: str2q_def between_def digit_val_def)
  then show ?thesis using str2q_range [OF h] by simp
qed

text \<open>
  The length function that callers size their buffers with is exactly the length of
  what the printer of q values writes.
\<close>

lemma len_q_is_length: "len_q q = length (q2str q)"
  by (rule len_q_q2str)

text \<open>
  Scanning what the printer wrote gives the q value back, clamped to the range 0 to
  1000; the unspecified value prints as the empty string, which the scanner rejects.
\<close>

theorem str2q_q2str: "str2q q0 (q2str q) =
   (if q = Q_UNSPECIFIED then Inl E_Q_EMPTY else Inr (max 0 (min 1000 q)))"
proof -
  consider "q = Q_UNSPECIFIED" | "q \<ge> 1000" | "q \<le> 0" "q \<noteq> Q_UNSPECIFIED" | "0 < q" "q < 1000"
    by linarith
  then show ?thesis
  proof cases
    case 4
    define a b c where "a = q div 100" and "b = q mod 100 div 10" and "c = q mod 100 mod 10"
    have abc: "0 \<le> a" "a \<le> 9" "0 \<le> b" "b \<le> 9" "0 \<le> c" "c \<le> 9" "q = 100 * a + 10 * b + c"
      using 4 by (auto simp: a_def b_def c_def)
    have z: "q mod 100 = 10 * b + c" by (simp add: b_def c_def)
    have qs: "q2str q = ''0.'' @ digit_char a #
        (if 10 * b + c = 0 then [] else digit_char b # (if c = 0 then [] else [digit_char c]))"
      using 4 by (simp only: q2str_def Let_def a_def b_def c_def) simp
    have dots: "digit_char d \<noteq> CHR ''.''" if "0 \<le> d" "d \<le> 9" for d
    proof
      assume "digit_char d = CHR ''.''"
      with that of_char_digit_char [of d] show False by simp
    qed
    have "str2q q0 (q2str q) = Inr (100 * a + 10 * b + c)"
    proof (cases "10 * b + c = 0")
      case True
      with abc(3,5) have "b = 0" and "c = 0" by linarith+
      with abc show ?thesis unfolding qs by (simp add: str2q_def)
    next
      case False
      show ?thesis
      proof (cases "c = 0")
        case True
        with False abc show ?thesis unfolding qs by (simp add: str2q_def)
      next
        case False
        with \<open>10 * b + c \<noteq> 0\<close> abc show ?thesis unfolding qs by (simp add: str2q_def)
      qed
    qed
    with 4 abc(7) show ?thesis by simp
  qed (auto simp: str2q_def q2str_def)
qed

end
