(* ===== verification/Ucontact.thy ===== *)
theory Ucontact
  imports Prelude Qvalue
begin

section \<open>Contacts of the user location cache: usrloc/ucontact.c\<close>

text \<open>
  A contact's strings live in blocks of shared memory of fixed capacity
  (\<open>sbuf\<close>: the capacity of the block, none for the null pointer, and the bytes
  in use, whose number is the C \<open>len\<close>). \<open>world\<close> holds what the operations
  change outside the contact: the number of \<open>shm_malloc\<close> calls made and of blocks
  live, the statements sent to the database and the callbacks run. \<open>cfg\<close> holds
  what they read: the module parameters, and as parameters of the model the
  outcome of each allocation and of each database statement.

  An operation that would write outside a block returns \<open>None\<close>.
\<close>

datatype cstate = CS_NEW | CS_SYNC | CS_DIRTY

datatype db_mode = NO_DB | WRITE_THROUGH | WRITE_BACK

definition FL_PERMANENT :: u32 where "FL_PERMANENT = push_bit 7 1"
definition FL_MEM :: u32 where "FL_MEM = push_bit 8 1"

record sbuf =
  cap :: "nat option"
  dat :: string

definition null_buf :: sbuf where "null_buf = \<lparr>cap = None, dat = []\<rparr>"

record ucontact =
  uc_domain :: string
  uc_aor :: string
  uc_c :: sbuf
  uc_received :: sbuf
  uc_expires :: int
  uc_q :: int
  uc_callid :: sbuf
  uc_cseq :: int
  uc_state :: cstate
  uc_flags :: u32
  uc_user_agent :: sbuf

text \<open>
  The SQL statements, as the fields the code prints into the format strings. The
  printed q value is in thousandths. A \<open>where_key\<close> is the column that, with the
  user name, the domain and the registrar, selects the rows.
\<close>

datatype where_key = By_contact string | By_callid string

record db_where =
  w_username :: string
  w_domain :: "string option"
  w_key :: where_key
  w_registrar :: string

record db_values =
  v_contact :: "string option"
  v_callid :: "string option"
  v_expires :: int
  v_q :: int
  v_cseq :: int
  v_flags :: u32
  v_user_agent :: string
  v_received :: string

record db_row =
  row_username :: string
  row_domain :: "string option"
  row_registrar :: string
  row_contact :: string
  row_callid :: string
  row_values :: db_values

datatype stmt = DbInsert db_row | DbUpdate db_values db_where | DbDelete db_where

datatype pres = PRES_OFFLINE | PRES_ONLINE

datatype ul_event =
    EvCallback nat u32 ucontact
  | EvNotify nat string string pres

record world =
  shm_n :: nat
  shm_live :: int
  dblog :: "stmt list"
  evs :: "ul_event list"

record cfg =
  cfg_db_mode :: db_mode
  use_domain :: bool
  desc_time_order :: bool
  registrar :: string
  act_time :: int
  ulcb_list :: "(nat \<times> u32) list"
  reg_types :: u32
  shm_ok :: "nat \<Rightarrow> bool"
  db_ok :: "nat \<Rightarrow> stmt \<Rightarrow> bool"

subsection \<open>Shared memory\<close>

definition shm_malloc :: "cfg \<Rightarrow> world \<Rightarrow> bool \<times> world" where
  "shm_malloc g w =
     (let ok = shm_ok g (shm_n w)
      in (ok, w\<lparr>shm_n := shm_n w + 1,
               shm_live := shm_live w + (if ok then 1 else 0)\<rparr>))"

definition shm_free :: "world \<Rightarrow> world" where
  "shm_free w = w\<lparr>shm_live := shm_live w - 1\<rparr>"

definition free_buf :: "sbuf \<Rightarrow> world \<Rightarrow> world" where
  "free_buf b w = (if cap b = None then w else shm_free w)"

definition memcpy_buf :: "sbuf \<Rightarrow> string \<Rightarrow> sbuf option" where
  "memcpy_buf b s =
     (case cap b of
        None \<Rightarrow> (if s = [] then Some (b\<lparr>dat := s\<rparr>) else None)
      | Some n \<Rightarrow> (if length s \<le> n then Some (b\<lparr>dat := s\<rparr>) else None))"

text \<open>Allocating a block for a string and copying it.\<close>

definition dup_str :: "cfg \<Rightarrow> string \<Rightarrow> world \<Rightarrow> sbuf option \<times> world" where
  "dup_str g s w =
     (case shm_malloc g w of (ok, w') \<Rightarrow>
        (if ok then Some \<lparr>cap = Some (length s), dat = s\<rparr> else None, w'))"

subsection \<open>Creating and freeing a contact\<close>

definition free_ucontact :: "ucontact \<Rightarrow> world \<Rightarrow> world" where
  "free_ucontact c w =
     shm_free (free_buf (uc_c c) (free_buf (uc_callid c)
       (free_buf (uc_user_agent c) (free_buf (uc_received c) w))))"

text \<open>
  The error path of \<open>new_ucontact\<close> runs the same calls as \<open>free_ucontact\<close> on the
  partly filled structure, which \<open>memset\<close> has zeroed: \<open>zeroed\<close>.
\<close>

definition zeroed :: ucontact where
  "zeroed = \<lparr>uc_domain = [], uc_aor = [], uc_c = null_buf, uc_received = null_buf,
     uc_expires = 0, uc_q = 0, uc_callid = null_buf, uc_cseq = 0, uc_state = CS_NEW,
     uc_flags = 0, uc_user_agent = null_buf\<rparr>"

definition new_ucontact ::
  "cfg \<Rightarrow> string \<Rightarrow> string \<Rightarrow> string \<Rightarrow> int \<Rightarrow> int \<Rightarrow> string \<Rightarrow> int \<Rightarrow> u32 \<Rightarrow> string \<Rightarrow>
   string option \<Rightarrow> world \<Rightarrow> ucontact option \<times> world" where
  "new_ucontact g dmn aor contact e q callid cseq flags ua recv w =
     (case shm_malloc g w of (ok, w) \<Rightarrow>
      if \<not> ok then (None, w)
      else
        let c = zeroed\<lparr>uc_domain := dmn, uc_aor := aor\<rparr> in
        (case dup_str g contact w of
           (None, w) \<Rightarrow> (None, free_ucontact c w)
         | (Some b, w) \<Rightarrow>
             let c = c\<lparr>uc_c := b, uc_expires := e, uc_q := q\<rparr> in
             (case dup_str g callid w of
                (None, w) \<Rightarrow> (None, free_ucontact c w)
              | (Some b, w) \<Rightarrow>
                  let c = c\<lparr>uc_callid := b\<rparr> in
                  (case dup_str g ua w of
                     (None, w) \<Rightarrow> (None, free_ucontact c w)
                   | (Some b, w) \<Rightarrow>
                       let c = c\<lparr>uc_user_agent := b\<rparr>;
                           fin = (\<lambda>c. c\<lparr>uc_cseq := cseq, uc_state := CS_NEW, uc_flags := flags\<rparr>) in
                       (case recv of
                          None \<Rightarrow> (Some (fin (c\<lparr>uc_received := null_buf\<rparr>)), w)
                        | Some r \<Rightarrow>
                            (case dup_str g r w of
                               (None, w) \<Rightarrow> (None, free_ucontact c w)
                             | (Some b, w) \<Rightarrow> (Some (fin (c\<lparr>uc_received := b\<rparr>)), w)))))))"

subsection \<open>Updating a contact in memory\<close>

text \<open>
  The code reuses a block when the new string is not longer than the current one
  and otherwise allocates a new block and frees the old one. \<open>store_str\<close> is that
  fragment, which each update function repeats for each string; the first result is
  False when the allocation failed.
\<close>

definition store_str :: "cfg \<Rightarrow> sbuf \<Rightarrow> string \<Rightarrow> world \<Rightarrow> (bool \<times> sbuf \<times> world) option" where
  "store_str g b s w =
     (if length (dat b) < length s then
        (case dup_str g s w of
           (None, w') \<Rightarrow> Some (False, b, w')
         | (Some b', w') \<Rightarrow> Some (True, b', free_buf b w'))
      else map_option (\<lambda>b'. (True, b', w)) (memcpy_buf b s))"

definition store_recv ::
  "cfg \<Rightarrow> sbuf \<Rightarrow> string option \<Rightarrow> world \<Rightarrow> (bool \<times> sbuf \<times> world) option" where
  "store_recv g b recv w =
     (case recv of
        Some r \<Rightarrow> store_str g b r w
      | None \<Rightarrow> Some (True, null_buf, free_buf b w))"

definition set_fields ::
  "int \<Rightarrow> int \<Rightarrow> int \<Rightarrow> u32 \<Rightarrow> u32 \<Rightarrow> ucontact \<Rightarrow> ucontact" where
  "set_fields e q cs fset fres c =
     c\<lparr>uc_expires := e, uc_q := q, uc_cseq := cs,
       uc_flags := (uc_flags c OR fset) AND NOT fres\<rparr>"

definition mem_update_ucontact ::
  "cfg \<Rightarrow> ucontact \<Rightarrow> int \<Rightarrow> int \<Rightarrow> string \<Rightarrow> int \<Rightarrow> u32 \<Rightarrow> u32 \<Rightarrow> string \<Rightarrow> string option \<Rightarrow>
   world \<Rightarrow> (int \<times> ucontact \<times> world) option" where
  "mem_update_ucontact g c e q cid cs fset fres ua recv w =
     Option.bind (store_str g (uc_callid c) cid w) (\<lambda>(ok, b, w).
     if \<not> ok then Some (-1, c, w)
     else let c = c\<lparr>uc_callid := b\<rparr> in
     Option.bind (store_str g (uc_user_agent c) ua w) (\<lambda>(ok, b, w).
     if \<not> ok then Some (-1, c, w)
     else let c = c\<lparr>uc_user_agent := b\<rparr> in
     Option.bind (store_recv g (uc_received c) recv w) (\<lambda>(ok, b, w).
     if \<not> ok then Some (-1, c, w)
     else let c = c\<lparr>uc_received := b\<rparr> in
     Some (0, set_fields e q cs fset fres c, w))))"

definition mem_update_ucontact_bycallid ::
  "cfg \<Rightarrow> ucontact \<Rightarrow> int \<Rightarrow> int \<Rightarrow> string \<Rightarrow> int \<Rightarrow> u32 \<Rightarrow> u32 \<Rightarrow> string \<Rightarrow> string option \<Rightarrow>
   world \<Rightarrow> (int \<times> ucontact \<times> world) option" where
  "mem_update_ucontact_bycallid g c e q contact cs fset fres ua recv w =
     Option.bind (store_str g (uc_c c) contact w) (\<lambda>(ok, b, w).
     if \<not> ok then Some (-1, c, w)
     else let c = c\<lparr>uc_c := b\<rparr> in
     Option.bind (store_str g (uc_user_agent c) ua w) (\<lambda>(ok, b, w).
     if \<not> ok then Some (-1, c, w)
     else let c = c\<lparr>uc_user_agent := b\<rparr> in
     Option.bind (store_recv g (uc_received c) recv w) (\<lambda>(ok, b, w).
     if \<not> ok then Some (-1, c, w)
     else let c = c\<lparr>uc_received := b\<rparr> in
     Some (0, set_fields e q cs fset fres c, w))))"

subsection \<open>State of a contact against the database\<close>

definition st_update_ucontact :: "cfg \<Rightarrow> ucontact \<Rightarrow> ucontact" where
  "st_update_ucontact g c =
     (case uc_state c of
        CS_NEW \<Rightarrow> c
      | CS_SYNC \<Rightarrow> (if cfg_db_mode g = WRITE_BACK then c\<lparr>uc_state := CS_DIRTY\<rparr> else c)
      | CS_DIRTY \<Rightarrow> c)"

text \<open>The result is 1 if the caller must delete the contact from memory now.\<close>

definition st_delete_ucontact :: "cfg \<Rightarrow> ucontact \<Rightarrow> int \<times> ucontact" where
  "st_delete_ucontact g c =
     (case uc_state c of
        CS_NEW \<Rightarrow> (1, c)
      | _ \<Rightarrow>
          (if cfg_db_mode g = WRITE_BACK then
             (0, c\<lparr>uc_flags := uc_flags c AND NOT FL_PERMANENT, uc_expires := 0\<rparr>)
           else (1, c)))"

definition st_expired_ucontact :: "ucontact \<Rightarrow> int" where
  "st_expired_ucontact c = (case uc_state c of CS_NEW \<Rightarrow> 0 | _ \<Rightarrow> 1)"

definition st_flush_ucontact :: "ucontact \<Rightarrow> int \<times> ucontact" where
  "st_flush_ucontact c =
     (case uc_state c of
        CS_NEW \<Rightarrow> (1, c\<lparr>uc_state := CS_SYNC\<rparr>)
      | CS_SYNC \<Rightarrow> (0, c)
      | CS_DIRTY \<Rightarrow> (2, c\<lparr>uc_state := CS_SYNC\<rparr>))"

definition VALID_CONTACT :: "ucontact \<Rightarrow> int \<Rightarrow> bool" where
  "VALID_CONTACT c t \<longleftrightarrow> uc_expires c > t \<or> uc_flags c AND FL_PERMANENT \<noteq> 0"

subsection \<open>Database statements\<close>

definition raw_query :: "cfg \<Rightarrow> stmt \<Rightarrow> world \<Rightarrow> int \<times> world" where
  "raw_query g s w =
     (if db_ok g (length (dblog w)) s then 0 else -1, w\<lparr>dblog := dblog w @ [s]\<rparr>)"

text \<open>
  With \<open>use_domain\<close> the address of record is cut at the first at-sign; without one,
  the code computes with a null pointer (\<open>None\<close>).
\<close>

definition aor_parts :: "cfg \<Rightarrow> string \<Rightarrow> (string \<times> string option) option" where
  "aor_parts g a =
     (if use_domain g then
        (case memchr CHR ''@'' a of
           None \<Rightarrow> None
         | Some i \<Rightarrow> Some (take i a, Some (drop (i + 1) a)))
      else Some (a, None))"

definition print_q :: "int \<Rightarrow> int" where
  "print_q q = (if q = Q_UNSPECIFIED then -1000 else q)"

definition contact_values :: "ucontact \<Rightarrow> db_values" where
  "contact_values c =
     \<lparr>v_contact = Some (dat (uc_c c)), v_callid = Some (dat (uc_callid c)),
      v_expires = uc_expires c, v_q = print_q (uc_q c), v_cseq = uc_cseq c,
      v_flags = uc_flags c, v_user_agent = dat (uc_user_agent c),
      v_received = dat (uc_received c)\<rparr>"

text \<open>The statement each function prints; \<open>None\<close> where \<open>aor_parts\<close> has none.\<close>

definition insert_stmt :: "cfg \<Rightarrow> ucontact \<Rightarrow> stmt option" where
  "insert_stmt g c =
     map_option
       (\<lambda>(user, dmn).
          DbInsert \<lparr>row_username = user, row_domain = dmn, row_registrar = registrar g,
            row_contact = dat (uc_c c), row_callid = dat (uc_callid c),
            row_values = contact_values c\<rparr>)
       (aor_parts g (uc_aor c))"

definition update_stmt :: "cfg \<Rightarrow> ucontact \<Rightarrow> int \<Rightarrow> stmt option" where
  "update_stmt g c flag =
     map_option
       (\<lambda>(user, dmn).
          if flag \<noteq> 1 then
            DbUpdate ((contact_values c)\<lparr>v_contact := None\<rparr>)
              \<lparr>w_username = user, w_domain = dmn, w_key = By_contact (dat (uc_c c)),
               w_registrar = registrar g\<rparr>
          else
            DbUpdate ((contact_values c)\<lparr>v_callid := None\<rparr>)
              \<lparr>w_username = user, w_domain = dmn, w_key = By_callid (dat (uc_callid c)),
               w_registrar = registrar g\<rparr>)
       (aor_parts g (uc_aor c))"

definition delete_stmt :: "cfg \<Rightarrow> ucontact \<Rightarrow> stmt option" where
  "delete_stmt g c =
     map_option
       (\<lambda>(user, dmn).
          DbDelete \<lparr>w_username = user, w_domain = dmn,
            w_key = By_callid (dat (uc_callid c)), w_registrar = registrar g\<rparr>)
       (aor_parts g (uc_aor c))"

definition db_insert_ucontact :: "cfg \<Rightarrow> ucontact \<Rightarrow> world \<Rightarrow> (int \<times> world) option" where
  "db_insert_ucontact g c w =
     (if uc_flags c AND FL_MEM \<noteq> 0 then Some (0, w)
      else map_option (\<lambda>s. raw_query g s w) (insert_stmt g c))"

definition db_update_ucontact :: "cfg \<Rightarrow> ucontact \<Rightarrow> int \<Rightarrow> world \<Rightarrow> (int \<times> world) option" where
  "db_update_ucontact g c flag w =
     (if uc_flags c AND FL_MEM \<noteq> 0 then Some (0, w)
      else map_option (\<lambda>s. raw_query g s w) (update_stmt g c flag))"

definition db_delete_ucontact :: "cfg \<Rightarrow> ucontact \<Rightarrow> world \<Rightarrow> (int \<times> world) option" where
  "db_delete_ucontact g c w =
     (if uc_flags c AND FL_MEM \<noteq> 0 then Some (0, w)
      else map_option (\<lambda>s. raw_query g s w) (delete_stmt g c))"

subsection \<open>Callbacks: ul_callback.c, ul_callback.h\<close>

definition UL_CONTACT_INSERT :: u32 where "UL_CONTACT_INSERT = 1"
definition UL_CONTACT_UPDATE :: u32 where "UL_CONTACT_UPDATE = 2"
definition UL_CONTACT_DELETE :: u32 where "UL_CONTACT_DELETE = 4"
definition UL_CONTACT_EXPIRE :: u32 where "UL_CONTACT_EXPIRE = 8"
definition ULCB_MAX :: u32 where "ULCB_MAX = 15"

text \<open>\<open>E_BUG\<close> and \<open>E_OUT_OF_MEM\<close> are negative codes; a success is 1.\<close>

datatype ulcb_result = ULCB_OK | E_BUG | E_OUT_OF_MEM

definition register_ulcb ::
  "cfg \<Rightarrow> u32 \<Rightarrow> bool \<Rightarrow> world \<Rightarrow> ulcb_result \<times> cfg \<times> world" where
  "register_ulcb g types f_null w =
     (if sint types < 0 \<or> sint types > sint ULCB_MAX then (E_BUG, g, w)
      else if f_null then (E_BUG, g, w)
      else
        (case shm_malloc g w of (ok, w') \<Rightarrow>
           if \<not> ok then (E_OUT_OF_MEM, g, w')
           else
             (ULCB_OK,
              g\<lparr>ulcb_list :=
                  (case ulcb_list g of [] \<Rightarrow> 0 | (i, _) # _ \<Rightarrow> i + 1, types) # ulcb_list g,
                reg_types := reg_types g OR types\<rparr>, w')))"

definition exists_ulcb_type :: "cfg \<Rightarrow> u32 \<Rightarrow> bool" where
  "exists_ulcb_type g types \<longleftrightarrow> reg_types g OR types \<noteq> 0"

definition run_ul_callbacks :: "cfg \<Rightarrow> u32 \<Rightarrow> ucontact \<Rightarrow> world \<Rightarrow> world" where
  "run_ul_callbacks g type c w =
     w\<lparr>evs := evs w @ map (\<lambda>(i, _). EvCallback i type c) (ulcb_list g)\<rparr>"

definition callbacks_if_any :: "cfg \<Rightarrow> u32 \<Rightarrow> ucontact \<Rightarrow> world \<Rightarrow> world" where
  "callbacks_if_any g type c w =
     (if exists_ulcb_type g type then run_ul_callbacks g type c w else w)"

subsection \<open>Updating a contact in memory and database\<close>

definition update_ucontact ::
  "cfg \<Rightarrow> ucontact \<Rightarrow> int \<Rightarrow> int \<Rightarrow> string \<Rightarrow> int \<Rightarrow> u32 \<Rightarrow> u32 \<Rightarrow> string \<Rightarrow> string option \<Rightarrow>
   world \<Rightarrow> (int \<times> ucontact \<times> world) option" where
  "update_ucontact g c e q cid cs fset fres ua recv w =
     (let w = callbacks_if_any g UL_CONTACT_UPDATE c w in
      Option.bind (mem_update_ucontact g c e q cid cs fset fres ua recv w) (\<lambda>(r, c, w).
      if r < 0 then Some (-1, c, w)
      else
        let c = st_update_ucontact g c in
        if cfg_db_mode g = WRITE_THROUGH then
          map_option (\<lambda>(_, w). (0, c, w)) (db_update_ucontact g c 0 w)
        else Some (0, c, w)))"

definition update_ucontact_bycallid ::
  "cfg \<Rightarrow> ucontact \<Rightarrow> int \<Rightarrow> int \<Rightarrow> string \<Rightarrow> int \<Rightarrow> u32 \<Rightarrow> u32 \<Rightarrow> string \<Rightarrow> string option \<Rightarrow>
   bool \<Rightarrow> world \<Rightarrow> (int \<times> ucontact \<times> world) option" where
  "update_ucontact_bycallid g c e q contact cs fset fres ua recv flag w =
     (let w = callbacks_if_any g UL_CONTACT_UPDATE c w in
      Option.bind (mem_update_ucontact_bycallid g c e q contact cs fset fres ua recv w) (\<lambda>(r, c, w).
      if r < 0 then Some (-1, c, w)
      else
        let c = st_update_ucontact g c in
        if cfg_db_mode g = WRITE_THROUGH \<and> flag then
          map_option (\<lambda>(_, w). (0, c, w)) (db_update_ucontact g c 1 w)
        else Some (0, c, w)))"

subsection \<open>Block accounting and capacities\<close>

definition buf_ok :: "sbuf \<Rightarrow> bool" where
  "buf_ok b \<longleftrightarrow> (case cap b of None \<Rightarrow> dat b = [] | Some n \<Rightarrow> length (dat b) \<le> n)"

definition buf_blocks :: "sbuf \<Rightarrow> int" where
  "buf_blocks b = (if cap b = None then 0 else 1)"

text \<open>Every string of a contact fits its block.\<close>

definition contact_ok :: "ucontact \<Rightarrow> bool" where
  "contact_ok c \<longleftrightarrow>
     buf_ok (uc_c c) \<and> buf_ok (uc_received c) \<and> buf_ok (uc_callid c) \<and> buf_ok (uc_user_agent c)"

text \<open>The blocks a contact owns: its structure and its strings.\<close>

definition contact_blocks :: "ucontact \<Rightarrow> int" where
  "contact_blocks c =
     1 + buf_blocks (uc_c c) + buf_blocks (uc_received c) + buf_blocks (uc_callid c) +
     buf_blocks (uc_user_agent c)"

lemmas mem_defs = shm_malloc_def shm_free_def free_buf_def dup_str_def Let_def buf_blocks_def

lemma null_buf_simps [simp]: "buf_ok null_buf" "buf_blocks null_buf = 0" "dat null_buf = []" "cap null_buf = None"
  by (simp_all add: buf_ok_def buf_blocks_def null_buf_def)

lemma free_buf_live [simp]: "shm_live (free_buf b w) = shm_live w - buf_blocks b"
  by (simp add: mem_defs)

lemma shm_free_live [simp]: "shm_live (shm_free w) = shm_live w - 1"
  by (simp add: shm_free_def)

lemma free_ucontact_live: "shm_live (free_ucontact c w) = shm_live w - contact_blocks c"
  by (simp add: free_ucontact_def contact_blocks_def)

lemma dup_strD:
  "dup_str g s w = (Some b, w') \<Longrightarrow>
     b = \<lparr>cap = Some (length s), dat = s\<rparr> \<and> shm_live w' = shm_live w + 1"
  "dup_str g s w = (None, w') \<Longrightarrow> shm_live w' = shm_live w"
  by (auto simp: dup_str_def shm_malloc_def Let_def split: if_splits)

lemma store_str_total: "buf_ok b \<Longrightarrow> store_str g b s w \<noteq> None"
  by (auto simp: store_str_def memcpy_buf_def buf_ok_def split: prod.splits option.splits)

lemma store_strD:
  assumes "store_str g b s w = Some (ok, b', w')" "buf_ok b"
  shows "buf_ok b'" "ok \<Longrightarrow> dat b' = s" "\<not> ok \<Longrightarrow> b' = b"
    "shm_live w' = shm_live w + buf_blocks b' - buf_blocks b"
  using assms
  by (auto simp: store_str_def memcpy_buf_def buf_ok_def buf_blocks_def dest: dup_strD
      split: if_splits prod.splits option.splits)

lemma store_recv_total: "buf_ok b \<Longrightarrow> store_recv g b r w \<noteq> None"
  by (cases r) (simp_all del: not_None_eq add: store_recv_def store_str_total)

lemma store_recvD:
  assumes "store_recv g b r w = Some (ok, b', w')" "buf_ok b"
  shows "buf_ok b'" "ok \<Longrightarrow> dat b' = (case r of None \<Rightarrow> [] | Some s \<Rightarrow> s)" "\<not> ok \<Longrightarrow> b' = b"
    "shm_live w' = shm_live w + buf_blocks b' - buf_blocks b"
  using assms store_strD [of g b _ w ok b' w']
  by (auto simp: store_recv_def split: option.splits)

lemma mem_update_ucontact_safe:
  assumes ok: "contact_ok c"
  shows "\<exists>r c' w'. mem_update_ucontact g c e q cid cs fset fres ua recv w = Some (r, c', w') \<and>
     contact_ok c' \<and> shm_live w' - shm_live w = contact_blocks c' - contact_blocks c"
proof -
  obtain ok1 b1 w1 where s1: "store_str g (uc_callid c) cid w = Some (ok1, b1, w1)"
    using store_str_total [of "uc_callid c" g cid w] ok by (auto simp: contact_ok_def)
  obtain ok2 b2 w2 where s2: "store_str g (uc_user_agent c) ua w1 = Some (ok2, b2, w2)"
    using store_str_total [of "uc_user_agent c" g ua w1] ok by (auto simp: contact_ok_def)
  obtain ok3 b3 w3 where s3: "store_recv g (uc_received c) recv w2 = Some (ok3, b3, w3)"
    using store_recv_total [of "uc_received c" g recv w2] ok by (auto simp: contact_ok_def)
  from ok have bo: "buf_ok (uc_callid c)" "buf_ok (uc_user_agent c)" "buf_ok (uc_received c)"
    by (simp_all add: contact_ok_def)
  note facts = store_strD [OF s1 bo(1)] store_strD [OF s2 bo(2)] store_recvD [OF s3 bo(3)]
  show ?thesis
    using s1 s2 s3 ok facts
    by (cases ok1; cases ok2; cases ok3)
      (simp_all add: mem_update_ucontact_def set_fields_def contact_ok_def contact_blocks_def)
qed

lemma mem_update_ucontact_sets:
  assumes "contact_ok c" "mem_update_ucontact g c e q cid cs fset fres ua recv w = Some (0, c', w')"
  shows "dat (uc_callid c') = cid \<and> dat (uc_user_agent c') = ua \<and>
     dat (uc_received c') = (case recv of None \<Rightarrow> [] | Some r \<Rightarrow> r) \<and>
     uc_expires c' = e \<and> uc_q c' = q \<and> uc_cseq c' = cs \<and>
     uc_flags c' = (uc_flags c OR fset) AND NOT fres \<and>
     uc_c c' = uc_c c \<and> uc_state c' = uc_state c"
  using assms
  by (auto simp: mem_update_ucontact_def set_fields_def contact_ok_def bind_eq_Some_conv Let_def
      split: if_splits dest!: store_strD(2) store_recvD(2))

lemma new_ucontactD:
  "new_ucontact g dmn aor contact e q callid cseq flags ua recv w = (Some c, w') \<Longrightarrow>
     contact_ok c \<and> shm_live w' = shm_live w + contact_blocks c \<and>
     dat (uc_c c) = contact \<and> dat (uc_callid c) = callid \<and> dat (uc_user_agent c) = ua \<and>
     dat (uc_received c) = (case recv of None \<Rightarrow> [] | Some r \<Rightarrow> r) \<and>
     uc_aor c = aor \<and> uc_q c = q \<and> uc_expires c = e \<and> uc_state c = CS_NEW \<and> uc_flags c = flags"
  "new_ucontact g dmn aor contact e q callid cseq flags ua recv w = (None, w') \<Longrightarrow>
     shm_live w' = shm_live w"
  by (cases "shm_ok g (shm_n w)"; cases "shm_ok g (Suc (shm_n w))"; cases "shm_ok g (Suc (Suc (shm_n w)))";
      cases "shm_ok g (Suc (Suc (Suc (shm_n w))))"; cases "shm_ok g (Suc (Suc (Suc (Suc (shm_n w)))))";
      cases recv;
      clarsimp simp: new_ucontact_def shm_malloc_def dup_str_def Let_def contact_ok_def
        contact_blocks_def buf_ok_def buf_blocks_def zeroed_def free_ucontact_live null_buf_def)+

subsection \<open>The statements a database access sends\<close>

text \<open>
  A contact whose address of record can be cut as the configuration asks. For such a
  contact the database functions are total and append their one statement, or none
  when the contact is marked memory-only.
\<close>

definition aor_ok :: "cfg \<Rightarrow> string \<Rightarrow> bool" where
  "aor_ok g a \<longleftrightarrow> use_domain g \<longrightarrow> CHR ''@'' \<in> set a"

definition in_memory_only :: "ucontact \<Rightarrow> bool" where
  "in_memory_only c \<longleftrightarrow> uc_flags c AND FL_MEM \<noteq> 0"

definition sent :: "ucontact \<Rightarrow> stmt option \<Rightarrow> stmt list" where
  "sent c so = (if in_memory_only c then [] else case so of None \<Rightarrow> [] | Some s \<Rightarrow> [s])"

lemma aor_parts_total: "aor_ok g a \<Longrightarrow> aor_parts g a \<noteq> None"
  by (auto simp: aor_parts_def aor_ok_def split: option.split)

lemma stmts_total:
  assumes "aor_ok g (uc_aor c)"
  obtains si su sd where "insert_stmt g c = Some si" "update_stmt g c flag = Some su"
    "delete_stmt g c = Some sd"
  using aor_parts_total [OF assms]
  by (fastforce simp: insert_stmt_def update_stmt_def delete_stmt_def)

lemma raw_query_world [simp]:
  "shm_live (snd (raw_query g s w)) = shm_live w"
  "dblog (snd (raw_query g s w)) = dblog w @ [s]"
  "evs (snd (raw_query g s w)) = evs w"
  "shm_n (snd (raw_query g s w)) = shm_n w"
  by (simp_all add: raw_query_def)

lemma db_access_total:
  assumes "aor_ok g (uc_aor c)"
  shows "\<exists>r w'. db_insert_ucontact g c w = Some (r, w') \<and> dblog w' = dblog w @ sent c (insert_stmt g c) \<and>
           shm_live w' = shm_live w \<and> evs w' = evs w"
    and "\<exists>r w'. db_update_ucontact g c flag w = Some (r, w') \<and>
           dblog w' = dblog w @ sent c (update_stmt g c flag) \<and> shm_live w' = shm_live w \<and> evs w' = evs w"
    and "\<exists>r w'. db_delete_ucontact g c w = Some (r, w') \<and> dblog w' = dblog w @ sent c (delete_stmt g c) \<and>
           shm_live w' = shm_live w \<and> evs w' = evs w"
proof -
  obtain si su sd where "insert_stmt g c = Some si" "update_stmt g c flag = Some su"
    "delete_stmt g c = Some sd" using stmts_total [OF assms] by blast
  then show "\<exists>r w'. db_insert_ucontact g c w = Some (r, w') \<and>
      dblog w' = dblog w @ sent c (insert_stmt g c) \<and> shm_live w' = shm_live w \<and> evs w' = evs w"
    and "\<exists>r w'. db_update_ucontact g c flag w = Some (r, w') \<and>
      dblog w' = dblog w @ sent c (update_stmt g c flag) \<and> shm_live w' = shm_live w \<and> evs w' = evs w"
    and "\<exists>r w'. db_delete_ucontact g c w = Some (r, w') \<and>
      dblog w' = dblog w @ sent c (delete_stmt g c) \<and> shm_live w' = shm_live w \<and> evs w' = evs w"
    by (simp_all add: db_insert_ucontact_def db_update_ucontact_def db_delete_ucontact_def
        in_memory_only_def sent_def raw_query_def)
qed

lemma callbacks_world [simp]:
  "shm_live (callbacks_if_any g t c w) = shm_live w"
  "dblog (callbacks_if_any g t c w) = dblog w"
  "shm_n (callbacks_if_any g t c w) = shm_n w"
  by (simp_all add: callbacks_if_any_def run_ul_callbacks_def)

lemma free_dblog [simp]:
  "dblog (free_ucontact c w) = dblog w" "evs (free_ucontact c w) = evs w"
  by (simp_all add: free_ucontact_def free_buf_def shm_free_def)

lemma shm_malloc_dblog: "shm_malloc g w = (ok, w') \<Longrightarrow> dblog w' = dblog w \<and> evs w' = evs w"
  by (auto simp: shm_malloc_def Let_def)

lemma dup_str_dblog: "dup_str g s w = (b, w') \<Longrightarrow> dblog w' = dblog w \<and> evs w' = evs w"
  by (auto simp: dup_str_def split: prod.splits dest: shm_malloc_dblog)

lemma free_buf_dblog [simp]: "dblog (free_buf b w) = dblog w" "evs (free_buf b w) = evs w"
  by (simp_all add: free_buf_def shm_free_def)

lemma store_str_dblog: "store_str g b s w = Some (ok, b', w') \<Longrightarrow> dblog w' = dblog w \<and> evs w' = evs w"
  by (auto simp: store_str_def split: if_splits prod.splits option.splits dest: dup_str_dblog)

lemma store_recv_dblog: "store_recv g b r w = Some (ok, b', w') \<Longrightarrow> dblog w' = dblog w \<and> evs w' = evs w"
  by (auto simp: store_recv_def split: option.splits dest: store_str_dblog)

text \<open>The four ways an update can end.\<close>

lemma mem_update_cases:
  assumes upd: "mem_update_ucontact g c e q cid cs fset fres ua recv w = Some (r, c', w')"
  obtains (callid_fails) b where "r = -1" "store_str g (uc_callid c) cid w = Some (False, b, w')" "c' = c"
  | (user_agent_fails) b1 w1 b where "r = -1" "store_str g (uc_callid c) cid w = Some (True, b1, w1)"
      "store_str g (uc_user_agent c) ua w1 = Some (False, b, w')" "c' = c\<lparr>uc_callid := b1\<rparr>"
  | (received_fails) b1 w1 b2 w2 b where "r = -1" "store_str g (uc_callid c) cid w = Some (True, b1, w1)"
      "store_str g (uc_user_agent c) ua w1 = Some (True, b2, w2)"
      "store_recv g (uc_received c) recv w2 = Some (False, b, w')"
      "c' = c\<lparr>uc_callid := b1, uc_user_agent := b2\<rparr>"
  | (updated) b1 w1 b2 w2 b3 where "r = 0" "store_str g (uc_callid c) cid w = Some (True, b1, w1)"
      "store_str g (uc_user_agent c) ua w1 = Some (True, b2, w2)"
      "store_recv g (uc_received c) recv w2 = Some (True, b3, w')"
      "c' = set_fields e q cs fset fres
        (c\<lparr>uc_callid := b1, uc_user_agent := b2, uc_received := b3\<rparr>)"
proof -
  note d = upd [unfolded mem_update_ucontact_def]
  obtain ok1 b1 w1 where s1: "store_str g (uc_callid c) cid w = Some (ok1, b1, w1)"
    using d by (cases "store_str g (uc_callid c) cid w") auto
  show thesis
  proof (cases ok1)
    case False
    then show thesis using d s1 by (intro callid_fails) auto
  next
    case True
    with d s1 obtain ok2 b2 w2 where s2: "store_str g (uc_user_agent c) ua w1 = Some (ok2, b2, w2)"
      by (cases "store_str g (uc_user_agent c) ua w1") auto
    show thesis
    proof (cases ok2)
      case False
      then show thesis using d s1 s2 True by (intro user_agent_fails) auto
    next
      case ok2: True
      with d s1 s2 True obtain ok3 b3 w3 where
        s3: "store_recv g (uc_received c) recv w2 = Some (ok3, b3, w3)"
        by (cases "store_recv g (uc_received c) recv w2") auto
      show thesis
      proof (cases ok3)
        case False
        then show thesis using d s1 s2 s3 True ok2 by (intro received_fails) auto
      next
        case ok3: True
        then show thesis using d s1 s2 s3 True ok2 by (intro updated) auto
      qed
    qed
  qed
qed

lemma mem_update_dblog:
  assumes "mem_update_ucontact g c e q cid cs fset fres ua recv w = Some (r, c', w')"
  shows "dblog w' = dblog w \<and> evs w' = evs w"
  using assms by (cases rule: mem_update_cases) (auto dest!: store_str_dblog store_recv_dblog)

lemma new_ucontact_dblog:
  "new_ucontact g dmn aor contact e q callid cseq flags ua recv w = (co, w') \<Longrightarrow>
   dblog w' = dblog w \<and> evs w' = evs w"
  by (cases "shm_ok g (shm_n w)"; cases "shm_ok g (Suc (shm_n w))"; cases "shm_ok g (Suc (Suc (shm_n w)))";
      cases "shm_ok g (Suc (Suc (Suc (shm_n w))))"; cases "shm_ok g (Suc (Suc (Suc (Suc (shm_n w)))))";
      cases recv;
      clarsimp simp: new_ucontact_def shm_malloc_def dup_str_def Let_def contact_ok_def
        contact_blocks_def buf_ok_def buf_blocks_def zeroed_def free_ucontact_live null_buf_def)+

lemma mem_update_frame:
  assumes "mem_update_ucontact g c e q cid cs fset fres ua recv w = Some (r, c', w')"
  shows "uc_aor c' = uc_aor c \<and> uc_c c' = uc_c c \<and> uc_state c' = uc_state c \<and>
   (r = 0 \<and> uc_flags c' = (uc_flags c OR fset) AND NOT fres \<or>
    r = -1 \<and> uc_flags c' = uc_flags c \<and> uc_q c' = uc_q c \<and> uc_expires c' = uc_expires c)"
  using assms by (cases rule: mem_update_cases) (auto simp: set_fields_def)

subsection \<open>Values for the examples\<close>

definition demo_cfg :: "db_mode \<Rightarrow> cfg" where
  "demo_cfg m = \<lparr>cfg_db_mode = m, use_domain = False, desc_time_order = False, registrar = ''r'',
     act_time = 100, ulcb_list = [], reg_types = 0, shm_ok = \<lambda>_. True, db_ok = \<lambda>_ _. True\<rparr>"

definition demo_world :: world where
  "demo_world = \<lparr>shm_n = 0, shm_live = 0, dblog = [], evs = []\<rparr>"

definition demo_contact :: "string \<Rightarrow> int \<Rightarrow> string \<Rightarrow> int \<Rightarrow> ucontact" where
  "demo_contact u q cid e = zeroed\<lparr>uc_aor := ''bob'', uc_c := \<lparr>cap = Some (length u), dat = u\<rparr>,
     uc_q := q, uc_callid := \<lparr>cap = Some (length cid), dat = cid\<rparr>, uc_expires := e\<rparr>"

lemma demo_contact_ok: "contact_ok (demo_contact u q cid e)"
  by (simp add: demo_contact_def contact_ok_def buf_ok_def zeroed_def null_buf_def)

lemma demo_aor_ok: "aor_ok (demo_cfg m) a"
  by (simp add: demo_cfg_def aor_ok_def)

subsection \<open>Properties of the contact operations\<close>

text \<open>
  Creating a contact either succeeds, with the strings given and exactly the blocks
  the contact owns allocated, or fails with every block it had allocated freed again.
\<close>

theorem new_ucontact_balanced:
  "case new_ucontact g dmn aor contact e q callid cseq flags ua recv w of
     (Some c, w') \<Rightarrow>
       contact_ok c \<and> shm_live w' = shm_live w + contact_blocks c \<and>
       dat (uc_c c) = contact \<and> dat (uc_callid c) = callid \<and> dat (uc_user_agent c) = ua \<and>
       dat (uc_received c) = (case recv of None \<Rightarrow> [] | Some r \<Rightarrow> r) \<and>
       uc_aor c = aor \<and> uc_q c = q \<and> uc_expires c = e \<and> uc_state c = CS_NEW \<and> uc_flags c = flags
   | (None, w') \<Rightarrow> shm_live w' = shm_live w"
proof (cases "new_ucontact g dmn aor contact e q callid cseq flags ua recv w")
  case (Pair co w')
  then show ?thesis by (cases co) (auto dest: new_ucontactD)
qed

text \<open>
  Updating a contact from a REGISTER never writes outside one of its blocks and
  never through a null pointer, keeps every string inside its block, and balances
  allocations and frees against the blocks the contact owns, on the failing paths too. On success the contact holds the
  values given, with the flag bits \<open>fset\<close> set and then \<open>fres\<close> cleared.
\<close>

theorem mem_update_ucontact_correct:
  assumes "contact_ok c"
  shows "\<exists>r c' w'. mem_update_ucontact g c e q cid cs fset fres ua recv w = Some (r, c', w') \<and>
     contact_ok c' \<and> shm_live w' - shm_live w = contact_blocks c' - contact_blocks c \<and>
     (r = -1 \<or> r = 0 \<and>
        dat (uc_callid c') = cid \<and> dat (uc_user_agent c') = ua \<and>
        dat (uc_received c') = (case recv of None \<Rightarrow> [] | Some s \<Rightarrow> s) \<and>
        uc_expires c' = e \<and> uc_q c' = q \<and> uc_cseq c' = cs \<and>
        uc_flags c' = (uc_flags c OR fset) AND NOT fres \<and> uc_c c' = uc_c c)"
proof -
  obtain r c' w' where m: "mem_update_ucontact g c e q cid cs fset fres ua recv w = Some (r, c', w')"
    and ok: "contact_ok c'" "shm_live w' - shm_live w = contact_blocks c' - contact_blocks c"
    using mem_update_ucontact_safe [OF assms] by blast
  from mem_update_frame [OF m] have "r = 0 \<or> r = -1" by blast
  then show ?thesis
  proof
    assume "r = 0"
    with mem_update_ucontact_sets [OF assms] m ok show ?thesis by (intro exI conjI; fastforce)
  qed (use m ok in simp)
qed

theorem mem_update_ucontact_correct_witness:
  "\<exists>r c' w'. mem_update_ucontact (demo_cfg NO_DB) (demo_contact ''sip:a'' 500 ''c1'' 200)
      300 700 ''call2'' 2 0 0 ''ua'' None demo_world = Some (r, c', w') \<and> contact_ok c'"
  using mem_update_ucontact_correct [OF demo_contact_ok, of "demo_cfg NO_DB" "''sip:a''" 500 "''c1''" 200
      300 700 "''call2''" 2 0 0 "''ua''" None demo_world]
  by blast

end
