(* ===== verification/Dll.thy ===== *)
theory Dll
  imports Prelude
begin

section \<open>The doubly linked lists of usrloc\<close>

text \<open>
  usrloc keeps three doubly linked lists: the contacts of a record
  (\<open>ucontact_t.next/prev\<close>), the records of a hash slot (\<open>urecord_t.s_ll\<close>)
  and the records of a domain (\<open>urecord_t.d_ll\<close>). The two pointer fields of one
  list are a record of two functions from addresses (\<open>links\<close>); a list head with
  \<open>n\<close>, \<open>first\<close> and \<open>last\<close> is \<open>llist\<close>. Operations return \<open>None\<close> where the C
  code would dereference the null pointer. \<open>dlist\<close> relates the pointers to the
  sequence of nodes they represent; the operations are proved against it.
\<close>

record links =
  nx :: "addr \<Rightarrow> ptr"
  pv :: "addr \<Rightarrow> ptr"

record llist =
  ll_n :: nat
  ll_first :: ptr
  ll_last :: ptr

definition set_nx :: "addr \<Rightarrow> ptr \<Rightarrow> links \<Rightarrow> links" where
  "set_nx a p h = h\<lparr>nx := (nx h)(a := p)\<rparr>"

definition set_pv :: "addr \<Rightarrow> ptr \<Rightarrow> links \<Rightarrow> links" where
  "set_pv a p h = h\<lparr>pv := (pv h)(a := p)\<rparr>"

subsection \<open>Slot lists: hslot.c\<close>

definition init_slot :: llist where
  "init_slot = \<lparr>ll_n = 0, ll_first = None, ll_last = None\<rparr>"

definition slot_add :: "links \<Rightarrow> llist \<Rightarrow> addr \<Rightarrow> (links \<times> llist) option" where
  "slot_add h s r =
     (if ll_n s = 0 then
        Some (h, s\<lparr>ll_first := Some r, ll_last := Some r, ll_n := ll_n s + 1\<rparr>)
      else
        let h1 = set_pv r (ll_last s) h in
        (case ll_last s of
           None \<Rightarrow> None
         | Some l \<Rightarrow>
             Some (set_nx l (Some r) h1,
                   s\<lparr>ll_last := Some r, ll_n := ll_n s + 1\<rparr>)))"

definition slot_rem :: "links \<Rightarrow> llist \<Rightarrow> addr \<Rightarrow> (links \<times> llist) option" where
  "slot_rem h s r =
     (let (h1, s1) =
        (case pv h r of
           Some p \<Rightarrow> (set_nx p (nx h r) h, s)
         | None \<Rightarrow> (h, s\<lparr>ll_first := nx h r\<rparr>));
        (h2, s2) =
        (case nx h1 r of
           Some n \<Rightarrow> (set_pv n (pv h1 r) h1, s1)
         | None \<Rightarrow> (h1, s1\<lparr>ll_last := pv h1 r\<rparr>))
      in Some (set_pv r None (set_nx r None h2), s2\<lparr>ll_n := ll_n s2 - 1\<rparr>))"

subsection \<open>Domain lists: udomain.c\<close>

definition udomain_add :: "links \<Rightarrow> llist \<Rightarrow> addr \<Rightarrow> (links \<times> llist) option" where
  "udomain_add h d r =
     (if ll_n d = 0 then
        Some (h, d\<lparr>ll_first := Some r, ll_last := Some r, ll_n := ll_n d + 1\<rparr>)
      else
        let h1 = set_pv r (ll_last d) h in
        (case ll_last d of
           None \<Rightarrow> None
         | Some l \<Rightarrow>
             Some (set_nx l (Some r) h1,
                   d\<lparr>ll_last := Some r, ll_n := ll_n d + 1\<rparr>)))"

definition udomain_remove :: "links \<Rightarrow> llist \<Rightarrow> addr \<Rightarrow> (links \<times> llist) option" where
  "udomain_remove h d r =
     (if ll_n d = 0 then Some (h, d)
      else
        let (h1, d1) =
          (case pv h r of
             Some p \<Rightarrow> (set_nx p (nx h r) h, d)
           | None \<Rightarrow> (h, d\<lparr>ll_first := nx h r\<rparr>));
          (h2, d2) =
          (case nx h1 r of
             Some n \<Rightarrow> (set_pv n (pv h1 r) h1, d1)
           | None \<Rightarrow> (h1, d1\<lparr>ll_last := pv h1 r\<rparr>))
        in Some (set_pv r None (set_nx r None h2), d2\<lparr>ll_n := ll_n d2 - 1\<rparr>))"

subsection \<open>Contact lists: the linking part of mem_insert_ucontact and mem_remove_ucontact\<close>

text \<open>
  \<open>insert_before h first at prev c\<close> is the last part of \<open>mem_insert_ucontact\<close>,
  once the search loop has stopped at \<open>at\<close> (the C variable \<open>ptr\<close>) with
  \<open>prev\<close> the node visited before it. Returns the links and the new
  \<open>_r->contacts\<close>.
\<close>

definition insert_before ::
  "links \<Rightarrow> ptr \<Rightarrow> ptr \<Rightarrow> ptr \<Rightarrow> addr \<Rightarrow> links \<times> ptr" where
  "insert_before h first at prev c =
     (case at of
        Some p \<Rightarrow>
          (case pv h p of
             None \<Rightarrow> (set_nx c (Some p) (set_pv p (Some c) h), Some c)
           | Some pp \<Rightarrow>
               (set_pv p (Some c)
                  (set_nx pp (Some c)
                    (set_pv c (Some pp) (set_nx c (Some p) h))), first))
      | None \<Rightarrow>
          (case prev of
             Some q \<Rightarrow> (set_pv c (Some q) (set_nx q (Some c) h), first)
           | None \<Rightarrow> (h, Some c)))"

definition mem_remove_links :: "links \<Rightarrow> ptr \<Rightarrow> addr \<Rightarrow> links \<times> ptr" where
  "mem_remove_links h first c =
     (case pv h c of
        Some p \<Rightarrow>
          (let h1 = set_nx p (nx h c) h in
           case nx h1 c of
             Some n \<Rightarrow> (set_pv n (pv h1 c) h1, first)
           | None \<Rightarrow> (h1, first))
      | None \<Rightarrow>
          (case nx h c of
             Some n \<Rightarrow> (set_pv n None h, nx h c)
           | None \<Rightarrow> (h, nx h c)))"

subsection \<open>Abstraction: the node sequence of a linked list\<close>

text \<open>
  \<open>dseg h p f xs q n\<close>: starting at pointer \<open>f\<close>, whose predecessor is \<open>p\<close>, the
  \<open>next\<close> fields lead through exactly the nodes \<open>xs\<close> to the pointer \<open>n\<close>, the
  \<open>prev\<close> fields lead back, and \<open>q\<close> is the node before \<open>n\<close>.
\<close>

fun dseg :: "links \<Rightarrow> ptr \<Rightarrow> ptr \<Rightarrow> addr list \<Rightarrow> ptr \<Rightarrow> ptr \<Rightarrow> bool" where
  "dseg h p f [] q n \<longleftrightarrow> f = n \<and> p = q"
| "dseg h p f (a # as) q n \<longleftrightarrow>
     f = Some a \<and> pv h a = p \<and> dseg h (Some a) (nx h a) as q n"

definition last_ptr :: "addr list \<Rightarrow> ptr" where
  "last_ptr xs = (if xs = [] then None else Some (last xs))"

definition dlist :: "links \<Rightarrow> ptr \<Rightarrow> addr list \<Rightarrow> bool" where
  "dlist h f xs \<longleftrightarrow> dseg h None f xs (last_ptr xs) None \<and> distinct xs"

definition ll_inv :: "links \<Rightarrow> llist \<Rightarrow> addr list \<Rightarrow> bool" where
  "ll_inv h s xs \<longleftrightarrow>
     dlist h (ll_first s) xs \<and> ll_last s = last_ptr xs \<and> ll_n s = length xs"

lemma dseg_append:
  "dseg h p f (xs @ ys) q n \<longleftrightarrow> (\<exists>r m. dseg h p f xs r m \<and> dseg h r m ys q n)"
  by (induction xs arbitrary: p f) auto

lemma dseg_end: "dseg h p f xs q n \<Longrightarrow> xs \<noteq> [] \<Longrightarrow> q = Some (last xs)"
  by (induction xs arbitrary: p f) (auto split: if_splits)

lemma dseg_start: "dseg h p f xs q n \<Longrightarrow> xs \<noteq> [] \<Longrightarrow> f = Some (hd xs)"
  by (cases xs) auto

lemma dseg_frame:
  assumes "\<And>a. a \<in> set xs \<Longrightarrow> nx h a = nx h' a \<and> pv h a = pv h' a"
  shows "dseg h p f xs q n = dseg h' p f xs q n"
  using assms by (induction xs arbitrary: p f) auto

lemma dseg_set_nx_frame [simp]: "a \<notin> set xs \<Longrightarrow> dseg (set_nx a b h) p f xs q n = dseg h p f xs q n"
  by (rule dseg_frame) (auto simp: set_nx_def)

lemma dseg_set_pv_frame [simp]: "a \<notin> set xs \<Longrightarrow> dseg (set_pv a b h) p f xs q n = dseg h p f xs q n"
  by (rule dseg_frame) (auto simp: set_pv_def)

text \<open>Redirecting the last \<open>next\<close> field, and the first \<open>prev\<close> field, of a segment.\<close>

lemma dseg_redirect_next:
  "dseg h p f (ys @ [b]) q n \<Longrightarrow> b \<notin> set ys \<Longrightarrow>
   dseg (set_nx b m h) p f (ys @ [b]) (Some b) m"
  by (induction ys arbitrary: p f) (auto simp: set_nx_def)

lemma dseg_redirect_prev:
  "dseg h p (Some c) (c # zs) q n \<Longrightarrow> c \<notin> set zs \<Longrightarrow>
   dseg (set_pv c r h) r (Some c) (c # zs) q n"
  by (auto simp: set_pv_def intro: dseg_frame [THEN iffD1])

lemma nx_set [simp]: "nx (set_nx a p h) = (nx h)(a := p)" "nx (set_pv a p h) = nx h"
  by (simp_all add: set_nx_def set_pv_def)

lemma pv_set [simp]: "pv (set_pv a p h) = (pv h)(a := p)" "pv (set_nx a p h) = pv h"
  by (simp_all add: set_nx_def set_pv_def)

lemma last_ptr_simps [simp]:
  "last_ptr [] = None" "last_ptr [a] = Some a" "last_ptr (xs @ [a]) = Some a" "xs \<noteq> [] \<Longrightarrow> last_ptr (a # xs) = last_ptr xs"
  by (auto simp: last_ptr_def)

lemma dlist_append_split:
  assumes "dlist h f (ys @ a # zs)"
  shows "dseg h None f ys (pv h a) (Some a)" "pv h a = last_ptr ys"
    and "dseg h (Some a) (nx h a) zs (last_ptr (a # zs)) None"
    and "nx h a = (if zs = [] then None else Some (hd zs))"
    and "a \<notin> set ys" "a \<notin> set zs" "distinct ys" "distinct zs" "set ys \<inter> set zs = {}"
proof -
  from assms obtain r where ys: "dseg h None f ys r (Some a)" and r: "pv h a = r"
    and zs: "dseg h (Some a) (nx h a) zs (last_ptr (a # zs)) None"
    and d: "distinct (ys @ a # zs)"
    by (auto simp: dlist_def dseg_append last_ptr_def)
  from ys r show "dseg h None f ys (pv h a) (Some a)" by simp
  from ys r show "pv h a = last_ptr ys"
    by (cases "ys = []") (auto simp: last_ptr_def dest: dseg_end)
  show "dseg h (Some a) (nx h a) zs (last_ptr (a # zs)) None" by (fact zs)
  from zs show "nx h a = (if zs = [] then None else Some (hd zs))"
    by (cases zs) auto
  from d show "a \<notin> set ys" "a \<notin> set zs" "distinct ys" "distinct zs" "set ys \<inter> set zs = {}"
    by auto
qed

subsection \<open>Adding at the end\<close>

lemma dlist_snoc:
  assumes inv: "dlist h f xs" and xs: "xs \<noteq> []" and r: "r \<notin> set xs" "nx h r = None"
  shows "dlist (set_nx (last xs) (Some r) (set_pv r (Some (last xs)) h)) f (xs @ [r])"
proof -
  let ?l = "last xs"
  let ?h = "set_nx ?l (Some r) (set_pv r (Some ?l) h)"
  from xs have eq: "xs = butlast xs @ [?l]" by simp
  from inv have seg: "dseg h None f xs (Some ?l) None" and d: "distinct xs"
    using xs by (auto simp: dlist_def last_ptr_def)
  from d eq have nl: "?l \<notin> set (butlast xs)"
    by (metis distinct_butlast not_distinct_conv_prefix)
  from r xs have rl: "r \<noteq> ?l" by auto
  have "dseg (set_pv r (Some ?l) h) None f (butlast xs @ [?l]) (Some ?l) None"
    using seg r eq by simp
  then have "dseg ?h None f (butlast xs @ [?l]) (Some ?l) (Some r)"
    using nl by (rule dseg_redirect_next)
  moreover have "dseg ?h (Some ?l) (Some r) [r] (Some r) None"
    using rl r by simp
  ultimately have "dseg ?h None f (xs @ [r]) (Some r) None"
    unfolding dseg_append [of _ _ _ xs "[r]"] using eq by auto
  with d r show ?thesis by (simp add: dlist_def)
qed

lemma ll_inv_addI:
  assumes "ll_inv h s xs" "r \<notin> set xs" "nx h r = None" "pv h r = None"
  shows "\<exists>h' s'. slot_add h s r = Some (h', s') \<and> ll_inv h' s' (xs @ [r])"
proof (cases "xs = []")
  case True
  with assms show ?thesis by (auto simp: slot_add_def ll_inv_def dlist_def)
next
  case False
  from assms False have l: "ll_last s = Some (last xs)" and n: "ll_n s = length xs" "ll_n s \<noteq> 0"
    and inv: "dlist h (ll_first s) xs"
    by (auto simp: ll_inv_def last_ptr_def)
  from dlist_snoc [OF inv False assms(2,3)] show ?thesis
    using l n by (auto simp: slot_add_def ll_inv_def Let_def)
qed

text \<open>The two add operations are the same code on different fields.\<close>

lemma udomain_add_eq_slot_add: "udomain_add h s r = slot_add h s r"
  by (simp add: udomain_add_def slot_add_def)

subsection \<open>Unlinking\<close>

definition unlink :: "links \<Rightarrow> addr \<Rightarrow> links" where
  "unlink h a =
     (let h1 = (case pv h a of Some p \<Rightarrow> set_nx p (nx h a) h | None \<Rightarrow> h)
      in (case nx h1 a of Some n \<Rightarrow> set_pv n (pv h1 a) h1 | None \<Rightarrow> h1))"

lemma dlist_unlink:
  assumes inv: "dlist h f (ys @ a # zs)"
  shows "dlist (unlink h a) (case pv h a of None \<Rightarrow> nx h a | Some _ \<Rightarrow> f) (ys @ zs)"
proof -
  note sp = dlist_append_split [OF inv]
  from inv have dist: "distinct (ys @ zs)" by (auto simp: dlist_def)
  define p where "p = pv h a"
  define n where "n = nx h a"
  have p: "p = last_ptr ys" using sp(2) by (simp add: p_def)
  have n: "n = (if zs = [] then None else Some (hd zs))" using sp(4) by (simp add: n_def)
  let ?h1 = "case p of Some p \<Rightarrow> set_nx p n h | None \<Rightarrow> h"
  let ?h2 = "case n of Some c \<Rightarrow> set_pv c p ?h1 | None \<Rightarrow> ?h1"
  let ?f = "case p of None \<Rightarrow> n | Some _ \<Rightarrow> f"
  have p_ys: "p = Some b \<Longrightarrow> b \<in> set ys" for b using p by (auto simp: last_ptr_def split: if_splits)
  have n_zs: "n = Some c \<Longrightarrow> c \<in> set zs" for c using n by (auto split: if_splits)
  have n_ys: "n = Some c \<Longrightarrow> c \<notin> set ys" for c using n_zs sp(9) by auto
  have p_zs: "p = Some b \<Longrightarrow> b \<notin> set zs" for b using p_ys sp(9) by auto
  have h2: "unlink h a = ?h2"
    using p_ys sp(5) by (auto simp: unlink_def p_def n_def Let_def split: option.splits)
  have left1: "dseg ?h1 None ?f ys p n"
  proof (cases "ys = []")
    case False
    then have eq: "ys = butlast ys @ [last ys]" and pb: "p = Some (last ys)"
      using p by (auto simp: last_ptr_def)
    have "last ys \<notin> set (butlast ys)" using sp(7) eq
      by (metis distinct_butlast not_distinct_conv_prefix)
    moreover have "dseg h None f (butlast ys @ [last ys]) p (Some a)"
      using sp(1) eq by (simp add: p_def)
    ultimately have "dseg (set_nx (last ys) n h) None f (butlast ys @ [last ys]) (Some (last ys)) n"
      by (rule dseg_redirect_next [rotated])
    then show ?thesis using eq pb by simp
  qed (use p in simp)
  have left: "dseg ?h2 None ?f ys p n"
    using left1 n_ys by (auto split: option.splits)
  have right0: "dseg ?h1 (Some a) n zs (last_ptr (a # zs)) None"
    using sp(3) p_zs by (auto simp: n_def split: option.splits)
  have right: "dseg ?h2 p n zs (last_ptr (ys @ zs)) None"
  proof (cases zs)
    case Nil
    then show ?thesis using n p by simp
  next
    case (Cons c zs')
    then have "dseg ?h1 (Some a) (Some c) (c # zs') (last_ptr (a # zs)) None" and "n = Some c"
      using right0 n by auto
    moreover have "c \<notin> set zs'" using sp(8) Cons by simp
    moreover have "last_ptr (a # zs) = last_ptr (ys @ zs)" using Cons by (simp add: last_ptr_def)
    ultimately show ?thesis using Cons by (auto dest: dseg_redirect_prev)
  qed
  from left right have "dseg ?h2 None ?f (ys @ zs) (last_ptr (ys @ zs)) None"
    by (auto simp: dseg_append)
  with dist show ?thesis
    unfolding dlist_def h2 by (simp only: p_def [symmetric] n_def [symmetric] simp_thms)
qed

lemma last_ptr_append: "last_ptr (xs @ ys) = (if ys = [] then last_ptr xs else last_ptr ys)"
  by (simp add: last_ptr_def)

lemma slot_rem_eq:
  "slot_rem h s a =
     Some (set_pv a None (set_nx a None (unlink h a)),
       s\<lparr>ll_first := (case pv h a of None \<Rightarrow> nx h a | Some _ \<Rightarrow> ll_first s),
         ll_last := (case nx (case pv h a of Some p \<Rightarrow> set_nx p (nx h a) h | None \<Rightarrow> h) a
                       of None \<Rightarrow> pv h a | Some _ \<Rightarrow> ll_last s),
         ll_n := ll_n s - 1\<rparr>)"
  by (auto simp: slot_rem_def unlink_def Let_def split: option.splits)

lemma ll_inv_remI:
  assumes inv: "ll_inv h s xs" and a: "a \<in> set xs"
  shows "\<exists>h' s'. slot_rem h s a = Some (h', s') \<and>
           ll_inv h' s' (filter (\<lambda>x. x \<noteq> a) xs) \<and> nx h' a = None \<and> pv h' a = None"
proof -
  from a obtain ys zs where xs: "xs = ys @ a # zs" by (meson split_list)
  from inv have dl: "dlist h (ll_first s) (ys @ a # zs)" and l: "ll_last s = last_ptr xs"
    and n: "ll_n s = length xs" by (auto simp: ll_inv_def xs)
  note sp = dlist_append_split [OF dl]
  have fil: "filter (\<lambda>x. x \<noteq> a) xs = ys @ zs"
    unfolding xs using dl by (intro filter_removes_one) (simp add: dlist_def)
  have nx1: "nx (case pv h a of Some p \<Rightarrow> set_nx p (nx h a) h | None \<Rightarrow> h) a = nx h a"
    by (auto split: option.splits)
  have "dlist (set_pv a None (set_nx a None (unlink h a)))
          (case pv h a of None \<Rightarrow> nx h a | Some _ \<Rightarrow> ll_first s) (ys @ zs)"
    using dlist_unlink [OF dl] sp(5,6) by (simp add: dlist_def)
  moreover have "(case nx h a of None \<Rightarrow> pv h a | Some _ \<Rightarrow> ll_last s) = last_ptr (ys @ zs)"
    using sp(2,4) l by (auto simp: xs last_ptr_append last_ptr_def)
  moreover have "ll_n s - 1 = length (ys @ zs)" using n by (simp add: xs)
  ultimately show ?thesis
    unfolding fil by (simp add: slot_rem_eq nx1 ll_inv_def)
qed

lemma udomain_remove_eq_slot_rem:
  "ll_n s \<noteq> 0 \<Longrightarrow> udomain_remove h s a = slot_rem h s a"
  by (simp add: udomain_remove_def slot_rem_def)

subsection \<open>The contact list of a record\<close>

text \<open>
  The search loop of \<open>mem_insert_ucontact\<close> leaves \<open>at\<close> on the first node of \<open>zs\<close>
  and \<open>prev\<close> on the last node of \<open>ys\<close>. The new node is fresh from \<open>memset\<close>.
\<close>

lemma dlist_insert_before:
  assumes inv: "dlist h f (ys @ zs)" and c: "c \<notin> set (ys @ zs)" "nx h c = None" "pv h c = None"
    and at: "at = (if zs = [] then None else Some (hd zs))" and prev: "prev = last_ptr ys"
  shows "case insert_before h f at prev c of (h', f') \<Rightarrow> dlist h' f' (ys @ c # zs)"
proof (cases zs)
  case Nil
  show ?thesis
  proof (cases "ys = []")
    case True
    with Nil at prev c show ?thesis by (simp add: insert_before_def dlist_def)
  next
    case False
    with inv Nil c have "dlist (set_nx (last ys) (Some c) (set_pv c (Some (last ys)) h)) f (ys @ [c])"
      by (intro dlist_snoc) auto
    moreover have "set_nx (last ys) (Some c) (set_pv c (Some (last ys)) h) =
        set_pv c (Some (last ys)) (set_nx (last ys) (Some c) h)"
      by (simp add: set_nx_def set_pv_def)
    ultimately show ?thesis using Nil at prev False by (simp add: insert_before_def last_ptr_def)
  qed
next
  case (Cons p zs')
  have dl: "dlist h f (ys @ p # zs')" using inv Cons by simp
  note sp = dlist_append_split [OF dl]
  from c Cons have cp: "c \<noteq> p" "c \<notin> set ys" "c \<notin> set zs'" by auto
  from inv have d: "distinct (ys @ zs)" by (simp add: dlist_def)
  have zs: "dseg h (pv h p) (Some p) (p # zs') (last_ptr (ys @ zs)) None"
    using sp(3) Cons by (auto simp: last_ptr_def)
  show ?thesis
  proof (cases "ys = []")
    case True
    have "dseg (set_pv p (Some c) h) (Some c) (Some p) (p # zs') (last_ptr (c # zs)) None"
      using dseg_redirect_prev [OF zs sp(6)] True Cons by (simp add: last_ptr_def)
    then show ?thesis
      using True Cons at sp(2) cp c d by (simp add: insert_before_def dlist_def)
  next
    case False
    let ?b = "last ys"
    let ?h = "set_pv p (Some c) (set_nx ?b (Some c) (set_pv c (Some ?b) (set_nx c (Some p) h)))"
    from False have eq: "ys = butlast ys @ [?b]" by simp
    have pb: "pv h p = Some ?b" using sp(2) False by (simp add: last_ptr_def)
    have bin: "?b \<in> set ys" using False by simp
    then have bp: "?b \<noteq> p" "?b \<noteq> c" "?b \<notin> set zs'" using sp(5,9) cp by auto
    have nb: "?b \<notin> set (butlast ys)"
      using sp(7) eq by (metis distinct_butlast not_distinct_conv_prefix)
    have "dseg (set_pv c (Some ?b) (set_nx c (Some p) h)) None f (butlast ys @ [?b]) (Some ?b) (Some p)"
      using sp(1) pb cp eq by simp
    then have "dseg (set_nx ?b (Some c) (set_pv c (Some ?b) (set_nx c (Some p) h)))
        None f (butlast ys @ [?b]) (Some ?b) (Some c)"
      using nb by (rule dseg_redirect_next)
    then have l: "dseg ?h None f ys (Some ?b) (Some c)" using sp(5) eq by simp
    have "dseg (set_nx ?b (Some c) (set_pv c (Some ?b) (set_nx c (Some p) h)))
        (pv h p) (Some p) (p # zs') (last_ptr (ys @ zs)) None"
      using zs cp bp by (simp add: pb)
    then have "dseg ?h (Some c) (Some p) (p # zs') (last_ptr (ys @ zs)) None"
      using sp(6) by (auto dest: dseg_redirect_prev)
    then have r: "dseg ?h (Some ?b) (Some c) (c # zs) (last_ptr (ys @ c # zs)) None"
      using cp bp Cons by (simp add: last_ptr_def)
    from l r have "dseg ?h None f (ys @ c # zs) (last_ptr (ys @ c # zs)) None"
      by (auto simp: dseg_append)
    then show ?thesis using Cons at pb c d by (simp add: insert_before_def dlist_def)
  qed
qed

lemma mem_remove_links_eq:
  "pv h c \<noteq> Some c \<Longrightarrow> mem_remove_links h f c =
     (unlink h c, case pv h c of None \<Rightarrow> nx h c | Some _ \<Rightarrow> f)"
  by (auto simp: mem_remove_links_def unlink_def Let_def split: option.splits)

lemma dlist_mem_remove:
  assumes "dlist h f (ys @ c # zs)"
  shows "case mem_remove_links h f c of (h', f') \<Rightarrow> dlist h' f' (ys @ zs)"
proof -
  have "pv h c \<noteq> Some c"
    using dlist_append_split(2,5) [OF assms] by (auto simp: last_ptr_def split: if_splits)
  then show ?thesis using dlist_unlink [OF assms] by (simp add: mem_remove_links_eq)
qed

subsection \<open>The list interface\<close>

text \<open>
  What the domain code relies on: \<open>add\<close> appends a detached node, \<open>rem\<close> takes a
  node out and detaches it, neither follows a null pointer. \<open>run_list\<close> runs a
  sequence of operations; a history is valid if it adds only detached nodes that
  are not in the list and removes only nodes that are.
\<close>

datatype list_op = Add addr | Rem addr

fun apply_op :: "addr list \<Rightarrow> list_op \<Rightarrow> addr list" where
  "apply_op xs (Add a) = xs @ [a]"
| "apply_op xs (Rem a) = filter (\<lambda>x. x \<noteq> a) xs"

fun valid_ops :: "addr list \<Rightarrow> list_op list \<Rightarrow> bool" where
  "valid_ops xs [] \<longleftrightarrow> True"
| "valid_ops xs (Add a # ops) \<longleftrightarrow> a \<notin> set xs \<and> valid_ops (xs @ [a]) ops"
| "valid_ops xs (Rem a # ops) \<longleftrightarrow>
     a \<in> set xs \<and> valid_ops (filter (\<lambda>x. x \<noteq> a) xs) ops"

fun run_list ::
  "(links \<Rightarrow> llist \<Rightarrow> addr \<Rightarrow> (links \<times> llist) option) \<Rightarrow>
   (links \<Rightarrow> llist \<Rightarrow> addr \<Rightarrow> (links \<times> llist) option) \<Rightarrow>
   links \<Rightarrow> llist \<Rightarrow> list_op list \<Rightarrow> (links \<times> llist) option" where
  "run_list add rem h s [] = Some (h, s)"
| "run_list add rem h s (Add a # ops) =
     (case add h s a of None \<Rightarrow> None | Some (h', s') \<Rightarrow> run_list add rem h' s' ops)"
| "run_list add rem h s (Rem a # ops) =
     (case rem h s a of None \<Rightarrow> None | Some (h', s') \<Rightarrow> run_list add rem h' s' ops)"

text \<open>Nodes outside the list are detached: both link fields are null.\<close>

definition detached_outside :: "links \<Rightarrow> addr list \<Rightarrow> bool" where
  "detached_outside h xs \<longleftrightarrow> (\<forall>a. a \<notin> set xs \<longrightarrow> nx h a = None \<and> pv h a = None)"

definition list_state :: "links \<Rightarrow> llist \<Rightarrow> addr list \<Rightarrow> bool" where
  "list_state h s xs \<longleftrightarrow> ll_inv h s xs \<and> detached_outside h xs"

locale linked_list =
  fixes add :: "links \<Rightarrow> llist \<Rightarrow> addr \<Rightarrow> (links \<times> llist) option"
    and rem :: "links \<Rightarrow> llist \<Rightarrow> addr \<Rightarrow> (links \<times> llist) option"
  assumes add_law: "list_state h s xs \<Longrightarrow> a \<notin> set xs \<Longrightarrow>
      \<exists>h' s'. add h s a = Some (h', s') \<and> list_state h' s' (xs @ [a])"
    and rem_law: "list_state h s xs \<Longrightarrow> a \<in> set xs \<Longrightarrow>
      \<exists>h' s'. rem h s a = Some (h', s') \<and> list_state h' s' (filter (\<lambda>x. x \<noteq> a) xs)"
begin

lemma run_valid:
  "list_state h s xs \<Longrightarrow> valid_ops xs ops \<Longrightarrow>
   \<exists>h' s'. run_list add rem h s ops = Some (h', s') \<and> list_state h' s' (foldl apply_op xs ops)"
proof (induction ops arbitrary: h s xs)
  case (Cons op ops)
  show ?case
  proof (cases op)
    case (Add a)
    with Cons.prems obtain h' s' where "add h s a = Some (h', s')" "list_state h' s' (xs @ [a])"
      using add_law by fastforce
    with Cons.IH Cons.prems Add show ?thesis by simp
  next
    case (Rem a)
    with Cons.prems obtain h' s' where "rem h s a = Some (h', s')"
      "list_state h' s' (filter (\<lambda>x. x \<noteq> a) xs)"
      using rem_law by fastforce
    with Cons.IH Cons.prems Rem show ?thesis by simp
  qed
qed simp

end

lemma slot_add_detached:
  "slot_add h s a = Some (h', s') \<Longrightarrow> list_state h s xs \<Longrightarrow> detached_outside h' (xs @ [a])"
  by (auto simp: slot_add_def list_state_def ll_inv_def detached_outside_def Let_def last_ptr_def
      split: if_splits option.splits)

lemma nx_unlink_outside:
  assumes "dlist h f xs" "a \<in> set xs" "detached_outside h xs" "b \<notin> set xs"
  shows "nx (unlink h a) b = None \<and> pv (unlink h a) b = None"
proof -
  from assms(2) obtain ys zs where xs: "xs = ys @ a # zs" by (meson split_list)
  have "pv h a = last_ptr ys" and "nx h a = (if zs = [] then None else Some (hd zs))"
    using dlist_append_split(2,4) assms(1) unfolding xs by blast+
  then have "pv h a \<noteq> Some b" and "nx h a \<noteq> Some b"
    using assms(4) xs by (auto simp: last_ptr_def split: if_splits)
  moreover have "nx h b = None" and "pv h b = None"
    using assms(3,4) by (auto simp: detached_outside_def)
  ultimately show ?thesis
    by (auto simp: unlink_def Let_def split: option.split)
qed

lemma slot_rem_detached:
  assumes "slot_rem h s a = Some (h', s')" "list_state h s xs" "a \<in> set xs"
  shows "detached_outside h' (filter (\<lambda>x. x \<noteq> a) xs)"
  using assms nx_unlink_outside [of h "ll_first s" xs a]
  by (auto simp: slot_rem_eq list_state_def ll_inv_def detached_outside_def)

interpretation sl: linked_list slot_add slot_rem
proof
  show "\<exists>h' s'. slot_add h s a = Some (h', s') \<and> list_state h' s' (xs @ [a])"
    if "list_state h s xs" "a \<notin> set xs" for h s xs a
    using that ll_inv_addI [of h s xs a] slot_add_detached [of h s a _ _ xs]
    by (fastforce simp: list_state_def detached_outside_def)
  show "\<exists>h' s'. slot_rem h s a = Some (h', s') \<and> list_state h' s' (filter (\<lambda>x. x \<noteq> a) xs)"
    if "list_state h s xs" "a \<in> set xs" for h s xs a
    using that ll_inv_remI [of h s xs a] slot_rem_detached [of h s a _ _ xs]
    by (fastforce simp: list_state_def)
qed

lemma list_state_nonempty: "list_state h s xs \<Longrightarrow> a \<in> set xs \<Longrightarrow> ll_n s \<noteq> 0"
  by (auto simp: list_state_def ll_inv_def)

interpretation dl: linked_list udomain_add udomain_remove
proof
  show "\<exists>h' s'. udomain_add h s a = Some (h', s') \<and> list_state h' s' (xs @ [a])"
    if "list_state h s xs" "a \<notin> set xs" for h s xs a
    unfolding udomain_add_eq_slot_add using that by (rule sl.add_law)
  show "\<exists>h' s'. udomain_remove h s a = Some (h', s') \<and>
      list_state h' s' (filter (\<lambda>x. x \<noteq> a) xs)"
    if "list_state h s xs" "a \<in> set xs" for h s xs a
    unfolding udomain_remove_eq_slot_rem [OF list_state_nonempty [OF that]]
    using that by (rule sl.rem_law)
qed

lemma init_slot_state: "list_state \<lparr>nx = (\<lambda>_. None), pv = (\<lambda>_. None)\<rparr> init_slot []"
  by (simp add: list_state_def ll_inv_def detached_outside_def dlist_def init_slot_def)

subsection \<open>Histories of the lists\<close>

definition no_links :: links where "no_links = \<lparr>nx = (\<lambda>_. None), pv = (\<lambda>_. None)\<rparr>"

definition list_ops :: "list_op list" where
  "list_ops = [Add 3, Add 5, Add 7, Rem 5, Add 5, Rem 3]"

text \<open>
  C37: A slot list of the contact hash table is a doubly linked list of exactly the
  records added and not yet removed, in order of insertion, with its counter right,
  through every history of \<open>slot_add\<close> and \<open>slot_rem\<close> from an initialised slot; no
  call follows a null pointer.
\<close>

theorem slot_history:
  assumes "valid_ops [] ops"
  shows "\<exists>h s. run_list slot_add slot_rem no_links init_slot ops = Some (h, s) \<and>
    dlist h (ll_first s) (foldl apply_op [] ops) \<and> ll_n s = length (foldl apply_op [] ops)"
  using sl.run_valid [OF init_slot_state assms]
  by (auto simp: no_links_def list_state_def ll_inv_def)

theorem slot_history_witness:
  "\<exists>h s. run_list slot_add slot_rem no_links init_slot list_ops = Some (h, s) \<and>
    dlist h (ll_first s) [7, 5]"
  using slot_history [of list_ops] by (auto simp: list_ops_def)

text \<open>
  The same for the list of all records of a domain, which the timer walks, and
  \<open>udomain_add\<close> and \<open>udomain_remove\<close>.
\<close>

theorem domain_list_history:
  assumes "valid_ops [] ops"
  shows "\<exists>h s. run_list udomain_add udomain_remove no_links init_slot ops = Some (h, s) \<and>
    dlist h (ll_first s) (foldl apply_op [] ops) \<and> ll_n s = length (foldl apply_op [] ops)"
  using dl.run_valid [OF init_slot_state assms]
  by (auto simp: no_links_def list_state_def ll_inv_def)

theorem domain_list_history_witness:
  "\<exists>h s. run_list udomain_add udomain_remove no_links init_slot list_ops = Some (h, s) \<and>
    dlist h (ll_first s) [7, 5]"
  using domain_list_history [of list_ops] by (auto simp: list_ops_def)

end
