(* ===== verification/Urecord.thy ===== *)
theory Urecord
  imports Ucontact Dll
begin

section \<open>Records of the user location cache: usrloc/urecord.c\<close>

text \<open>
  A record holds the contacts of one address of record, in the order of its linked
  list, and the watchers registered on it. A contact is named by its position in
  that list. The list operations on positions are those of the pointer code:
  \<open>insert_links_refines\<close> below and \<open>dlist_mem_remove\<close> relate the two.
\<close>

record urecord =
  ur_domain :: string
  ur_aor :: string
  contacts :: "ucontact list"
  watchers :: "nat list"

definition remove_nth :: "nat \<Rightarrow> 'a list \<Rightarrow> 'a list" where
  "remove_nth i xs = take i xs @ drop (Suc i) xs"

text \<open>Insertion before the first element that satisfies \<open>stop\<close>.\<close>

fun insert_pos :: "('a \<Rightarrow> bool) \<Rightarrow> 'a list \<Rightarrow> nat" where
  "insert_pos stop [] = 0"
| "insert_pos stop (x # xs) = (if stop x then 0 else Suc (insert_pos stop xs))"

definition insert_nth :: "nat \<Rightarrow> 'a \<Rightarrow> 'a list \<Rightarrow> 'a list" where
  "insert_nth i x xs = take i xs @ x # drop i xs"

definition notify_watchers :: "urecord \<Rightarrow> ucontact \<Rightarrow> pres \<Rightarrow> world \<Rightarrow> world" where
  "notify_watchers r c st w =
     w\<lparr>evs := evs w @ map (\<lambda>n. EvNotify n (ur_aor r) (dat (uc_c c)) st) (watchers r)\<rparr>"

definition new_urecord :: "cfg \<Rightarrow> string \<Rightarrow> string \<Rightarrow> world \<Rightarrow> (int + urecord) \<times> world" where
  "new_urecord g dmn aor w =
     (case shm_malloc g w of (ok, w) \<Rightarrow>
      if \<not> ok then (Inl (-1), w)
      else
        (case shm_malloc g w of (ok, w) \<Rightarrow>
         if \<not> ok then (Inl (-2), shm_free w)
         else (Inr \<lparr>ur_domain = dmn, ur_aor = aor, contacts = [], watchers = []\<rparr>, w)))"

definition free_urecord :: "urecord \<Rightarrow> world \<Rightarrow> world" where
  "free_urecord r w =
     (let w = fold (\<lambda>_ w. shm_free w) (watchers r) w;
          w = fold free_ucontact (contacts r) w
      in shm_free (shm_free w))"

subsection \<open>Inserting a contact\<close>

text \<open>Returns the position of the new contact.\<close>

definition mem_insert_ucontact ::
  "cfg \<Rightarrow> urecord \<Rightarrow> string \<Rightarrow> int \<Rightarrow> int \<Rightarrow> string \<Rightarrow> int \<Rightarrow> u32 \<Rightarrow> string \<Rightarrow> string option \<Rightarrow>
   world \<Rightarrow> (int + nat \<times> urecord) \<times> world" where
  "mem_insert_ucontact g r contact e q cid cs flags ua recv w =
     (case new_ucontact g (ur_domain r) (ur_aor r) contact e q cid cs flags ua recv w of
        (None, w) \<Rightarrow> (Inl (-1), w)
      | (Some c, w) \<Rightarrow>
          let i = (if \<not> desc_time_order g then insert_pos (\<lambda>x. uc_q x < q) (contacts r) else 0)
          in (Inr (i, r\<lparr>contacts := insert_nth i c (contacts r)\<rparr>), w))"

definition mem_remove_ucontact :: "urecord \<Rightarrow> nat \<Rightarrow> urecord" where
  "mem_remove_ucontact r i = r\<lparr>contacts := remove_nth i (contacts r)\<rparr>"

definition mem_delete_ucontact :: "urecord \<Rightarrow> nat \<Rightarrow> world \<Rightarrow> urecord \<times> world" where
  "mem_delete_ucontact r i w =
     (mem_remove_ucontact r i, free_ucontact (contacts r ! i) w)"

subsection \<open>The timers\<close>

text \<open>
  The loops over the contacts: the list that stays, the world, and how many
  contacts expired. \<open>None\<close> is a database access on an address of record without a
  domain part, or a use of a freed contact.
\<close>

fun nodb_timer :: "cfg \<Rightarrow> urecord \<Rightarrow> ucontact list \<Rightarrow> world \<Rightarrow> (ucontact list \<times> world \<times> nat) option" where
  "nodb_timer g r [] w = Some ([], w, 0)"
| "nodb_timer g r (c # cs) w =
     (if \<not> VALID_CONTACT c (act_time g) then
        let w = callbacks_if_any g UL_CONTACT_EXPIRE c w;
            w = notify_watchers r c PRES_OFFLINE w;
            w = free_ucontact c w
        in map_option (\<lambda>(cs', w', n). (cs', w', Suc n)) (nodb_timer g r cs w)
      else map_option (\<lambda>(cs', w', n). (c # cs', w', n)) (nodb_timer g r cs w))"

fun wt_timer :: "cfg \<Rightarrow> urecord \<Rightarrow> ucontact list \<Rightarrow> world \<Rightarrow> (ucontact list \<times> world \<times> nat) option" where
  "wt_timer g r [] w = Some ([], w, 0)"
| "wt_timer g r (c # cs) w =
     (if \<not> VALID_CONTACT c (act_time g) then
        let w = callbacks_if_any g UL_CONTACT_EXPIRE c w;
            w = notify_watchers r c PRES_OFFLINE w
        in Option.bind (db_delete_ucontact g c w) (\<lambda>(_, w).
           let w = free_ucontact c w
           in map_option (\<lambda>(cs', w', n). (cs', w', Suc n)) (wt_timer g r cs w))
      else map_option (\<lambda>(cs', w', n). (c # cs', w', n)) (wt_timer g r cs w))"

fun wb_timer :: "cfg \<Rightarrow> urecord \<Rightarrow> ucontact list \<Rightarrow> world \<Rightarrow> (ucontact list \<times> world \<times> nat) option" where
  "wb_timer g r [] w = Some ([], w, 0)"
| "wb_timer g r (c # cs) w =
     (if \<not> VALID_CONTACT c (act_time g) then
        let w = callbacks_if_any g UL_CONTACT_EXPIRE c w;
            w = notify_watchers r c PRES_OFFLINE w
        in Option.bind
             (if st_expired_ucontact c = 1 then db_delete_ucontact g c w else Some (0, w))
             (\<lambda>(_, w).
              let w = free_ucontact c w
              in map_option (\<lambda>(cs', w', n). (cs', w', Suc n)) (wb_timer g r cs w))
      else
        case st_flush_ucontact c of (op, c) \<Rightarrow>
        if op = 1 then
          Option.bind (db_insert_ucontact g c w) (\<lambda>(_, w).
          map_option (\<lambda>(cs', w', n). (c # cs', w', n)) (wb_timer g r cs w))
        else if op = 2 then
          Option.bind (db_update_ucontact g c 1 w) (\<lambda>(_, w).
          map_option (\<lambda>(cs', w', n). (c # cs', w', n)) (wb_timer g r cs w))
        else if op = 4 \<or> op = 3 then None
        else map_option (\<lambda>(cs', w', n). (c # cs', w', n)) (wb_timer g r cs w))"

definition timer_urecord :: "cfg \<Rightarrow> urecord \<Rightarrow> world \<Rightarrow> (urecord \<times> world \<times> nat) option" where
  "timer_urecord g r w =
     map_option (\<lambda>(cs, w', n). (r\<lparr>contacts := cs\<rparr>, w', n))
       (case cfg_db_mode g of
          NO_DB \<Rightarrow> nodb_timer g r (contacts r) w
        | WRITE_THROUGH \<Rightarrow> wt_timer g r (contacts r) w
        | WRITE_BACK \<Rightarrow> wb_timer g r (contacts r) w)"

subsection \<open>Insert, delete, look up\<close>

definition insert_ucontact ::
  "cfg \<Rightarrow> urecord \<Rightarrow> string \<Rightarrow> int \<Rightarrow> int \<Rightarrow> string \<Rightarrow> int \<Rightarrow> u32 \<Rightarrow> string \<Rightarrow> string option \<Rightarrow>
   world \<Rightarrow> ((int + nat \<times> urecord) \<times> world) option" where
  "insert_ucontact g r contact e q cid cs flags ua recv w =
     (case mem_insert_ucontact g r contact e q cid cs flags ua recv w of
        (Inl _, w) \<Rightarrow> Some (Inl (-1), w)
      | (Inr (i, r), w) \<Rightarrow>
          let c = contacts r ! i;
              w = notify_watchers r c (if e > 0 then PRES_ONLINE else PRES_OFFLINE) w;
              w = callbacks_if_any g UL_CONTACT_INSERT c w
          in if cfg_db_mode g = WRITE_THROUGH then
               map_option
                 (\<lambda>(_, w). (Inr (i, r\<lparr>contacts := (contacts r)[i := c\<lparr>uc_state := CS_SYNC\<rparr>]\<rparr>), w))
                 (db_insert_ucontact g c w)
             else Some (Inr (i, r), w))"

definition delete_ucontact :: "cfg \<Rightarrow> urecord \<Rightarrow> nat \<Rightarrow> world \<Rightarrow> (urecord \<times> world) option" where
  "delete_ucontact g r i w =
     (let c = contacts r ! i;
          w = callbacks_if_any g UL_CONTACT_DELETE c w;
          w = notify_watchers r c PRES_OFFLINE w
      in case st_delete_ucontact g c of (ret, c') \<Rightarrow>
         let r = r\<lparr>contacts := (contacts r)[i := c']\<rparr>
         in if ret > 0 then
              if cfg_db_mode g = WRITE_THROUGH then
                map_option (\<lambda>(_, w). mem_delete_ucontact r i w) (db_delete_ucontact g c' w)
              else Some (mem_delete_ucontact r i w)
            else Some (r, w))"

text \<open>Contact addresses are compared up to the first semicolon.\<close>

definition upto_semicolon :: "string \<Rightarrow> string" where
  "upto_semicolon s = (case memchr CHR '';'' s of None \<Rightarrow> s | Some i \<Rightarrow> take i s)"

fun find_index :: "('a \<Rightarrow> bool) \<Rightarrow> 'a list \<Rightarrow> nat option" where
  "find_index P [] = None"
| "find_index P (x # xs) = (if P x then Some 0 else map_option Suc (find_index P xs))"

definition get_ucontact :: "urecord \<Rightarrow> string \<Rightarrow> nat option" where
  "get_ucontact r contact =
     find_index (\<lambda>c. upto_semicolon contact = upto_semicolon (dat (uc_c c))) (contacts r)"

definition get_ucontact_bycallid :: "urecord \<Rightarrow> string \<Rightarrow> nat option" where
  "get_ucontact_bycallid r callid =
     find_index (\<lambda>c. callid = dat (uc_callid c)) (contacts r)"

subsection \<open>What the three timers share\<close>

text \<open>
  A timer loop drops each expired contact, freeing its blocks, and keeps each valid
  one, possibly in a new state; for each contact it sends the statements \<open>stmts\<close>.
\<close>

abbreviation live_contact :: "cfg \<Rightarrow> ucontact \<Rightarrow> bool" where
  "live_contact g c \<equiv> VALID_CONTACT c (act_time g)"

definition timer_result ::
  "cfg \<Rightarrow> (ucontact \<Rightarrow> ucontact) \<Rightarrow> (ucontact \<Rightarrow> stmt list) \<Rightarrow> ucontact list \<Rightarrow> world \<Rightarrow>
   (ucontact list \<times> world \<times> nat) option \<Rightarrow> bool" where
  "timer_result g kept stmts cs w res \<longleftrightarrow>
     (\<exists>w'. res = Some (map kept (filter (live_contact g) cs), w',
                      length (filter (\<lambda>c. \<not> live_contact g c) cs)) \<and>
       dblog w' = dblog w @ concat (map stmts cs) \<and>
       shm_live w' = shm_live w - sum_list (map contact_blocks (filter (\<lambda>c. \<not> live_contact g c) cs)))"

locale timer_loop =
  fixes loop :: "cfg \<Rightarrow> urecord \<Rightarrow> ucontact list \<Rightarrow> world \<Rightarrow> (ucontact list \<times> world \<times> nat) option"
    and kept :: "ucontact \<Rightarrow> ucontact"
    and stmts :: "cfg \<Rightarrow> ucontact \<Rightarrow> stmt list"
  assumes nil: "loop g r [] w = Some ([], w, 0)"
    and expired: "aor_ok g (uc_aor c) \<Longrightarrow> \<not> live_contact g c \<Longrightarrow>
      \<exists>w1. dblog w1 = dblog w @ stmts g c \<and> shm_live w1 = shm_live w - contact_blocks c \<and>
        loop g r (c # cs) w = map_option (\<lambda>(cs', w', n). (cs', w', Suc n)) (loop g r cs w1)"
    and valid: "aor_ok g (uc_aor c) \<Longrightarrow> live_contact g c \<Longrightarrow>
      \<exists>w1. dblog w1 = dblog w @ stmts g c \<and> shm_live w1 = shm_live w \<and>
        loop g r (c # cs) w = map_option (\<lambda>(cs', w', n). (kept c # cs', w', n)) (loop g r cs w1)"
begin

lemma loop_spec:
  "(\<And>c. c \<in> set cs \<Longrightarrow> aor_ok g (uc_aor c)) \<Longrightarrow> timer_result g kept (stmts g) cs w (loop g r cs w)"
proof (induction cs arbitrary: w)
  case Nil
  then show ?case by (simp add: nil timer_result_def)
next
  case (Cons c cs)
  show ?case
  proof (cases "live_contact g c")
    case True
    with Cons.prems obtain w1 where w1: "dblog w1 = dblog w @ stmts g c" "shm_live w1 = shm_live w"
      and eq: "loop g r (c # cs) w = map_option (\<lambda>(cs', w', n). (kept c # cs', w', n)) (loop g r cs w1)"
      using valid [of g c w r cs] by auto
    from Cons.IH [of w1] Cons.prems have "timer_result g kept (stmts g) cs w1 (loop g r cs w1)" by simp
    with w1 True show ?thesis by (auto simp: timer_result_def eq)
  next
    case False
    with Cons.prems obtain w1 where w1: "dblog w1 = dblog w @ stmts g c"
      "shm_live w1 = shm_live w - contact_blocks c"
      and eq: "loop g r (c # cs) w = map_option (\<lambda>(cs', w', n). (cs', w', Suc n)) (loop g r cs w1)"
      using expired [of g c w r cs] by auto
    from Cons.IH [of w1] Cons.prems have "timer_result g kept (stmts g) cs w1 (loop g r cs w1)" by simp
    with w1 False show ?thesis by (auto simp: timer_result_def eq)
  qed
qed

end

text \<open>The statements and the kept contact of each mode.\<close>

definition no_stmts :: "cfg \<Rightarrow> ucontact \<Rightarrow> stmt list" where
  "no_stmts g c = []"

definition wt_stmts :: "cfg \<Rightarrow> ucontact \<Rightarrow> stmt list" where
  "wt_stmts g c = (if live_contact g c then [] else sent c (delete_stmt g c))"

definition synced :: "ucontact \<Rightarrow> ucontact" where
  "synced c = c\<lparr>uc_state := CS_SYNC\<rparr>"

definition wb_stmts :: "cfg \<Rightarrow> ucontact \<Rightarrow> stmt list" where
  "wb_stmts g c =
     (if live_contact g c then
        (case uc_state c of
           CS_NEW \<Rightarrow> sent c (insert_stmt g (synced c))
         | CS_SYNC \<Rightarrow> []
         | CS_DIRTY \<Rightarrow> sent c (update_stmt g (synced c) 1))
      else if uc_state c = CS_NEW then [] else sent c (delete_stmt g c))"

lemma notify_world [simp]:
  "shm_live (notify_watchers r c st w) = shm_live w"
  "dblog (notify_watchers r c st w) = dblog w"
  "shm_n (notify_watchers r c st w) = shm_n w"
  by (simp_all add: notify_watchers_def)

lemma synced_simps [simp]:
  "uc_state (synced c) = CS_SYNC" "uc_aor (synced c) = uc_aor c" "uc_flags (synced c) = uc_flags c"
  "uc_expires (synced c) = uc_expires c" "in_memory_only (synced c) = in_memory_only c"
  "live_contact g (synced c) = live_contact g c" "sent (synced c) so = sent c so"
  by (simp_all add: synced_def in_memory_only_def VALID_CONTACT_def sent_def)

lemma synced_id: "uc_state c = CS_SYNC \<Longrightarrow> c\<lparr>uc_state := CS_SYNC\<rparr> = c"
  by (cases c) simp

interpretation nodb: timer_loop nodb_timer "\<lambda>c. c" no_stmts
proof
  fix g :: cfg and c :: ucontact and r cs and w :: world
  assume "\<not> live_contact g c"
  then show "\<exists>w1. dblog w1 = dblog w @ no_stmts g c \<and> shm_live w1 = shm_live w - contact_blocks c \<and>
        nodb_timer g r (c # cs) w = map_option (\<lambda>(cs', w', n). (cs', w', Suc n)) (nodb_timer g r cs w1)"
    by (intro exI [of _ "free_ucontact c
          (notify_watchers r c PRES_OFFLINE (callbacks_if_any g UL_CONTACT_EXPIRE c w))"])
      (simp add: no_stmts_def free_ucontact_live Let_def)
qed (auto simp: no_stmts_def)

interpretation wt: timer_loop wt_timer "\<lambda>c. c" wt_stmts
proof
  fix g :: cfg and c :: ucontact and r cs and w :: world
  assume ok: "aor_ok g (uc_aor c)" and ex: "\<not> live_contact g c"
  let ?w = "notify_watchers r c PRES_OFFLINE (callbacks_if_any g UL_CONTACT_EXPIRE c w)"
  from db_access_total(3) [OF ok, of ?w] obtain ret w2 where
    "db_delete_ucontact g c ?w = Some (ret, w2)" "dblog w2 = dblog ?w @ sent c (delete_stmt g c)"
    "shm_live w2 = shm_live ?w" by blast
  with ex show "\<exists>w1. dblog w1 = dblog w @ wt_stmts g c \<and> shm_live w1 = shm_live w - contact_blocks c \<and>
        wt_timer g r (c # cs) w = map_option (\<lambda>(cs', w', n). (cs', w', Suc n)) (wt_timer g r cs w1)"
    by (intro exI [of _ "free_ucontact c w2"]) (simp add: wt_stmts_def free_ucontact_live Let_def)
qed (auto simp: wt_stmts_def)

interpretation wb: timer_loop wb_timer synced wb_stmts
proof
  fix g :: cfg and c :: ucontact and r cs and w :: world
  assume ok: "aor_ok g (uc_aor c)"
  {
    assume ex: "\<not> live_contact g c"
    let ?w = "notify_watchers r c PRES_OFFLINE (callbacks_if_any g UL_CONTACT_EXPIRE c w)"
    from db_access_total(3) [OF ok, of ?w] obtain ret w2 where
      "db_delete_ucontact g c ?w = Some (ret, w2)" "dblog w2 = dblog ?w @ sent c (delete_stmt g c)"
      "shm_live w2 = shm_live ?w" by blast
    with ex show "\<exists>w1. dblog w1 = dblog w @ wb_stmts g c \<and>
        shm_live w1 = shm_live w - contact_blocks c \<and>
        wb_timer g r (c # cs) w = map_option (\<lambda>(cs', w', n). (cs', w', Suc n)) (wb_timer g r cs w1)"
      by (intro exI [of _ "free_ucontact c (if uc_state c = CS_NEW then ?w else w2)"])
        (cases "uc_state c"; simp add: wb_stmts_def free_ucontact_live Let_def st_expired_ucontact_def)
  next
    assume live: "live_contact g c"
    have ok': "aor_ok g (uc_aor (synced c))" using ok by simp
    obtain r1 w1 where i: "db_insert_ucontact g (synced c) w = Some (r1, w1)"
      "dblog w1 = dblog w @ sent c (insert_stmt g (synced c))" "shm_live w1 = shm_live w"
      using db_access_total(1) [OF ok', of w] by auto
    obtain r2 w2 where u: "db_update_ucontact g (synced c) 1 w = Some (r2, w2)"
      "dblog w2 = dblog w @ sent c (update_stmt g (synced c) 1)" "shm_live w2 = shm_live w"
      using db_access_total(2) [OF ok', of 1 w] by auto
    show "\<exists>w1. dblog w1 = dblog w @ wb_stmts g c \<and> shm_live w1 = shm_live w \<and>
        wb_timer g r (c # cs) w = map_option (\<lambda>(cs', w', n). (synced c # cs', w', n)) (wb_timer g r cs w1)"
      using live i u
      by (intro exI [of _ "case uc_state c of CS_NEW \<Rightarrow> w1 | CS_SYNC \<Rightarrow> w | CS_DIRTY \<Rightarrow> w2"])
        (cases "uc_state c"; simp add: wb_stmts_def st_flush_ucontact_def flip: synced_def;
         simp add: synced_def synced_id)
  }
qed simp

subsection \<open>The pointer code of mem_insert_ucontact\<close>

text \<open>
  The search loop over \<open>ptr->next\<close>, with fuel; \<open>None\<close> only when the fuel runs out.
  \<open>qf\<close> reads the \<open>q\<close> field of a node.
\<close>

fun find_insert :: "nat \<Rightarrow> links \<Rightarrow> (addr \<Rightarrow> int) \<Rightarrow> int \<Rightarrow> ptr \<Rightarrow> ptr \<Rightarrow> (ptr \<times> ptr) option" where
  "find_insert 0 h qf q prev at = None"
| "find_insert (Suc n) h qf q prev at =
     (case at of
        None \<Rightarrow> Some (prev, None)
      | Some p \<Rightarrow>
          if qf p < q then Some (prev, at)
          else find_insert n h qf q (Some p) (nx h p))"

definition mem_insert_links ::
  "nat \<Rightarrow> links \<Rightarrow> ptr \<Rightarrow> (addr \<Rightarrow> int) \<Rightarrow> int \<Rightarrow> bool \<Rightarrow> addr \<Rightarrow> (links \<times> ptr) option" where
  "mem_insert_links fuel h first qf q desc_time c =
     (if \<not> desc_time then
        map_option (\<lambda>(prev, at). insert_before h first at prev c)
          (find_insert fuel h qf q None first)
      else Some (insert_before h first first None c))"

definition head_ptr :: "addr list \<Rightarrow> ptr" where
  "head_ptr xs = (if xs = [] then None else Some (hd xs))"

lemma dlist_head: "dlist h f xs \<Longrightarrow> f = head_ptr xs"
  by (cases xs) (auto simp: dlist_def head_ptr_def last_ptr_def)

lemma find_insert_spec:
  "dlist h f (ys @ zs) \<Longrightarrow> length zs < n \<Longrightarrow>
   find_insert n h qf q (last_ptr ys) (head_ptr zs) =
     Some (last_ptr (ys @ take (insert_pos (\<lambda>x. qf x < q) zs) zs),
           head_ptr (drop (insert_pos (\<lambda>x. qf x < q) zs) zs))"
proof (induction zs arbitrary: ys n)
  case Nil
  then show ?case by (cases n) (auto simp: head_ptr_def)
next
  case (Cons z zs)
  then obtain m where n: "n = Suc m" "length zs < m" by (cases n) auto
  have nz: "nx h z = head_ptr zs"
    using dlist_append_split(4) [OF Cons.prems(1)] by (simp add: head_ptr_def)
  show ?case
  proof (cases "qf z < q")
    case True
    then show ?thesis by (simp add: n head_ptr_def)
  next
    case False
    have hd: "head_ptr (z # zs) = Some z" by (simp add: head_ptr_def)
    from Cons.IH [of "ys @ [z]" m] Cons.prems(1) n(2) False show ?thesis
      by (simp add: n nz hd)
  qed
qed

text \<open>
  The pointer code that links a new contact into the doubly linked list of a record
  terminates, follows no null pointer and implements insertion at the position the
  list-level model computes: both links of every neighbour are right afterwards.
\<close>

theorem insert_links_refines:
  assumes inv: "dlist h f xs" and c: "c \<notin> set xs" "nx h c = None" "pv h c = None"
    and fuel: "length xs < fuel"
  shows "\<exists>h' f'. mem_insert_links fuel h f qf q dt c = Some (h', f') \<and>
     dlist h' f' (insert_nth (if \<not> dt then insert_pos (\<lambda>x. qf x < q) xs else 0) c xs)"
proof -
  define i where "i = (if \<not> dt then insert_pos (\<lambda>x. qf x < q) xs else 0)"
  let ?ys = "take i xs" and ?zs = "drop i xs"
  have split: "dlist h f (?ys @ ?zs)" "c \<notin> set (?ys @ ?zs)" using inv c by simp_all
  have "mem_insert_links fuel h f qf q dt c =
      Some (insert_before h f (head_ptr ?zs) (last_ptr ?ys) c)"
    using find_insert_spec [of h f "[]" xs fuel qf q] inv fuel
    by (auto simp: mem_insert_links_def i_def dest: dlist_head)
  moreover have "case insert_before h f (head_ptr ?zs) (last_ptr ?ys) c of
      (h', f') \<Rightarrow> dlist h' f' (?ys @ c # ?zs)"
    by (rule dlist_insert_before [OF split c(2,3)]) (simp_all add: head_ptr_def)
  ultimately show ?thesis by (auto simp: insert_nth_def i_def)
qed

subsection \<open>Order of the contacts\<close>

definition q_ordered :: "ucontact list \<Rightarrow> bool" where
  "q_ordered cs \<longleftrightarrow> sorted_wrt (\<lambda>a b. uc_q a \<ge> uc_q b) cs"

lemma insert_pos_split:
  "\<forall>x \<in> set (take (insert_pos P xs) xs). \<not> P x"
  "insert_pos P xs < length xs \<Longrightarrow> P (xs ! insert_pos P xs)"
  "insert_pos P xs \<le> length xs"
  by (induction xs) auto

lemma q_ordered_append:
  "q_ordered (xs @ ys) \<longleftrightarrow> q_ordered xs \<and> q_ordered ys \<and> (\<forall>x\<in>set xs. \<forall>y\<in>set ys. uc_q y \<le> uc_q x)"
  by (simp add: q_ordered_def sorted_wrt_append)

lemma q_ordered_Cons: "q_ordered (x # xs) \<longleftrightarrow> (\<forall>y\<in>set xs. uc_q y \<le> uc_q x) \<and> q_ordered xs"
  by (simp add: q_ordered_def)

lemma q_ordered_after:
  "q_ordered xs \<Longrightarrow> z \<in> set (drop (insert_pos (\<lambda>x. uc_q x < q) xs) xs) \<Longrightarrow> uc_q z < q"
proof (induction xs)
  case (Cons x xs)
  show ?case
  proof (cases "uc_q x < q")
    case True
    with Cons.prems(2) have "z = x \<or> z \<in> set xs" by simp
    then have "uc_q z \<le> uc_q x" using Cons.prems(1) by (auto simp: q_ordered_Cons)
    with True show ?thesis by linarith
  next
    case False
    with Cons.prems(2) have "z \<in> set (drop (insert_pos (\<lambda>x. uc_q x < q) xs) xs)" by simp
    moreover have "q_ordered xs" using Cons.prems(1) by (simp add: q_ordered_Cons)
    ultimately show ?thesis using Cons.IH by simp
  qed
qed simp

lemma q_ordered_insert:
  assumes "q_ordered xs"
  shows "q_ordered (insert_nth (insert_pos (\<lambda>x. uc_q x < uc_q c) xs) c xs)"
proof -
  define i where "i = insert_pos (\<lambda>x. uc_q x < uc_q c) xs"
  have "q_ordered (take i xs @ drop i xs)" using assms by simp
  then have parts: "q_ordered (take i xs) \<and> q_ordered (drop i xs) \<and>
    (\<forall>x\<in>set (take i xs). \<forall>y\<in>set (drop i xs). uc_q y \<le> uc_q x)"
    by (rule q_ordered_append [THEN iffD1])
  have after: "uc_q y \<le> uc_q c" if "y \<in> set (drop i xs)" for y
    using q_ordered_after [OF assms, of y "uc_q c"] that by (simp add: i_def)
  have before: "uc_q c \<le> uc_q x" if "x \<in> set (take i xs)" for x
    using insert_pos_split(1) [of "\<lambda>x. uc_q x < uc_q c" xs] that by (simp add: i_def not_less)
  from parts after before show ?thesis
    by (simp add: insert_nth_def i_def [symmetric] q_ordered_append q_ordered_Cons)
qed

lemma q_ordered_remove:
  assumes "q_ordered xs"
  shows "q_ordered (remove_nth i xs)"
proof -
  have "q_ordered (take i xs @ drop i xs)" using assms by simp
  then have parts: "q_ordered (take i xs) \<and> q_ordered (drop i xs) \<and>
    (\<forall>x\<in>set (take i xs). \<forall>y\<in>set (drop i xs). uc_q y \<le> uc_q x)"
    by (rule q_ordered_append [THEN iffD1])
  have "set (drop (Suc i) xs) \<subseteq> set (drop i xs)" by (simp add: set_drop_subset_set_drop)
  moreover have "q_ordered (drop (Suc i) xs)"
    using assms by (simp add: q_ordered_def sorted_wrt_drop)
  ultimately show ?thesis
    using parts by (simp only: remove_nth_def q_ordered_append) blast
qed

lemma q_ordered_map: "(\<And>c. uc_q (f c) = uc_q c) \<Longrightarrow> q_ordered (map f cs) = q_ordered cs"
  by (simp add: q_ordered_def sorted_wrt_map)

lemma q_ordered_filter: "q_ordered cs \<Longrightarrow> q_ordered (filter P cs)"
  by (simp add: q_ordered_def sorted_wrt_filter)

subsection \<open>Properties of single operations\<close>

text \<open>
  A contact inserted with q value \<open>q\<close> goes behind every contact of at least that
  value and before every smaller one, so a record ordered by descending q stays
  ordered; the other contacts keep their order.
\<close>

theorem mem_insert_keeps_order:
  assumes "\<not> desc_time_order g" and ord: "q_ordered (contacts r)"
    and ins: "mem_insert_ucontact g r contact e q cid cs flags ua recv w = (Inr (i, r'), w')"
  shows "q_ordered (contacts r') \<and> remove_nth i (contacts r') = contacts r \<and>
    i < length (contacts r') \<and> uc_q (contacts r' ! i) = q \<and>
    (\<forall>k < i. uc_q (contacts r' ! k) \<ge> q)"
proof -
  let ?i = "insert_pos (\<lambda>x. uc_q x < q) (contacts r)"
  obtain co w1 where
    new: "new_ucontact g (ur_domain r) (ur_aor r) contact e q cid cs flags ua recv w = (co, w1)"
    by fastforce
  with assms obtain c where co: "co = Some c" 
    and i: "i = ?i" and r': "contacts r' = insert_nth ?i c (contacts r)"
    by (cases co) (auto simp: mem_insert_ucontact_def Let_def)
  from new_ucontactD(1) [OF new [unfolded co]] have q: "uc_q c = q" by simp
  have le: "?i \<le> length (contacts r)" by (rule insert_pos_split)
  have "q_ordered (contacts r')" using q_ordered_insert [OF ord, of c] by (simp add: r' q)
  moreover have "uc_q (contacts r ! k) \<ge> q" if "k < ?i" for k
  proof -
    have "contacts r ! k \<in> set (take ?i (contacts r))"
      using le that by (force simp: in_set_conv_nth)
    then show ?thesis
      using insert_pos_split(1) [of "\<lambda>x. uc_q x < q" "contacts r"] by fastforce
  qed
  moreover have "length (take ?i (contacts r)) = ?i" using le by simp
  ultimately show ?thesis
    using le q unfolding i r' insert_nth_def remove_nth_def
    by (simp add: nth_append del: length_take)
qed

lemma wb_timer_urecord:
  assumes "cfg_db_mode g = WRITE_BACK" and "\<And>c. c \<in> set (contacts r) \<Longrightarrow> aor_ok g (uc_aor c)"
  shows "\<exists>w'. timer_urecord g r w =
      Some (r\<lparr>contacts := map synced (filter (live_contact g) (contacts r))\<rparr>, w',
            length (filter (\<lambda>c. \<not> live_contact g c) (contacts r))) \<and>
    dblog w' = dblog w @ concat (map (wb_stmts g) (contacts r)) \<and>
    shm_live w' = shm_live w -
      sum_list (map contact_blocks (filter (\<lambda>c. \<not> live_contact g c) (contacts r)))"
  using wb.loop_spec [of "contacts r" g w r] assms
  by (auto simp: timer_urecord_def timer_result_def)

text \<open>
  C36: In write-back mode one timer pass over a record always completes. It drops exactly
  the expired contacts and frees exactly their blocks, leaves every other contact in
  state \<open>CS_SYNC\<close>, and sends for each contact, in list order, the one statement its
  state asks for: insert a new one, update a dirty one, delete an expired one that the
  database has seen, nothing otherwise.
\<close>

theorem wb_timer_flushes:
  assumes "cfg_db_mode g = WRITE_BACK" and "\<And>c. c \<in> set (contacts r) \<Longrightarrow> aor_ok g (uc_aor c)"
  shows "\<exists>w'. timer_urecord g r w =
      Some (r\<lparr>contacts := map synced (filter (live_contact g) (contacts r))\<rparr>, w',
            length (filter (\<lambda>c. \<not> live_contact g c) (contacts r))) \<and>
    dblog w' = dblog w @ concat (map (wb_stmts g) (contacts r)) \<and>
    shm_live w' = shm_live w -
      sum_list (map contact_blocks (filter (\<lambda>c. \<not> live_contact g c) (contacts r)))"
  using assms by (rule wb_timer_urecord)

text \<open>
  A second write-back pass at the same time finds nothing to do: it changes neither
  the record nor the database, and expires nothing.
\<close>

theorem wb_timer_second_pass_idle:
  assumes "cfg_db_mode g = WRITE_BACK" and "\<And>c. c \<in> set (contacts r) \<Longrightarrow> aor_ok g (uc_aor c)"
    and "timer_urecord g r w = Some (r', w', n)"
  shows "\<exists>w''. timer_urecord g r' w' = Some (r', w'', 0) \<and> dblog w'' = dblog w' \<and>
    shm_live w'' = shm_live w'"
proof -
  from wb_timer_urecord [where r = r and w = w, OF assms(1,2)] assms(3)
  have r': "contacts r' = map synced (filter (live_contact g) (contacts r))" by auto
  then have all: "live_contact g c \<and> uc_state c = CS_SYNC \<and> aor_ok g (uc_aor c)"
    if "c \<in> set (contacts r')" for c
    using that assms(2) by auto
  have "filter (live_contact g) (contacts r') = contacts r'"
    and "filter (\<lambda>c. \<not> live_contact g c) (contacts r') = []"
    and "map synced (contacts r') = contacts r'"
    and "concat (map (wb_stmts g) (contacts r')) = []"
    using all by (auto simp: filter_empty_conv synced_def synced_id wb_stmts_def
        intro!: filter_True map_idI)
  then show ?thesis
    using wb_timer_urecord [where r = r' and w = w', OF assms(1)] all by auto
qed

subsection \<open>Examples\<close>

theorem insert_links_refines_witness:
  "\<exists>h f. mem_insert_links 1 no_links None (\<lambda>_. 0) 5 False 3 = Some (h, f) \<and> dlist h f [3]"
  using insert_links_refines [of no_links None "[]" 3 1 "\<lambda>_. 0" 5 False]
  by (simp add: no_links_def dlist_def insert_nth_def)

definition demo_record :: "ucontact list \<Rightarrow> urecord" where
  "demo_record cs = \<lparr>ur_domain = ''location'', ur_aor = ''bob'', contacts = cs, watchers = []\<rparr>"

theorem mem_insert_keeps_order_witness:
  "\<exists>i r w. mem_insert_ucontact (demo_cfg NO_DB) (demo_record [demo_contact ''sip:a'' 500 ''c1'' 200])
     ''sip:b'' 300 700 ''c2'' 1 0 ''ua'' None demo_world = (Inr (i, r), w) \<and> q_ordered (contacts r)"
proof -
  let ?r0 = "demo_record [demo_contact ''sip:a'' 500 ''c1'' 200]"
  let ?res = "mem_insert_ucontact (demo_cfg NO_DB) ?r0 ''sip:b'' 300 700 ''c2'' 1 0 ''ua'' None demo_world"
  have "?res = (Inr (fst (projr (fst ?res)), snd (projr (fst ?res))), snd ?res)" by code_simp
  moreover have "q_ordered (contacts ?r0)" "\<not> desc_time_order (demo_cfg NO_DB)"
    by (simp_all add: demo_record_def q_ordered_def demo_cfg_def)
  ultimately show ?thesis using mem_insert_keeps_order by blast
qed

theorem wb_timer_flushes_witness:
  "\<exists>w. timer_urecord (demo_cfg WRITE_BACK)
     (demo_record [demo_contact ''sip:a'' 500 ''c1'' 200, demo_contact ''sip:b'' 400 ''c2'' 50]) demo_world =
     Some (demo_record [synced (demo_contact ''sip:a'' 500 ''c1'' 200)], w, 1) \<and> length (dblog w) = 1"
proof -
  let ?r = "demo_record [demo_contact ''sip:a'' 500 ''c1'' 200, demo_contact ''sip:b'' 400 ''c2'' 50]"
  have "?r\<lparr>contacts := map synced (filter (live_contact (demo_cfg WRITE_BACK)) (contacts ?r))\<rparr> =
      demo_record [synced (demo_contact ''sip:a'' 500 ''c1'' 200)]"
    "length (filter (\<lambda>c. \<not> live_contact (demo_cfg WRITE_BACK) c) (contacts ?r)) = 1"
    "length (dblog demo_world @ concat (map (wb_stmts (demo_cfg WRITE_BACK)) (contacts ?r))) = 1"
    by code_simp+
  with wb_timer_flushes [of "demo_cfg WRITE_BACK" ?r demo_world] demo_aor_ok show ?thesis
    by (fastforce simp: demo_cfg_def)
qed

theorem wb_timer_second_pass_idle_witness:
  "\<exists>w w'. timer_urecord (demo_cfg WRITE_BACK)
     (demo_record [demo_contact ''sip:a'' 500 ''c1'' 200]) demo_world =
     Some (demo_record [synced (demo_contact ''sip:a'' 500 ''c1'' 200)], w, 0) \<and>
   timer_urecord (demo_cfg WRITE_BACK) (demo_record [synced (demo_contact ''sip:a'' 500 ''c1'' 200)]) w =
     Some (demo_record [synced (demo_contact ''sip:a'' 500 ''c1'' 200)], w', 0) \<and> dblog w' = dblog w"
proof -
  let ?r = "demo_record [demo_contact ''sip:a'' 500 ''c1'' 200]"
  let ?s = "demo_record [synced (demo_contact ''sip:a'' 500 ''c1'' 200)]"
  let ?w = "fst (snd (the (timer_urecord (demo_cfg WRITE_BACK) ?r demo_world)))"
  have t: "timer_urecord (demo_cfg WRITE_BACK) ?r demo_world = Some (?s, ?w, 0)" by code_simp
  have "cfg_db_mode (demo_cfg WRITE_BACK) = WRITE_BACK" by (simp add: demo_cfg_def)
  from wb_timer_second_pass_idle [OF this demo_aor_ok t] t show ?thesis by blast
qed

end
