(* ===== verification/Usrloc_History.thy ===== *)
theory Usrloc_History
  imports Urecord
begin

section \<open>Histories of a record of the user location cache\<close>

text \<open>
  The life of one record as a step relation: contacts are inserted, updated and
  deleted by the registrar and the timer runs. The invariant ties the contacts in
  memory to the shared memory they own and to the statements the database has
  received. The registrar's updates and inserts here leave the memory-only flag unset
  (that flag takes a contact out of the database mirror altogether).
\<close>

inductive rec_step :: "cfg \<Rightarrow> urecord \<times> world \<Rightarrow> urecord \<times> world \<Rightarrow> bool" for g where
  insert: "insert_ucontact g r contact e q cid cs flags ua recv w = Some (Inr (i, r'), w') \<Longrightarrow>
     flags AND FL_MEM = 0 \<Longrightarrow> rec_step g (r, w) (r', w')"
| insert_fails: "insert_ucontact g r contact e q cid cs flags ua recv w = Some (Inl e', w') \<Longrightarrow>
     rec_step g (r, w) (r, w')"
| update: "i < length (contacts r) \<Longrightarrow>
     update_ucontact g (contacts r ! i) e q cid cs fset fres ua recv w = Some (ret, c', w') \<Longrightarrow>
     fset AND FL_MEM = 0 \<Longrightarrow>
     rec_step g (r, w) (r\<lparr>contacts := (contacts r)[i := c']\<rparr>, w')"
| delete: "i < length (contacts r) \<Longrightarrow> delete_ucontact g r i w = Some (r', w') \<Longrightarrow>
     rec_step g (r, w) (r', w')"
| timer: "timer_urecord g r w = Some (r', w', n) \<Longrightarrow> rec_step g (r, w) (r', w')"

inductive rec_reachable :: "cfg \<Rightarrow> urecord \<times> world \<Rightarrow> urecord \<times> world \<Rightarrow> bool" for g s0 where
  start: "rec_reachable g s0 s0"
| step: "rec_reachable g s0 s \<Longrightarrow> rec_step g s t \<Longrightarrow> rec_reachable g s0 t"

text \<open>The database has been sent an insert for the contact's address.\<close>

definition inserted :: "world \<Rightarrow> ucontact \<Rightarrow> bool" where
  "inserted w c \<longleftrightarrow> (\<exists>row. DbInsert row \<in> set (dblog w) \<and> row_contact row = dat (uc_c c))"

text \<open>
  Some statement sent to the database carries the contact's current values. (An update
  statement leaves out the field that selects the row.)
\<close>

definition carries :: "stmt \<Rightarrow> ucontact \<Rightarrow> bool" where
  "carries s c \<longleftrightarrow>
     (case s of
        DbInsert row \<Rightarrow> row_values row = contact_values c
      | DbUpdate v wh \<Rightarrow> v = (contact_values c)\<lparr>v_contact := None\<rparr> \<or> v = (contact_values c)\<lparr>v_callid := None\<rparr>
      | _ \<Rightarrow> False)"

definition values_sent :: "world \<Rightarrow> ucontact \<Rightarrow> bool" where
  "values_sent w c \<longleftrightarrow> list_ex (\<lambda>s. carries s c) (dblog w)"

text \<open>
  In write-back mode a contact marked as stored has had its values sent, unless an
  allocation failed half way through an update, or it has been marked deleted.
\<close>

definition flushed :: "cfg \<Rightarrow> world \<Rightarrow> ucontact \<Rightarrow> bool" where
  "flushed g w c \<longleftrightarrow>
     (cfg_db_mode g = WRITE_BACK \<and> (\<forall>n. shm_ok g n) \<and> uc_state c = CS_SYNC \<and> uc_expires c \<noteq> 0 \<longrightarrow>
        values_sent w c)"

definition mirror_ok :: "cfg \<Rightarrow> world \<Rightarrow> ucontact \<Rightarrow> bool" where
  "mirror_ok g w c \<longleftrightarrow>
     contact_ok c \<and> \<not> in_memory_only c \<and>
     (case cfg_db_mode g of
        NO_DB \<Rightarrow> uc_state c = CS_NEW
      | WRITE_THROUGH \<Rightarrow> uc_state c = CS_SYNC \<and> inserted w c
      | WRITE_BACK \<Rightarrow> uc_state c \<noteq> CS_NEW \<longrightarrow> inserted w c)"

definition rec_inv :: "cfg \<Rightarrow> int \<Rightarrow> urecord \<times> world \<Rightarrow> bool" where
  "rec_inv g base s \<longleftrightarrow>
     (\<forall>c \<in> set (contacts (fst s)). mirror_ok g (snd s) c \<and> uc_aor c = ur_aor (fst s)) \<and>
     (\<forall>c \<in> set (contacts (fst s)). flushed g (snd s) c) \<and>
     aor_ok g (ur_aor (fst s)) \<and>
     shm_live (snd s) = base + sum_list (map contact_blocks (contacts (fst s)))"

subsection \<open>Monotonicity of the log and of the mirror\<close>

lemma inserted_mono: "inserted w c \<Longrightarrow> set (dblog w) \<subseteq> set (dblog w') \<Longrightarrow> inserted w' c"
  by (auto simp: inserted_def)

lemma mirror_mono: "mirror_ok g w c \<Longrightarrow> set (dblog w) \<subseteq> set (dblog w') \<Longrightarrow> mirror_ok g w' c"
  by (auto simp: mirror_ok_def intro: inserted_mono split: db_mode.splits)

lemma flushed_mono: "flushed g w c \<Longrightarrow> set (dblog w) \<subseteq> set (dblog w') \<Longrightarrow> flushed g w' c"
  by (auto simp: flushed_def values_sent_def list_ex_iff)

lemma inserted_cong: "uc_c c' = uc_c c \<Longrightarrow> inserted w c' = inserted w c"
  by (simp add: inserted_def)

lemma and_or_flag:
  fixes a b m r :: u32
  assumes "a AND m = 0" "b AND m = 0"
  shows "((a OR b) AND NOT r) AND m = 0"
proof (rule bit_word_eqI)
  fix n assume "n < LENGTH(32)"
  have "\<not> (bit a n \<and> bit m n)" "\<not> (bit b n \<and> bit m n)"
    using assms by (metis bit_and_iff bit_0_eq bot_apply bot_bool_def)+
  then show "bit (((a OR b) AND NOT r) AND m) n = bit (0 :: u32) n"
    by (auto simp: bit_and_iff bit_or_iff bit_not_iff)
qed

lemma and_clear_flag:
  fixes a m r :: u32
  assumes "a AND m = 0"
  shows "(a AND NOT r) AND m = 0"
  using and_or_flag [OF assms, of 0 r] by simp

lemma insert_stmt_contact:
  assumes "aor_ok g (uc_aor c)"
  shows "\<exists>row. insert_stmt g c = Some (DbInsert row) \<and> row_contact row = dat (uc_c c)"
  using aor_parts_total [OF assms] by (auto simp: insert_stmt_def)

lemma sum_blocks_update:
  "i < length cs \<Longrightarrow> sum_list (map contact_blocks (cs[i := c])) =
     sum_list (map contact_blocks cs) - contact_blocks (cs ! i) + contact_blocks c"
  by (induction cs arbitrary: i) (auto split: nat.split)

lemma sum_blocks_insert:
  "i \<le> length cs \<Longrightarrow> sum_list (map contact_blocks (insert_nth i c cs)) =
     sum_list (map contact_blocks cs) + contact_blocks c"
proof -
  have "sum_list (map contact_blocks cs) = sum_list (map contact_blocks (take i cs @ drop i cs))" by simp
  then show ?thesis by (simp only: insert_nth_def map_append sum_list_append list.map sum_list.Cons)
qed

lemma sum_blocks_remove:
  assumes "i < length cs"
  shows "sum_list (map contact_blocks (remove_nth i cs)) =
     sum_list (map contact_blocks cs) - contact_blocks (cs ! i)"
proof -
  have "sum_list (map contact_blocks cs) =
      sum_list (map contact_blocks (take i cs @ cs ! i # drop (Suc i) cs))"
    using id_take_nth_drop [OF assms] by simp
  then show ?thesis by (simp only: remove_nth_def map_append sum_list_append list.map sum_list.Cons)
qed

lemma set_insert_nth: "set (insert_nth i c cs) = insert c (set cs)"
proof -
  have "set cs = set (take i cs @ drop i cs)" by simp
  then show ?thesis by (auto simp: insert_nth_def simp del: append_take_drop_id)
qed

lemma set_remove_nth: "set (remove_nth i cs) \<subseteq> set cs"
  by (auto simp: remove_nth_def dest: in_set_takeD in_set_dropD)

subsection \<open>Each operation keeps the invariant\<close>

lemma insert_nth_at:
  "i \<le> length xs \<Longrightarrow> insert_nth i c xs ! i = c"
  "i \<le> length xs \<Longrightarrow> (insert_nth i c xs)[i := d] = insert_nth i d xs"
  by (simp_all add: insert_nth_def nth_append list_update_append min_def)

lemma mem_insertD:
  assumes "mem_insert_ucontact g r contact e q cid cs flags ua recv w = (Inr (i, r'), w')"
  obtains c where "i \<le> length (contacts r)" "r' = r\<lparr>contacts := insert_nth i c (contacts r)\<rparr>"
    "new_ucontact g (ur_domain r) (ur_aor r) contact e q cid cs flags ua recv w = (Some c, w')"
proof -
  obtain co w1 where
    new: "new_ucontact g (ur_domain r) (ur_aor r) contact e q cid cs flags ua recv w = (co, w1)"
    by fastforce
  with assms show thesis
    using that insert_pos_split(3) [of "\<lambda>x. uc_q x < q" "contacts r"]
    by (cases co) (auto simp: mem_insert_ucontact_def Let_def)
qed

lemma mem_insert_failD:
  assumes "mem_insert_ucontact g r contact e q cid cs flags ua recv w = (Inl x, w')"
  shows "shm_live w' = shm_live w \<and> dblog w' = dblog w"
proof -
  obtain co w1 where
    new: "new_ucontact g (ur_domain r) (ur_aor r) contact e q cid cs flags ua recv w = (co, w1)"
    by fastforce
  with assms show ?thesis using new_ucontactD(2) new_ucontact_dblog [OF new]
    by (cases co) (auto simp: mem_insert_ucontact_def Let_def)
qed

lemma rec_invI:
  assumes "\<And>c. c \<in> set (contacts r) \<Longrightarrow> mirror_ok g w c \<and> uc_aor c = ur_aor r \<and> flushed g w c"
    "aor_ok g (ur_aor r)" "shm_live w = base + sum_list (map contact_blocks (contacts r))"
  shows "rec_inv g base (r, w)"
  using assms by (simp add: rec_inv_def)

lemma insert_keeps_inv:
  assumes inv: "rec_inv g base (r, w)" and fl: "flags AND FL_MEM = 0"
    and ins: "insert_ucontact g r contact e q cid cs flags ua recv w = Some (Inr (i, r'), w')"
  shows "rec_inv g base (r', w')"
proof -
  obtain x w1 where m: "mem_insert_ucontact g r contact e q cid cs flags ua recv w = (x, w1)"
    by fastforce
  from ins m obtain r1 where x: "x = Inr (i, r1)"
    by (cases x) (auto simp: insert_ucontact_def Let_def split: if_splits)
  from m x obtain c where i: "i \<le> length (contacts r)"
    and r1: "r1 = r\<lparr>contacts := insert_nth i c (contacts r)\<rparr>"
    and new: "new_ucontact g (ur_domain r) (ur_aor r) contact e q cid cs flags ua recv w = (Some c, w1)"
    by (auto elim: mem_insertD)
  note c = new_ucontactD(1) [OF new] and l1 = new_ucontact_dblog [OF new]
  from inv have aor: "aor_ok g (ur_aor r)" by (simp add: rec_inv_def)
  let ?w2 = "callbacks_if_any g UL_CONTACT_INSERT c
      (notify_watchers r1 c (if e > 0 then PRES_ONLINE else PRES_OFFLINE) w1)"
  define c' where "c' = (if cfg_db_mode g = WRITE_THROUGH then c\<lparr>uc_state := CS_SYNC\<rparr> else c)"
  have aor_c: "aor_ok g (uc_aor c)" using aor c by simp
  obtain row where row: "insert_stmt g c = Some (DbInsert row)" "row_contact row = dat (uc_c c)"
    using insert_stmt_contact [OF aor_c] by blast
  obtain ret w3 where db: "db_insert_ucontact g c ?w2 = Some (ret, w3)"
    "dblog w3 = dblog ?w2 @ sent c (insert_stmt g c)" "shm_live w3 = shm_live ?w2"
    using db_access_total(1) [OF aor_c, of ?w2] by blast
  have mem: "\<not> in_memory_only c" using fl c by (simp add: in_memory_only_def)
  have res: "contacts r' = insert_nth i c' (contacts r) \<and> ur_aor r' = ur_aor r \<and>
      shm_live w' = shm_live w1 \<and> set (dblog w) \<subseteq> set (dblog w') \<and>
      (cfg_db_mode g = WRITE_THROUGH \<longrightarrow> inserted w' c)"
    using ins m x i r1 db l1 row mem
    by (auto simp: insert_ucontact_def Let_def insert_nth_at c'_def inserted_def sent_def split: if_splits)
  have blocks: "contact_blocks c' = contact_blocks c" by (simp add: c'_def contact_blocks_def)
  have "mirror_ok g w' c'"
    using c mem res by (auto simp: c'_def mirror_ok_def contact_ok_def in_memory_only_def inserted_def
        split: db_mode.split)
  moreover have "uc_aor c' = ur_aor r" using c by (simp add: c'_def)
  moreover have "flushed g w' c'" using c by (simp add: c'_def flushed_def)
  ultimately show ?thesis
    using inv res i c blocks
    by (auto simp: rec_inv_def set_insert_nth sum_blocks_insert intro: mirror_mono flushed_mono)
qed

lemma insert_fail_keeps_inv:
  assumes inv: "rec_inv g base (r, w)"
    and ins: "insert_ucontact g r contact e q cid cs flags ua recv w = Some (Inl x, w')"
  shows "rec_inv g base (r, w')"
proof -
  obtain y w1 where m: "mem_insert_ucontact g r contact e q cid cs flags ua recv w = (y, w1)"
    by fastforce
  from ins m have "w' = w1" and "\<exists>z. y = Inl z"
    by (cases y; auto simp: insert_ucontact_def Let_def split: if_splits)+
  with m inv show ?thesis
    by (auto simp: rec_inv_def dest!: mem_insert_failD intro: mirror_mono flushed_mono)
qed

lemma st_update_simps [simp]:
  "uc_c (st_update_ucontact g c) = uc_c c" "uc_aor (st_update_ucontact g c) = uc_aor c"
  "uc_flags (st_update_ucontact g c) = uc_flags c" "contact_ok (st_update_ucontact g c) = contact_ok c"
  "contact_blocks (st_update_ucontact g c) = contact_blocks c"
  "uc_callid (st_update_ucontact g c) = uc_callid c"
  by (simp_all add: st_update_ucontact_def contact_ok_def contact_blocks_def split: cstate.split)

lemma mirror_st_update: "mirror_ok g w c \<Longrightarrow> mirror_ok g w (st_update_ucontact g c)"
  unfolding mirror_ok_def in_memory_only_def st_update_simps inserted_def
  by (simp add: st_update_ucontact_def split: cstate.split db_mode.splits)

lemma mem_update_succeeds:
  assumes "mem_update_ucontact g c e q cid cs fset fres ua recv w = Some (r, c', w')" "\<forall>n. shm_ok g n"
  shows "r = 0"
  using assms
  by (auto simp: mem_update_ucontact_def store_recv_def store_str_def dup_str_def shm_malloc_def Let_def
      split: if_splits option.splits bind_splits)

lemma update_keeps_inv:
  assumes inv: "rec_inv g base (r, w)" and i: "i < length (contacts r)" and fl: "fset AND FL_MEM = 0"
    and upd: "update_ucontact g (contacts r ! i) e q cid cs fset fres ua recv w = Some (ret, c', w')"
  shows "rec_inv g base (r\<lparr>contacts := (contacts r)[i := c']\<rparr>, w')"
proof -
  let ?c = "contacts r ! i"
  let ?w1 = "callbacks_if_any g UL_CONTACT_UPDATE ?c w"
  from i have "?c \<in> set (contacts r)" by simp
  with inv have c: "mirror_ok g w ?c" "uc_aor ?c = ur_aor r" and aor: "aor_ok g (ur_aor r)"
    by (auto simp: rec_inv_def)
  then have ok: "contact_ok ?c" and mem: "uc_flags ?c AND FL_MEM = 0"
    by (simp_all add: mirror_ok_def in_memory_only_def)
  obtain r1 c1 w2 where m: "mem_update_ucontact g ?c e q cid cs fset fres ua recv ?w1 = Some (r1, c1, w2)"
    and ok1: "contact_ok c1" "shm_live w2 - shm_live ?w1 = contact_blocks c1 - contact_blocks ?c"
    using mem_update_ucontact_safe [OF ok] by blast
  note fr = mem_update_frame [OF m] and log = mem_update_dblog [OF m]
  have mem1: "uc_flags c1 AND FL_MEM = 0" using fr mem fl and_or_flag [OF mem fl] by auto
  have mir1: "mirror_ok g w2 c1"
    using c(1) ok1 mem1 fr log
    by (auto simp: mirror_ok_def in_memory_only_def inserted_def split: db_mode.splits)
  have aor1: "aor_ok g (uc_aor (st_update_ucontact g c1))" using fr c aor by simp
  obtain rd w3 where db: "db_update_ucontact g (st_update_ucontact g c1) 0 w2 = Some (rd, w3)"
    "dblog w3 = dblog w2 @ sent (st_update_ucontact g c1) (update_stmt g (st_update_ucontact g c1) 0)"
    "shm_live w3 = shm_live w2"
    using db_access_total(2) [OF aor1] by blast
  have res: "(c' = c1 \<or> c' = st_update_ucontact g c1) \<and> shm_live w' = shm_live w2 \<and>
      set (dblog w2) \<subseteq> set (dblog w')"
    using upd m db by (auto simp: update_ucontact_def Let_def split: if_splits)
  have "flushed g w' c'"
  proof (cases "r1 < 0")
    case False
    then have "c' = st_update_ucontact g c1" using upd m db by (auto simp: update_ucontact_def Let_def split: if_splits)
    then show ?thesis by (simp add: flushed_def st_update_ucontact_def split: cstate.split)
  next
    case True
    then show ?thesis using mem_update_succeeds [OF m] by (auto simp: flushed_def)
  qed
  moreover have "mirror_ok g w' c'"
    using res mirror_mono [OF mir1] mirror_mono [OF mirror_st_update [OF mir1]] by auto
  moreover have "uc_aor c' = ur_aor r" "contact_blocks c' = contact_blocks c1"
    using res fr c by auto
  moreover have "set ((contacts r)[i := c']) \<subseteq> insert c' (set (contacts r))"
    by (rule set_update_subset_insert)
  ultimately show ?thesis
    using inv res i ok1 log
    by (auto simp: rec_inv_def sum_blocks_update intro: mirror_mono flushed_mono)
qed

lemma flag_clear_zero: "uc_flags c AND FL_MEM = 0 \<Longrightarrow> (uc_flags c AND NOT FL_PERMANENT) AND FL_MEM = 0"
  by (rule and_clear_flag)

lemma delete_keeps_inv:
  assumes inv: "rec_inv g base (r, w)" and i: "i < length (contacts r)"
    and del: "delete_ucontact g r i w = Some (r', w')"
  shows "rec_inv g base (r', w')"
proof -
  let ?c = "contacts r ! i"
  let ?w1 = "notify_watchers r ?c PRES_OFFLINE (callbacks_if_any g UL_CONTACT_DELETE ?c w)"
  obtain ret c' where st: "st_delete_ucontact g ?c = (ret, c')" by fastforce
  let ?r1 = "r\<lparr>contacts := (contacts r)[i := c']\<rparr>"
  from i have "?c \<in> set (contacts r)" by simp
  with inv have c: "mirror_ok g w ?c" "uc_aor ?c = ur_aor r" and aor: "aor_ok g (ur_aor r)"
    by (auto simp: rec_inv_def)
  then have mem: "uc_flags ?c AND FL_MEM = 0" by (simp add: mirror_ok_def in_memory_only_def)
  have c': "uc_c c' = uc_c ?c" "uc_aor c' = uc_aor ?c" "contact_blocks c' = contact_blocks ?c"
    "mirror_ok g w c'"
    using st c(1) flag_clear_zero [OF mem]
    by (auto simp: st_delete_ucontact_def mirror_ok_def contact_blocks_def contact_ok_def
        in_memory_only_def inserted_def split: cstate.splits if_splits db_mode.splits)
  have "flushed g w c'"
    using st inv \<open>?c \<in> set (contacts r)\<close>
    by (auto simp: st_delete_ucontact_def flushed_def rec_inv_def split: cstate.splits if_splits)
  then have inv1: "rec_inv g base (?r1, w)"
    using inv c' c i set_update_subset_insert [of "contacts r" i c']
    by (auto simp: rec_inv_def sum_blocks_update)
  have aor_c: "aor_ok g (uc_aor c')" using aor c c' by simp
  obtain rd w2 where db: "db_delete_ucontact g c' ?w1 = Some (rd, w2)"
    "dblog w2 = dblog ?w1 @ sent c' (delete_stmt g c')" "shm_live w2 = shm_live ?w1"
    using db_access_total(3) [OF aor_c] by blast
  show ?thesis
  proof (cases "ret > 0")
    case False
    then have "r' = ?r1" "w' = ?w1" using del st by (simp_all add: delete_ucontact_def Let_def)
    then show ?thesis using inv1 by (auto simp: rec_inv_def intro: mirror_mono flushed_mono)
  next
    case True
    then have r': "contacts r' = remove_nth i (contacts ?r1)" "ur_aor r' = ur_aor r"
      and w': "shm_live w' = shm_live w - contact_blocks c'" "set (dblog w) \<subseteq> set (dblog w')"
      using del st db i
      by (auto simp: delete_ucontact_def Let_def mem_delete_ucontact_def mem_remove_ucontact_def
          free_ucontact_live split: if_splits)
    then show ?thesis
      using inv1 i set_remove_nth [of i "contacts ?r1"]
      by (auto simp: rec_inv_def sum_blocks_remove intro: mirror_mono flushed_mono)
  qed
qed

lemma sum_blocks_filter:
  "sum_list (map contact_blocks (filter P cs)) + sum_list (map contact_blocks (filter (\<lambda>c. \<not> P c) cs)) =
     sum_list (map contact_blocks cs)"
  by (induction cs) auto

lemma synced_keeps:
  "contact_ok (synced c) = contact_ok c" "contact_blocks (synced c) = contact_blocks c"
  "uc_c (synced c) = uc_c c"
  by (simp_all add: synced_def contact_ok_def contact_blocks_def)

text \<open>A timer result keeps the invariant if every kept contact stays mirrored.\<close>

lemma timer_result_keeps:
  assumes res: "timer_result g kept stmts (contacts r) w (Some (cs', w', n))"
    and inv: "rec_inv g base (r, w)"
    and kept: "\<And>c. uc_aor (kept c) = uc_aor c" "\<And>c. contact_blocks (kept c) = contact_blocks c"
    and mir: "\<And>c. c \<in> set (contacts r) \<Longrightarrow> live_contact g c \<Longrightarrow> mirror_ok g w c \<Longrightarrow> flushed g w c \<Longrightarrow>
      set (stmts c) \<subseteq> set (dblog w') \<Longrightarrow> set (dblog w) \<subseteq> set (dblog w') \<Longrightarrow>
      mirror_ok g w' (kept c) \<and> flushed g w' (kept c)"
  shows "rec_inv g base (r\<lparr>contacts := cs'\<rparr>, w')"
proof -
  from res have cs': "cs' = map kept (filter (live_contact g) (contacts r))"
    and log: "dblog w' = dblog w @ concat (map stmts (contacts r))"
    and shm: "shm_live w' = shm_live w -
      sum_list (map contact_blocks (filter (\<lambda>c. \<not> live_contact g c) (contacts r)))"
    by (auto simp: timer_result_def)
  have sub: "set (stmts c) \<subseteq> set (dblog w')" if "c \<in> set (contacts r)" for c
    using that by (auto simp: log)
  have sub0: "set (dblog w) \<subseteq> set (dblog w')" by (auto simp: log)
  have each: "mirror_ok g w' c \<and> uc_aor c = ur_aor r \<and> flushed g w' c" if "c \<in> set cs'" for c
  proof -
    from that cs' obtain d where d: "d \<in> set (contacts r)" "live_contact g d" "c = kept d" by auto
    with inv have "mirror_ok g w d" "uc_aor d = ur_aor r" "flushed g w d" by (simp_all add: rec_inv_def)
    with d mir [OF d(1,2) _ _ sub [OF d(1)] sub0] kept show ?thesis by simp
  qed
  have "sum_list (map contact_blocks cs') =
      sum_list (map contact_blocks (filter (live_contact g) (contacts r)))"
    by (simp add: cs' comp_def kept(2))
  then show ?thesis
    using each inv shm sum_blocks_filter [of "live_contact g" "contacts r"]
    by (auto simp: rec_inv_def)
qed

lemma contact_values_synced [simp]: "contact_values (synced c) = contact_values c"
  by (simp add: contact_values_def synced_def)

lemma stmt_carries:
  assumes "aor_ok g (uc_aor c)"
  shows "\<exists>s. insert_stmt g c = Some s \<and> carries s c" "\<exists>s. update_stmt g c flag = Some s \<and> carries s c"
proof -
  obtain u d where p: "aor_parts g (uc_aor c) = Some (u, d)" using aor_parts_total [OF assms] by auto
  show "\<exists>s. insert_stmt g c = Some s \<and> carries s c" by (simp add: p insert_stmt_def carries_def)
  show "\<exists>s. update_stmt g c flag = Some s \<and> carries s c"
    by (cases "flag = 1") (simp_all add: p update_stmt_def carries_def)
qed

lemma synced_flushed:
  assumes aor: "aor_ok g (uc_aor c)" and live: "live_contact g c" and mem: "\<not> in_memory_only c"
    and fl: "flushed g w c" and stm: "set (wb_stmts g c) \<subseteq> set (dblog w')" and sub: "set (dblog w) \<subseteq> set (dblog w')"
  shows "flushed g w' (synced c)"
proof -
  have aor': "aor_ok g (uc_aor (synced c))" using aor by simp
  have car: "carries s (synced c) = carries s c" for s by (cases s) (simp_all add: carries_def)
  obtain s1 s2 where s: "insert_stmt g (synced c) = Some s1" "update_stmt g (synced c) 1 = Some s2"
    "carries s1 c" "carries s2 c"
    using stmt_carries(1) [OF aor'] stmt_carries(2) [OF aor', of 1] car by auto
  show ?thesis
  proof (cases "uc_state c")
    case CS_SYNC
    then have "synced c = c" by (simp add: synced_def)
    then show ?thesis using flushed_mono [OF fl sub] by simp
  qed (use s stm live mem car in \<open>auto simp: wb_stmts_def sent_def flushed_def values_sent_def list_ex_iff\<close>)
qed

lemma timer_keeps_inv:
  assumes inv: "rec_inv g base (r, w)" and tm: "timer_urecord g r w = Some (r', w', n)"
  shows "rec_inv g base (r', w')"
proof -
  from inv have aors: "\<And>c. c \<in> set (contacts r) \<Longrightarrow> aor_ok g (uc_aor c)"
    by (auto simp: rec_inv_def)
  from tm obtain cs' where r': "r' = r\<lparr>contacts := cs'\<rparr>"
    and run: "(case cfg_db_mode g of NO_DB \<Rightarrow> nodb_timer g r (contacts r) w
        | WRITE_THROUGH \<Rightarrow> wt_timer g r (contacts r) w
        | WRITE_BACK \<Rightarrow> wb_timer g r (contacts r) w) = Some (cs', w', n)"
    by (auto simp: timer_urecord_def)
  show ?thesis
  proof (cases "cfg_db_mode g")
    case NO_DB
    then have "timer_result g (\<lambda>c. c) (no_stmts g) (contacts r) w (Some (cs', w', n))"
      using nodb.loop_spec [where cs = "contacts r" and g = g and w = w and r = r] aors run by simp
    then show ?thesis unfolding r' by (rule timer_result_keeps) (auto simp: inv intro: mirror_mono flushed_mono)
  next
    case WRITE_THROUGH
    then have "timer_result g (\<lambda>c. c) (wt_stmts g) (contacts r) w (Some (cs', w', n))"
      using wt.loop_spec [where cs = "contacts r" and g = g and w = w and r = r] aors run by simp
    then show ?thesis unfolding r' by (rule timer_result_keeps) (auto simp: inv intro: mirror_mono flushed_mono)
  next
    case WRITE_BACK
    then have res: "timer_result g synced (wb_stmts g) (contacts r) w (Some (cs', w', n))"
      using wb.loop_spec [where cs = "contacts r" and g = g and w = w and r = r] aors run by simp
    have mir: "mirror_ok g w' (synced c) \<and> flushed g w' (synced c)"
      if c: "c \<in> set (contacts r)" and live: "live_contact g c" and m: "mirror_ok g w c" and fl: "flushed g w c"
        and stm: "set (wb_stmts g c) \<subseteq> set (dblog w')" and sub: "set (dblog w) \<subseteq> set (dblog w')" for c
    proof -
      have mem: "\<not> in_memory_only c" using m by (simp add: mirror_ok_def)
      have "inserted w' (synced c)"
      proof (cases "uc_state c = CS_NEW")
        case True
        obtain row where "insert_stmt g (synced c) = Some (DbInsert row)"
          "row_contact row = dat (uc_c (synced c))"
          using insert_stmt_contact [of g "synced c"] aors [OF c] by auto
        with stm live True mem show ?thesis by (auto simp: wb_stmts_def sent_def inserted_def)
      next
        case False
        with m WRITE_BACK have "inserted w c" by (simp add: mirror_ok_def)
        then show ?thesis
          using sub inserted_cong [OF synced_keeps(3), of w c] inserted_mono by blast
      qed
      moreover have "flushed g w' (synced c)"
        by (rule synced_flushed [OF aors [OF c] live mem fl stm sub])
      ultimately show ?thesis using m WRITE_BACK by (simp add: mirror_ok_def synced_keeps)
    qed
    show ?thesis unfolding r'
      by (rule timer_result_keeps [OF res inv]) (simp_all add: synced_keeps mir)
  qed
qed

lemma step_keeps_inv:
  assumes "rec_step g s t" "rec_inv g base s"
  shows "rec_inv g base t"
  using assms
  by (cases rule: rec_step.cases)
    (auto intro: insert_keeps_inv insert_fail_keeps_inv update_keeps_inv delete_keeps_inv
      timer_keeps_inv)

lemma reachable_inv:
  assumes "rec_reachable g s0 s" "rec_inv g base s0"
  shows "rec_inv g base s"
  using assms by (induction rule: rec_reachable.induct) (auto intro: step_keeps_inv)

lemma rec_inv_empty:
  "aor_ok g aor \<Longrightarrow>
   rec_inv g (shm_live w) (\<lparr>ur_domain = dmn, ur_aor = aor, contacts = [], watchers = []\<rparr>, w)"
  by (simp add: rec_inv_def)

subsection \<open>No operation gets stuck\<close>

lemma insert_total:
  assumes "aor_ok g (ur_aor r)"
  shows "insert_ucontact g r contact e q cid cs flags ua recv w \<noteq> None"
proof -
  obtain x w1 where m: "mem_insert_ucontact g r contact e q cid cs flags ua recv w = (x, w1)"
    by fastforce
  show ?thesis
  proof (cases x)
    case (Inl z)
    with m show ?thesis by (simp add: insert_ucontact_def)
  next
    case (Inr ir)
    then obtain i r1 where x: "x = Inr (i, r1)" by (cases ir) auto
    with m obtain c where c: "contacts r1 ! i = c" "uc_aor c = ur_aor r"
      by (auto elim!: mem_insertD dest!: new_ucontactD(1) simp: insert_nth_at)
    then have "db_insert_ucontact g c v \<noteq> None" for v
      using assms db_access_total(1) [of g c v] by fastforce
    with m x c show ?thesis by (simp del: not_None_eq add: insert_ucontact_def Let_def)
  qed
qed

lemma update_total:
  assumes c: "contact_ok c" "aor_ok g (uc_aor c)"
  shows "update_ucontact g c e q cid cs fset fres ua recv w \<noteq> None"
proof -
  let ?w = "callbacks_if_any g UL_CONTACT_UPDATE c w"
  obtain x c1 w1 where m: "mem_update_ucontact g c e q cid cs fset fres ua recv ?w = Some (x, c1, w1)"
    using mem_update_ucontact_safe [OF c(1)] by blast
  have "aor_ok g (uc_aor (st_update_ucontact g c1))" using mem_update_frame [OF m] c by simp
  from db_access_total(2) [OF this] obtain y w2 where
    "db_update_ucontact g (st_update_ucontact g c1) 0 w1 = Some (y, w2)" by blast
  with m show ?thesis by (simp add: update_ucontact_def Let_def)
qed

lemma delete_total:
  assumes "aor_ok g (uc_aor (contacts r ! i))"
  shows "delete_ucontact g r i w \<noteq> None"
proof -
  obtain x c1 where st: "st_delete_ucontact g (contacts r ! i) = (x, c1)" by fastforce
  then have "aor_ok g (uc_aor c1)"
    using assms by (auto simp: st_delete_ucontact_def split: cstate.splits if_splits)
  from db_access_total(3) [OF this] have "db_delete_ucontact g c1 v \<noteq> None" for v by fastforce
  with st show ?thesis by (simp del: not_None_eq add: delete_ucontact_def Let_def)
qed

lemma timer_total:
  assumes "\<And>c. c \<in> set (contacts r) \<Longrightarrow> aor_ok g (uc_aor c)"
  shows "timer_urecord g r w \<noteq> None"
  using nodb.loop_spec [of "contacts r" g w r] wt.loop_spec [of "contacts r" g w r]
    wb.loop_spec [of "contacts r" g w r] assms
  by (cases "cfg_db_mode g") (auto simp: timer_urecord_def timer_result_def)

subsection \<open>Properties of the histories of a record\<close>

definition empty_record :: "string \<Rightarrow> string \<Rightarrow> urecord" where
  "empty_record dmn aor = \<lparr>ur_domain = dmn, ur_aor = aor, contacts = [], watchers = []\<rparr>"

lemma reachable_from_empty:
  "aor_ok g aor \<Longrightarrow> rec_reachable g (empty_record dmn aor, w0) s \<Longrightarrow> rec_inv g (shm_live w0) s"
  by (auto simp: empty_record_def intro: reachable_inv rec_inv_empty)



text \<open>
  No operation on a reachable record gets stuck: an insert, an update, a delete or a
  timer pass computes no address from a null pointer and writes outside no block.
\<close>

theorem record_operations_total:
  assumes "aor_ok g aor" "rec_reachable g (empty_record dmn aor, w0) (r, w)"
  shows "insert_ucontact g r contact e q cid cs fset ua recv w \<noteq> None \<and>
    timer_urecord g r w \<noteq> None \<and>
    (\<forall>i < length (contacts r). delete_ucontact g r i w \<noteq> None \<and>
       update_ucontact g (contacts r ! i) e q cid cs fset fres ua recv w \<noteq> None)"
proof -
  from reachable_from_empty [OF assms] have aor: "aor_ok g (ur_aor r)"
    and cs: "\<And>c. c \<in> set (contacts r) \<Longrightarrow> contact_ok c \<and> aor_ok g (uc_aor c)"
    by (auto simp: rec_inv_def mirror_ok_def)
  then show ?thesis
    using insert_total [OF aor] timer_total [of r g] delete_total [of g r] update_total by simp
qed

subsection \<open>Witnesses and observed behaviours\<close>

lemmas demo_eval = demo_cfg_def demo_world_def demo_contact_def zeroed_def null_buf_def
  mem_update_ucontact_def update_ucontact_def store_str_def store_recv_def memcpy_buf_def
  dup_str_def shm_malloc_def shm_free_def free_buf_def set_fields_def st_update_ucontact_def
  callbacks_if_any_def exists_ulcb_type_def run_ul_callbacks_def UL_CONTACT_UPDATE_def
  UL_CONTACT_INSERT_def Let_def


text \<open>A write-back history: insert, timer pass, update with a new Call-ID, timer pass.\<close>

definition demo_wb :: cfg where "demo_wb = demo_cfg WRITE_BACK"

lemma demo_wb_aor_ok: "aor_ok demo_wb a"
  by (simp add: demo_wb_def demo_aor_ok)

definition after_insert :: "urecord \<times> world" where
  "after_insert =
     (case insert_ucontact demo_wb (empty_record ''location'' ''bob'') ''sip:a'' 200 500 ''c1'' 1 0
             ''ua'' None demo_world of
        Some (Inr (i, r), w) \<Rightarrow> (r, w) | _ \<Rightarrow> (empty_record [] [], demo_world))"

definition after_timer :: "urecord \<times> world \<Rightarrow> urecord \<times> world" where
  "after_timer s =
     (case timer_urecord demo_wb (fst s) (snd s) of Some (r, w, n) \<Rightarrow> (r, w) | None \<Rightarrow> s)"

definition after_update :: "urecord \<times> world \<Rightarrow> urecord \<times> world" where
  "after_update s =
     (case update_ucontact demo_wb (contacts (fst s) ! 0) 300 700 ''c2'' 2 0 0 ''ua'' None (snd s) of
        Some (ret, c, w) \<Rightarrow> ((fst s)\<lparr>contacts := (contacts (fst s))[0 := c]\<rparr>, w)
      | None \<Rightarrow> s)"

lemma demo_insert:
  "insert_ucontact demo_wb (empty_record ''location'' ''bob'') ''sip:a'' 200 500 ''c1'' 1 0
     ''ua'' None demo_world = Some (Inr (0, fst after_insert), snd after_insert)"
  by code_simp

definition demo_end :: "urecord \<times> world" where
  "demo_end = after_timer (after_update (after_timer after_insert))"

lemma demo_reachable:
  "rec_reachable demo_wb (empty_record ''location'' ''bob'', demo_world) demo_end"
proof -
  let ?s1 = "after_timer after_insert" and ?s2 = "after_update (after_timer after_insert)"
  have a: "rec_step demo_wb (empty_record ''location'' ''bob'', demo_world)
      (fst after_insert, snd after_insert)"
    by (rule rec_step.insert [OF demo_insert]) simp
  have "timer_urecord demo_wb (fst after_insert) (snd after_insert) = Some (fst ?s1, snd ?s1, 0)"
    by code_simp
  then have b: "rec_step demo_wb (fst after_insert, snd after_insert) (fst ?s1, snd ?s1)"
    by (rule rec_step.timer)
  have "update_ucontact demo_wb (contacts (fst ?s1) ! 0) 300 700 ''c2'' 2 0 0 ''ua'' None (snd ?s1) =
      Some (0, contacts (fst ?s2) ! 0, snd ?s2)"
    and len: "0 < length (contacts (fst ?s1))"
    and fst2: "fst ?s2 = (fst ?s1)\<lparr>contacts := (contacts (fst ?s1))[0 := contacts (fst ?s2) ! 0]\<rparr>"
    by code_simp+
  from rec_step.update [OF len this(1)]
  have c: "rec_step demo_wb (fst ?s1, snd ?s1) (fst ?s2, snd ?s2)" by (simp flip: fst2)
  have "timer_urecord demo_wb (fst ?s2) (snd ?s2) = Some (fst demo_end, snd demo_end, 0)"
    by code_simp
  then have d: "rec_step demo_wb (fst ?s2, snd ?s2) (fst demo_end, snd demo_end)"
    by (rule rec_step.timer)
  show ?thesis
    using rec_reachable.start [THEN rec_reachable.step, OF a, THEN rec_reachable.step, OF b,
        THEN rec_reachable.step, OF c, THEN rec_reachable.step, OF d] by simp
qed



theorem record_operations_total_witness:
  "delete_ucontact demo_wb (fst demo_end) 0 (snd demo_end) \<noteq> None \<and>
   timer_urecord demo_wb (fst demo_end) (snd demo_end) \<noteq> None"
proof -
  have "0 < length (contacts (fst demo_end))" by code_simp
  then show ?thesis
    using record_operations_total [of demo_wb "''bob''" "''location''" demo_world "fst demo_end"
        "snd demo_end"] demo_reachable
    by (auto simp: demo_wb_aor_ok)
qed

text \<open>Some statement has made a Call-ID known to the database.\<close>

fun callid_stored :: "string \<Rightarrow> stmt \<Rightarrow> bool" where
  "callid_stored cid (DbInsert row) = (row_callid row = cid)"
| "callid_stored cid (DbUpdate v wh) = (v_callid v = Some cid)"
| "callid_stored cid (DbDelete wh) = False"

text \<open>
  In write-back mode a phone that refreshes its registration with a new Call-ID is
  marked as stored without being stored: the timer selects the row by the new Call-ID,
  which no statement sent so far has put into the database.
\<close>

theorem wb_refresh_selects_unknown_callid:
  "\<exists>r w c v wh. rec_reachable demo_wb (empty_record ''location'' ''bob'', demo_world) (r, w) \<and>
     contacts r = [c] \<and> uc_state c = CS_SYNC \<and> dblog w \<noteq> [] \<and> last (dblog w) = DbUpdate v wh \<and>
     w_key wh = By_callid (dat (uc_callid c)) \<and>
     list_all (\<lambda>s. \<not> callid_stored (dat (uc_callid c)) s) (dblog w)"
proof -
  let ?v = "case last (dblog (snd demo_end)) of DbUpdate v wh \<Rightarrow> (v, wh)"
  have eval: "contacts (fst demo_end) = [contacts (fst demo_end) ! 0] \<and>
      uc_state (contacts (fst demo_end) ! 0) = CS_SYNC \<and> dblog (snd demo_end) \<noteq> [] \<and>
      last (dblog (snd demo_end)) = DbUpdate (fst ?v) (snd ?v) \<and>
      w_key (snd ?v) = By_callid (dat (uc_callid (contacts (fst demo_end) ! 0))) \<and>
      list_all (\<lambda>s. \<not> callid_stored (dat (uc_callid (contacts (fst demo_end) ! 0))) s)
        (dblog (snd demo_end))"
    by code_simp
  show ?thesis
    by (rule exI [of _ "fst demo_end"], rule exI [of _ "snd demo_end"],
        rule exI [of _ "contacts (fst demo_end) ! 0"], rule exI [of _ "fst ?v"],
        rule exI [of _ "snd ?v"]) (use eval demo_reachable in simp)
qed

text \<open>
  Updating a contact with a new q value leaves it where it is: the list of a record
  can stop being ordered by q.
\<close>

theorem update_keeps_position:
  "\<exists>(r :: urecord) i c' w'. q_ordered (contacts r) \<and> i < length (contacts r) \<and>
     update_ucontact (demo_cfg NO_DB) (contacts r ! i) 300 1000 ''c2'' 2 0 0 ''ua'' None demo_world =
       Some (0, c', w') \<and>
     \<not> q_ordered ((contacts r)[i := c'])"
proof -
  define cs where
    "cs = [demo_contact ''sip:a'' 500 ''c1'' 200, demo_contact ''sip:b'' 400 ''c2'' 200]"
  define c' where "c' = fst (snd (the (update_ucontact (demo_cfg NO_DB) (cs ! 1) 300 1000 ''c2'' 2
    0 0 ''ua'' None demo_world)))"
  define w' where "w' = snd (snd (the (update_ucontact (demo_cfg NO_DB) (cs ! 1) 300 1000 ''c2'' 2
    0 0 ''ua'' None demo_world)))"
  have "update_ucontact (demo_cfg NO_DB) (cs ! 1) 300 1000 ''c2'' 2 0 0 ''ua'' None demo_world =
      Some (0, c', w')"
    and "uc_q c' = 1000" unfolding c'_def w'_def cs_def by code_simp+
  moreover have "q_ordered cs" "1 < length cs" "uc_q (cs ! 0) = 500" "cs[1 := c'] = [cs ! 0, c']"
    by (simp_all add: cs_def q_ordered_def demo_contact_def)
  ultimately have "q_ordered (contacts ((empty_record [] [])\<lparr>contacts := cs\<rparr>)) \<and>
      1 < length (contacts ((empty_record [] [])\<lparr>contacts := cs\<rparr>)) \<and>
      update_ucontact (demo_cfg NO_DB) (contacts ((empty_record [] [])\<lparr>contacts := cs\<rparr>) ! 1)
        300 1000 ''c2'' 2 0 0 ''ua'' None demo_world = Some (0, c', w') \<and>
      \<not> q_ordered ((contacts ((empty_record [] [])\<lparr>contacts := cs\<rparr>))[1 := c'])"
    by (simp add: q_ordered_def)
  then show ?thesis by blast
qed

text \<open>
  Every registered callback runs on every kind of event, whatever event types it was
  registered for; the test whether any callback wants the event is always true.
\<close>

theorem callbacks_ignore_their_types:
  assumes "t \<in> {UL_CONTACT_INSERT, UL_CONTACT_UPDATE, UL_CONTACT_DELETE, UL_CONTACT_EXPIRE}"
  shows "evs (callbacks_if_any g t c w) = evs w @ map (\<lambda>(i, types). EvCallback i t c) (ulcb_list g)"
proof -
  have "reg_types g OR t \<noteq> 0"
    using assms by (auto simp: or_eq_0_iff UL_CONTACT_INSERT_def UL_CONTACT_UPDATE_def
        UL_CONTACT_DELETE_def UL_CONTACT_EXPIRE_def)
  then show ?thesis
    by (simp add: callbacks_if_any_def exists_ulcb_type_def run_ul_callbacks_def)
qed

theorem callbacks_ignore_their_types_witness:
  "evs (callbacks_if_any ((demo_cfg NO_DB)\<lparr>ulcb_list := [(0, UL_CONTACT_DELETE)]\<rparr>) UL_CONTACT_INSERT
     zeroed demo_world) = [EvCallback 0 UL_CONTACT_INSERT zeroed]"
  by (subst callbacks_ignore_their_types) (simp_all add: demo_world_def)

end
