(* ===== verification/Udomain.thy ===== *)
theory Udomain
  imports Usrloc_History
begin

section \<open>Domains of the user location cache: usrloc/udomain.c, notify.c\<close>

text \<open>
  A domain is a hash table of records and a list of all its records. Records live at
  addresses; a slot of the table and the list of the domain are the sequences of
  addresses that their linked lists hold (\<open>slot_history\<close> and \<open>domain_list_history\<close>
  say that the pointer code keeps such lists). \<open>rec_slot\<close> is the record's \<open>slot\<close> field.
  The lock of a domain is held around every operation; it is not modelled.
\<close>

record udomain =
  d_name :: string
  d_size :: nat
  d_table :: "addr list list"
  d_list :: "addr list"
  d_users :: int
  d_expired :: int
  recs :: "addr \<rightharpoonup> urecord"
  rec_slot :: "addr \<Rightarrow> nat"
  next_rec :: addr

text \<open>
  The sum of the bytes. It is kept in an \<open>int\<close>, which no string of less than
  eight million bytes overflows.
\<close>

definition hash_func :: "udomain \<Rightarrow> string \<Rightarrow> nat" where
  "hash_func d s = sum_list (map of_char s) mod d_size d"

definition new_udomain :: "cfg \<Rightarrow> string \<Rightarrow> nat \<Rightarrow> world \<Rightarrow> (int + udomain) \<times> world" where
  "new_udomain g n s w =
     (case shm_malloc g w of (ok, w) \<Rightarrow>
      if \<not> ok then (Inl (-1), w)
      else
        (case shm_malloc g w of (ok, w) \<Rightarrow>
         if \<not> ok then (Inl (-2), shm_free w)
         else (Inr \<lparr>d_name = n, d_size = s, d_table = replicate s [], d_list = [], d_users = 0,
                    d_expired = 0, recs = (\<lambda>_. None), rec_slot = (\<lambda>_. 0), next_rec = 0\<rparr>, w)))"

definition the_rec :: "udomain \<Rightarrow> addr \<Rightarrow> urecord" where
  "the_rec d a = the (recs d a)"

text \<open>\<open>None\<close> is the result 1, nothing found.\<close>

definition get_urecord :: "udomain \<Rightarrow> string \<Rightarrow> addr option" where
  "get_urecord d aor = List.find (\<lambda>a. ur_aor (the_rec d a) = aor) (d_table d ! hash_func d aor)"

definition put_urecord :: "udomain \<Rightarrow> string \<Rightarrow> urecord \<Rightarrow> udomain" where
  "put_urecord d aor r =
     (let a = next_rec d; sl = hash_func d aor
      in d\<lparr>d_table := (d_table d)[sl := d_table d ! sl @ [a]], d_list := d_list d @ [a],
           d_users := d_users d + 1, recs := (recs d)(a \<mapsto> r),
           rec_slot := (rec_slot d)(a := sl), next_rec := Suc a\<rparr>)"

definition mem_insert_urecord ::
  "cfg \<Rightarrow> udomain \<Rightarrow> string \<Rightarrow> world \<Rightarrow> (int + addr) \<times> udomain \<times> world" where
  "mem_insert_urecord g d aor w =
     (case new_urecord g (d_name d) aor w of
        (Inl _, w) \<Rightarrow> (Inl (-1), d, w)
      | (Inr r, w) \<Rightarrow> (Inr (next_rec d), put_urecord d aor r, w))"

definition insert_urecord ::
  "cfg \<Rightarrow> udomain \<Rightarrow> string \<Rightarrow> world \<Rightarrow> (int + addr) \<times> udomain \<times> world" where
  "insert_urecord g d aor w =
     (case mem_insert_urecord g d aor w of
        (Inl _, d, w) \<Rightarrow> (Inl (-1), d, w)
      | (Inr a, d, w) \<Rightarrow> (Inr a, d, w))"

text \<open>Unlinking a record from the list of the domain and from its slot.\<close>

definition unlink_rec :: "udomain \<Rightarrow> addr \<Rightarrow> udomain" where
  "unlink_rec d a =
     (let sl = rec_slot d a
      in d\<lparr>d_table := (d_table d)[sl := filter (\<lambda>x. x \<noteq> a) (d_table d ! sl)],
           d_list := filter (\<lambda>x. x \<noteq> a) (d_list d), d_users := d_users d - 1,
           recs := (recs d)(a := None)\<rparr>)"

definition mem_delete_urecord :: "udomain \<Rightarrow> addr \<Rightarrow> world \<Rightarrow> udomain \<times> world" where
  "mem_delete_urecord d a w =
     (if watchers (the_rec d a) = [] then (unlink_rec d a, free_urecord (the_rec d a) w)
      else (d, w))"

definition release_urecord :: "udomain \<Rightarrow> addr \<Rightarrow> world \<Rightarrow> udomain \<times> world" where
  "release_urecord d a w =
     (if contacts (the_rec d a) = [] then mem_delete_urecord d a w else (d, w))"

definition set_rec :: "udomain \<Rightarrow> addr \<Rightarrow> urecord \<Rightarrow> udomain" where
  "set_rec d a r = d\<lparr>recs := (recs d)(a \<mapsto> r)\<rparr>"

text \<open>The walk of the timer over the list of records.\<close>

fun timer_walk :: "cfg \<Rightarrow> addr list \<Rightarrow> udomain \<Rightarrow> world \<Rightarrow> (udomain \<times> world) option" where
  "timer_walk g [] d w = Some (d, w)"
| "timer_walk g (a # as) d w =
     Option.bind (timer_urecord g (the_rec d a) w) (\<lambda>(r, w, n).
       let d = set_rec (d\<lparr>d_expired := d_expired d + int n\<rparr>) a r
       in if contacts r = [] then
            (case mem_delete_urecord d a w of (d, w) \<Rightarrow> timer_walk g as d w)
          else timer_walk g as d w)"

definition timer_udomain :: "cfg \<Rightarrow> udomain \<Rightarrow> world \<Rightarrow> (udomain \<times> world) option" where
  "timer_udomain g d w = timer_walk g (d_list d) d w"

text \<open>
  The loop of \<open>delete_urecord\<close> visits each contact once; the next one moves up when
  the current one leaves the list.
\<close>

fun delete_contacts ::
  "cfg \<Rightarrow> nat \<Rightarrow> urecord \<Rightarrow> nat \<Rightarrow> world \<Rightarrow> (urecord \<times> world) option" where
  "delete_contacts g 0 r i w = Some (r, w)"
| "delete_contacts g (Suc n) r i w =
     Option.bind (delete_ucontact g r i w) (\<lambda>(r', w').
       delete_contacts g n r' (if length (contacts r') < length (contacts r) then i else Suc i) w')"

definition delete_urecord :: "cfg \<Rightarrow> udomain \<Rightarrow> string \<Rightarrow> world \<Rightarrow> (udomain \<times> world) option" where
  "delete_urecord g d aor w =
     (case get_urecord d aor of
        None \<Rightarrow> Some (d, w)
      | Some a \<Rightarrow>
          map_option (\<lambda>(r, w). release_urecord (set_rec d a r) a w)
            (delete_contacts g (length (contacts (the_rec d a))) (the_rec d a) 0 w))"

subsection \<open>Watchers: notify.c\<close>

text \<open>A watcher is the pair of its callback and its data, named by a number.\<close>

definition add_watcher :: "cfg \<Rightarrow> urecord \<Rightarrow> nat \<Rightarrow> world \<Rightarrow> bool \<times> urecord \<times> world" where
  "add_watcher g r n w =
     (case shm_malloc g w of (ok, w) \<Rightarrow>
      if \<not> ok then (False, r, w)
      else (True, r\<lparr>watchers := n # watchers r\<rparr>,
        w\<lparr>evs := evs w @ map (\<lambda>c. EvNotify n (ur_aor r) (dat (uc_c c)) PRES_ONLINE) (contacts r)\<rparr>))"

definition remove_watcher :: "urecord \<Rightarrow> nat \<Rightarrow> world \<Rightarrow> int \<times> urecord \<times> world" where
  "remove_watcher r n w =
     (if n \<in> set (watchers r) then (0, r\<lparr>watchers := remove1 n (watchers r)\<rparr>, shm_free w)
      else (1, r, w))"

definition register_watcher ::
  "cfg \<Rightarrow> udomain \<Rightarrow> string \<Rightarrow> nat \<Rightarrow> world \<Rightarrow> int \<times> udomain \<times> world" where
  "register_watcher g d t n w =
     (case (case get_urecord d t of
              Some a \<Rightarrow> (Inr a, d, w)
            | None \<Rightarrow> insert_urecord g d t w) of
        (Inl _, d, w) \<Rightarrow> (-2, d, w)
      | (Inr a, d, w) \<Rightarrow>
          (case add_watcher g (the_rec d a) n w of
             (True, r, w) \<Rightarrow> (0, set_rec d a r, w)
           | (False, r, w) \<Rightarrow> (case release_urecord d a w of (d, w) \<Rightarrow> (-3, d, w))))"

definition unregister_watcher ::
  "udomain \<Rightarrow> string \<Rightarrow> nat \<Rightarrow> world \<Rightarrow> int \<times> udomain \<times> world" where
  "unregister_watcher d t n w =
     (case get_urecord d t of
        None \<Rightarrow> (0, d, w)
      | Some a \<Rightarrow>
          (case remove_watcher (the_rec d a) n w of (_, r, w) \<Rightarrow>
           case release_urecord (set_rec d a r) a w of (d, w) \<Rightarrow> (0, d, w)))"

subsection \<open>Loading the table of contacts\<close>

text \<open>
  A row of the result: the columns the query asks for, \<open>None\<close> for a null string.
  \<open>pr_q\<close> is the q value after \<open>double2q\<close>. The domain column \<open>pr_domain\<close> is read when
  \<open>use_domain\<close> is set; the query does not ask for it, so that what is read there is
  whatever follows the row.
\<close>

record preload_row =
  pr_user :: "string option"
  pr_contact :: "string option"
  pr_expires :: int
  pr_q :: int
  pr_callid :: "string option"
  pr_cseq :: int
  pr_flags :: u32
  pr_ua :: "string option"
  pr_received :: "string option"
  pr_domain :: string

definition preload_aor :: "cfg \<Rightarrow> string \<Rightarrow> string \<Rightarrow> string" where
  "preload_aor g user dmn = (if use_domain g then take 255 (user @ ''@'' @ dmn) else user)"

definition preload_one ::
  "cfg \<Rightarrow> preload_row \<Rightarrow> udomain \<Rightarrow> world \<Rightarrow> int \<times> udomain \<times> world" where
  "preload_one g row d w =
     (case (pr_user row, pr_contact row, pr_callid row) of
        (Some user, Some contact, Some callid) \<Rightarrow>
          let aor = preload_aor g user (pr_domain row);
              ua = (case pr_ua row of Some s \<Rightarrow> s | None \<Rightarrow> [])
          in (case (case get_urecord d aor of
                      Some a \<Rightarrow> (Inr a, d, w)
                    | None \<Rightarrow> mem_insert_urecord g d aor w) of
                (Inl _, d, w) \<Rightarrow> (-2, d, w)
              | (Inr a, d, w) \<Rightarrow>
                  (case mem_insert_ucontact g (the_rec d a) contact (pr_expires row) (pr_q row) callid
                          (pr_cseq row) (pr_flags row) ua (pr_received row) w of
                     (Inl _, w) \<Rightarrow> (-3, d, w)
                   | (Inr (i, r), w) \<Rightarrow>
                       (0, set_rec d a
                         (r\<lparr>contacts := (contacts r)[i := (contacts r ! i)\<lparr>uc_state := CS_SYNC\<rparr>]\<rparr>), w)))
      | _ \<Rightarrow> (0, d, w))"

fun preload_rows ::
  "cfg \<Rightarrow> preload_row list \<Rightarrow> udomain \<Rightarrow> world \<Rightarrow> int \<times> udomain \<times> world" where
  "preload_rows g [] d w = (0, d, w)"
| "preload_rows g (row # rows) d w =
     (case preload_one g row d w of (ret, d, w) \<Rightarrow>
      if ret < 0 then (ret, d, w) else preload_rows g rows d w)"

text \<open>\<open>use_table\<close> and \<open>raw_query\<close> are the database's: \<open>db\<close> is what they return.\<close>

definition preload_udomain ::
  "cfg \<Rightarrow> preload_row list option \<Rightarrow> udomain \<Rightarrow> world \<Rightarrow> int \<times> udomain \<times> world" where
  "preload_udomain g db d w =
     (case db of None \<Rightarrow> (-1, d, w) | Some rows \<Rightarrow> preload_rows g rows d w)"

subsection \<open>Effect of the record operations on shared memory\<close>

lemma db_access_live:
  "db_insert_ucontact g c w = Some (x, w') \<Longrightarrow> shm_live w' = shm_live w"
  "db_update_ucontact g c flag w = Some (x, w') \<Longrightarrow> shm_live w' = shm_live w"
  "db_delete_ucontact g c w = Some (x, w') \<Longrightarrow> shm_live w' = shm_live w"
  by (auto simp: db_insert_ucontact_def db_update_ucontact_def db_delete_ucontact_def raw_query_def
      split: if_splits)

lemma insert_effect:
  assumes ins: "insert_ucontact g r contact e q cid cs flags ua recv w = Some (Inr (i, r'), w')"
  obtains c where "contact_ok c" "uc_aor c = ur_aor r" "i \<le> length (contacts r)"
    "r' = r\<lparr>contacts := insert_nth i c (contacts r)\<rparr>"
    "shm_live w' = shm_live w + contact_blocks c"
proof -
  obtain x w1 where m: "mem_insert_ucontact g r contact e q cid cs flags ua recv w = (x, w1)"
    by fastforce
  from ins m obtain r1 where x: "x = Inr (i, r1)"
    by (cases x) (auto simp: insert_ucontact_def Let_def split: if_splits)
  from m x obtain c where i: "i \<le> length (contacts r)"
    and r1: "r1 = r\<lparr>contacts := insert_nth i c (contacts r)\<rparr>"
    and new: "new_ucontact g (ur_domain r) (ur_aor r) contact e q cid cs flags ua recv w = (Some c, w1)"
    by (auto elim: mem_insertD)
  note c = new_ucontactD(1) [OF new]
  have sync: "contact_ok (c\<lparr>uc_state := CS_SYNC\<rparr>) = contact_ok c"
    "contact_blocks (c\<lparr>uc_state := CS_SYNC\<rparr>) = contact_blocks c"
    by (simp_all add: contact_ok_def contact_blocks_def)
  show thesis
  proof (cases "cfg_db_mode g = WRITE_THROUGH")
    case True
    with ins m x i r1 c sync show thesis
      by (intro that [of "c\<lparr>uc_state := CS_SYNC\<rparr>"])
        (auto simp: insert_ucontact_def Let_def insert_nth_at dest: db_access_live)
  next
    case False
    with ins m x i r1 c show thesis
      by (intro that [of c]) (auto simp: insert_ucontact_def Let_def)
  qed
qed

lemma insert_fail_effect:
  assumes "insert_ucontact g r contact e q cid cs flags ua recv w = Some (Inl x, w')"
  shows "shm_live w' = shm_live w"
proof -
  obtain y w1 where m: "mem_insert_ucontact g r contact e q cid cs flags ua recv w = (y, w1)"
    by fastforce
  with assms show ?thesis
    by (cases y) (auto simp: insert_ucontact_def Let_def split: if_splits dest: mem_insert_failD)
qed

lemma update_effect:
  assumes upd: "update_ucontact g c e q cid cs fset fres ua recv w = Some (ret, c', w')"
    and ok: "contact_ok c"
  shows "contact_ok c' \<and> uc_aor c' = uc_aor c \<and>
    shm_live w' - shm_live w = contact_blocks c' - contact_blocks c"
proof -
  let ?w = "callbacks_if_any g UL_CONTACT_UPDATE c w"
  obtain x c1 w1 where m: "mem_update_ucontact g c e q cid cs fset fres ua recv ?w = Some (x, c1, w1)"
    and c1: "contact_ok c1" "shm_live w1 - shm_live ?w = contact_blocks c1 - contact_blocks c"
    using mem_update_ucontact_safe [OF ok] by blast
  have "uc_aor c1 = uc_aor c" using mem_update_frame [OF m] by simp
  with upd m c1 show ?thesis
    by (auto simp: update_ucontact_def Let_def split: if_splits dest: db_access_live)
qed

lemma delete_effect:
  assumes del: "delete_ucontact g r i w = Some (r', w')" and i: "i < length (contacts r)"
  obtains (marked) c where "r' = r\<lparr>contacts := (contacts r)[i := c]\<rparr>" "shm_live w' = shm_live w"
      "contact_ok c = contact_ok (contacts r ! i)" "contact_blocks c = contact_blocks (contacts r ! i)"
      "uc_aor c = uc_aor (contacts r ! i)" "cfg_db_mode g = WRITE_BACK" "uc_state (contacts r ! i) \<noteq> CS_NEW"
      "c = (contacts r ! i)\<lparr>uc_flags := uc_flags (contacts r ! i) AND NOT FL_PERMANENT, uc_expires := 0\<rparr>"
  | (removed) "r' = r\<lparr>contacts := remove_nth i (contacts r)\<rparr>"
      "shm_live w' = shm_live w - contact_blocks (contacts r ! i)"
      "cfg_db_mode g \<noteq> WRITE_BACK \<or> uc_state (contacts r ! i) = CS_NEW"
proof (cases "cfg_db_mode g = WRITE_BACK \<and> uc_state (contacts r ! i) \<noteq> CS_NEW")
  case True
  let ?c = "(contacts r ! i)\<lparr>uc_flags := uc_flags (contacts r ! i) AND NOT FL_PERMANENT, uc_expires := 0\<rparr>"
  from True have "st_delete_ucontact g (contacts r ! i) = (0, ?c)"
    by (cases "uc_state (contacts r ! i)") (simp_all add: st_delete_ucontact_def)
  with del have "r' = r\<lparr>contacts := (contacts r)[i := ?c]\<rparr>" "shm_live w' = shm_live w"
    by (auto simp: delete_ucontact_def Let_def)
  then show thesis using True
    by (intro marked [of ?c]) (simp_all add: contact_ok_def contact_blocks_def)
next
  case False
  then have "st_delete_ucontact g (contacts r ! i) = (1, contacts r ! i)"
    by (cases "uc_state (contacts r ! i)") (simp_all add: st_delete_ucontact_def)
  with del have "r' = r\<lparr>contacts := remove_nth i (contacts r)\<rparr>"
    "shm_live w' = shm_live w - contact_blocks (contacts r ! i)"
    by (auto simp: delete_ucontact_def Let_def mem_delete_ucontact_def mem_remove_ucontact_def
        free_ucontact_live split: if_splits dest: db_access_live)
  then show thesis using False by (intro removed) auto
qed

definition kept_by :: "cfg \<Rightarrow> ucontact \<Rightarrow> ucontact" where
  "kept_by g c = (if cfg_db_mode g = WRITE_BACK then synced c else c)"

definition timed :: "cfg \<Rightarrow> urecord \<Rightarrow> urecord" where
  "timed g r = r\<lparr>contacts := map (kept_by g) (filter (live_contact g) (contacts r))\<rparr>"

lemma timer_effect:
  assumes "\<And>c. c \<in> set (contacts r) \<Longrightarrow> aor_ok g (uc_aor c)"
  obtains w' where
    "timer_urecord g r w = Some (timed g r, w', length (filter (\<lambda>c. \<not> live_contact g c) (contacts r)))"
    "shm_live w' = shm_live w -
      sum_list (map contact_blocks (filter (\<lambda>c. \<not> live_contact g c) (contacts r)))"
proof -
  have *: "map (\<lambda>c. c) cs = cs" for cs :: "ucontact list" by simp
  show thesis
    using that nodb.loop_spec [of "contacts r" g w r] wt.loop_spec [of "contacts r" g w r]
      wb.loop_spec [of "contacts r" g w r] assms
    by (cases "cfg_db_mode g")
      (auto simp: timer_urecord_def timer_result_def timed_def kept_by_def [abs_def] cong: map_cong)
qed

subsection \<open>A domain as a map from addresses of record to records\<close>

definition view :: "udomain \<Rightarrow> string \<Rightarrow> urecord option" where
  "view d k = map_option (the_rec d) (get_urecord d k)"

definition dom_inv :: "udomain \<Rightarrow> bool" where
  "dom_inv d \<longleftrightarrow>
     d_size d > 0 \<and> length (d_table d) = d_size d \<and> distinct (d_list d) \<and>
     (\<forall>a. a \<in> set (d_list d) \<longleftrightarrow> recs d a \<noteq> None) \<and>
     (\<forall>i < d_size d. distinct (d_table d ! i) \<and>
        (\<forall>a. a \<in> set (d_table d ! i) \<longleftrightarrow> recs d a \<noteq> None \<and> rec_slot d a = i)) \<and>
     (\<forall>a r. recs d a = Some r \<longrightarrow> rec_slot d a = hash_func d (ur_aor r) \<and> a < next_rec d) \<and>
     (\<forall>a b r s. recs d a = Some r \<longrightarrow> recs d b = Some s \<longrightarrow> ur_aor r = ur_aor s \<longrightarrow> a = b) \<and>
     d_users d = int (length (d_list d))"

lemma hash_less: "d_size d > 0 \<Longrightarrow> hash_func d k < d_size d"
  by (simp add: hash_func_def)

lemma hash_cong [simp]:
  "hash_func (set_rec d a r) k = hash_func d k" "hash_func (put_urecord d k' r) k = hash_func d k"
  "hash_func (unlink_rec d a) k = hash_func d k" "hash_func (d\<lparr>d_expired := n\<rparr>) k = hash_func d k"
  by (simp_all add: hash_func_def set_rec_def put_urecord_def unlink_rec_def Let_def)

lemma dom_invD:
  assumes "dom_inv d"
  shows "d_size d > 0" "length (d_table d) = d_size d" "distinct (d_list d)"
    "\<And>a. a \<in> set (d_list d) \<longleftrightarrow> recs d a \<noteq> None"
    "\<And>i. i < d_size d \<Longrightarrow> distinct (d_table d ! i)"
    "\<And>i a. i < d_size d \<Longrightarrow> a \<in> set (d_table d ! i) \<longleftrightarrow> recs d a \<noteq> None \<and> rec_slot d a = i"
    "\<And>a r. recs d a = Some r \<Longrightarrow> rec_slot d a = hash_func d (ur_aor r)"
    "\<And>a r. recs d a = Some r \<Longrightarrow> a < next_rec d"
    "\<And>a b r s. recs d a = Some r \<Longrightarrow> recs d b = Some s \<Longrightarrow> ur_aor r = ur_aor s \<Longrightarrow> a = b"
    "d_users d = int (length (d_list d))"
  using assms unfolding dom_inv_def by blast+

lemma dom_invI:
  assumes "d_size d > 0" "length (d_table d) = d_size d" "distinct (d_list d)"
    "\<And>a. a \<in> set (d_list d) \<longleftrightarrow> recs d a \<noteq> None"
    "\<And>i. i < d_size d \<Longrightarrow> distinct (d_table d ! i)"
    "\<And>i a. i < d_size d \<Longrightarrow> a \<in> set (d_table d ! i) \<longleftrightarrow> recs d a \<noteq> None \<and> rec_slot d a = i"
    "\<And>a r. recs d a = Some r \<Longrightarrow> rec_slot d a = hash_func d (ur_aor r)"
    "\<And>a r. recs d a = Some r \<Longrightarrow> a < next_rec d"
    "\<And>a b r s. recs d a = Some r \<Longrightarrow> recs d b = Some s \<Longrightarrow> ur_aor r = ur_aor s \<Longrightarrow> a = b"
    "d_users d = int (length (d_list d))"
  shows "dom_inv d"
  unfolding dom_inv_def
  by (intro conjI allI impI) (rule assms; assumption)+

lemma in_slot:
  assumes "dom_inv d"
  shows "a \<in> set (d_table d ! hash_func d k) \<longleftrightarrow>
    (\<exists>r. recs d a = Some r \<and> hash_func d (ur_aor r) = hash_func d k)"
  using dom_invD(6) [OF assms hash_less [OF dom_invD(1) [OF assms]], of a k]
    dom_invD(7) [OF assms, of a] by (cases "recs d a") auto

lemma get_urecord_iff:
  assumes "dom_inv d"
  shows "get_urecord d k = Some a \<longleftrightarrow> (\<exists>r. recs d a = Some r \<and> ur_aor r = k)"
proof
  assume "get_urecord d k = Some a"
  then obtain i where i: "i < length (d_table d ! hash_func d k)" "a = d_table d ! hash_func d k ! i"
    "ur_aor (the_rec d a) = k"
    by (auto simp: get_urecord_def find_Some_iff)
  then have "a \<in> set (d_table d ! hash_func d k)" by simp
  with i(3) show "\<exists>r. recs d a = Some r \<and> ur_aor r = k"
    by (auto simp: in_slot [OF assms] the_rec_def)
next
  assume "\<exists>r. recs d a = Some r \<and> ur_aor r = k"
  then obtain r where r: "recs d a = Some r" "ur_aor r = k" by blast
  then have a: "a \<in> set (d_table d ! hash_func d k)" by (auto simp: in_slot [OF assms])
  show "get_urecord d k = Some a"
  proof (cases "get_urecord d k")
    case None
    with a r show ?thesis by (auto simp: get_urecord_def find_None_iff the_rec_def)
  next
    case (Some b)
    then obtain i where i: "i < length (d_table d ! hash_func d k)" "b = d_table d ! hash_func d k ! i"
      "ur_aor (the_rec d b) = k"
      by (auto simp: get_urecord_def find_Some_iff)
    then have "b \<in> set (d_table d ! hash_func d k)" by simp
    then obtain s where "recs d b = Some s" by (auto simp: in_slot [OF assms])
    with i(3) r have "b = a"
      using dom_invD(9) [OF assms, of b s a r] by (simp add: the_rec_def)
    with Some show ?thesis by simp
  qed
qed

lemma get_urecord_None:
  "dom_inv d \<Longrightarrow> get_urecord d k = None \<longleftrightarrow> (\<forall>a r. recs d a = Some r \<longrightarrow> ur_aor r \<noteq> k)"
  using get_urecord_iff [of d k] by (metis option.exhaust option.distinct(1))

lemma view_iff: "dom_inv d \<Longrightarrow> view d k = Some r \<longleftrightarrow> (\<exists>a. recs d a = Some r \<and> ur_aor r = k)"
  by (auto simp: view_def get_urecord_iff the_rec_def)

lemma view_eqI:
  assumes "dom_inv d" "\<And>k r. f k = Some r \<longleftrightarrow> (\<exists>a. recs d a = Some r \<and> ur_aor r = k)"
  shows "view d = f"
proof
  fix k
  have "view d k = Some r \<longleftrightarrow> f k = Some r" for r
    using assms(2) [of k r] view_iff [OF assms(1), of k r] by simp
  then show "view d k = f k" by (metis not_Some_eq)
qed

lemma put_keeps_inv:
  assumes inv: "dom_inv d" and new: "get_urecord d k = None" and r: "ur_aor r = k"
  shows "dom_inv (put_urecord d k r)"
    and "view (put_urecord d k r) = (view d)(k \<mapsto> r)"
    and "get_urecord (put_urecord d k r) k = Some (next_rec d)"
    and "the_rec (put_urecord d k r) (next_rec d) = r"
proof -
  note D = dom_invD [OF inv]
  let ?d = "put_urecord d k r" and ?a = "next_rec d"
  have sel: "d_size ?d = d_size d" "d_table ?d = (d_table d)[hash_func d k := d_table d ! hash_func d k @ [?a]]"
    "d_list ?d = d_list d @ [?a]" "recs ?d = (recs d)(?a \<mapsto> r)" "next_rec ?d = Suc ?a"
    "rec_slot ?d = (rec_slot d)(?a := hash_func d k)" "d_users ?d = d_users d + 1"
    by (simp_all add: put_urecord_def Let_def)
  have fresh: "recs d ?a = None" using D(8) by (cases "recs d ?a") auto
  have notin: "?a \<notin> set (d_list d)" using D(4) fresh by simp
  have notin2: "i < d_size d \<Longrightarrow> ?a \<notin> set (d_table d ! i)" for i using D(6) fresh by simp
  have k: "ur_aor s \<noteq> k" if "recs d a = Some s" for a s using get_urecord_None [OF inv] new that by blast
  have neq: "a \<noteq> ?a" if "recs d a \<noteq> None" for a using fresh that by auto
  show I: "dom_inv ?d"
  proof (rule dom_invI, unfold sel hash_cong)
    fix i a assume i: "i < d_size d"
    show "(a \<in> set ((d_table d)[hash_func d k := d_table d ! hash_func d k @ [?a]] ! i)) =
        (((recs d)(?a \<mapsto> r)) a \<noteq> None \<and> ((rec_slot d)(?a := hash_func d k)) a = i)"
      using D(2) D(6) [OF i, of a] i hash_less [OF D(1), of k] notin2 [OF i]
      by (auto simp: nth_list_update)
  next
    fix a b x y assume "((recs d)(?a \<mapsto> r)) a = Some x" "((recs d)(?a \<mapsto> r)) b = Some y" "ur_aor x = ur_aor y"
    then show "a = b" using D(9) [of a x b y] k r by (auto split: if_splits)
  next
    fix i assume i: "i < d_size d"
    show "distinct ((d_table d)[hash_func d k := d_table d ! hash_func d k @ [?a]] ! i)"
      using D(2) D(5) [OF i] notin2 [OF i] hash_less [OF D(1), of k] by (auto simp: nth_list_update)
  next
    fix a x assume "((recs d)(?a \<mapsto> r)) a = Some x"
    then show "((rec_slot d)(?a := hash_func d k)) a = hash_func d (ur_aor x)"
      using D(7) [of a x] r by (auto split: if_splits)
  next
    fix a x assume "((recs d)(?a \<mapsto> r)) a = Some x"
    then show "a < Suc ?a" using D(8) [of a x] by (auto split: if_splits)
  qed (use D(1-4,10) notin in auto)
  show "view ?d = (view d)(k \<mapsto> r)"
  proof (rule view_eqI [OF I])
    fix k' x
    show "((view d)(k \<mapsto> r)) k' = Some x \<longleftrightarrow> (\<exists>a. recs ?d a = Some x \<and> ur_aor x = k')"
      unfolding sel using k fresh r by (auto simp: view_iff [OF inv]) (metis option.distinct(1))
  qed
  show "get_urecord ?d k = Some ?a" using r by (simp add: get_urecord_iff [OF I] sel)
  show "the_rec ?d ?a = r" by (simp add: the_rec_def sel)
qed

lemma unlink_keeps_inv:
  assumes inv: "dom_inv d" and a: "recs d a = Some r"
  shows "dom_inv (unlink_rec d a)"
    and "view (unlink_rec d a) = (view d)(ur_aor r := None)"
proof -
  note D = dom_invD [OF inv]
  let ?d = "unlink_rec d a" and ?sl = "rec_slot d a"
  have sel: "d_size ?d = d_size d" "d_table ?d = (d_table d)[?sl := filter (\<lambda>x. x \<noteq> a) (d_table d ! ?sl)]"
    "d_list ?d = filter (\<lambda>x. x \<noteq> a) (d_list d)" "recs ?d = (recs d)(a := None)"
    "next_rec ?d = next_rec d" "rec_slot ?d = rec_slot d" "d_users ?d = d_users d - 1"
    by (simp_all add: unlink_rec_def Let_def)
  have mem: "a \<in> set (d_list d)" using D(4) a by simp
  have sl: "?sl < d_size d" using D(7) [OF a] hash_less [OF D(1)] by simp
  show I: "dom_inv ?d"
  proof (rule dom_invI, unfold sel hash_cong)
    fix i b assume i: "i < d_size d"
    show "(b \<in> set ((d_table d)[?sl := filter (\<lambda>x. x \<noteq> a) (d_table d ! ?sl)] ! i)) =
        (((recs d)(a := None)) b \<noteq> None \<and> rec_slot d b = i)"
      using D(2) D(6) [OF i, of b] sl by (auto simp: nth_list_update)
  next
    fix i assume i: "i < d_size d"
    show "distinct ((d_table d)[?sl := filter (\<lambda>x. x \<noteq> a) (d_table d ! ?sl)] ! i)"
      using D(2) D(5) [OF i] sl by (auto simp: nth_list_update)
  next
    from mem obtain ys zs where "d_list d = ys @ a # zs" by (meson split_list)
    then have "length (filter (\<lambda>x. x \<noteq> a) (d_list d)) = length (ys @ zs)" "length (d_list d) = length (ys @ zs) + 1"
      using filter_removes_one [of ys a zs] D(3) by simp_all
    then show "d_users d - 1 = int (length (filter (\<lambda>x. x \<noteq> a) (d_list d)))" using D(10) by simp
  next
    fix b c x y assume "((recs d)(a := None)) b = Some x" "((recs d)(a := None)) c = Some y" "ur_aor x = ur_aor y"
    then show "b = c" using D(9) [of b x c y] by (auto split: if_splits)
  qed (use D(1-4,7,8) in \<open>auto split: if_splits\<close>)
  have u: "b = a \<longleftrightarrow> ur_aor x = ur_aor r" if "recs d b = Some x" for b x
    using D(9) [OF that a] a that by auto
  show "view ?d = (view d)(ur_aor r := None)"
  proof (rule view_eqI [OF I])
    fix k x
    show "((view d)(ur_aor r := None)) k = Some x \<longleftrightarrow> (\<exists>b. recs ?d b = Some x \<and> ur_aor x = k)"
      unfolding sel by (simp add: view_iff [OF inv]) (metis u)
  qed
qed

lemma set_rec_keeps_inv:
  assumes inv: "dom_inv d" and a: "recs d a = Some r" and r': "ur_aor r' = ur_aor r"
  shows "dom_inv (set_rec d a r')"
    and "view (set_rec d a r') = (view d)(ur_aor r \<mapsto> r')"
    and "get_urecord (set_rec d a r') k = get_urecord d k"
    and "recs (set_rec d a r') a = Some r'"
proof -
  note D = dom_invD [OF inv]
  let ?d = "set_rec d a r'"
  have sel: "d_size ?d = d_size d" "d_table ?d = d_table d" "d_list ?d = d_list d"
    "recs ?d = (recs d)(a \<mapsto> r')" "next_rec ?d = next_rec d" "rec_slot ?d = rec_slot d"
    "d_users ?d = d_users d"
    by (simp_all add: set_rec_def)
  show I: "dom_inv ?d"
  proof (rule dom_invI, unfold sel hash_cong)
    fix b c x y assume bx: "((recs d)(a \<mapsto> r')) b = Some x" and cy: "((recs d)(a \<mapsto> r')) c = Some y"
      and eq: "ur_aor x = ur_aor y"
    have old: "\<exists>z. recs d e = Some z \<and> ur_aor z = ur_aor v" if "((recs d)(a \<mapsto> r')) e = Some v" for e v
      using that a r' by (cases "e = a") auto
    from old [OF bx] old [OF cy] obtain x' y' where "recs d b = Some x'" "recs d c = Some y'"
      "ur_aor x' = ur_aor y'" using eq by auto
    then show "b = c" by (rule D(9))
  next
    fix b x assume "((recs d)(a \<mapsto> r')) b = Some x"
    then show "rec_slot d b = hash_func d (ur_aor x)" using D(7) [of b x] D(7) [OF a] r'
      by (auto split: if_splits)
  next
    fix b x assume "((recs d)(a \<mapsto> r')) b = Some x"
    then show "b < next_rec d" using D(8) [of b x] D(8) [OF a] by (auto split: if_splits)
  next
 show "0 < d_size d" by (rule D)
 next show "length (d_table d) = d_size d" by (rule D) next show "distinct (d_list d)" by (rule D) next fix a' show "(a' \<in> set (d_list d)) = (((recs d)(a \<mapsto> r')) a' \<noteq> None)" using D(4) [of a'] a by (cases "a' = a") simp_all next fix i assume "i < d_size d" then show "distinct (d_table d ! i)" by (rule D) next fix i b assume "i < d_size d" then show "(b \<in> set (d_table d ! i)) = (((recs d)(a \<mapsto> r')) b \<noteq> None \<and> rec_slot d b = i)" using D(6) [of i b] a by (cases "b = a") simp_all next show "d_users d = int (length (d_list d))" by (rule D) qed
  have u: "b = a \<longleftrightarrow> ur_aor x = ur_aor r" if "recs d b = Some x" for b x
    using D(9) [OF that a] a that by auto
  show "view ?d = (view d)(ur_aor r \<mapsto> r')"
  proof (rule view_eqI [OF I])
    fix k x
    show "((view d)(ur_aor r \<mapsto> r')) k = Some x \<longleftrightarrow> (\<exists>b. recs ?d b = Some x \<and> ur_aor x = k)"
    proof (cases "k = ur_aor r")
      case True
      have "(\<exists>b. ((recs d)(a \<mapsto> r')) b = Some x \<and> ur_aor x = ur_aor r) \<longleftrightarrow> x = r'"
      proof
        assume "\<exists>b. ((recs d)(a \<mapsto> r')) b = Some x \<and> ur_aor x = ur_aor r"
        then obtain b where b: "((recs d)(a \<mapsto> r')) b = Some x" "ur_aor x = ur_aor r" by blast
        then have "b = a" using u [of b x] by (cases "b = a") auto
        with b show "x = r'" by simp
      qed (use r' in auto)
      with True show ?thesis by (auto simp: sel)
    next
      case False
      have "recs ?d b = Some x \<longleftrightarrow> recs d b = Some x" if "ur_aor x = k" for b
        using that False r' a u [of b x] by (cases "b = a") (auto simp: sel)
      then have "(\<exists>b. recs ?d b = Some x \<and> ur_aor x = k) \<longleftrightarrow> (\<exists>b. recs d b = Some x \<and> ur_aor x = k)"
        by blast
      with False show ?thesis by (simp add: view_iff [OF inv] del: fun_upd_apply) (simp add: view_iff [OF inv])
    qed
  qed
  have "(\<exists>x. recs ?d b = Some x \<and> ur_aor x = k) \<longleftrightarrow> (\<exists>x. recs d b = Some x \<and> ur_aor x = k)" for b
    using a r' by (cases "b = a") (simp_all add: sel)
  then have "get_urecord ?d k = Some b \<longleftrightarrow> get_urecord d k = Some b" for b
    by (simp only: get_urecord_iff [OF I] get_urecord_iff [OF inv])
  then show "get_urecord ?d k = get_urecord d k" by (metis not_Some_eq)
  show "recs ?d a = Some r'" by (simp add: sel)
qed

subsection \<open>The interface of a record store\<close>

text \<open>
  What the operations on a domain rely on, and the accounting of the blocks of shared
  memory the records own.
\<close>

definition rec_ok :: "cfg \<Rightarrow> urecord \<Rightarrow> bool" where
  "rec_ok g r \<longleftrightarrow> (\<forall>c \<in> set (contacts r). contact_ok c \<and> uc_aor c = ur_aor r \<and> aor_ok g (ur_aor r))"

definition rec_blocks :: "urecord \<Rightarrow> int" where
  "rec_blocks r = 2 + int (length (watchers r)) + sum_list (map contact_blocks (contacts r))"

definition store_ok ::
  "('d \<Rightarrow> bool) \<Rightarrow> ('d \<Rightarrow> string \<Rightarrow> urecord option) \<Rightarrow> ('d \<Rightarrow> int) \<Rightarrow> cfg \<Rightarrow> int \<Rightarrow> 'd \<Rightarrow> world \<Rightarrow> bool" where
  "store_ok good look blocks g base d w \<longleftrightarrow>
     good d \<and> (\<forall>k r. look d k = Some r \<longrightarrow> rec_ok g r) \<and> shm_live w = base + blocks d"

locale record_store =
  fixes good :: "'d \<Rightarrow> bool"
    and find :: "'d \<Rightarrow> string \<Rightarrow> addr option"
    and deref :: "'d \<Rightarrow> addr \<Rightarrow> urecord"
    and look :: "'d \<Rightarrow> string \<Rightarrow> urecord option"
    and put :: "'d \<Rightarrow> string \<Rightarrow> urecord \<Rightarrow> 'd"
    and change :: "'d \<Rightarrow> addr \<Rightarrow> urecord \<Rightarrow> 'd"
    and del :: "'d \<Rightarrow> addr \<Rightarrow> 'd"
    and blocks :: "'d \<Rightarrow> int"
  assumes look_find: "look d k = map_option (deref d) (find d k)"
    and find_aor: "good d \<Longrightarrow> find d k = Some a \<Longrightarrow> ur_aor (deref d a) = k"
    and put_good: "good d \<Longrightarrow> find d k = None \<Longrightarrow> ur_aor r = k \<Longrightarrow>
      good (put d k r) \<and> look (put d k r) = (look d)(k \<mapsto> r) \<and> blocks (put d k r) = blocks d + rec_blocks r"
    and change_good: "good d \<Longrightarrow> find d k = Some a \<Longrightarrow> ur_aor r = k \<Longrightarrow>
      good (change d a r) \<and> look (change d a r) = (look d)(k \<mapsto> r) \<and> find (change d a r) k = Some a \<and>
      blocks (change d a r) = blocks d - rec_blocks (deref d a) + rec_blocks r"
    and del_good: "good d \<Longrightarrow> find d k = Some a \<Longrightarrow>
      good (del d a) \<and> look (del d a) = (look d)(k := None) \<and>
      blocks (del d a) = blocks d - rec_blocks (deref d a)"
begin

lemma find_look: "find d k = Some a \<Longrightarrow> look d k = Some (deref d a)"
  by (simp add: look_find)

lemma put_keeps:
  assumes "store_ok good look blocks g base d w" "find d k = None" "ur_aor r = k" "rec_ok g r"
    "shm_live w' = shm_live w + rec_blocks r"
  shows "store_ok good look blocks g base (put d k r) w'"
  using assms put_good [of d k r] by (auto simp: store_ok_def)

lemma change_keeps:
  assumes "store_ok good look blocks g base d w" "find d k = Some a" "ur_aor r = k" "rec_ok g r"
    "shm_live w' = shm_live w + rec_blocks r - rec_blocks (deref d a)"
  shows "store_ok good look blocks g base (change d a r) w'"
  using assms change_good [of d k a r] by (auto simp: store_ok_def)

lemma del_keeps:
  assumes "store_ok good look blocks g base d w" "find d k = Some a"
    "shm_live w' = shm_live w - rec_blocks (deref d a)"
  shows "store_ok good look blocks g base (del d a) w'"
  using assms del_good [of d k a] by (auto simp: store_ok_def)

lemma rec_ok_find:
  assumes "store_ok good look blocks g base d w" "find d k = Some a"
  shows "rec_ok g (deref d a)" "ur_aor (deref d a) = k"
  using assms find_aor [of d k a] find_look [OF assms(2)] by (simp_all add: store_ok_def)

end

definition dom_blocks :: "udomain \<Rightarrow> int" where
  "dom_blocks d = sum_list (map (\<lambda>a. rec_blocks (the_rec d a)) (d_list d))"

lemma sum_list_filter_one:
  fixes f :: "addr \<Rightarrow> int"
  assumes "distinct xs" "a \<in> set xs"
  shows "sum_list (map f (filter (\<lambda>x. x \<noteq> a) xs)) = sum_list (map f xs) - f a"
proof -
  from assms(2) obtain ys zs where "xs = ys @ a # zs" by (meson split_list)
  then show ?thesis using filter_removes_one [of ys a zs] assms(1) by simp
qed

lemma sum_list_change:
  fixes f g :: "addr \<Rightarrow> int"
  assumes "distinct xs" "a \<in> set xs" "\<And>x. x \<noteq> a \<Longrightarrow> g x = f x"
  shows "sum_list (map g xs) = sum_list (map f xs) - f a + g a"
proof -
  from assms(2) obtain ys zs where xs: "xs = ys @ a # zs" by (meson split_list)
  with assms(1) have "a \<notin> set ys" "a \<notin> set zs" by auto
  then have "map g ys = map f ys" "map g zs = map f zs"
    by (auto intro!: assms(3))
  with xs show ?thesis by (simp del: map_eq_conv)
qed

lemma dom_blocks_put:
  assumes "dom_inv d"
  shows "dom_blocks (put_urecord d k r) = dom_blocks d + rec_blocks r"
proof -
  have "next_rec d \<notin> set (d_list d)"
    using dom_invD(4,8) [OF assms] by (metis less_irrefl not_Some_eq)
  then have same: "map (\<lambda>a. rec_blocks (the_rec (put_urecord d k r) a)) (d_list d) =
      map (\<lambda>a. rec_blocks (the_rec d a)) (d_list d)"
    by (intro map_cong) (auto simp: the_rec_def put_urecord_def Let_def)
  have "the_rec (put_urecord d k r) (next_rec d) = r"
    by (simp add: the_rec_def put_urecord_def Let_def)
  moreover have "d_list (put_urecord d k r) = d_list d @ [next_rec d]"
    by (simp add: put_urecord_def Let_def)
  ultimately show ?thesis by (simp add: dom_blocks_def same del: map_eq_conv)
qed

interpretation ds: record_store dom_inv get_urecord the_rec view put_urecord set_rec unlink_rec dom_blocks
proof
  fix d :: udomain and k :: string and r :: urecord and a :: addr
  show "view d k = map_option (the_rec d) (get_urecord d k)" by (simp add: view_def)
  assume inv: "dom_inv d"
  show "dom_inv (put_urecord d k r) \<and> view (put_urecord d k r) = (view d)(k \<mapsto> r) \<and>
      dom_blocks (put_urecord d k r) = dom_blocks d + rec_blocks r"
    if "get_urecord d k = None" "ur_aor r = k"
    using put_keeps_inv [OF inv that] dom_blocks_put [OF inv] by simp
  assume a: "get_urecord d k = Some a"
  then obtain s where s: "recs d a = Some s" "ur_aor s = k" using get_urecord_iff [OF inv] by blast
  then show "ur_aor (the_rec d a) = k" by (simp add: the_rec_def)
  from s have mem: "a \<in> set (d_list d)" using dom_invD(4) [OF inv] by simp
  note dist = dom_invD(3) [OF inv]
  have "dom_blocks (unlink_rec d a) = sum_list (map (\<lambda>a. rec_blocks (the_rec d a)) (filter (\<lambda>x. x \<noteq> a) (d_list d)))"
    unfolding dom_blocks_def unlink_rec_def Let_def
    by (intro arg_cong [where f = sum_list] map_cong) (auto simp: the_rec_def)
  then show "dom_inv (unlink_rec d a) \<and> view (unlink_rec d a) = (view d)(k := None) \<and>
      dom_blocks (unlink_rec d a) = dom_blocks d - rec_blocks (the_rec d a)"
    using unlink_keeps_inv [OF inv s(1)] s(2) sum_list_filter_one [OF dist mem]
    by (simp add: dom_blocks_def)
  show "dom_inv (set_rec d a r) \<and> view (set_rec d a r) = (view d)(k \<mapsto> r) \<and>
      get_urecord (set_rec d a r) k = Some a \<and>
      dom_blocks (set_rec d a r) = dom_blocks d - rec_blocks (the_rec d a) + rec_blocks r"
    if "ur_aor r = k"
    using set_rec_keeps_inv [OF inv s(1), of r] a s(2) that
      sum_list_change [OF dist mem, of "\<lambda>x. rec_blocks (the_rec (set_rec d a r) x)" "\<lambda>x. rec_blocks (the_rec d x)"]
    by (simp add: dom_blocks_def set_rec_def the_rec_def)
qed

abbreviation cache_ok :: "cfg \<Rightarrow> int \<Rightarrow> udomain \<Rightarrow> world \<Rightarrow> bool" where
  "cache_ok \<equiv> store_ok dom_inv view dom_blocks"

subsection \<open>Operations on a domain keep it well formed and accounted for\<close>

lemma free_fold_live:
  "shm_live (fold (\<lambda>_. shm_free) xs w) = shm_live w - int (length xs)"
  by (induction xs arbitrary: w) simp_all

lemma free_contacts_live:
  "shm_live (fold free_ucontact cs w) = shm_live w - sum_list (map contact_blocks cs)"
  by (induction cs arbitrary: w) (simp_all add: free_ucontact_live)

lemma free_urecord_live: "shm_live (free_urecord r w) = shm_live w - rec_blocks r"
  by (simp add: free_urecord_def Let_def rec_blocks_def free_fold_live free_contacts_live)

lemma new_urecord_effect:
  "new_urecord g dmn k w = (Inr r, w') \<Longrightarrow>
     r = empty_record dmn k \<and> shm_live w' = shm_live w + rec_blocks r"
  "new_urecord g dmn k w = (Inl e, w') \<Longrightarrow> shm_live w' = shm_live w"
  by (auto simp: new_urecord_def shm_malloc_def Let_def empty_record_def rec_blocks_def split: if_splits)

lemma empty_record_ok [simp]: "rec_ok g (empty_record dmn k)" "ur_aor (empty_record dmn k) = k"
  "contacts (empty_record dmn k) = []" "watchers (empty_record dmn k) = []"
  by (simp_all add: rec_ok_def empty_record_def)

lemma insert_urecord_keeps:
  assumes ok: "cache_ok g base d w" and new: "get_urecord d k = None"
    and ins: "insert_urecord g d k w = (x, d', w')"
  shows "cache_ok g base d' w' \<and>
    (case x of Inl e \<Rightarrow> d' = d
     | Inr a \<Rightarrow> get_urecord d' k = Some a \<and> the_rec d' a = empty_record (d_name d) k \<and>
         view d' = (view d)(k \<mapsto> empty_record (d_name d) k))"
proof -
  obtain y w1 where n: "new_urecord g (d_name d) k w = (y, w1)" by fastforce
  show ?thesis
  proof (cases y)
    case (Inl e)
    with n ins ok show ?thesis
      by (auto simp: insert_urecord_def mem_insert_urecord_def store_ok_def dest: new_urecord_effect(2))
  next
    case (Inr r)
    with n ins have r: "r = empty_record (d_name d) k" "shm_live w1 = shm_live w + rec_blocks r"
      and d': "d' = put_urecord d k r" "x = Inr (next_rec d)" "w' = w1"
      by (auto simp: insert_urecord_def mem_insert_urecord_def dest: new_urecord_effect(1))
    have inv: "dom_inv d" using ok by (simp add: store_ok_def)
    show ?thesis
      using ds.put_keeps [OF ok new _ _ r(2)] put_keeps_inv [OF inv new, of r] r d' by simp
  qed
qed

lemma release_keeps:
  assumes ok: "cache_ok g base d w" and a: "get_urecord d k = Some a"
    and rel: "release_urecord d a w = (d', w')"
  shows "cache_ok g base d' w' \<and>
    view d' = (if contacts (the_rec d a) = [] \<and> watchers (the_rec d a) = [] then (view d)(k := None)
               else view d)"
  using assms ds.del_keeps [OF ok a, of w'] ds.del_good [of d k a]
  by (auto simp: release_urecord_def mem_delete_urecord_def free_urecord_live store_ok_def split: if_splits)

text \<open>Writing a record back and releasing it.\<close>

lemma change_release_keeps:
  assumes ok: "cache_ok g base d w" and a: "get_urecord d k = Some a"
    and r: "ur_aor r = k" "rec_ok g r" "shm_live w1 = shm_live w + rec_blocks r - rec_blocks (the_rec d a)"
    and rel: "release_urecord (set_rec d a r) a w1 = (d', w')"
  shows "cache_ok g base d' w' \<and>
    view d' = (if contacts r = [] \<and> watchers r = [] then (view d)(k := None) else (view d)(k \<mapsto> r))"
proof -
  have inv: "dom_inv d" using ok by (simp add: store_ok_def)
  note c = ds.change_good [OF inv a r(1)]
  have "the_rec (set_rec d a r) a = r" by (simp add: the_rec_def set_rec_def)
  with release_keeps [OF ds.change_keeps [OF ok a r] _ rel, of k] c show ?thesis by simp
qed

lemma delete_contacts_step:
  assumes ok: "rec_ok g r" and i: "i < length (contacts r)"
  obtains r' w' where "delete_ucontact g r i w = Some (r', w')"
    "rec_ok g r'" "ur_aor r' = ur_aor r" "watchers r' = watchers r"
    "shm_live w' = shm_live w + rec_blocks r' - rec_blocks r"
    "r' = r\<lparr>contacts := remove_nth i (contacts r)\<rparr> \<and>
       (cfg_db_mode g \<noteq> WRITE_BACK \<or> uc_state (contacts r ! i) = CS_NEW) \<or>
     (\<exists>c. r' = r\<lparr>contacts := (contacts r)[i := c]\<rparr> \<and> cfg_db_mode g = WRITE_BACK \<and>
       uc_state (contacts r ! i) \<noteq> CS_NEW \<and>
       c = (contacts r ! i)\<lparr>uc_flags := uc_flags (contacts r ! i) AND NOT FL_PERMANENT, uc_expires := 0\<rparr>)"
proof -
  have c: "contact_ok (contacts r ! i)" "uc_aor (contacts r ! i) = ur_aor r" "aor_ok g (ur_aor r)"
    using ok nth_mem [OF i] by (simp_all add: rec_ok_def)
  obtain r' w' where del: "delete_ucontact g r i w = Some (r', w')"
    using delete_total [of g r i w] c by fastforce
  show thesis
  proof (rule delete_effect [OF del i])
    fix c'
    assume r': "r' = r\<lparr>contacts := (contacts r)[i := c']\<rparr>" and "shm_live w' = shm_live w"
      "contact_ok c' = contact_ok (contacts r ! i)" "contact_blocks c' = contact_blocks (contacts r ! i)"
      "uc_aor c' = uc_aor (contacts r ! i)" "cfg_db_mode g = WRITE_BACK" "uc_state (contacts r ! i) \<noteq> CS_NEW"
      "c' = (contacts r ! i)\<lparr>uc_flags := uc_flags (contacts r ! i) AND NOT FL_PERMANENT, uc_expires := 0\<rparr>"
    with del c ok i show thesis
      using set_update_subset_insert [of "contacts r" i c']
      by (intro that [of r' w']) (auto simp: rec_ok_def rec_blocks_def sum_blocks_update)
  next
    assume r': "r' = r\<lparr>contacts := remove_nth i (contacts r)\<rparr>" and "shm_live w' = shm_live w - contact_blocks (contacts r ! i)"
      "cfg_db_mode g \<noteq> WRITE_BACK \<or> uc_state (contacts r ! i) = CS_NEW"
    with del c ok i show thesis
      using set_remove_nth [of i "contacts r"]
      by (intro that [of r' w']) (auto simp: rec_ok_def rec_blocks_def sum_blocks_remove)
  qed
qed

text \<open>What deleting the whole record does to one contact.\<close>

definition stays :: "cfg \<Rightarrow> ucontact \<Rightarrow> bool" where
  "stays g c \<longleftrightarrow> cfg_db_mode g = WRITE_BACK \<and> uc_state c \<noteq> CS_NEW"

definition marked_deleted :: "ucontact \<Rightarrow> ucontact" where
  "marked_deleted c = c\<lparr>uc_flags := uc_flags c AND NOT FL_PERMANENT, uc_expires := 0\<rparr>"

definition wiped :: "cfg \<Rightarrow> urecord \<Rightarrow> urecord" where
  "wiped g r = r\<lparr>contacts := map marked_deleted (filter (stays g) (contacts r))\<rparr>"

lemma delete_contacts_from:
  "rec_ok g r \<Longrightarrow> i + n = length (contacts r) \<Longrightarrow>
   \<exists>r' w'. delete_contacts g n r i w = Some (r', w') \<and>
     r' = r\<lparr>contacts := take i (contacts r) @ map marked_deleted (filter (stays g) (drop i (contacts r)))\<rparr> \<and>
     rec_ok g r' \<and> shm_live w' = shm_live w + rec_blocks r' - rec_blocks r"
proof (induction n arbitrary: r i w)
  case 0
  then show ?case by simp
next
  case (Suc n)
  then have i: "i < length (contacts r)" by simp
  let ?c = "contacts r ! i"
  have split: "drop i (contacts r) = ?c # drop (Suc i) (contacts r)" using i by (simp add: Cons_nth_drop_Suc)
  show ?case
  proof (rule delete_contacts_step [OF Suc.prems(1) i, of w], goal_cases)
    case (1 r1 w1)
    from 1(6) show ?case
    proof
      assume *: "r1 = r\<lparr>contacts := remove_nth i (contacts r)\<rparr> \<and> (cfg_db_mode g \<noteq> WRITE_BACK \<or> uc_state ?c = CS_NEW)"
      then have cs: "contacts r1 = take i (contacts r) @ drop (Suc i) (contacts r)"
        and len: "i + n = length (contacts r1)" "length (contacts r1) < length (contacts r)"
        using Suc.prems(2) by (simp_all add: remove_nth_def)
      from Suc.IH [OF 1(2) len(1), of w1] obtain r' w' where IH: "delete_contacts g n r1 i w1 = Some (r', w')"
        "r' = r1\<lparr>contacts := take i (contacts r1) @ map marked_deleted (filter (stays g) (drop i (contacts r1)))\<rparr>"
        "rec_ok g r'" "shm_live w' = shm_live w1 + rec_blocks r' - rec_blocks r1" by blast
      moreover have "\<not> stays g ?c" using * by (auto simp: stays_def)
      ultimately show ?case using 1(1,5) * cs len i split by simp
    next
      assume "\<exists>c. r1 = r\<lparr>contacts := (contacts r)[i := c]\<rparr> \<and> cfg_db_mode g = WRITE_BACK \<and> uc_state ?c \<noteq> CS_NEW \<and>
        c = ?c\<lparr>uc_flags := uc_flags ?c AND NOT FL_PERMANENT, uc_expires := 0\<rparr>"
      then have *: "r1 = r\<lparr>contacts := (contacts r)[i := marked_deleted ?c]\<rparr>" "stays g ?c"
        by (auto simp: marked_deleted_def stays_def)
      then have len: "Suc i + n = length (contacts r1)" "\<not> length (contacts r1) < length (contacts r)"
        and cs: "take (Suc i) (contacts r1) = take i (contacts r) @ [marked_deleted ?c]"
          "drop (Suc i) (contacts r1) = drop (Suc i) (contacts r)"
        using Suc.prems(2) i by (simp_all add: take_Suc_conv_app_nth)
      from Suc.IH [OF 1(2) len(1), of w1] obtain r' w' where IH: "delete_contacts g n r1 (Suc i) w1 = Some (r', w')"
        "r' = r1\<lparr>contacts := take (Suc i) (contacts r1) @ map marked_deleted (filter (stays g) (drop (Suc i) (contacts r1)))\<rparr>"
        "rec_ok g r'" "shm_live w' = shm_live w1 + rec_blocks r' - rec_blocks r1" by blast
      then show ?case using 1(1,5) * cs len split by simp
    qed
  qed
qed

lemma delete_contacts_wipes:
  assumes "rec_ok g r"
  obtains w' where "delete_contacts g (length (contacts r)) r 0 w = Some (wiped g r, w')"
    "rec_ok g (wiped g r)" "shm_live w' = shm_live w + rec_blocks (wiped g r) - rec_blocks r"
  using delete_contacts_from [OF assms, of 0 "length (contacts r)" w] by (auto simp: wiped_def)

lemma wiped_simps [simp]: "ur_aor (wiped g r) = ur_aor r" "watchers (wiped g r) = watchers r"
  by (simp_all add: wiped_def)

lemma delete_urecord_keeps:
  assumes ok: "cache_ok g base d w"
  obtains d' w' where "delete_urecord g d k w = Some (d', w')" "cache_ok g base d' w'"
    "view d' = (case view d k of None \<Rightarrow> view d
       | Some r \<Rightarrow> if contacts (wiped g r) = [] \<and> watchers r = [] then (view d)(k := None)
                 else (view d)(k \<mapsto> wiped g r))"
proof (cases "get_urecord d k")
  case None
  then show thesis using that [of d w] ok by (simp add: delete_urecord_def view_def)
next
  case (Some a)
  note r = ds.rec_ok_find [OF ok Some]
  obtain w1 where w1: "delete_contacts g (length (contacts (the_rec d a))) (the_rec d a) 0 w = Some (wiped g (the_rec d a), w1)"
    "rec_ok g (wiped g (the_rec d a))"
    "shm_live w1 = shm_live w + rec_blocks (wiped g (the_rec d a)) - rec_blocks (the_rec d a)"
    by (rule delete_contacts_wipes [OF r(1)])
  obtain d' w' where rel: "release_urecord (set_rec d a (wiped g (the_rec d a))) a w1 = (d', w')" by fastforce
  show thesis
    using that [of d' w'] change_release_keeps [OF ok Some _ w1(2,3) rel] w1(1) rel r(2) Some
    by (simp add: delete_urecord_def ds.find_look)
qed

subsection \<open>The timer of a domain\<close>

definition timer_leaves :: "cfg \<Rightarrow> urecord \<Rightarrow> urecord option" where
  "timer_leaves g r =
     (if contacts (timed g r) = [] \<and> watchers r = [] then None else Some (timed g r))"

lemma kept_by_simps [simp]:
  "contact_ok (kept_by g c) = contact_ok c" "contact_blocks (kept_by g c) = contact_blocks c"
  "uc_aor (kept_by g c) = uc_aor c"
  by (simp_all add: kept_by_def synced_keeps)

lemma timed_simps [simp]: "ur_aor (timed g r) = ur_aor r" "watchers (timed g r) = watchers r"
  "rec_ok g r \<Longrightarrow> rec_ok g (timed g r)"
  by (auto simp: timed_def rec_ok_def)

lemma timed_blocks:
  "rec_blocks (timed g r) = rec_blocks r -
     sum_list (map contact_blocks (filter (\<lambda>c. \<not> live_contact g c) (contacts r)))"
  using sum_blocks_filter [of "live_contact g" "contacts r"]
  by (simp add: rec_blocks_def timed_def comp_def)

lemma expired_irrelevant [simp]:
  "dom_inv (d\<lparr>d_expired := n\<rparr>) = dom_inv d" "view (d\<lparr>d_expired := n\<rparr>) = view d"
  "dom_blocks (d\<lparr>d_expired := n\<rparr>) = dom_blocks d" "get_urecord (d\<lparr>d_expired := n\<rparr>) = get_urecord d"
  "the_rec (d\<lparr>d_expired := n\<rparr>) = the_rec d" "cache_ok g base (d\<lparr>d_expired := n\<rparr>) w = cache_ok g base d w"
  by (simp_all add: dom_inv_def view_def [abs_def] dom_blocks_def get_urecord_def [abs_def] the_rec_def [abs_def]
      store_ok_def)

lemma release_recs:
  assumes "release_urecord (set_rec d a r) a w = (d', w')"
  shows "recs d' = (recs d)(a := if contacts r = [] \<and> watchers r = [] then None else Some r)"
  using assms
  by (auto simp: release_urecord_def mem_delete_urecord_def the_rec_def set_rec_def unlink_rec_def Let_def
      split: if_splits)

lemma timer_walk_spec:
  "cache_ok g base d w \<Longrightarrow> distinct as \<Longrightarrow> \<forall>a\<in>set as. recs d a \<noteq> None \<Longrightarrow>
   \<exists>d' w'. timer_walk g as d w = Some (d', w') \<and> cache_ok g base d' w' \<and>
     recs d' = (\<lambda>a. if a \<in> set as then Option.bind (recs d a) (timer_leaves g) else recs d a)"
proof (induction as arbitrary: d w)
  case Nil
  then show ?case by simp
next
  case (Cons a as)
  then obtain r where r: "recs d a = Some r" by auto
  have inv: "dom_inv d" using Cons.prems(1) by (simp add: store_ok_def)
  have a: "get_urecord d (ur_aor r) = Some a" using r by (simp add: get_urecord_iff [OF inv])
  have tr: "the_rec d a = r" using r by (simp add: the_rec_def)
  note ok = ds.rec_ok_find(1) [OF Cons.prems(1) a, unfolded tr]
  let ?n = "length (filter (\<lambda>c. \<not> live_contact g c) (contacts r))"
  obtain w1 where t: "timer_urecord g r w = Some (timed g r, w1, ?n)"
    "shm_live w1 = shm_live w - sum_list (map contact_blocks (filter (\<lambda>c. \<not> live_contact g c) (contacts r)))"
    by (rule timer_effect [of r g w]) (use ok in \<open>auto simp: rec_ok_def\<close>)
  let ?d = "d\<lparr>d_expired := d_expired d + int ?n\<rparr>"
  obtain d1 w2 where rel: "release_urecord (set_rec ?d a (timed g r)) a w1 = (d1, w2)" by fastforce
  have step: "timer_walk g (a # as) d w = timer_walk g as d1 w2"
    using t(1) rel r by (cases "contacts (timed g r) = []")
      (simp_all add: release_urecord_def the_rec_def set_rec_def Let_def)
  have "cache_ok g base d1 w2"
    using change_release_keeps [of g base ?d w "ur_aor r" a "timed g r" w1 d1 w2] Cons.prems(1) a t rel ok
    by (simp add: tr timed_blocks)
  moreover have recs1: "recs d1 = (recs d)(a := timer_leaves g r)"
    using release_recs [OF rel] by (simp add: timer_leaves_def)
  moreover have "\<forall>b\<in>set as. recs d1 b \<noteq> None" using Cons.prems recs1 by auto
  ultimately obtain d' w' where "timer_walk g as d1 w2 = Some (d', w')" "cache_ok g base d' w'"
    "recs d' = (\<lambda>b. if b \<in> set as then Option.bind (recs d1 b) (timer_leaves g) else recs d1 b)"
    using Cons.IH [of d1 w2] Cons.prems(2) by auto
  with step recs1 r Cons.prems(2) show ?case by (auto simp: fun_eq_iff)
qed

lemma timer_udomain_spec:
  assumes ok: "cache_ok g base d w"
  obtains d' w' where "timer_udomain g d w = Some (d', w')" "cache_ok g base d' w'"
    "\<And>k. view d' k = Option.bind (view d k) (timer_leaves g)"
proof -
  have inv: "dom_inv d" using ok by (simp add: store_ok_def)
  obtain d' w' where t: "timer_walk g (d_list d) d w = Some (d', w')" "cache_ok g base d' w'"
    "recs d' = (\<lambda>a. if a \<in> set (d_list d) then Option.bind (recs d a) (timer_leaves g) else recs d a)"
    using timer_walk_spec [OF ok dom_invD(3) [OF inv]] dom_invD(4) [OF inv] by blast
  have inv': "dom_inv d'" using t(2) by (simp add: store_ok_def)
  have recs': "recs d' a = Option.bind (recs d a) (timer_leaves g)" for a
    using t(3) dom_invD(4) [OF inv, of a] by (cases "recs d a") auto
  have aor: "timer_leaves g r = Some r' \<Longrightarrow> ur_aor r' = ur_aor r" for r r'
    by (auto simp: timer_leaves_def split: if_splits)
  have "view d' = (\<lambda>k. Option.bind (view d k) (timer_leaves g))"
  proof (rule view_eqI [OF inv'])
    fix k r'
    show "Option.bind (view d k) (timer_leaves g) = Some r' \<longleftrightarrow> (\<exists>a. recs d' a = Some r' \<and> ur_aor r' = k)"
      using aor by (auto simp: bind_eq_Some_conv view_iff [OF inv] recs')
  qed
  with that t(1,2) show thesis by (simp add: timer_udomain_def)
qed

subsection \<open>Watchers\<close>

lemma add_watcher_effect:
  "add_watcher g r n w = (True, r', w') \<Longrightarrow> r' = r\<lparr>watchers := n # watchers r\<rparr> \<and> shm_live w' = shm_live w + 1"
  "add_watcher g r n w = (False, r', w') \<Longrightarrow> r' = r \<and> shm_live w' = shm_live w"
  by (auto simp: add_watcher_def shm_malloc_def Let_def split: if_splits)

lemma int_length_remove1: "n \<in> set xs \<Longrightarrow> int (length (remove1 n xs)) = int (length xs) - 1"
  by (induction xs) auto

lemma remove_watcher_effect:
  "remove_watcher r n w = (x, r', w') \<Longrightarrow> r' = r\<lparr>watchers := remove1 n (watchers r)\<rparr> \<and>
     shm_live w' = shm_live w + rec_blocks r' - rec_blocks r"
  by (auto simp: remove_watcher_def rec_blocks_def remove1_idem int_length_remove1 split: if_splits)

lemma watchers_rec_ok [simp]: "rec_ok g (r\<lparr>watchers := ws\<rparr>) = rec_ok g r"
  by (simp add: rec_ok_def)


lemma register_watcher_keeps:
  assumes ok: "cache_ok g base d w" and reg: "register_watcher g d k n w = (x, d', w')"
  shows "cache_ok g base d' w' \<and> (x = 0 \<or> x = -2 \<or> x = -3) \<and>
    (x = 0 \<longrightarrow> view d' = (view d)(k \<mapsto>
       (case view d k of Some r \<Rightarrow> r\<lparr>watchers := n # watchers r\<rparr>
        | None \<Rightarrow> (empty_record (d_name d) k)\<lparr>watchers := [n]\<rparr>)))"
proof -
  define found where "found = (case get_urecord d k of Some a \<Rightarrow> (Inr a, d, w) | None \<Rightarrow> insert_urecord g d k w)"
  obtain y d1 w1 where f: "found = (y, d1, w1)" by (cases found)
  have f1: "cache_ok g base d1 w1 \<and>
      (\<forall>a. y = Inr a \<longrightarrow> get_urecord d1 k = Some a \<and>
        view d1 = (view d)(k \<mapsto> the_rec d1 a) \<and>
        the_rec d1 a = (case view d k of Some r \<Rightarrow> r | None \<Rightarrow> empty_record (d_name d) k))"
  proof (cases "get_urecord d k")
    case None
    with f have "insert_urecord g d k w = (y, d1, w1)" by (simp add: found_def)
    from insert_urecord_keeps [OF ok None this] None show ?thesis
      by (cases y) (auto simp: view_def)
  next
    case (Some a)
    with f ok show ?thesis by (auto simp: found_def view_def fun_eq_iff)
  qed
  show ?thesis
  proof (cases y)
    case (Inl e)
    with reg f f1 show ?thesis by (simp add: register_watcher_def flip: found_def)
  next
    case (Inr a)
    with f1 have ok1: "cache_ok g base d1 w1" and a: "get_urecord d1 k = Some a" by simp_all
    note r = ds.rec_ok_find [OF ok1 a]
    obtain b r' w2 where ad: "add_watcher g (the_rec d1 a) n w1 = (b, r', w2)" by (cases "add_watcher g (the_rec d1 a) n w1")
    show ?thesis
    proof (cases b)
      case True
      with ad have e: "r' = (the_rec d1 a)\<lparr>watchers := n # watchers (the_rec d1 a)\<rparr>" "shm_live w2 = shm_live w1 + 1"
        using add_watcher_effect(1) [of g "the_rec d1 a" n w1 r' w2] by simp_all
      from reg f Inr ad True have res: "x = 0" "d' = set_rec d1 a r'" "w' = w2"
        by (simp_all add: register_watcher_def flip: found_def)
      have "cache_ok g base d' w'" unfolding res
        by (rule ds.change_keeps [OF ok1 a]) (use e r in \<open>simp_all add: rec_blocks_def\<close>)
      moreover have "view d' = (view d1)(k \<mapsto> r')"
        using ds.change_good [of d1 k a r'] ok1 a e(1) r(2) by (simp add: res store_ok_def)
      ultimately show ?thesis using f1 Inr e(1) by (auto simp: res empty_record_def split: option.splits)
    next
      case False
      with ad have e: "r' = the_rec d1 a" "shm_live w2 = shm_live w1" using add_watcher_effect(2) [of g "the_rec d1 a" n w1 r' w2] by simp_all
      from ok1 e have ok2: "cache_ok g base d1 w2" by (simp add: store_ok_def)
      from reg f Inr ad False obtain "x = -3" "release_urecord d1 a w2 = (d', w')"
        by (auto simp: register_watcher_def split: prod.splits simp flip: found_def)
      with release_keeps [OF ok2 a] show ?thesis by simp
    qed
  qed
qed

lemma unregister_watcher_keeps:
  assumes ok: "cache_ok g base d w" and reg: "unregister_watcher d k n w = (x, d', w')"
  shows "cache_ok g base d' w' \<and> x = 0 \<and>
    view d' = (case view d k of None \<Rightarrow> view d
      | Some r \<Rightarrow> if contacts r = [] \<and> remove1 n (watchers r) = [] then (view d)(k := None)
                else (view d)(k \<mapsto> r\<lparr>watchers := remove1 n (watchers r)\<rparr>))"
proof (cases "get_urecord d k")
  case None
  with reg ok show ?thesis by (simp add: unregister_watcher_def view_def)
next
  case (Some a)
  note r = ds.rec_ok_find [OF ok Some]
  obtain y r' w1 where rem: "remove_watcher (the_rec d a) n w = (y, r', w1)" by (cases "remove_watcher (the_rec d a) n w")
  note e = remove_watcher_effect [OF rem]
  obtain d1 w2 where rel: "release_urecord (set_rec d a r') a w1 = (d1, w2)" by fastforce
  have "cache_ok g base d1 w2 \<and>
    view d1 = (if contacts r' = [] \<and> watchers r' = [] then (view d)(k := None) else (view d)(k \<mapsto> r'))"
    by (rule change_release_keeps [OF ok Some _ _ _ rel]) (use e r in simp_all)
  moreover have "x = 0" "d' = d1" "w' = w2"
    using reg Some rem rel by (simp_all add: unregister_watcher_def)
  ultimately show ?thesis using e Some by (simp add: ds.find_look)
qed

subsection \<open>Loading the table\<close>

definition all_synced :: "udomain \<Rightarrow> bool" where
  "all_synced d \<longleftrightarrow> (\<forall>k r. view d k = Some r \<longrightarrow> (\<forall>c \<in> set (contacts r). uc_state c = CS_SYNC))"

text \<open>Either the record for an address is there, or it is created.\<close>

lemma mem_insert_urecord_eq: "insert_urecord g d k w = mem_insert_urecord g d k w"
  by (auto simp: insert_urecord_def mem_insert_urecord_def split: prod.splits sum.splits)

lemma get_or_create:
  assumes ok: "cache_ok g base d w"
    and f: "(case get_urecord d k of Some a \<Rightarrow> (Inr a, d, w) | None \<Rightarrow> mem_insert_urecord g d k w) = (y, d1, w1)"
  shows "cache_ok g base d1 w1"
    and "y = Inl e \<Longrightarrow> d1 = d"
    and "y = Inr a \<Longrightarrow> get_urecord d1 k = Some a"
    and "y = Inr a \<Longrightarrow> view d1 = (view d)(k \<mapsto> the_rec d1 a)"
    and "y = Inr a \<Longrightarrow> the_rec d1 a =
      (case view d k of Some r \<Rightarrow> r | None \<Rightarrow> empty_record (d_name d) k)"
proof -
  have "cache_ok g base d1 w1 \<and> (\<forall>e. y = Inl e \<longrightarrow> d1 = d) \<and>
      (\<forall>a. y = Inr a \<longrightarrow> get_urecord d1 k = Some a \<and>
        view d1 = (view d)(k \<mapsto> the_rec d1 a) \<and>
        the_rec d1 a = (case view d k of Some r \<Rightarrow> r | None \<Rightarrow> empty_record (d_name d) k))"
  proof (cases "get_urecord d k")
    case None
    with f have "insert_urecord g d k w = (y, d1, w1)" by (simp add: mem_insert_urecord_eq)
    from insert_urecord_keeps [OF ok None this] None show ?thesis
      by (cases y) (auto simp: view_def)
  next
    case (Some a)
    with f ok show ?thesis by (auto simp: view_def fun_eq_iff)
  qed
  then show "cache_ok g base d1 w1" "y = Inl e \<Longrightarrow> d1 = d" "y = Inr a \<Longrightarrow> get_urecord d1 k = Some a"
    "y = Inr a \<Longrightarrow> view d1 = (view d)(k \<mapsto> the_rec d1 a)"
    "y = Inr a \<Longrightarrow> the_rec d1 a = (case view d k of Some r \<Rightarrow> r | None \<Rightarrow> empty_record (d_name d) k)"
    by blast+
qed

lemma preload_one_keeps:
  assumes ok: "cache_ok g base d w" "all_synced d"
    and aor: "\<And>user. pr_user row = Some user \<Longrightarrow> aor_ok g (preload_aor g user (pr_domain row))"
    and run: "preload_one g row d w = (x, d', w')"
  shows "cache_ok g base d' w' \<and> all_synced d' \<and> (x = 0 \<or> x = -2 \<or> x = -3)"
proof (cases "pr_user row = None \<or> pr_contact row = None \<or> pr_callid row = None")
  case True
  with run ok show ?thesis by (auto simp: preload_one_def split: option.splits)
next
  case False
  then obtain user contact callid where row: "pr_user row = Some user" "pr_contact row = Some contact"
    "pr_callid row = Some callid" by auto
  define k where "k = preload_aor g user (pr_domain row)"
  define ua where "ua = (case pr_ua row of Some s \<Rightarrow> s | None \<Rightarrow> [])"
  define found where "found = (case get_urecord d k of Some a \<Rightarrow> (Inr a, d, w) | None \<Rightarrow> mem_insert_urecord g d k w)"
  obtain y d1 w1 where f: "found = (y, d1, w1)" by (cases found)
  note gc = get_or_create [OF ok(1) f [unfolded found_def]]
  show ?thesis
  proof (cases y)
    case (Inl e)
    with run f row gc ok(2) show ?thesis
      by (auto simp: preload_one_def Let_def simp flip: k_def ua_def found_def)
  next
    case (Inr a)
    have sync1: "all_synced d1"
      using ok(2) gc(4,5) [OF Inr] by (auto simp: all_synced_def split: option.splits if_splits)
    obtain z w2 where ins: "mem_insert_ucontact g (the_rec d1 a) contact (pr_expires row) (pr_q row) callid
                          (pr_cseq row) (pr_flags row) ua (pr_received row) w1 = (z, w2)" by fastforce
    show ?thesis
    proof (cases z)
      case (Inl e)
      with run f row gc Inr ins sync1 mem_insert_failD [of g "the_rec d1 a"] show ?thesis
        by (fastforce simp: preload_one_def Let_def store_ok_def simp flip: k_def ua_def found_def)
    next
      case (Inr ir)
      obtain i r where ir: "ir = (i, r)" by fastforce
      from ins Inr ir obtain c where i: "i \<le> length (contacts (the_rec d1 a))"
        and r: "r = (the_rec d1 a)\<lparr>contacts := insert_nth i c (contacts (the_rec d1 a))\<rparr>"
        and new: "new_ucontact g (ur_domain (the_rec d1 a)) (ur_aor (the_rec d1 a)) contact (pr_expires row) (pr_q row)
           callid (pr_cseq row) (pr_flags row) ua (pr_received row) w1 = (Some c, w2)"
        by (auto elim: mem_insertD)
      note c = new_ucontactD(1) [OF new]
      let ?c = "c\<lparr>uc_state := CS_SYNC\<rparr>"
      let ?r = "(the_rec d1 a)\<lparr>contacts := insert_nth i ?c (contacts (the_rec d1 a))\<rparr>"
      have res: "x = 0 \<and> d' = set_rec d1 a ?r \<and> w' = w2"
        using run f row \<open>y = Inr a\<close> ins Inr ir r i
        by (simp add: preload_one_def Let_def insert_nth_at flip: k_def ua_def found_def)
      note old = ds.rec_ok_find [OF gc(1) gc(3) [OF \<open>y = Inr a\<close>]]
      have aor_k: "aor_ok g k" using aor [OF row(1)] by (simp add: k_def)
      have cc: "contact_ok ?c" "contact_blocks ?c = contact_blocks c" "uc_aor ?c = k"
        using c old(2) by (simp_all add: contact_ok_def contact_blocks_def)
      have ok': "cache_ok g base d' w'"
        unfolding res [THEN conjunct2, THEN conjunct1] res [THEN conjunct2, THEN conjunct2]
        by (rule ds.change_keeps [OF gc(1) gc(3) [OF \<open>y = Inr a\<close>]])
          (use old aor_k cc c i in \<open>auto simp: rec_ok_def rec_blocks_def set_insert_nth sum_blocks_insert\<close>)
      have "view d' = (view d1)(k \<mapsto> ?r)"
        using ds.change_good [of d1 k a ?r] gc(1) gc(3) [OF \<open>y = Inr a\<close>] old(2) res by (simp add: store_ok_def)
      moreover have "view d1 k = Some (the_rec d1 a)" using gc(4) [OF \<open>y = Inr a\<close>] by simp
      ultimately have "all_synced d'"
        using sync1 unfolding all_synced_def by (auto simp: set_insert_nth split: if_splits)
      with ok' res show ?thesis by simp
    qed
  qed
qed

lemma preload_rows_keeps:
  "cache_ok g base d w \<Longrightarrow> all_synced d \<Longrightarrow>
   (\<And>row user. row \<in> set rows \<Longrightarrow> pr_user row = Some user \<Longrightarrow> aor_ok g (preload_aor g user (pr_domain row))) \<Longrightarrow>
   preload_rows g rows d w = (x, d', w') \<Longrightarrow>
   cache_ok g base d' w' \<and> all_synced d' \<and> (x = 0 \<or> x = -2 \<or> x = -3)"
proof (induction rows arbitrary: d w)
  case (Cons row rows)
  obtain y d1 w1 where one: "preload_one g row d w = (y, d1, w1)" by (cases "preload_one g row d w")
  from preload_one_keeps [OF Cons.prems(1,2) Cons.prems(3) one] have 1: "cache_ok g base d1 w1" "all_synced d1"
    "y = 0 \<or> y = -2 \<or> y = -3" by auto
  show ?case
  proof (cases "y < 0")
    case True
    with Cons.prems(4) one 1 show ?thesis by auto
  next
    case False
    with Cons.prems(4) one Cons.IH [OF 1(1,2)] Cons.prems(3) show ?thesis by simp
  qed
qed simp

lemma new_udomain_ok:
  assumes "new_udomain g n s w = (Inr d, w')" "s > 0"
  shows "cache_ok g (shm_live w + 2) d w' \<and> view d = (\<lambda>_. None) \<and> all_synced d"
proof -
  from assms have d: "d_size d = s" "d_table d = replicate s []" "d_list d = []" "d_users d = 0"
      "recs d = (\<lambda>_. None)" "rec_slot d = (\<lambda>_. 0)" and w: "shm_live w' = shm_live w + 2"
    by (auto simp: new_udomain_def shm_malloc_def Let_def split: if_splits)
  have inv: "dom_inv d" using assms(2) by (simp add: dom_inv_def d)
  have "view d = (\<lambda>_. None)" by (rule view_eqI [OF inv]) (simp add: d)
  with inv w d show ?thesis by (simp add: store_ok_def dom_blocks_def all_synced_def)
qed

subsection \<open>Properties of the operations on a domain\<close>

text \<open>
  C34: The hash table finds a record exactly when the domain holds one for that address
  of record. Creating a record for an address not found makes it the one found for that
  address, leaves every other address as it was and allocates what the record owns; if
  there is no memory the domain is unchanged and nothing leaks.
\<close>

theorem insert_urecord_correct:
  assumes "cache_ok g base d w" "get_urecord d k = None" "insert_urecord g d k w = (x, d', w')"
  shows "cache_ok g base d' w' \<and>
    (case x of
       Inl e \<Rightarrow> d' = d
     | Inr a \<Rightarrow> get_urecord d' k = Some a \<and> view d' = (view d)(k \<mapsto> empty_record (d_name d) k))"
  using insert_urecord_keeps [OF assms] by (simp split: sum.splits)

text \<open>
  C4: A pass of the timer over a domain always completes. It applies the timer to every
  record of the list exactly once: each record keeps exactly its valid contacts, a record
  left without contacts and without watchers is freed, and no other record is touched.
  The table, the list and the counter stay consistent, and memory is accounted for.
\<close>

theorem timer_udomain_correct:
  assumes "cache_ok g base d w"
  shows "\<exists>d' w'. timer_udomain g d w = Some (d', w') \<and> cache_ok g base d' w' \<and>
    (\<forall>k. view d' k = Option.bind (view d k) (timer_leaves g))"
  using timer_udomain_spec [OF assms] by metis

lemma marked_deleted_invalid: "act_time g \<ge> 0 \<Longrightarrow> \<not> live_contact g (marked_deleted c)"
proof -
  assume "act_time g \<ge> 0"
  moreover have "(uc_flags c AND NOT FL_PERMANENT) AND FL_PERMANENT = 0"
    by (simp add: and.assoc)
  ultimately show ?thesis by (simp add: VALID_CONTACT_def marked_deleted_def)
qed

text \<open>
  C5: Deleting an address of record always completes. Whatever the database mode, no
  contact registered for that address is valid afterwards; other addresses are untouched;
  without write-back, or when nothing has reached the database, the record itself is gone
  unless somebody watches it.
\<close>

theorem delete_urecord_correct:
  assumes "cache_ok g base d w" "act_time g \<ge> 0"
  shows "\<exists>d' w'. delete_urecord g d k w = Some (d', w') \<and> cache_ok g base d' w' \<and>
    (\<forall>k'. k' \<noteq> k \<longrightarrow> view d' k' = view d k') \<and>
    (\<forall>r. view d' k = Some r \<longrightarrow> list_all (\<lambda>c. \<not> live_contact g c) (contacts r)) \<and>
    (\<forall>r. view d k = Some r \<longrightarrow> watchers r = [] \<longrightarrow>
       cfg_db_mode g \<noteq> WRITE_BACK \<or> list_all (\<lambda>c. uc_state c = CS_NEW) (contacts r) \<longrightarrow> view d' k = None)"
proof -
  obtain d' w' where del: "delete_urecord g d k w = Some (d', w')" "cache_ok g base d' w'"
    and v: "view d' = (case view d k of None \<Rightarrow> view d
       | Some r \<Rightarrow> if contacts (wiped g r) = [] \<and> watchers r = [] then (view d)(k := None)
                 else (view d)(k \<mapsto> wiped g r))"
    by (rule delete_urecord_keeps [OF assms(1)])
  have wiped: "list_all (\<lambda>c. \<not> live_contact g c) (contacts (wiped g r))" for r
    by (auto simp: wiped_def list_all_iff marked_deleted_invalid [OF assms(2)])
  have none: "contacts (wiped g r) = []"
    if "cfg_db_mode g \<noteq> WRITE_BACK \<or> list_all (\<lambda>c. uc_state c = CS_NEW) (contacts r)" for r
    using that by (auto simp: wiped_def stays_def list_all_iff filter_empty_conv)
  show ?thesis
    using del v wiped none by (auto split: option.splits if_splits)
qed

text \<open>
  Registering a watcher either fails with the domain still consistent and nothing
  leaked, or puts the watcher first on the record of the address, creating the record if
  need be; unregistering it then gives back the record as it was, or removes the record
  if it was created only for the watcher.
\<close>

theorem watcher_round_trip:
  assumes "cache_ok g base d w" "register_watcher g d k n w = (x, d1, w1)"
    and "unregister_watcher d1 k n w1 = (y, d2, w2)"
  shows "cache_ok g base d1 w1 \<and> cache_ok g base d2 w2 \<and> y = 0 \<and>
    (x = 0 \<longrightarrow>
       view d2 = (case view d k of
           None \<Rightarrow> (view d)(k := None)
         | Some r \<Rightarrow> if contacts r = [] \<and> watchers r = [] then (view d)(k := None) else view d))"
proof -
  note r1 = register_watcher_keeps [OF assms(1,2)]
  from r1 have ok1: "cache_ok g base d1 w1" by simp
  note r2 = unregister_watcher_keeps [OF ok1 assms(3)]
  show ?thesis
  proof (cases "x = 0")
    case True
    with r1 have v1: "view d1 = (view d)(k \<mapsto>
       (case view d k of Some r \<Rightarrow> r\<lparr>watchers := n # watchers r\<rparr>
        | None \<Rightarrow> (empty_record (d_name d) k)\<lparr>watchers := [n]\<rparr>))" by simp
    show ?thesis using r1 r2 by (auto simp: v1 fun_eq_iff split: option.splits)
  qed (use r1 r2 in simp)
qed

text \<open>
  Loading the table into a fresh domain gives a consistent domain in which every
  contact is marked as stored, with every block accounted for, whether or not the
  loading stops at a row for lack of memory.
\<close>

theorem preload_marks_stored:
  assumes "new_udomain g n s w = (Inr d, w1)" "s > 0"
    and "\<And>row user. row \<in> set rows \<Longrightarrow> pr_user row = Some user \<Longrightarrow> aor_ok g (preload_aor g user (pr_domain row))"
    and "preload_udomain g (Some rows) d w1 = (x, d', w')"
  shows "cache_ok g (shm_live w + 2) d' w' \<and> (x = 0 \<or> x = -2 \<or> x = -3) \<and>
    (\<forall>k r. view d' k = Some r \<longrightarrow> (\<forall>c \<in> set (contacts r). uc_state c = CS_SYNC))"
  using preload_rows_keeps [of g "shm_live w + 2" d w1 rows x d' w'] new_udomain_ok [OF assms(1,2)] assms(3,4)
  by (auto simp: preload_udomain_def all_synced_def)

subsection \<open>Examples\<close>

definition demo_dom :: "db_mode \<Rightarrow> udomain" where
  "demo_dom m = projr (fst (new_udomain (demo_cfg m) ''location'' 4 demo_world))"

definition demo_w1 :: world where "demo_w1 = demo_world\<lparr>shm_n := 2, shm_live := 2\<rparr>"

lemma demo_dom_new: "new_udomain (demo_cfg m) ''location'' 4 demo_world = (Inr (demo_dom m), demo_w1)"
  by (simp add: demo_dom_def demo_w1_def new_udomain_def shm_malloc_def demo_cfg_def demo_world_def)

lemma demo_dom_ok: "cache_ok (demo_cfg m) 2 (demo_dom m) demo_w1"
  using new_udomain_ok [OF demo_dom_new [of m]] by (simp add: demo_world_def)

lemma demo_dom_empty: "view (demo_dom m) = (\<lambda>_. None)"
  using new_udomain_ok [OF demo_dom_new [of m]] by simp

theorem insert_urecord_correct_witness:
  "\<exists>d w. insert_urecord (demo_cfg NO_DB) (demo_dom NO_DB) ''bob'' demo_w1 = (Inr 0, d, w) \<and>
     cache_ok (demo_cfg NO_DB) 2 d w \<and> get_urecord d ''bob'' = Some 0"
proof -
  let ?res = "insert_urecord (demo_cfg NO_DB) (demo_dom NO_DB) ''bob'' demo_w1"
  have "fst ?res = Inr 0" by code_simp
  then have res: "?res = (Inr 0, fst (snd ?res), snd (snd ?res))" by (metis prod.collapse)
  have "get_urecord (demo_dom NO_DB) ''bob'' = None"
    using demo_dom_empty [of NO_DB] by (simp add: view_def fun_eq_iff)
  from insert_urecord_correct [OF demo_dom_ok this res] res show ?thesis
    by (intro exI [of _ "fst (snd ?res)"] exI [of _ "snd (snd ?res)"]) simp
qed

text \<open>A domain with one contact of bob, valid until 200.\<close>

definition demo_row :: "int \<Rightarrow> preload_row" where
  "demo_row e = \<lparr>pr_user = Some ''bob'', pr_contact = Some ''sip:a'', pr_expires = e, pr_q = 500,
     pr_callid = Some ''c1'', pr_cseq = 1, pr_flags = 0, pr_ua = None, pr_received = None, pr_domain = []\<rparr>"

definition demo_load :: "db_mode \<Rightarrow> int \<times> udomain \<times> world" where
  "demo_load m = preload_udomain (demo_cfg m) (Some [demo_row 200]) (demo_dom m) demo_w1"

definition demo_dom1 :: "db_mode \<Rightarrow> udomain" where "demo_dom1 m = fst (snd (demo_load m))"
definition demo_w2 :: "db_mode \<Rightarrow> world" where "demo_w2 m = snd (snd (demo_load m))"

lemma demo_load_eq:
  "preload_udomain (demo_cfg m) (Some [demo_row 200]) (demo_dom m) demo_w1 =
     (fst (demo_load m), demo_dom1 m, demo_w2 m)"
  by (simp add: demo_load_def demo_dom1_def demo_w2_def)

lemma demo_dom1_ok: "cache_ok (demo_cfg m) 2 (demo_dom1 m) (demo_w2 m)"
  using preload_rows_keeps [OF demo_dom_ok _ _ demo_load_eq [unfolded preload_udomain_def option.case]]
    new_udomain_ok [OF demo_dom_new [of m]] demo_aor_ok
  by auto

theorem preload_marks_stored_witness:
  "\<exists>r. view (demo_dom1 WRITE_BACK) ''bob'' = Some r \<and> list_all (\<lambda>c. uc_state c = CS_SYNC) (contacts r)"
proof -
  have "view (demo_dom1 WRITE_BACK) ''bob'' = Some (the (view (demo_dom1 WRITE_BACK) ''bob''))" by code_simp
  with preload_marks_stored [OF demo_dom_new _ _ demo_load_eq, of WRITE_BACK] demo_aor_ok
  show ?thesis unfolding list_all_iff by fastforce
qed

theorem timer_udomain_correct_witness:
  "\<exists>d w. timer_udomain (demo_cfg WRITE_BACK) (demo_dom1 WRITE_BACK) (demo_w2 WRITE_BACK) = Some (d, w) \<and>
     view d ''bob'' \<noteq> None \<and> view d ''carol'' = None"
proof -
  have "Option.bind (view (demo_dom1 WRITE_BACK) ''bob'') (timer_leaves (demo_cfg WRITE_BACK)) \<noteq> None"
    "Option.bind (view (demo_dom1 WRITE_BACK) ''carol'') (timer_leaves (demo_cfg WRITE_BACK)) = None"
    by code_simp+
  then show ?thesis using timer_udomain_correct [OF demo_dom1_ok, of WRITE_BACK] by metis
qed

theorem delete_urecord_correct_witness:
  "\<exists>d w. delete_urecord (demo_cfg WRITE_THROUGH) (demo_dom1 WRITE_THROUGH) ''bob'' (demo_w2 WRITE_THROUGH) = Some (d, w) \<and>
     view d ''bob'' = None"
proof -
  let ?r = "the (view (demo_dom1 WRITE_THROUGH) ''bob'')"
  have "act_time (demo_cfg WRITE_THROUGH) \<ge> 0" "cfg_db_mode (demo_cfg WRITE_THROUGH) \<noteq> WRITE_BACK"
    "view (demo_dom1 WRITE_THROUGH) ''bob'' = Some ?r" "watchers ?r = []" by code_simp+
  with delete_urecord_correct [OF demo_dom1_ok, of WRITE_THROUGH "''bob''"] show ?thesis by metis
qed

theorem watcher_round_trip_witness:
  "let (x, d1, w1) = register_watcher (demo_cfg NO_DB) (demo_dom NO_DB) ''bob'' 7 demo_w1;
       (y, d2, w2) = unregister_watcher d1 ''bob'' 7 w1
   in x = 0 \<and> view d1 ''bob'' \<noteq> None \<and> view d2 ''bob'' = None"
proof -
  let ?r1 = "register_watcher (demo_cfg NO_DB) (demo_dom NO_DB) ''bob'' 7 demo_w1"
  let ?r2 = "unregister_watcher (fst (snd ?r1)) ''bob'' 7 (snd (snd ?r1))"
  have "fst ?r1 = 0" by code_simp
  then have 1: "?r1 = (0, fst (snd ?r1), snd (snd ?r1))" by (metis prod.collapse)
  have 2: "?r2 = (fst ?r2, fst (snd ?r2), snd (snd ?r2))" by simp
  have "view (fst (snd ?r1)) ''bob'' \<noteq> None" by code_simp
  with watcher_round_trip [OF demo_dom_ok 1 2] 1 2 show ?thesis
    by (auto simp: demo_dom_empty Let_def split: prod.splits)
qed

end
