(* ===== verification/Ut.thy ===== *)
theory Ut
  imports Prelude
begin

section \<open>Conversions between numbers and strings: ut.h, trim.h\<close>

text \<open>
  Each function reads a string given by pointer and length and, where the C writes
  through a pointer, returns what it writes. Numbers keep the width of their C type.
\<close>

abbreviation digit :: "char \<Rightarrow> bool" where
  "digit c \<equiv> (48 :: nat) \<le> of_char c \<and> of_char c \<le> (57 :: nat)"

definition dig :: "char \<Rightarrow> nat" where "dig c = of_char c - 48"

definition dig_char :: "nat \<Rightarrow> char" where "dig_char n = char_of (n + 48)"

subsection \<open>Decimal numbers\<close>

text \<open>The loop of \<open>str2s\<close>; \<open>i\<close> counts the digits. \<open>None\<close> is a return with \<open>*err\<close> set.\<close>

fun str2s_loop :: "u16 \<Rightarrow> nat \<Rightarrow> string \<Rightarrow> u16 option" where
  "str2s_loop ret i [] = Some ret"
| "str2s_loop ret i (c # cs) =
     (if digit c then
        (if i + 1 > 5 then None else str2s_loop (ret * 10 + of_nat (dig c)) (i + 1) cs)
      else None)"

definition str2s :: "string \<Rightarrow> u16 option" where
  "str2s s = str2s_loop 0 0 s"

definition btostr :: "u8 \<Rightarrow> string" where
  "btostr val =
     (let a = unat val div 100; b = unat val mod 100 div 10
      in (if a \<noteq> 0 then [dig_char a] else []) @
         (if b \<noteq> 0 \<or> a \<noteq> 0 then [dig_char b] else []) @
         [dig_char (unat val mod 10)])"

fun str2int_loop :: "u32 \<Rightarrow> string \<Rightarrow> u32 option" where
  "str2int_loop r [] = Some r"
| "str2int_loop r (c # cs) =
     (if digit c then str2int_loop (r * 10 + of_nat (dig c)) cs else None)"

definition str2int :: "string \<Rightarrow> u32 option" where
  "str2int s = str2int_loop 0 s"

text \<open>
  \<open>int2str\<close> fills its buffer of 21 bytes from the end: \<open>i\<close> is the index written next.
\<close>

fun int2str_loop :: "nat \<Rightarrow> u64 \<Rightarrow> string \<Rightarrow> string" where
  "int2str_loop 0 l r = dig_char (unat (l mod 10)) # r"
| "int2str_loop (Suc i) l r =
     (let r = dig_char (unat (l mod 10)) # r; l = l div 10
      in if l \<noteq> 0 then int2str_loop i l r else r)"

definition int2str :: "u64 \<Rightarrow> string" where
  "int2str l = int2str_loop 19 l []"

subsection \<open>Hexadecimal numbers\<close>

definition hex_digit_val :: "char \<Rightarrow> nat option" where
  "hex_digit_val c =
     (let n = of_char c :: nat
      in if 48 \<le> n \<and> n \<le> 57 then Some (n - 48)
         else if 97 \<le> n \<and> n \<le> 102 then Some (n - 97 + 10)
         else if 65 \<le> n \<and> n \<le> 70 then Some (n - 65 + 10)
         else None)"

text \<open>\<open>None\<close> is the result -1.\<close>

definition hex2int :: "char \<Rightarrow> nat option" where
  "hex2int c = hex_digit_val c"

fun reverse_hex2int_loop :: "u32 \<Rightarrow> string \<Rightarrow> u32 option" where
  "reverse_hex2int_loop res [] = Some res"
| "reverse_hex2int_loop res (c # cs) =
     (case hex_digit_val c of
        None \<Rightarrow> None
      | Some d \<Rightarrow> reverse_hex2int_loop (push_bit 4 res + of_nat d) cs)"

text \<open>The loop runs from the last character to the first.\<close>

definition reverse_hex2int :: "string \<Rightarrow> u32 option" where
  "reverse_hex2int s = reverse_hex2int_loop 0 (rev s)"

definition hex_char :: "nat \<Rightarrow> char" where
  "hex_char d = (if d \<ge> 10 then char_of (d + 97 - 10) else char_of (d + 48))"

text \<open>What is written, and whether the number fitted the space.\<close>

fun int2reverse_hex_loop :: "nat \<Rightarrow> u32 \<Rightarrow> string \<times> bool" where
  "int2reverse_hex_loop 0 nr = ([], nr = 0)"
| "int2reverse_hex_loop (Suc sz) nr =
     (if nr = 0 then ([], True)
      else case int2reverse_hex_loop sz (drop_bit 4 nr) of
        (s, ok) \<Rightarrow> (hex_char (unat (nr AND 15)) # s, ok))"

definition int2reverse_hex :: "nat \<Rightarrow> u32 \<Rightarrow> string \<times> bool" where
  "int2reverse_hex sz nr =
     (if sz > 0 \<and> nr = 0 then (''0'', True) else int2reverse_hex_loop sz nr)"

text \<open>The result is the number of input bytes converted, and what is written.\<close>

definition string2hex :: "u8 list \<Rightarrow> nat \<times> string" where
  "string2hex str =
     (if str = [] then (1, ''0'')
      else (length str,
            concat (map (\<lambda>b. [hex_char (unat (drop_bit 4 b)), hex_char (unat (b AND 15))]) str)))"

subsection \<open>Unescaping, lower case, trimming\<close>

text \<open>The bytes written, and whether the whole input was good.\<close>

fun un_escape :: "string \<Rightarrow> string \<times> bool" where
  "un_escape [] = ([], True)"
| "un_escape (c # cs) =
     (if c = CHR ''%'' then
        (case cs of
           h # l # rest \<Rightarrow>
             (case hex2int h of
                None \<Rightarrow> ([], False)
              | Some hi \<Rightarrow>
                  (case hex2int l of
                     None \<Rightarrow> ([], False)
                   | Some lo \<Rightarrow>
                       let value = hi * 16 + lo
                       in if value < 32 \<or> value > 126 then ([], False)
                          else (case un_escape rest of (s, ok) \<Rightarrow> (char_of value # s, ok))))
         | _ \<Rightarrow> ([], False))
      else (case un_escape cs of (s, ok) \<Rightarrow> (c # s, ok)))"

definition tolower :: "char \<Rightarrow> char" where
  "tolower c = (if 65 \<le> (of_char c :: nat) \<and> of_char c \<le> (90 :: nat) then char_of (of_char c + (32 :: nat)) else c)"

definition strlower :: "string \<Rightarrow> string" where
  "strlower s = map tolower s"

definition trim_char :: "char \<Rightarrow> bool" where
  "trim_char c \<longleftrightarrow> c = CHR '' '' \<or> c = CHR 0x09 \<or> c = CHR 0x0D \<or> c = CHR 0x0A"

definition trim_leading :: "string \<Rightarrow> string" where
  "trim_leading s = dropWhile trim_char s"

definition trim_trailing :: "string \<Rightarrow> string" where
  "trim_trailing s = rev (dropWhile trim_char (rev s))"

definition trim :: "string \<Rightarrow> string" where
  "trim s = trim_trailing (trim_leading s)"

subsection \<open>The value of a string of digits\<close>

definition dec_val :: "nat \<Rightarrow> string \<Rightarrow> nat" where
  "dec_val = foldl (\<lambda>a c. 10 * a + dig c)"

lemma dec_val_simps [simp]: "dec_val a [] = a" "dec_val a (c # cs) = dec_val (10 * a + dig c) cs"
  by (simp_all add: dec_val_def)

lemma dig_char [simp]:
  assumes "n < 10"
  shows "digit (dig_char n)" "dig (dig_char n) = n"
  using assms by (simp_all add: dig_char_def dig_def)

lemma dec_val_shift: "dec_val a s = a * 10 ^ length s + dec_val 0 s"
proof (induction s arbitrary: a)
  case (Cons c cs)
  show ?case using Cons [of "10 * a + dig c"] Cons [of "dig c"] by (simp add: algebra_simps)
qed simp

lemma str2int_loop_value:
  "str2int_loop (of_nat a) s = (if list_all digit s then Some (of_nat (dec_val a s)) else None)"
proof (induction s arbitrary: a)
  case (Cons c cs)
  have "of_nat a * 10 + of_nat (dig c) = (of_nat (10 * a + dig c) :: u32)" by simp
  with Cons [of "10 * a + dig c"] show ?case by (simp del: of_nat_add of_nat_mult)
qed simp

lemma str2int_value: "str2int s = (if list_all digit s then Some (of_nat (dec_val 0 s)) else None)"
  using str2int_loop_value [of 0 s] by (simp add: str2int_def)

lemma str2s_loop_value:
  "str2s_loop (of_nat a) i s =
     (if list_all digit s \<and> i + length s \<le> 5 \<or> s = [] then Some (of_nat (dec_val a s)) else None)"
proof (induction s arbitrary: a i)
  case (Cons c cs)
  have "of_nat a * 10 + of_nat (dig c) = (of_nat (10 * a + dig c) :: u16)" by simp
  with Cons [of "10 * a + dig c" "Suc i"] show ?case
    by (auto simp del: of_nat_add of_nat_mult)
qed simp

lemma str2s_value:
  "str2s s = (if list_all digit s \<and> length s \<le> 5 then Some (of_nat (dec_val 0 s)) else None)"
  using str2s_loop_value [of 0 0 s] by (auto simp: str2s_def)

lemma int2str_loop_value:
  "unat l < 10 ^ (Suc i) \<Longrightarrow>
   \<exists>s. int2str_loop i l r = s @ r \<and> list_all digit s \<and> dec_val 0 s = unat l \<and> s \<noteq> [] \<and> length s \<le> Suc i"
proof (induction i arbitrary: l r)
  case 0
  then have "unat (l mod 10) = unat l" by (simp add: unat_mod)
  with 0 show ?case by (intro exI [of _ "[dig_char (unat (l mod 10))]"]) simp
next
  case (Suc i)
  let ?c = "dig_char (unat (l mod 10))"
  have m: "unat (l mod 10) < 10" by (simp add: unat_mod)
  show ?case
  proof (cases "l div 10 = 0")
    case True
    then have "unat (l div 10) = 0" by simp
    then have "unat l div 10 = 0" by (simp add: unat_div)
    then have "unat (l mod 10) = unat l" by (simp add: unat_mod)
    with True m show ?thesis by (intro exI [of _ "[?c]"]) (simp add: Let_def)
  next
    case False
    have d: "unat (l div 10) = unat l div 10" by (simp add: unat_div)
    then have "unat (l div 10) < 10 ^ Suc i" using Suc.prems by (simp add: less_mult_imp_div_less algebra_simps)
    from Suc.IH [OF this, of "?c # r"] obtain s where s: "int2str_loop i (l div 10) (?c # r) = s @ ?c # r"
      "list_all digit s" "dec_val 0 s = unat (l div 10)" "s \<noteq> []" "length s \<le> Suc i" by blast
    have "dec_val 0 (s @ [?c]) = 10 * dec_val 0 s + unat (l mod 10)"
      using m by (simp add: dec_val_def)
    also have "\<dots> = unat l" using s(3) d by (simp add: unat_mod)
    finally have "dec_val 0 (s @ [?c]) = unat l" .
    with s m False show ?thesis by (intro exI [of _ "s @ [?c]"]) (simp add: Let_def)
  qed
qed

lemma int2str_value:
  "list_all digit (int2str l) \<and> dec_val 0 (int2str l) = unat l \<and> int2str l \<noteq> [] \<and> length (int2str l) \<le> 20"
proof -
  have "unat l < 2 ^ 64" using unsigned_less [of l, where 'a = nat] by simp
  then have "unat l < 10 ^ Suc 19" by simp
  from int2str_loop_value [OF this, of "[]"] show ?thesis by (auto simp: int2str_def)
qed


text \<open>
  The decimal printer never leaves its buffer of 21 bytes, whatever the number, and
  reading its result back gives the number, reduced to the 32 bits of the reader.
\<close>

theorem int2str_str2int:
  "length (int2str l) \<le> 20 \<and> str2int (int2str l) = Some (ucast l)"
  using int2str_value [of l] by (simp add: str2int_value flip: unsigned_ucast_eq)

text \<open>
  The decimal printer of bytes writes one to three characters, and reading them as a
  16-bit number gives the byte back.
\<close>

lemma btostr_str2s: "length (btostr v) \<in> {1, 2, 3} \<and> str2s (btostr v) = Some (ucast v)"
proof -
  define a b c where "a = unat v div 100" and "b = unat v mod 100 div 10" and "c = unat v mod 10"
  have "unat v < 256" using unsigned_less [of v, where 'a = nat] by simp
  then have lt: "a < 10" "b < 10" "c < 10" by (auto simp: a_def b_def c_def)
  have "unat v mod 100 mod 10 = c" unfolding c_def by (rule mod_mod_cancel) simp
  then have "unat v mod 100 = 10 * b + c" using mult_div_mod_eq [of 10 "unat v mod 100"] by (simp add: b_def)
  then have v: "unat v = 100 * a + 10 * b + c" using mult_div_mod_eq [of 100 "unat v"] by (simp add: a_def)
  have str: "btostr v = (if a \<noteq> 0 then [dig_char a] else []) @
      (if b \<noteq> 0 \<or> a \<noteq> 0 then [dig_char b] else []) @ [dig_char c]"
    by (simp only: btostr_def Let_def a_def b_def c_def)
  have "list_all digit (btostr v)" and "length (btostr v) \<in> {1, 2, 3}"
    using lt by (cases "a = 0"; cases "b = 0"; simp add: str)+
  moreover have "dec_val 0 (btostr v) = unat v"
    unfolding v using lt by (cases "a = 0"; cases "b = 0"; simp add: str)
  ultimately show ?thesis by (auto simp: str2s_value)
qed

subsection \<open>Hexadecimal round trip\<close>

lemma hex_digit_char [simp]: "d < 16 \<Longrightarrow> hex_digit_val (hex_char d) = Some d"
  by (auto simp: hex_digit_val_def hex_char_def Let_def)

lemma reverse_hex2int_loop_snoc:
  "reverse_hex2int_loop r (s @ [c]) =
     (case reverse_hex2int_loop r s of None \<Rightarrow> None
      | Some v \<Rightarrow> map_option (\<lambda>d. push_bit 4 v + of_nat d) (hex_digit_val c))"
  by (induction s arbitrary: r) (auto split: option.split)

lemma nibble: "push_bit 4 (drop_bit 4 nr) + (nr AND 15) = (nr :: u32)"
proof -
  have 1: "nr AND 15 = take_bit 4 nr" by (simp add: take_bit_eq_mask mask_eq_decr_exp numeral_eq_Suc)
  have "push_bit 4 (drop_bit 4 nr) + take_bit 4 nr = nr" by (rule bits_ident)
  with 1 show ?thesis by simp
qed

lemma int2reverse_hex_loop_value:
  "int2reverse_hex_loop sz nr = (s, True) \<Longrightarrow> reverse_hex2int_loop 0 (rev s) = Some nr"
proof (induction sz arbitrary: nr s)
  case (Suc sz)
  show ?case
  proof (cases "nr = 0")
    case False
    with Suc.prems obtain t where t: "int2reverse_hex_loop sz (drop_bit 4 nr) = (t, True)"
      "s = hex_char (unat (nr AND 15)) # t" by (auto split: prod.splits)
    have "unat (nr AND 15) < 16"
      using word_and_le1 [of nr 15] by (simp add: word_le_nat_alt)
    with Suc.IH [OF t(1)] t(2) show ?thesis by (simp add: reverse_hex2int_loop_snoc nibble)
  qed (use Suc.prems in simp)
qed (auto split: if_splits)

lemma int2reverse_hex_loop_fits:
  "unat nr < 16 ^ sz \<Longrightarrow> snd (int2reverse_hex_loop sz nr)"
proof (induction sz arbitrary: nr)
  case (Suc sz)
  have "unat (drop_bit 4 nr) = unat nr div 16" by (simp add: drop_bit_eq_div unat_div)
  with Suc.prems have "unat (drop_bit 4 nr) < 16 ^ sz" by (simp add: less_mult_imp_div_less algebra_simps)
  from Suc.IH [OF this] show ?case by (auto split: prod.splits)
qed (simp add: unat_eq_zero)

lemma int2reverse_hex_length: "length (fst (int2reverse_hex_loop sz nr)) \<le> sz"
proof (induction sz arbitrary: nr)
  case (Suc sz)
  from Suc [of "drop_bit 4 nr"] show ?case by (cases "int2reverse_hex_loop sz (drop_bit 4 nr)") simp
qed simp

text \<open>
  The reversed hexadecimal printer stays inside the space it is given; when it
  reports success, reading its output gives the number back; eight characters are always
  enough for a 32-bit number.
\<close>

theorem reverse_hex_round_trip:
  "case int2reverse_hex sz nr of (s, ok) \<Rightarrow>
     length s \<le> sz \<and> (ok \<longrightarrow> s \<noteq> [] \<or> nr = 0) \<and> (ok \<longrightarrow> reverse_hex2int s = Some nr) \<and> (sz \<ge> 8 \<longrightarrow> ok)"
proof (cases "sz > 0 \<and> nr = 0")
  case True
  then show ?thesis by (simp add: int2reverse_hex_def reverse_hex2int_def hex_digit_val_def)
next
  case False
  then have eq: "int2reverse_hex sz nr = int2reverse_hex_loop sz nr" by (auto simp: int2reverse_hex_def)
  obtain s ok where r: "int2reverse_hex_loop sz nr = (s, ok)" by fastforce
  have "ok" if "sz \<ge> 8"
  proof -
    have "unat nr < 16 ^ 8" using unsigned_less [of nr, where 'a = nat] by simp
    also have "(16 :: nat) ^ 8 \<le> 16 ^ sz" using that by (rule power_increasing) simp
    finally show ?thesis using int2reverse_hex_loop_fits [of nr sz] r by simp
  qed
  moreover have "length s \<le> sz" using int2reverse_hex_length [of sz nr] r by simp
  moreover have "ok \<Longrightarrow> reverse_hex2int s = Some nr"
    using int2reverse_hex_loop_value r by (simp add: reverse_hex2int_def)
  ultimately show ?thesis by (auto simp: eq r reverse_hex2int_def)
qed

subsection \<open>Unescaping\<close>

lemma un_escape_length: "length (fst (un_escape s)) \<le> length s"
proof (induction s rule: length_induct)
  case (1 s)
  show ?case
  proof (cases s)
    case (Cons c cs)
    show ?thesis
    proof (cases "c = CHR ''%''")
      case False
      obtain t ok where t: "un_escape cs = (t, ok)" by fastforce
      from 1 Cons have "length (fst (un_escape cs)) \<le> length cs" by simp
      with Cons t False show ?thesis by simp
    next
      case True
      show ?thesis
      proof (cases "\<exists>h l rest. cs = h # l # rest")
        case True
        then obtain h l rest where cs: "cs = h # l # rest" by blast
        obtain t ok where t: "un_escape rest = (t, ok)" by fastforce
        from 1 Cons cs have "length (fst (un_escape rest)) \<le> length rest" by simp
        with Cons cs t \<open>c = CHR ''%''\<close> show ?thesis
          by (cases "hex2int h"; cases "hex2int l"; simp add: Let_def)
      next
        case False
        then have "cs = [] \<or> (\<exists>h. cs = [h])" by (metis neq_Nil_conv)
        with Cons \<open>c = CHR ''%''\<close> show ?thesis by auto
      qed
    qed
  qed simp
qed

definition printable :: "char \<Rightarrow> bool" where
  "printable c \<longleftrightarrow> 32 \<le> (of_char c :: nat) \<and> of_char c \<le> (126 :: nat)"

text \<open>A string with every character escaped.\<close>

definition escape :: "string \<Rightarrow> string" where
  "escape s = concat (map (\<lambda>c. [CHR ''%'', hex_char (of_char c div 16), hex_char (of_char c mod 16)]) s)"

text \<open>
  Unescaping never writes more than it reads, so a buffer as long as the input is
  enough; a user name without percent signs is copied; and unescaping a fully escaped
  string of printable characters gives the string back.
\<close>

theorem un_escape_correct:
  "length (fst (un_escape s)) \<le> length s \<and>
   (CHR ''%'' \<notin> set s \<longrightarrow> un_escape s = (s, True)) \<and>
   (list_all printable s \<longrightarrow> un_escape (escape s) = (s, True))"
proof (intro conjI impI)
  show "length (fst (un_escape s)) \<le> length s" by (rule un_escape_length)
  show "un_escape s = (s, True)" if "CHR ''%'' \<notin> set s"
    using that by (induction s) auto
  show "un_escape (escape s) = (s, True)" if "list_all printable s"
    using that
  proof (induction s)
    case (Cons c cs)
    have p: "printable c" "list_all printable cs" using Cons.prems by simp_all
    then have c: "32 \<le> (of_char c :: nat)" "(of_char c :: nat) \<le> 126"
      by (simp_all add: printable_def)
    have h: "hex2int (hex_char (of_char c div 16)) = Some (of_char c div 16)"
      "hex2int (hex_char (of_char c mod 16)) = Some (of_char c mod 16)"
      using c(2) by (simp_all add: hex2int_def)
    have v: "of_char c div 16 * 16 + of_char c mod 16 = (of_char c :: nat)" by simp
    have esc: "escape (c # cs) = CHR ''%'' # hex_char (of_char c div 16) # hex_char (of_char c mod 16) # escape cs"
      by (simp add: escape_def)
    show ?case
      unfolding esc un_escape.simps list.case h option.case v Let_def
      using Cons.IH [OF p(2)] c by simp
  qed (simp add: escape_def)
qed

theorem reverse_hex_round_trip_witness:
  "int2reverse_hex 8 48879 = (''feeb'', True) \<and> reverse_hex2int ''feeb'' = Some 48879"
proof -
  have *: "int2reverse_hex 8 48879 = (''feeb'', True)" by code_simp
  with reverse_hex_round_trip [of 8 48879] show ?thesis by simp
qed

theorem un_escape_correct_witness:
  "un_escape ''alice'' = (''alice'', True) \<and> un_escape (escape ''a b%'') = (''a b%'', True)"
proof -
  have "CHR ''%'' \<notin> set ''alice''" "list_all printable ''a b%''" by code_simp+
  with un_escape_correct [of "''alice''"] un_escape_correct [of "''a b%''"] show ?thesis by blast
qed

end
