(* ===== verification/Reg_Msg.thy ===== *)
theory Reg_Msg
  imports Udomain Ut
begin

section \<open>REGISTER messages and replies: registrar/sip_msg.c, common.c, reply.c\<close>

text \<open>
  A REGISTER request as the registrar reads it after parsing: the Contact header fields
  with their parsed contacts, the Expires, Call-ID, CSeq and User-Agent header fields and
  what the configuration script set on it. \<open>rcfg\<close> holds the module parameters, the
  \<open>mem_only\<close> flag of the operation under way and, as parameters of the model, whether
  private memory can be allocated and whether the stateless reply can be sent.
  \<open>None\<close> for a parameter of a contact is the null pointer.
\<close>

record reg_contact =
  rc_uri :: string
  rc_q :: "string option"
  rc_expires :: "string option"
  rc_received :: "string option"

record contact_body =
  star_flag :: bool
  body_contacts :: "reg_contact list"

record exp_body =
  exp_valid :: bool
  exp_val :: "32 word"

record reg_msg =
  m_contact :: "contact_body list"
  m_expires :: "exp_body option"
  m_callid :: string
  m_cseq :: string
  m_user_agent :: "string option"
  m_nat :: bool
  m_recv_avp :: "string option"

record rcfg =
  default_expires :: int
  min_expires :: int
  max_expires :: int
  default_q :: int
  max_contacts :: int
  reg_use_domain :: bool
  case_sensitive :: bool
  realm_prefix :: string
  append_branches :: bool
  rcv_param :: string
  mem_only :: u32
  retry_after :: u64
  pkg_ok :: bool
  sl_ok :: bool

datatype rerr =
    R_FINE | R_UL_DEL_R | R_UL_GET_R | R_UL_NEW_R | R_INV_CSEQ | R_UL_INS_C | R_UL_INS_R
  | R_UL_DEL_C | R_UL_UPD_C | R_TO_USER | R_AOR_LEN | R_AOR_PARSE | R_INV_EXP | R_INV_Q
  | R_PARSE | R_TO_MISS | R_CID_MISS | R_CS_MISS | R_PARSE_EXP | R_PARSE_CONT | R_STAR_EXP
  | R_STAR_CONT | R_OOO | R_RETRANS | R_UNESCAPE | R_TOO_MANY

fun reply_code :: "rerr \<Rightarrow> nat" where
  "reply_code R_FINE = 200"
| "reply_code R_UL_DEL_R = 500"
| "reply_code R_UL_GET_R = 500"
| "reply_code R_UL_NEW_R = 500"
| "reply_code R_INV_CSEQ = 400"
| "reply_code R_UL_INS_C = 500"
| "reply_code R_UL_INS_R = 500"
| "reply_code R_UL_DEL_C = 500"
| "reply_code R_UL_UPD_C = 500"
| "reply_code R_TO_USER = 400"
| "reply_code R_AOR_LEN = 500"
| "reply_code R_AOR_PARSE = 400"
| "reply_code R_INV_EXP = 400"
| "reply_code R_INV_Q = 400"
| "reply_code R_PARSE = 400"
| "reply_code R_TO_MISS = 400"
| "reply_code R_CID_MISS = 400"
| "reply_code R_CS_MISS = 400"
| "reply_code R_PARSE_EXP = 400"
| "reply_code R_PARSE_CONT = 400"
| "reply_code R_STAR_EXP = 400"
| "reply_code R_STAR_CONT = 400"
| "reply_code R_OOO = 200"
| "reply_code R_RETRANS = 200"
| "reply_code R_UNESCAPE = 400"
| "reply_code R_TOO_MANY = 503"

fun error_info :: "rerr \<Rightarrow> string" where
  "error_info R_FINE = ''No problem''"
| "error_info R_UL_DEL_R = ''usrloc_record_delete failed''"
| "error_info R_UL_GET_R = ''usrloc_record_get failed''"
| "error_info R_UL_NEW_R = ''usrloc_record_new failed''"
| "error_info R_INV_CSEQ = ''Invalid CSeq number''"
| "error_info R_UL_INS_C = ''usrloc_contact_insert failed''"
| "error_info R_UL_INS_R = ''usrloc_record_insert failed''"
| "error_info R_UL_DEL_C = ''usrloc_contact_delete failed''"
| "error_info R_UL_UPD_C = ''usrloc_contact_update failed''"
| "error_info R_TO_USER = ''No username in To URI''"
| "error_info R_AOR_LEN = ''Address Of Record too long''"
| "error_info R_AOR_PARSE = ''Error while parsing AOR''"
| "error_info R_INV_EXP = ''Invalid expires param in contact''"
| "error_info R_INV_Q = ''Invalid q param in contact''"
| "error_info R_PARSE = ''Message parse error''"
| "error_info R_TO_MISS = ''To header not found''"
| "error_info R_CID_MISS = ''Call-ID header not found''"
| "error_info R_CS_MISS = ''CSeq header not found''"
| "error_info R_PARSE_EXP = ''Expires parse error''"
| "error_info R_PARSE_CONT = ''Contact parse error''"
| "error_info R_STAR_EXP = ''* used in contact and expires is not zero''"
| "error_info R_STAR_CONT = ''* used in contact and more than 1 contact''"
| "error_info R_OOO = ''Out of order request''"
| "error_info R_RETRANS = ''Retransmission''"
| "error_info R_UNESCAPE = ''Error while unescaping username''"
| "error_info R_TOO_MANY = ''Too many registered contacts''"

subsection \<open>Expiry times\<close>

text \<open>The loop of \<open>expires_parser\<close>.\<close>

fun expires_loop :: "32 word \<Rightarrow> string \<Rightarrow> exp_body" where
  "expires_loop v [] = \<lparr>exp_valid = True, exp_val = v\<rparr>"
| "expires_loop v (c # cs) =
     (if digit c then expires_loop (v * 10 + of_nat (dig c)) cs
      else if trim_char c then \<lparr>exp_valid = True, exp_val = v\<rparr>
      else \<lparr>exp_valid = False, exp_val = v\<rparr>)"

text \<open>\<open>None\<close> is the error of an empty body.\<close>

definition expires_parser :: "string \<Rightarrow> exp_body option" where
  "expires_parser s =
     (let tmp = trim_leading s
      in if tmp = [] then None else Some (expires_loop 0 tmp))"

definition get_expires_hf :: "rcfg \<Rightarrow> int \<Rightarrow> reg_msg \<Rightarrow> int" where
  "get_expires_hf rc now m =
     (case m_expires m of
        Some p \<Rightarrow>
          (if exp_valid p then
             (if exp_val p \<noteq> 0 then i32 (sint (exp_val p) + now) else 0)
           else i32 (now + default_expires rc))
      | None \<Rightarrow> i32 (now + default_expires rc))"

definition calc_contact_expires :: "rcfg \<Rightarrow> int \<Rightarrow> reg_msg \<Rightarrow> string option \<Rightarrow> int" where
  "calc_contact_expires rc now m ep =
     (let e = (if ep = None \<or> ep = Some [] then get_expires_hf rc now m
               else
                 let v = (case str2int (the ep) of None \<Rightarrow> 3600 | Some u \<Rightarrow> sint u)
                 in if v \<noteq> 0 then i32 (v + now) else v);
          e = (if e \<noteq> 0 \<and> e - now < min_expires rc then i32 (min_expires rc + now) else e)
      in if e \<noteq> 0 \<and> max_expires rc \<noteq> 0 \<and> e - now > max_expires rc
         then i32 (max_expires rc + now) else e)"

text \<open>\<open>None\<close> is the error of an invalid q parameter. \<open>q0\<close> is the caller's variable.\<close>

definition calc_contact_q :: "rcfg \<Rightarrow> string option \<Rightarrow> int \<Rightarrow> int option" where
  "calc_contact_q rc qp q0 =
     (if qp = None \<or> qp = Some [] then Some (default_q rc)
      else case str2q q0 (the qp) of Inl _ \<Rightarrow> None | Inr q \<Rightarrow> Some q)"

subsection \<open>The contacts of a message\<close>

text \<open>Result: the error, or whether the message has the star contact.\<close>

definition check_contacts :: "rcfg \<Rightarrow> int \<Rightarrow> reg_msg \<Rightarrow> rerr + bool" where
  "check_contacts rc now m =
     (case m_contact m of
        [] \<Rightarrow> Inr False
      | b # bs \<Rightarrow>
          if star_flag b then
            (if get_expires_hf rc now m > 0 then Inl R_STAR_EXP
             else if body_contacts b \<noteq> [] then Inl R_STAR_CONT
             else if bs \<noteq> [] then Inl R_STAR_CONT
             else Inr True)
          else if list_ex star_flag bs then Inl R_STAR_CONT
          else Inr False)"

text \<open>
  \<open>get_first_contact\<close> and \<open>get_next_contact\<close>: the contacts in the order the pair visits
  them. A later header field without contacts ends the walk.
\<close>

fun next_contacts :: "contact_body list \<Rightarrow> reg_contact list" where
  "next_contacts [] = []"
| "next_contacts (b # bs) =
     (if body_contacts b = [] then [] else body_contacts b @ next_contacts bs)"

definition msg_contacts :: "reg_msg \<Rightarrow> reg_contact list" where
  "msg_contacts m = next_contacts (m_contact m)"

subsection \<open>Address of record\<close>

abbreviation (input) MAX_AOR_LEN :: nat where "MAX_AOR_LEN \<equiv> 256"

text \<open>
  \<open>puri\<close> is the user and the host of the parsed URI, none if it does not parse. \<open>None\<close> is
  a write outside the buffer.
\<close>

definition extract_aor ::
  "rcfg \<Rightarrow> (string \<times> string) option \<Rightarrow> (rerr + string) option" where
  "extract_aor rc puri =
     (case puri of
        None \<Rightarrow> Some (Inl R_AOR_PARSE)
      | Some (user, host) \<Rightarrow>
          if length user + length host + 1 > MAX_AOR_LEN then Some (Inl R_AOR_LEN)
          else
            (case un_escape user of (u, ok) \<Rightarrow>
              if length u > MAX_AOR_LEN then None
              else if \<not> ok then Some (Inl R_UNESCAPE)
              else
                let user_len = length u;
                    a = (if reg_use_domain rc then
                           let n = length (realm_prefix rc)
                           in if n \<noteq> 0 \<and> n < length host \<and> take n host = realm_prefix rc
                              then u @ ''@'' @ drop n host
                              else u @ ''@'' @ host
                         else u)
                in if length a > MAX_AOR_LEN then None
                   else if case_sensitive rc then
                     (if user_len + 1 + length host > MAX_AOR_LEN then None
                      else Some (Inr (take (user_len + 1) a @ strlower (drop (user_len + 1) a))))
                   else Some (Inr (strlower a))))"

subsection \<open>The Contact header field of a reply\<close>

record cbuf =
  cb_cap :: "nat option"
  cb_text :: string

definition contact_buf_len :: "rcfg \<Rightarrow> ucontact \<Rightarrow> nat" where
  "contact_buf_len rc c =
     2 + length (dat (uc_c c)) +
     (if len_q (uc_q c) \<noteq> 0 then 3 + len_q (uc_q c) else 0) +
     (9 + 21) +
     (if cap (uc_received c) \<noteq> None
      then 1 + length (rcv_param rc) + 1 + 1 + length (dat (uc_received c)) + 1 else 0)"

fun calc_buf_len_loop :: "rcfg \<Rightarrow> int \<Rightarrow> nat \<Rightarrow> ucontact list \<Rightarrow> nat" where
  "calc_buf_len_loop rc now len [] = len"
| "calc_buf_len_loop rc now len (c # cs) =
     calc_buf_len_loop rc now
       (if VALID_CONTACT c now
        then (if len \<noteq> 0 then len + 2 else len) + contact_buf_len rc c else len) cs"

definition calc_buf_len :: "rcfg \<Rightarrow> int \<Rightarrow> ucontact list \<Rightarrow> nat" where
  "calc_buf_len rc now cs =
     (let len = calc_buf_len_loop rc now 0 cs in if len \<noteq> 0 then len + (9 + 2) else len)"

text \<open>What the loop of \<open>build_contact\<close> writes for one contact, and for all of them.\<close>

definition contact_text :: "rcfg \<Rightarrow> int \<Rightarrow> ucontact \<Rightarrow> string" where
  "contact_text rc now c =
     ''<'' @ dat (uc_c c) @ ''>'' @
     (if len_q (uc_q c) \<noteq> 0 then '';q='' @ q2str (uc_q c) else []) @
     '';expires='' @ int2str (word_of_int (i32 (uc_expires c - now))) @
     (if cap (uc_received c) \<noteq> None
      then '';'' @ rcv_param rc @ [CHR ''='', CHR 0x22] @ dat (uc_received c) @ [CHR 0x22] else [])"

fun contacts_loop :: "rcfg \<Rightarrow> int \<Rightarrow> bool \<Rightarrow> ucontact list \<Rightarrow> string" where
  "contacts_loop rc now fl [] = []"
| "contacts_loop rc now fl (c # cs) =
     (if VALID_CONTACT c now then
        (if fl then '', '' else []) @ contact_text rc now c @ contacts_loop rc now True cs
      else contacts_loop rc now fl cs)"

text \<open>
  The buffer is kept from one reply to the next and replaced when too small; \<open>alloc\<close> is
  whether the allocation succeeds. \<open>None\<close> is a write past the end of the buffer.
\<close>

definition build_contact ::
  "rcfg \<Rightarrow> int \<Rightarrow> bool \<Rightarrow> ucontact list \<Rightarrow> cbuf \<Rightarrow> (int \<times> cbuf) option" where
  "build_contact rc now alloc cs b =
     (let len = calc_buf_len rc now cs
      in if len = 0 then Some (0, b\<lparr>cb_text := []\<rparr>)
         else
           let grow = (case cb_cap b of None \<Rightarrow> True | Some n \<Rightarrow> n < len)
           in if grow \<and> \<not> alloc then Some (-1, \<lparr>cb_cap = None, cb_text = []\<rparr>)
              else
                let size = (if grow then len else the (cb_cap b));
                    text = ''Contact: '' @ contacts_loop rc now False cs @ [CHR 0x0D, CHR 0x0A]
                in if length text > size then None
                   else Some (0, \<lparr>cb_cap = Some size, cb_text = text\<rparr>))"

subsection \<open>Properties of the message functions\<close>

fun join :: "string \<Rightarrow> string list \<Rightarrow> string" where
  "join sep [] = []"
| "join sep [x] = x"
| "join sep (x # y # xs) = x @ sep @ join sep (y # xs)"

lemma contacts_loop_True:
  "contacts_loop rc now True cs =
     concat (map (\<lambda>c. '', '' @ contact_text rc now c) (filter (\<lambda>c. VALID_CONTACT c now) cs))"
  by (induction cs) auto

lemma join_concat: "join sep (x # xs) = x @ concat (map (\<lambda>y. sep @ y) xs)"
  by (induction xs arbitrary: x) auto

lemma contacts_loop_join:
  "contacts_loop rc now False cs =
     join '', '' (map (contact_text rc now) (filter (\<lambda>c. VALID_CONTACT c now) cs))"
proof (induction cs)
  case (Cons c cs)
  then show ?case by (simp add: contacts_loop_True join_concat comp_def)
qed simp

lemma contact_text_fits: "length (contact_text rc now c) \<le> contact_buf_len rc c"
  using int2str_value [of "word_of_int (i32 (uc_expires c - now))"]
  by (auto simp: contact_text_def contact_buf_len_def len_q_q2str)

lemma calc_buf_len_loop_pos:
  "len \<noteq> 0 \<Longrightarrow> calc_buf_len_loop rc now len cs =
     len + sum_list (map (\<lambda>c. 2 + contact_buf_len rc c) (filter (\<lambda>c. VALID_CONTACT c now) cs))"
  by (induction cs arbitrary: len) auto

lemma contact_buf_len_pos [simp]: "contact_buf_len rc c \<noteq> 0"
  by (simp add: contact_buf_len_def)

lemma sep_text_fits:
  "length (concat (map (\<lambda>c. '', '' @ contact_text rc now c) cs)) \<le> sum_list (map (\<lambda>c. 2 + contact_buf_len rc c) cs)"
proof (induction cs)
  case (Cons c cs)
  with contact_text_fits [of rc now c] show ?case by simp
qed simp

lemma calc_buf_len_zero: "calc_buf_len rc now cs = 0 \<longleftrightarrow> filter (\<lambda>c. VALID_CONTACT c now) cs = []"
proof (induction cs)
  case (Cons c cs)
  have "calc_buf_len_loop rc now (contact_buf_len rc c) cs \<noteq> 0"
    using calc_buf_len_loop_pos [of "contact_buf_len rc c" rc now cs] by simp
  with Cons show ?case by (auto simp: calc_buf_len_def Let_def)
qed (simp add: calc_buf_len_def)

lemma contacts_loop_fits:
  "length (contacts_loop rc now False cs) \<le> calc_buf_len_loop rc now 0 cs"
proof (induction cs)
  case (Cons c cs)
  show ?case
  proof (cases "VALID_CONTACT c now")
    case True
    have "length (contacts_loop rc now True cs) \<le>
        sum_list (map (\<lambda>c. 2 + contact_buf_len rc c) (filter (\<lambda>c. VALID_CONTACT c now) cs))"
      using sep_text_fits [of rc now "filter (\<lambda>c. VALID_CONTACT c now) cs"] by (simp add: contacts_loop_True)
    with True contact_text_fits [of rc now c] calc_buf_len_loop_pos [of "contact_buf_len rc c" rc now cs]
    show ?thesis by simp
  qed (use Cons in simp)
qed simp

lemma build_contact_eq:
  "build_contact rc now alloc cs b =
     Some (if filter (\<lambda>c. VALID_CONTACT c now) cs = [] then (0, b\<lparr>cb_text := []\<rparr>)
       else if (case cb_cap b of None \<Rightarrow> True | Some n \<Rightarrow> n < calc_buf_len rc now cs) \<and> \<not> alloc
         then (-1, \<lparr>cb_cap = None, cb_text = []\<rparr>)
       else (0, \<lparr>cb_cap = Some (case cb_cap b of None \<Rightarrow> calc_buf_len rc now cs
                  | Some n \<Rightarrow> max n (calc_buf_len rc now cs)),
         cb_text = ''Contact: '' @
           join '', '' (map (contact_text rc now) (filter (\<lambda>c. VALID_CONTACT c now) cs)) @
           [CHR 0x0D, CHR 0x0A]\<rparr>))"
proof (cases "filter (\<lambda>c. VALID_CONTACT c now) cs = []")
  case True
  then show ?thesis by (simp add: build_contact_def calc_buf_len_zero [THEN iffD2])
next
  case False
  then have nz: "calc_buf_len rc now cs \<noteq> 0" by (simp add: calc_buf_len_zero)
  then have "length (contacts_loop rc now False cs) + 11 \<le> calc_buf_len rc now cs"
    using contacts_loop_fits [of rc now cs] by (simp add: calc_buf_len_def Let_def split: if_splits)
  with nz False show ?thesis
    by (cases "cb_cap b") (auto simp: build_contact_def Let_def contacts_loop_join)
qed

text \<open>
  C35: Printing the contacts of a record never writes past the reply buffer, whatever the
  buffer held before and whatever the contacts are. If any contact is valid the text is
  one Contact header field with exactly the valid contacts in their order, each with its
  q value and remaining time; otherwise it is empty.
\<close>

theorem build_contact_fits:
  "build_contact rc now alloc cs b =
     Some (if filter (\<lambda>c. VALID_CONTACT c now) cs = [] then (0, b\<lparr>cb_text := []\<rparr>)
       else if (case cb_cap b of None \<Rightarrow> True | Some n \<Rightarrow> n < calc_buf_len rc now cs) \<and> \<not> alloc
         then (-1, \<lparr>cb_cap = None, cb_text = []\<rparr>)
       else (0, \<lparr>cb_cap = Some (case cb_cap b of None \<Rightarrow> calc_buf_len rc now cs
                  | Some n \<Rightarrow> max n (calc_buf_len rc now cs)),
         cb_text = ''Contact: '' @
           join '', '' (map (contact_text rc now) (filter (\<lambda>c. VALID_CONTACT c now) cs)) @
           [CHR 0x0D, CHR 0x0A]\<rparr>))"
  by (rule build_contact_eq)

lemma calc_contact_expires_clamp:
  assumes "0 \<le> now" "0 \<le> min_expires rc" "0 \<le> max_expires rc"
    "now + min_expires rc < 2 ^ 31" "now + max_expires rc < 2 ^ 31"
    "max_expires rc = 0 \<or> min_expires rc \<le> max_expires rc"
  obtains e where
    "e = (if ep = None \<or> ep = Some [] then get_expires_hf rc now m
          else let v = (case str2int (the ep) of None \<Rightarrow> 3600 | Some u \<Rightarrow> sint u)
               in if v \<noteq> 0 then i32 (v + now) else v)"
    "calc_contact_expires rc now m ep =
      (if e = 0 then 0
       else if e < now + min_expires rc then now + min_expires rc
       else if max_expires rc \<noteq> 0 \<and> e > now + max_expires rc then now + max_expires rc
       else e)"
proof -
  have "i32 (min_expires rc + now) = now + min_expires rc" "i32 (max_expires rc + now) = now + max_expires rc"
    using assms by (simp_all add: i32_id)
  with assms show thesis
    by (intro that [OF refl]) (auto simp: calc_contact_expires_def Let_def)
qed

text \<open>
  The expiry time of a contact is zero, which asks for its removal, or lies between
  the configured minimum and maximum from now, whatever the expires parameter and the
  Expires header field hold.
\<close>

theorem contact_expires_bounds:
  assumes "0 < now" "0 \<le> min_expires rc" "0 \<le> max_expires rc"
    "now + min_expires rc < 2 ^ 31" "now + max_expires rc < 2 ^ 31"
    "max_expires rc = 0 \<or> min_expires rc \<le> max_expires rc"
  shows "calc_contact_expires rc now m ep = 0 \<or>
    now + min_expires rc \<le> calc_contact_expires rc now m ep \<and>
    (max_expires rc \<noteq> 0 \<longrightarrow> calc_contact_expires rc now m ep \<le> now + max_expires rc)"
proof -
  obtain e where "calc_contact_expires rc now m ep =
      (if e = 0 then 0
       else if e < now + min_expires rc then now + min_expires rc
       else if max_expires rc \<noteq> 0 \<and> e > now + max_expires rc then now + max_expires rc
       else e)"
    by (rule calc_contact_expires_clamp [of now rc ep m]) (use assms in auto)
  with assms show ?thesis by auto
qed

lemma sint_neg:
  fixes u :: "32 word"
  assumes "2 ^ 31 \<le> uint u"
  shows "sint u = uint u - 2 ^ 32"
proof -
  have "sint u = (uint u + 2 ^ 31) mod 2 ^ 32 - 2 ^ 31"
    using int_word_sint [where 'a = 32, of "uint u"] by simp
  also have "uint u + 2 ^ 31 = (uint u - 2 ^ 31) + 2 ^ 32" by simp
  also have "\<dots> mod 2 ^ 32 = (uint u - 2 ^ 31) mod 2 ^ 32" by (rule mod_add_self2)
  also have "\<dots> = uint u - 2 ^ 31"
    using assms unsigned_less [of u, where 'a = int] by (intro mod_pos_pos_trivial) simp_all
  finally show ?thesis by simp
qed

text \<open>
  A phone that asks for a long registration gets the shortest one: an expires
  parameter between 2147483648 and 4294967295 is stored as a negative number of seconds
  and then raised to the configured minimum.
\<close>

theorem long_expires_becomes_minimum:
  assumes "str2int ep = Some u" "ep \<noteq> []" "2 ^ 31 \<le> uint u" "uint u + now \<noteq> 2 ^ 32"
    and "0 < now" "0 < min_expires rc" "max_expires rc = 0 \<or> min_expires rc \<le> max_expires rc"
    "now + min_expires rc < 2 ^ 31" "now + max_expires rc < 2 ^ 31" "0 \<le> max_expires rc"
  shows "calc_contact_expires rc now m (Some ep) = now + min_expires rc"
proof -
  have s: "sint u = uint u - 2 ^ 32" by (rule sint_neg [OF assms(3)])
  have lt: "uint u < 2 ^ 32" using unsigned_less [of u, where 'a = int] by simp
  obtain e where e: "e = (let v = sint u in if v \<noteq> 0 then i32 (v + now) else v)"
    "calc_contact_expires rc now m (Some ep) =
      (if e = 0 then 0
       else if e < now + min_expires rc then now + min_expires rc
       else if max_expires rc \<noteq> 0 \<and> e > now + max_expires rc then now + max_expires rc
       else e)"
    by (rule calc_contact_expires_clamp [of now rc "Some ep" m]) (use assms in auto)
  have "e = uint u - 2 ^ 32 + now"
    using e(1) s lt assms by (simp add: i32_id)
  with e(2) lt assms show ?thesis by auto
qed

lemma extract_aor_eq:
  "extract_aor rc puri =
     Some (case puri of
        None \<Rightarrow> Inl R_AOR_PARSE
      | Some (user, host) \<Rightarrow>
          if length user + length host + 1 > MAX_AOR_LEN then Inl R_AOR_LEN
          else if \<not> snd (un_escape user) then Inl R_UNESCAPE
          else
            let u = fst (un_escape user);
                n = length (realm_prefix rc);
                h = (if n \<noteq> 0 \<and> n < length host \<and> take n host = realm_prefix rc then drop n host else host)
            in Inr ((if case_sensitive rc then u else strlower u) @
                 (if reg_use_domain rc then ''@'' @ strlower h else [])))"
proof (cases puri)
  case (Some uh)
  obtain user host where uh: "uh = (user, host)" by fastforce
  obtain u ok where u: "un_escape user = (u, ok)" by fastforce
  have len: "length u \<le> length user" using un_escape_length [of user] u by simp
  have at: "strlower ''@'' = ''@''" by (simp add: strlower_def tolower_def)
  with len Some uh u show ?thesis
    by (auto simp: extract_aor_def Let_def strlower_def tolower_def)
qed (simp add: extract_aor_def)

text \<open>
  C38: Computing the address of record never writes outside its buffer of 256 bytes. For a
  URI that parses and fits it is the unescaped user, in lower case unless user names are
  case sensitive, and, with \<open>use_domain\<close>, an at-sign and the host in lower case without
  the configured prefix.
\<close>

theorem extract_aor_correct:
  "extract_aor rc puri =
     Some (case puri of
        None \<Rightarrow> Inl R_AOR_PARSE
      | Some (user, host) \<Rightarrow>
          if length user + length host + 1 > 256 then Inl R_AOR_LEN
          else if \<not> snd (un_escape user) then Inl R_UNESCAPE
          else
            let u = fst (un_escape user);
                n = length (realm_prefix rc);
                h = (if n \<noteq> 0 \<and> n < length host \<and> take n host = realm_prefix rc then drop n host else host)
            in Inr ((if case_sensitive rc then u else strlower u) @
                 (if reg_use_domain rc then ''@'' @ strlower h else [])))"
  by (rule extract_aor_eq)

subsection \<open>Examples\<close>

definition demo_rc :: rcfg where
  "demo_rc = \<lparr>default_expires = 3600, min_expires = 60, max_expires = 7200, default_q = -1,
     max_contacts = 0, reg_use_domain = False, case_sensitive = False, realm_prefix = [],
     append_branches = True, rcv_param = ''received'', mem_only = 0, retry_after = 0,
     pkg_ok = True, sl_ok = True\<rparr>"

definition demo_msg :: reg_msg where
  "demo_msg = \<lparr>m_contact = [\<lparr>star_flag = False, body_contacts =
       [\<lparr>rc_uri = ''sip:a'', rc_q = Some ''0.5'', rc_expires = Some ''10'', rc_received = None\<rparr>]\<rparr>],
     m_expires = None, m_callid = ''c1'', m_cseq = ''1'', m_user_agent = None, m_nat = False,
     m_recv_avp = None\<rparr>"

theorem contact_expires_bounds_witness:
  "calc_contact_expires demo_rc 1000000 demo_msg (Some ''90000'') = 1007200 \<and>
   calc_contact_expires demo_rc 1000000 demo_msg (Some ''90000'') \<le> 1000000 + 7200"
proof -
  have "calc_contact_expires demo_rc 1000000 demo_msg (Some ''90000'') = 1007200" by code_simp
  with contact_expires_bounds [of 1000000 demo_rc demo_msg "Some ''90000''"] show ?thesis
    by (simp add: demo_rc_def)
qed

theorem long_expires_becomes_minimum_witness:
  "calc_contact_expires demo_rc 1000000 demo_msg (Some ''4000000000'') = 1000060"
proof -
  have "str2int ''4000000000'' = Some 4000000000" by code_simp
  with long_expires_becomes_minimum [of "''4000000000''" 4000000000 1000000 demo_rc demo_msg]
  show ?thesis by (simp add: demo_rc_def)
qed

end
