(* ===== verification/Dset.thy ===== *)
theory Dset
  imports Qvalue
begin

section \<open>The destination set: dset.c\<close>

text \<open>
  The branches added to the current transaction, the q value of the Request-URI and
  the iterator, which the C keeps in static variables, as one record. A buffer of a
  branch holds \<open>MAX_URI_SIZE\<close> bytes; an operation that would write outside one, or
  outside the buffer of \<open>print_dset\<close>, returns \<open>None\<close>. A request is its URI and the
  rewritten URI, if any.
\<close>

abbreviation (input) MAX_BRANCHES :: nat where "MAX_BRANCHES \<equiv> 30"
abbreviation (input) MAX_URI_SIZE :: nat where "MAX_URI_SIZE \<equiv> 1024"
abbreviation (input) MAX_REDIRECTION_LEN :: nat where "MAX_REDIRECTION_LEN \<equiv> 512"

record branch =
  br_uri :: string
  br_dst_uri :: string
  br_q :: int

record dset =
  branches :: "branch list"
  branch_iterator :: nat
  ruri_q :: int

record request =
  rq_uri :: string
  new_uri :: "string option"
  dst_uri :: "string option"

definition init_branch_iterator :: "dset \<Rightarrow> dset" where
  "init_branch_iterator d = d\<lparr>branch_iterator := 0\<rparr>"

definition next_branch :: "dset \<Rightarrow> branch option \<times> dset" where
  "next_branch d =
     (let i = branch_iterator d
      in if i < length (branches d) then (Some (branches d ! i), d\<lparr>branch_iterator := i + 1\<rparr>)
         else (None, d))"

definition clear_branches :: "dset \<Rightarrow> dset" where
  "clear_branches d = d\<lparr>branches := [], ruri_q := Q_UNSPECIFIED\<rparr>"

definition set_ruri_q :: "int \<Rightarrow> dset \<Rightarrow> dset" where
  "set_ruri_q q d = d\<lparr>ruri_q := q\<rparr>"

definition get_ruri_q :: "dset \<Rightarrow> int" where
  "get_ruri_q d = ruri_q d"

definition get_request_uri :: "request \<Rightarrow> string" where
  "get_request_uri m = (case new_uri m of Some u \<Rightarrow> u | None \<Rightarrow> rq_uri m)"

text \<open>\<open>alloc\<close> is whether the allocation succeeds.\<close>

definition rewrite_uri :: "bool \<Rightarrow> request \<Rightarrow> string \<Rightarrow> int \<times> request" where
  "rewrite_uri alloc m s = (if \<not> alloc then (-1, m) else (1, m\<lparr>new_uri := Some s\<rparr>))"

text \<open>
  A null \<open>uri\<close> stands for the current URI of the request; its length, which callers
  give as zero, is what the check on the length sees.
\<close>

definition append_branch ::
  "request \<Rightarrow> string option \<Rightarrow> string \<Rightarrow> int \<Rightarrow> dset \<Rightarrow> (int \<times> dset) option" where
  "append_branch m uri dst q d =
     (if length (branches d) = MAX_BRANCHES - 1 then Some (-1, d)
      else if (case uri of None \<Rightarrow> 0 | Some u \<Rightarrow> length u) > MAX_URI_SIZE - 1 then Some (-1, d)
      else
        let u = (case uri of Some u \<Rightarrow> u | None \<Rightarrow> get_request_uri m)
        in if length u \<ge> MAX_URI_SIZE \<or> length dst \<ge> MAX_URI_SIZE then None
           else Some (1, d\<lparr>branches := branches d @
                  [\<lparr>br_uri = u, br_dst_uri = dst, br_q = q\<rparr>]\<rparr>))"

subsection \<open>The Contact header field of a redirection\<close>

definition uri_len :: "string \<Rightarrow> int \<Rightarrow> nat" where
  "uri_len u q = length u + (if q \<noteq> Q_UNSPECIFIED then 1 + 4 + len_q q else 0)"

definition uri_text :: "string \<Rightarrow> int \<Rightarrow> string" where
  "uri_text u q =
     (if q \<noteq> Q_UNSPECIFIED then ''<'' @ u @ ''>;q='' @ q2str q else u)"

text \<open>The loops over \<open>next_branch\<close>, from where the iterator stands.\<close>

function sum_branches :: "dset \<Rightarrow> nat \<Rightarrow> nat \<Rightarrow> nat \<times> nat \<times> dset" where
  "sum_branches d cnt len =
     (case next_branch d of
        (None, d) \<Rightarrow> (cnt, len, d)
      | (Some b, d) \<Rightarrow> sum_branches d (cnt + 1) (len + uri_len (br_uri b) (br_q b)))"
  by pat_completeness auto
termination
  by (relation "measure (\<lambda>(d, _, _). length (branches d) - branch_iterator d)")
    (auto simp: next_branch_def Let_def split: if_splits)

function write_branches :: "dset \<Rightarrow> nat \<Rightarrow> string \<Rightarrow> string \<times> dset" where
  "write_branches d i p =
     (case next_branch d of
        (None, d) \<Rightarrow> (p, d)
      | (Some b, d) \<Rightarrow>
          write_branches d (i + 1)
            (p @ (if i \<noteq> 0 then '', '' else []) @ uri_text (br_uri b) (br_q b)))"
  by pat_completeness auto
termination
  by (relation "measure (\<lambda>(d, _, _). length (branches d) - branch_iterator d)")
    (auto simp: next_branch_def Let_def split: if_splits)

declare sum_branches.simps [simp del] write_branches.simps [simp del]

definition CRLF :: string where "CRLF = [CHR 0x0D, CHR 0x0A]"

text \<open>
  The result is the text in the buffer and \<open>*len\<close>. One byte more than \<open>*len\<close> is
  written.
\<close>

definition print_dset :: "request \<Rightarrow> dset \<Rightarrow> ((string \<times> nat) option \<times> dset) option" where
  "print_dset m d =
     (let (cnt, len) =
            (case new_uri m of Some u \<Rightarrow> (1, uri_len u (ruri_q d)) | None \<Rightarrow> (0, 0));
          (cnt, len, d) = sum_branches (init_branch_iterator d) cnt len
      in if cnt = 0 then Some (None, d)
         else
           let len = len + 9 + 2 + (cnt - 1) * 2
           in if len + 1 > MAX_REDIRECTION_LEN then Some (None, d)
              else
                let (i, p) =
                      (case new_uri m of
                         Some u \<Rightarrow> (1, ''Contact: '' @ uri_text u (ruri_q d))
                       | None \<Rightarrow> (0, ''Contact: ''));
                    (p, d) = write_branches (init_branch_iterator d) i p;
                    p = p @ CRLF @ '' ''
                in if length p > MAX_REDIRECTION_LEN then None else Some (Some (p, len), d))"

subsection \<open>What the loops compute\<close>

definition seps :: "nat \<Rightarrow> branch list \<Rightarrow> string" where
  "seps i bs = concat (map2 (\<lambda>j b. (if j \<noteq> 0 then '', '' else []) @ uri_text (br_uri b) (br_q b))
     [i ..< i + length bs] bs)"

lemma uri_len_text: "uri_len u q = length (uri_text u q)"
  by (simp add: uri_len_def uri_text_def len_q_q2str)

lemma next_branch_split:
  "branches d = ys @ zs \<Longrightarrow> branch_iterator d = length ys \<Longrightarrow>
   next_branch d = (case zs of [] \<Rightarrow> (None, d) | b # _ \<Rightarrow> (Some b, d\<lparr>branch_iterator := length ys + 1\<rparr>))"
  by (cases zs) (simp_all add: next_branch_def)

lemma sum_branches_eq:
  "branches d = ys @ zs \<Longrightarrow> branch_iterator d = length ys \<Longrightarrow>
   sum_branches d cnt len =
     (cnt + length zs, len + sum_list (map (\<lambda>b. uri_len (br_uri b) (br_q b)) zs),
      d\<lparr>branch_iterator := length (branches d)\<rparr>)"
proof (induction zs arbitrary: d ys cnt len)
  case Nil
  then have "next_branch d = (None, d)" "d\<lparr>branch_iterator := length (branches d)\<rparr> = d"
    by (simp_all add: next_branch_def)
  then show ?case by (subst sum_branches.simps) simp
next
  case (Cons b zs)
  have "sum_branches (d\<lparr>branch_iterator := length ys + 1\<rparr>) (cnt + 1) (len + uri_len (br_uri b) (br_q b)) =
      (cnt + 1 + length zs, len + uri_len (br_uri b) (br_q b) + sum_list (map (\<lambda>b. uri_len (br_uri b) (br_q b)) zs),
       d\<lparr>branch_iterator := length (branches d)\<rparr>)"
    using Cons.IH [of "d\<lparr>branch_iterator := length ys + 1\<rparr>" "ys @ [b]"] Cons.prems by simp
  with next_branch_split [OF Cons.prems] show ?case by (subst sum_branches.simps) simp
qed

lemma seps_Cons:
  "seps i (b # bs) = (if i \<noteq> 0 then '', '' else []) @ uri_text (br_uri b) (br_q b) @ seps (Suc i) bs"
  by (simp add: seps_def upt_rec)

lemma write_branches_eq:
  "branches d = ys @ zs \<Longrightarrow> branch_iterator d = length ys \<Longrightarrow>
   write_branches d i p = (p @ seps i zs, d\<lparr>branch_iterator := length (branches d)\<rparr>)"
proof (induction zs arbitrary: d ys i p)
  case Nil
  then have "next_branch d = (None, d)" "d\<lparr>branch_iterator := length (branches d)\<rparr> = d"
    by (simp_all add: next_branch_def)
  then show ?case by (subst write_branches.simps) (simp add: seps_def)
next
  case (Cons b zs)
  from Cons.IH [of "d\<lparr>branch_iterator := length ys + 1\<rparr>" "ys @ [b]"] Cons.prems
    next_branch_split [OF Cons.prems]
  show ?case by (subst write_branches.simps) (simp add: seps_Cons)
qed

lemma seps_length:
  "length (seps i bs) + (if i = 0 \<and> bs \<noteq> [] then 2 else 0) =
     sum_list (map (\<lambda>b. uri_len (br_uri b) (br_q b)) bs) + 2 * length bs"
proof (induction bs arbitrary: i)
  case (Cons b bs)
  from Cons.IH [of "Suc i"] show ?case by (simp add: seps_Cons uri_len_text)
qed (simp add: seps_def)

subsection \<open>Properties of the destination set\<close>

definition dset_text :: "request \<Rightarrow> dset \<Rightarrow> string" where
  "dset_text m d =
     ''Contact: '' @
     (case new_uri m of
        Some u \<Rightarrow> uri_text u (ruri_q d) @ seps 1 (branches d)
      | None \<Rightarrow> seps 0 (branches d)) @ CRLF @ '' ''"

lemma print_dset_eq:
  "print_dset m d =
     Some ((if new_uri m = None \<and> branches d = [] \<or> length (dset_text m d) > MAX_REDIRECTION_LEN then None
            else Some (dset_text m d, length (dset_text m d) - 1)),
       d\<lparr>branch_iterator := length (branches d)\<rparr>)"
proof -
  let ?s = "sum_list (map (\<lambda>b. uri_len (br_uri b) (br_q b)) (branches d))"
  have sum: "sum_branches (init_branch_iterator d) cnt len =
      (cnt + length (branches d), len + ?s, d\<lparr>branch_iterator := length (branches d)\<rparr>)" for cnt len
    by (subst sum_branches_eq [where ys = "[]" and zs = "branches d"]) (simp_all add: init_branch_iterator_def)
  have wr: "write_branches (init_branch_iterator (d\<lparr>branch_iterator := length (branches d)\<rparr>)) i p =
      (p @ seps i (branches d), d\<lparr>branch_iterator := length (branches d)\<rparr>)" for i p
    by (subst write_branches_eq [where ys = "[]" and zs = "branches d"]) (simp_all add: init_branch_iterator_def)
  have len0: "length (dset_text m d) = ?s + 9 + 2 + (length (branches d) - 1) * 2 + 1"
    if "new_uri m = None" "branches d \<noteq> []"
    using that seps_length [of 0 "branches d"] by (cases "branches d") (simp_all add: dset_text_def CRLF_def)
  have len1: "length (dset_text m d) = uri_len u (ruri_q d) + ?s + 9 + 2 + length (branches d) * 2 + 1"
    if "new_uri m = Some u" for u
    using that seps_length [of 1 "branches d"] by (simp add: dset_text_def CRLF_def uri_len_text)
  show ?thesis
  proof (cases "new_uri m")
    case None
    show ?thesis
    proof (cases "branches d = []")
      case True
      with None sum [of 0 0] show ?thesis by (simp add: print_dset_def)
    next
      case False
      with None sum [of 0 0] wr [of 0 "''Contact: ''"] len0 [OF None False] show ?thesis
        by (auto simp: print_dset_def Let_def dset_text_def)
    qed
  next
    case (Some u)
    with sum [of 1 "uri_len u (ruri_q d)"] wr [of 1 "''Contact: '' @ uri_text u (ruri_q d)"] len1 [OF Some]
    show ?thesis by (auto simp: print_dset_def Let_def dset_text_def)
  qed
qed

text \<open>
  The Contact header field of a redirection is printed only when it fits: no byte is
  written outside the buffer, the length reported is that of the text without the one
  trailing space, and the text is the rewritten URI and every branch in order, separated
  by commas, a URI with a q value in angle brackets. Otherwise nothing is printed. The
  set of branches is unchanged.
\<close>

theorem print_dset_fits:
  "print_dset m d =
     Some ((if new_uri m = None \<and> branches d = [] \<or> length (dset_text m d) > 512 then None
            else Some (dset_text m d, length (dset_text m d) - 1)),
       d\<lparr>branch_iterator := length (branches d)\<rparr>)"
  by (rule print_dset_eq)

lemma append_branch_safe:
  assumes "uri = None \<Longrightarrow> length (get_request_uri m) < MAX_URI_SIZE"
    "length dst < MAX_URI_SIZE"
  shows "append_branch m uri dst q d =
    (if length (branches d) = MAX_BRANCHES - 1 \<or> (\<exists>u. uri = Some u \<and> length u \<ge> MAX_URI_SIZE) then Some (-1, d)
     else Some (1, d\<lparr>branches := branches d @
       [\<lparr>br_uri = (case uri of Some u \<Rightarrow> u | None \<Rightarrow> get_request_uri m), br_dst_uri = dst, br_q = q\<rparr>]\<rparr>))"
  using assms by (cases uri) (auto simp: append_branch_def Let_def)

text \<open>
  Adding a branch keeps every earlier branch and adds at most one, at the end; there
  are never more than 29. It stays inside its buffers when the destination URI, and the
  current URI if no URI is given, are shorter than 1024 bytes.
\<close>

theorem append_branch_bounded:
  assumes "length dst < 1024" "uri = None \<Longrightarrow> length (get_request_uri m) < 1024"
    and "length (branches d) \<le> 29"
  shows "\<exists>ret d'. append_branch m uri dst q d = Some (ret, d') \<and> length (branches d') \<le> 29 \<and>
    (ret = -1 \<and> d' = d \<or>
     ret = 1 \<and> branches d' = branches d @ [\<lparr>br_uri = (case uri of Some u \<Rightarrow> u | None \<Rightarrow> get_request_uri m),
       br_dst_uri = dst, br_q = q\<rparr>])"
  using assms append_branch_safe [of uri m dst q d] by auto

text \<open>
  The length check of \<open>append_branch\<close> misses two cases: a long destination URI, and a
  long current URI when no URI is given. Each makes it write past a branch's buffer.
\<close>

theorem append_branch_overflows:
  assumes "length (branches d) < 29"
    and "length dst \<ge> 1024 \<and> (case uri of None \<Rightarrow> True | Some u \<Rightarrow> length u < 1024) \<or>
      uri = None \<and> length (get_request_uri m) \<ge> 1024"
  shows "append_branch m uri dst q d = None"
  using assms by (cases uri) (auto simp: append_branch_def Let_def)

subsection \<open>Examples\<close>

definition demo_request :: request where
  "demo_request = \<lparr>rq_uri = ''sip:bob@b.org'', new_uri = None, dst_uri = None\<rparr>"

definition demo_dset :: dset where
  "demo_dset = \<lparr>branches = [], branch_iterator = 0, ruri_q = -1\<rparr>"

theorem append_branch_bounded_witness:
  "\<exists>ret d. append_branch demo_request None [] 500 demo_dset = Some (ret, d) \<and> length (branches d) \<le> 29"
  using append_branch_bounded [of "[]" None demo_request demo_dset 500]
  by (auto simp: demo_request_def demo_dset_def get_request_uri_def)

theorem append_branch_overflows_witness:
  "append_branch demo_request None (replicate 1024 CHR ''a'') 500 demo_dset = None"
  by (rule append_branch_overflows) (simp_all add: demo_dset_def)

end
