(* ===== verification/Registrar.thy ===== *)
theory Registrar
  imports Reg_Msg Dset
begin

section \<open>The registrar: registrar/save.c, lookup.c\<close>

text \<open>
  Processing a REGISTER request against a domain of the user location cache. The state
  is the domain, the world of the cache, the reply buffer, the error code \<open>rerrno\<close> and
  the replies sent. \<open>None\<close> is a fault in a called function.
\<close>

definition FL_NAT :: u32 where "FL_NAT = 1"

record reply =
  rp_code :: nat
  rp_contact :: string
  rp_error :: "string option"
  rp_retry :: "string option"

record reg_state =
  rs_dom :: udomain
  rs_world :: world
  rs_buf :: cbuf
  rs_err :: rerr
  rs_replies :: "reply list"

definition set_dw :: "udomain \<Rightarrow> world \<Rightarrow> reg_state \<Rightarrow> reg_state" where
  "set_dw d w s = s\<lparr>rs_dom := d, rs_world := w\<rparr>"

text \<open>Calls whose result the registrar ignores, on the state of the registrar.\<close>

definition build :: "cfg \<Rightarrow> rcfg \<Rightarrow> ucontact list \<Rightarrow> reg_state \<Rightarrow> reg_state option" where
  "build g rc cs s =
     map_option (\<lambda>(_, b). s\<lparr>rs_buf := b\<rparr>)
       (build_contact rc (act_time g) (pkg_ok rc) cs (rs_buf s))"

definition drop_record :: "cfg \<Rightarrow> string \<Rightarrow> reg_state \<Rightarrow> reg_state option" where
  "drop_record g aor s =
     map_option (\<lambda>(d, w). set_dw d w s) (delete_urecord g (rs_dom s) aor (rs_world s))"

definition received_of :: "reg_msg \<Rightarrow> reg_contact \<Rightarrow> string option" where
  "received_of m c =
     (case rc_received c of Some r \<Rightarrow> Some r | None \<Rightarrow> m_recv_avp m)"

definition nat_flags :: "reg_msg \<Rightarrow> u32" where
  "nat_flags m = (if m_nat m then FL_NAT else 0)"

subsection \<open>The first registration of an address\<close>

text \<open>
  The loop over the contacts of the message. \<open>num\<close> counts the contacts taken and \<open>r\<close> is
  the record once it has been created.
\<close>

fun reg_insert_loop ::
  "cfg \<Rightarrow> rcfg \<Rightarrow> reg_msg \<Rightarrow> string \<Rightarrow> string \<Rightarrow> int \<Rightarrow> addr option \<Rightarrow> reg_contact list \<Rightarrow>
   reg_state \<Rightarrow> (int \<times> addr option \<times> reg_state) option" where
  "reg_insert_loop g rc m aor ua num r [] s = Some (0, r, s)"
| "reg_insert_loop g rc m aor ua num r (c # cs) s =
     (let e = calc_contact_expires rc (act_time g) m (rc_expires c) in
      if e = 0 then reg_insert_loop g rc m aor ua num r cs s
      else if max_contacts rc \<noteq> 0 \<and> num \<ge> max_contacts rc then
        map_option (\<lambda>s. (-1, r, s)) (drop_record g aor (s\<lparr>rs_err := R_TOO_MANY\<rparr>))
      else
        case (case r of
                Some a \<Rightarrow> (Inr a, s)
              | None \<Rightarrow>
                  (case insert_urecord g (rs_dom s) aor (rs_world s) of
                     (x, d, w) \<Rightarrow> (x, set_dw d w s))) of
          (Inl _, s) \<Rightarrow> Some (-2, r, s\<lparr>rs_err := R_UL_NEW_R\<rparr>)
        | (Inr a, s) \<Rightarrow>
            (case calc_contact_q rc (rc_q c) 0 of
               None \<Rightarrow> map_option (\<lambda>s. (-3, Some a, s)) (drop_record g aor (s\<lparr>rs_err := R_INV_Q\<rparr>))
             | Some q \<Rightarrow>
                 (case str2int (m_cseq m) of
                    None \<Rightarrow> map_option (\<lambda>s. (-4, Some a, s)) (drop_record g aor (s\<lparr>rs_err := R_INV_CSEQ\<rparr>))
                  | Some cseq \<Rightarrow>
                      Option.bind
                        (insert_ucontact g (the_rec (rs_dom s) a) (rc_uri c) e q (trim_trailing (m_callid m))
                           (sint cseq) (nat_flags m OR mem_only rc) ua (received_of m c) (rs_world s))
                        (\<lambda>(x, w).
                         case x of
                           Inl _ \<Rightarrow>
                             map_option (\<lambda>s. (-5, Some a, s))
                               (drop_record g aor (s\<lparr>rs_world := w, rs_err := R_UL_INS_C\<rparr>))
                         | Inr (_, ur) \<Rightarrow>
                             reg_insert_loop g rc m aor ua (num + 1) (Some a) cs
                               (set_dw (set_rec (rs_dom s) a ur) w s)))))"

definition reg_insert ::
  "cfg \<Rightarrow> rcfg \<Rightarrow> reg_msg \<Rightarrow> reg_contact list \<Rightarrow> string \<Rightarrow> string \<Rightarrow> reg_state \<Rightarrow>
   (int \<times> reg_state) option" where
  "reg_insert g rc m cs aor ua s =
     Option.bind (reg_insert_loop g rc m aor ua 0 None cs s) (\<lambda>(ret, r, s).
       if ret < 0 then Some (ret, s)
       else
         (case r of
            None \<Rightarrow> Some (0, s)
          | Some a \<Rightarrow>
              if contacts (the_rec (rs_dom s) a) = [] then
                map_option (\<lambda>s. (0, s)) (drop_record g aor s)
              else map_option (\<lambda>s. (0, s)) (build g rc (contacts (the_rec (rs_dom s) a)) s)))"

subsection \<open>Later registrations\<close>

definition move_on_top :: "urecord \<Rightarrow> nat \<Rightarrow> urecord" where
  "move_on_top r i =
     (if contacts r = [] then r
      else if i = 0 then r
      else r\<lparr>contacts := contacts r ! i # remove_nth i (contacts r)\<rparr>)"

fun count_after :: "cfg \<Rightarrow> rcfg \<Rightarrow> reg_msg \<Rightarrow> urecord \<Rightarrow> int \<Rightarrow> reg_contact list \<Rightarrow> int" where
  "count_after g rc m r num [] = num"
| "count_after g rc m r num (c # cs) =
     (let e = calc_contact_expires rc (act_time g) m (rc_expires c)
      in count_after g rc m r
           (case get_ucontact r (rc_uri c) of
              None \<Rightarrow> (if e \<noteq> 0 then num + 1 else num)
            | Some _ \<Rightarrow> (if e = 0 then num - 1 else num)) cs)"

text \<open>True if there would be too many contacts.\<close>

definition test_max_contacts :: "cfg \<Rightarrow> rcfg \<Rightarrow> reg_msg \<Rightarrow> urecord \<Rightarrow> reg_contact list \<Rightarrow> bool" where
  "test_max_contacts g rc m r cs \<longleftrightarrow>
     count_after g rc m r (int (length (filter (\<lambda>c. VALID_CONTACT c (act_time g)) (contacts r)))) cs
       > max_contacts rc"

definition set_mem_flag :: "rcfg \<Rightarrow> ucontact \<Rightarrow> ucontact" where
  "set_mem_flag rc c =
     (if mem_only rc \<noteq> 0 then c\<lparr>uc_flags := uc_flags c OR FL_MEM\<rparr>
      else c\<lparr>uc_flags := uc_flags c AND NOT FL_MEM\<rparr>)"

definition set_mem_flag_at :: "rcfg \<Rightarrow> nat \<Rightarrow> urecord \<Rightarrow> urecord" where
  "set_mem_flag_at rc i r = r\<lparr>contacts := (contacts r)[i := set_mem_flag rc (contacts r ! i)]\<rparr>"

text \<open>One contact of the message: the result, the error code, the record and the world.\<close>

definition reg_update_one ::
  "cfg \<Rightarrow> rcfg \<Rightarrow> reg_msg \<Rightarrow> string \<Rightarrow> reg_contact \<Rightarrow> urecord \<Rightarrow> world \<Rightarrow> rerr \<Rightarrow>
   (int \<times> rerr \<times> urecord \<times> world) option" where
  "reg_update_one g rc m ua c r w err =
     (let e = calc_contact_expires rc (act_time g) m (rc_expires c) in
      case get_ucontact r (rc_uri c) of
        None \<Rightarrow>
          (if e = 0 then Some (0, err, r, w)
           else
             case calc_contact_q rc (rc_q c) 0 of
               None \<Rightarrow> Some (-2, R_INV_Q, r, w)
             | Some q \<Rightarrow>
                 (case str2int (m_cseq m) of
                    None \<Rightarrow> Some (-3, R_INV_CSEQ, r, w)
                  | Some cseq \<Rightarrow>
                      Option.bind
                        (insert_ucontact g r (rc_uri c) e q (trim_trailing (m_callid m)) (sint cseq)
                           (nat_flags m OR mem_only rc) ua (received_of m c) w)
                        (\<lambda>(x, w).
                         case x of Inl _ \<Rightarrow> Some (-4, R_UL_INS_C, r, w)
                         | Inr (_, r) \<Rightarrow> Some (0, err, r, w))))
      | Some i \<Rightarrow>
          (if e = 0 then
             map_option (\<lambda>(r, w). (0, err, r, w)) (delete_ucontact g (set_mem_flag_at rc i r) i w)
           else
             case calc_contact_q rc (rc_q c) 0 of
               None \<Rightarrow> Some (-6, R_INV_Q, r, w)
             | Some q \<Rightarrow>
                 (case str2int (m_cseq m) of
                    None \<Rightarrow> Some (-7, R_INV_CSEQ, r, w)
                  | Some cseq \<Rightarrow>
                      let fset = nat_flags m OR mem_only rc;
                          fres = NOT (nat_flags m OR mem_only rc) AND (FL_NAT OR FL_MEM)
                      in Option.bind
                           (update_ucontact g (contacts r ! i) e q (trim_trailing (m_callid m)) (sint cseq)
                              fset fres ua (received_of m c) w)
                           (\<lambda>(ret, uc, w).
                            let r = r\<lparr>contacts := (contacts r)[i := uc]\<rparr>
                            in if ret < 0 then Some (-8, R_UL_UPD_C, r, w)
                               else Some (0, err, if desc_time_order g then move_on_top r i else r, w)))))"

fun reg_update_loop ::
  "cfg \<Rightarrow> rcfg \<Rightarrow> reg_msg \<Rightarrow> string \<Rightarrow> reg_contact list \<Rightarrow> urecord \<Rightarrow> world \<Rightarrow> rerr \<Rightarrow>
   (int \<times> rerr \<times> urecord \<times> world) option" where
  "reg_update_loop g rc m ua [] r w err = Some (0, err, r, w)"
| "reg_update_loop g rc m ua (c # cs) r w err =
     Option.bind (reg_update_one g rc m ua c r w err) (\<lambda>(ret, err, r, w).
       if ret < 0 then Some (ret, err, r, w) else reg_update_loop g rc m ua cs r w err)"

text \<open>The record found for the address lives at \<open>a\<close>.\<close>

definition reg_update ::
  "cfg \<Rightarrow> rcfg \<Rightarrow> reg_msg \<Rightarrow> addr \<Rightarrow> reg_contact list \<Rightarrow> string \<Rightarrow> reg_state \<Rightarrow>
   (int \<times> reg_state) option" where
  "reg_update g rc m a cs ua s =
     (let r = the_rec (rs_dom s) a in
      if max_contacts rc \<noteq> 0 \<and> test_max_contacts g rc m r cs then
        map_option (\<lambda>s. (-1, s)) (build g rc (contacts r) (s\<lparr>rs_err := R_TOO_MANY\<rparr>))
      else
        map_option
          (\<lambda>(ret, err, r, w). (ret, (set_dw (set_rec (rs_dom s) a r) w s)\<lparr>rs_err := err\<rparr>))
          (reg_update_loop g rc m ua (msg_contacts m) r (rs_world s) (rs_err s)))"

subsection \<open>The requests\<close>

definition release :: "addr \<Rightarrow> reg_state \<Rightarrow> reg_state" where
  "release a s = (case release_urecord (rs_dom s) a (rs_world s) of (d, w) \<Rightarrow> set_dw d w s)"

definition reg_contacts ::
  "cfg \<Rightarrow> rcfg \<Rightarrow> reg_msg \<Rightarrow> reg_contact list \<Rightarrow> string \<Rightarrow> string \<Rightarrow> reg_state \<Rightarrow>
   (int \<times> reg_state) option" where
  "reg_contacts g rc m cs aor ua s =
     (case get_urecord (rs_dom s) aor of
        Some a \<Rightarrow>
          Option.bind (reg_update g rc m a cs ua s) (\<lambda>(ret, s).
            map_option (\<lambda>s. (if ret < 0 then -3 else 0, release a s))
              (build g rc (contacts (the_rec (rs_dom s) a)) s))
      | None \<Rightarrow>
          map_option (\<lambda>(ret, s). (if ret < 0 then -4 else 0, s)) (reg_insert g rc m cs aor ua s))"

definition no_contacts :: "cfg \<Rightarrow> rcfg \<Rightarrow> string \<Rightarrow> reg_state \<Rightarrow> (int \<times> reg_state) option" where
  "no_contacts g rc aor s =
     (case get_urecord (rs_dom s) aor of
        Some a \<Rightarrow> map_option (\<lambda>s. (0, s)) (build g rc (contacts (the_rec (rs_dom s) a)) s)
      | None \<Rightarrow> Some (0, s))"

definition star :: "cfg \<Rightarrow> rcfg \<Rightarrow> string \<Rightarrow> reg_state \<Rightarrow> (int \<times> reg_state) option" where
  "star g rc aor s =
     (let s = (case get_urecord (rs_dom s) aor of
                 Some a \<Rightarrow>
                   (let r = the_rec (rs_dom s) a
                    in s\<lparr>rs_dom := set_rec (rs_dom s) a
                           (r\<lparr>contacts := map (set_mem_flag rc) (contacts r)\<rparr>)\<rparr>)
               | None \<Rightarrow> s)
      in map_option (\<lambda>s. (0, s)) (drop_record g aor s))"

definition send_reply :: "rcfg \<Rightarrow> reg_state \<Rightarrow> int \<times> reg_state" where
  "send_reply rc s =
     (let text = cb_text (rs_buf s);
          s = s\<lparr>rs_buf := (rs_buf s)\<lparr>cb_text := []\<rparr>\<rparr>;
          code = reply_code (rs_err s)
      in if code \<noteq> 200 \<and> \<not> pkg_ok rc then (-1, s)
         else
           let info = (if code \<noteq> 200 then
                         Some (''P-Registrar-Error: '' @ error_info (rs_err s) @ [CHR 0x0D, CHR 0x0A])
                       else None);
               retry = (if code \<ge> 500 \<and> code < 600 \<and> retry_after rc \<noteq> 0 then
                          Some (''Retry-After: '' @ int2str (retry_after rc) @ [CHR 0x0D, CHR 0x0A])
                        else None)
           in if \<not> sl_ok rc then (-1, s)
              else (0, s\<lparr>rs_replies := rs_replies s @
                     [\<lparr>rp_code = code, rp_contact = text, rp_error = info, rp_retry = retry\<rparr>]\<rparr>))"

text \<open>
  \<open>pm\<close> is the result of parsing the header fields the registrar needs and \<open>puri\<close> that of
  parsing the URI of the To header field.
\<close>

definition save_real ::
  "cfg \<Rightarrow> rcfg \<Rightarrow> rerr + reg_msg \<Rightarrow> (string \<times> string) option \<Rightarrow> bool \<Rightarrow> reg_state \<Rightarrow>
   (int \<times> reg_state) option" where
  "save_real g rc pm puri doreply s =
     (let fail = (\<lambda>s. Some (0, if doreply then snd (send_reply rc s) else s));
          finish = (\<lambda>s. if doreply then
                          (case send_reply rc s of (x, s) \<Rightarrow> Some (if x < 0 then -1 else 1, s))
                        else Some (1, s));
          s = s\<lparr>rs_err := R_FINE\<rparr>
      in case pm of
           Inl e \<Rightarrow> fail (s\<lparr>rs_err := e\<rparr>)
         | Inr m \<Rightarrow>
             (case check_contacts rc (act_time g) m of
                Inl e \<Rightarrow> fail (s\<lparr>rs_err := e\<rparr>)
              | Inr st \<Rightarrow>
                  Option.bind (extract_aor rc puri) (\<lambda>x.
                  case x of
                    Inl e \<Rightarrow> fail (s\<lparr>rs_err := e\<rparr>)
                  | Inr aor \<Rightarrow>
                      let ua = (case m_user_agent m of
                                  Some u \<Rightarrow> (if u \<noteq> [] then u else ''Unknown'')
                                | None \<Rightarrow> ''Unknown'');
                          cs = msg_contacts m
                      in Option.bind
                           (if cs = [] then
                              (if st then star g rc aor s else no_contacts g rc aor s)
                            else reg_contacts g rc m cs aor ua s)
                           (\<lambda>(ret, s). if ret < 0 then fail s else finish s))))"

definition save :: "cfg \<Rightarrow> rcfg \<Rightarrow> rerr + reg_msg \<Rightarrow> (string \<times> string) option \<Rightarrow> reg_state \<Rightarrow>
   (int \<times> reg_state) option" where
  "save g rc pm puri s = save_real g (rc\<lparr>mem_only := 0\<rparr>) pm puri True s"

definition save_noreply :: "cfg \<Rightarrow> rcfg \<Rightarrow> rerr + reg_msg \<Rightarrow> (string \<times> string) option \<Rightarrow> reg_state \<Rightarrow>
   (int \<times> reg_state) option" where
  "save_noreply g rc pm puri s = save_real g (rc\<lparr>mem_only := 0\<rparr>) pm puri False s"

definition save_memory :: "cfg \<Rightarrow> rcfg \<Rightarrow> rerr + reg_msg \<Rightarrow> (string \<times> string) option \<Rightarrow> reg_state \<Rightarrow>
   (int \<times> reg_state) option" where
  "save_memory g rc pm puri s = save_real g (rc\<lparr>mem_only := FL_MEM\<rparr>) pm puri True s"

subsection \<open>Looking up\<close>

text \<open>
  The loop that appends branches stops at the first that cannot be appended. Result: the
  destination set and the accumulated NAT flag.
\<close>

fun lookup_branches ::
  "cfg \<Rightarrow> request \<Rightarrow> ucontact list \<Rightarrow> u32 \<Rightarrow> dset \<Rightarrow> (u32 \<times> dset) option" where
  "lookup_branches g m [] nat_fl ds = Some (nat_fl, ds)"
| "lookup_branches g m (c # cs) nat_fl ds =
     (if VALID_CONTACT c (act_time g) then
        Option.bind (append_branch m (Some (dat (uc_c c))) (dat (uc_received c)) (uc_q c) ds) (\<lambda>(ret, ds).
          if ret = -1 then Some (nat_fl, ds)
          else lookup_branches g m cs (nat_fl OR (uc_flags c AND FL_NAT)) ds)
      else lookup_branches g m cs nat_fl ds)"

text \<open>Result: the return value, the request, the destination set and whether the NAT flag was set.\<close>

definition lookup ::
  "cfg \<Rightarrow> rcfg \<Rightarrow> udomain \<Rightarrow> (string \<times> string) option \<Rightarrow> request \<Rightarrow> dset \<Rightarrow>
   (int \<times> request \<times> dset \<times> bool) option" where
  "lookup g rc d puri m ds =
     Option.bind (extract_aor rc puri) (\<lambda>x.
     case x of
       Inl _ \<Rightarrow> Some (-1, m, ds, False)
     | Inr aor \<Rightarrow>
         (case get_urecord d aor of
            None \<Rightarrow> Some (-3, m, ds, False)
          | Some a \<Rightarrow>
              (case dropWhile (\<lambda>c. \<not> VALID_CONTACT c (act_time g)) (contacts (the_rec d a)) of
                 [] \<Rightarrow> Some (-5, m, ds, False)
               | c # cs \<Rightarrow>
                   (case rewrite_uri (pkg_ok rc) m (dat (uc_c c)) of (ret, m) \<Rightarrow>
                    if ret < 0 then Some (-4, m, ds, False)
                    else
                      let dst = cap (uc_received c) \<noteq> None \<and> dat (uc_received c) \<noteq> []
                      in if dst \<and> \<not> pkg_ok rc then Some (-4, m, ds, False)
                         else
                           let m = (if dst then m\<lparr>dst_uri := Some (dat (uc_received c))\<rparr> else m);
                               ds = set_ruri_q (uc_q c) ds;
                               nat_fl = uc_flags c AND FL_NAT
                           in if \<not> append_branches rc then Some (1, m, ds, nat_fl \<noteq> 0)
                              else map_option (\<lambda>(nat_fl, ds). (1, m, ds, nat_fl \<noteq> 0))
                                     (lookup_branches g m cs nat_fl ds)))))"

definition registered :: "cfg \<Rightarrow> rcfg \<Rightarrow> udomain \<Rightarrow> (string \<times> string) option \<Rightarrow> int option" where
  "registered g rc d puri =
     map_option
       (\<lambda>x. case x of
          Inl _ \<Rightarrow> -1
        | Inr aor \<Rightarrow>
            (case get_urecord d aor of
               None \<Rightarrow> -1
             | Some a \<Rightarrow>
                 if list_ex (\<lambda>c. VALID_CONTACT c (act_time g)) (contacts (the_rec d a)) then 1 else -1))
       (extract_aor rc puri)"

subsection \<open>Registrar operations keep the cache consistent\<close>

text \<open>
  \<open>keeps g base aor s t\<close>: \<open>t\<close> has a consistent cache in which only the record of \<open>aor\<close>
  may differ from \<open>s\<close>.
\<close>

definition keeps :: "cfg \<Rightarrow> int \<Rightarrow> string \<Rightarrow> reg_state \<Rightarrow> reg_state \<Rightarrow> bool" where
  "keeps g base aor s t \<longleftrightarrow> cache_ok g base (rs_dom t) (rs_world t) \<and>
     (\<forall>k. k \<noteq> aor \<longrightarrow> view (rs_dom t) k = view (rs_dom s) k)"

lemma keeps_trans: "keeps g base aor s t \<Longrightarrow> keeps g base aor t u \<Longrightarrow> keeps g base aor s u"
  by (simp add: keeps_def)

lemma keeps_refl: "cache_ok g base (rs_dom s) (rs_world s) \<Longrightarrow> keeps g base aor s s"
  by (simp add: keeps_def)

lemma keeps_ok: "keeps g base aor s t \<Longrightarrow> cache_ok g base (rs_dom t) (rs_world t)"
  by (simp add: keeps_def)

lemma build_total:
  obtains s' where "build g rc cs s = Some s'" "rs_dom s' = rs_dom s" "rs_world s' = rs_world s"
    "rs_err s' = rs_err s" "rs_replies s' = rs_replies s"
  by (simp add: build_def build_contact_eq)

lemma drop_total:
  assumes "cache_ok g base (rs_dom s) (rs_world s)"
  obtains s' where "drop_record g aor s = Some s'" "keeps g base aor s s'"
    "rs_err s' = rs_err s" "rs_replies s' = rs_replies s" "rs_buf s' = rs_buf s"
proof -
  obtain d w where "delete_urecord g (rs_dom s) aor (rs_world s) = Some (d, w)" "cache_ok g base d w"
    "view d = (case view (rs_dom s) aor of None \<Rightarrow> view (rs_dom s)
       | Some r \<Rightarrow> if contacts (wiped g r) = [] \<and> watchers r = [] then (view (rs_dom s))(aor := None)
                 else (view (rs_dom s))(aor \<mapsto> wiped g r))"
    by (rule delete_urecord_keeps [OF assms])
  then show thesis
    by (intro that [of "set_dw d w s"]) (auto simp: drop_record_def set_dw_def keeps_def split: option.split)
qed

lemma insert_keeps_rec:
  assumes "rec_ok g r" "aor_ok g (ur_aor r)"
    "insert_ucontact g r contact e q cid cs flags ua recv w = Some (Inr (i, r'), w')"
  shows "rec_ok g r' \<and> ur_aor r' = ur_aor r \<and> watchers r' = watchers r \<and>
    shm_live w' = shm_live w + rec_blocks r' - rec_blocks r"
  by (rule insert_effect [OF assms(3)])
    (use assms(1,2) in \<open>auto simp: rec_ok_def rec_blocks_def set_insert_nth sum_blocks_insert\<close>)

lemma update_keeps_rec:
  assumes "rec_ok g r" "i < length (contacts r)"
    "update_ucontact g (contacts r ! i) e q cid cs fset fres ua recv w = Some (ret, c, w')"
  shows "rec_ok g (r\<lparr>contacts := (contacts r)[i := c]\<rparr>) \<and>
    shm_live w' = shm_live w + rec_blocks (r\<lparr>contacts := (contacts r)[i := c]\<rparr>) - rec_blocks r"
proof -
  from assms(1) nth_mem [OF assms(2)] have "contact_ok (contacts r ! i)" "uc_aor (contacts r ! i) = ur_aor r"
    "aor_ok g (ur_aor r)"
    by (simp_all add: rec_ok_def)
  with update_effect [OF assms(3)] assms(1,2) set_update_subset_insert [of "contacts r" i c] show ?thesis
    by (auto simp: rec_ok_def rec_blocks_def sum_blocks_update)
qed

lemma get_ucontact_bound: "get_ucontact r u = Some i \<Longrightarrow> i < length (contacts r)"
proof -
  have "find_index P xs = Some i \<Longrightarrow> i < length xs" for P :: "ucontact \<Rightarrow> bool" and xs i
    by (induction xs arbitrary: i) (auto split: if_splits)
  then show "get_ucontact r u = Some i \<Longrightarrow> i < length (contacts r)" by (simp add: get_ucontact_def)
qed

lemma set_mem_flag_simps [simp]:
  "contact_ok (set_mem_flag rc c) = contact_ok c" "contact_blocks (set_mem_flag rc c) = contact_blocks c"
  "uc_aor (set_mem_flag rc c) = uc_aor c"
  by (simp_all add: set_mem_flag_def contact_ok_def contact_blocks_def)

lemma set_mem_flag_at_keeps:
  assumes "rec_ok g r" "i < length (contacts r)"
  shows "rec_ok g (set_mem_flag_at rc i r)" "rec_blocks (set_mem_flag_at rc i r) = rec_blocks r"
    "ur_aor (set_mem_flag_at rc i r) = ur_aor r" "length (contacts (set_mem_flag_at rc i r)) = length (contacts r)"
    "watchers (set_mem_flag_at rc i r) = watchers r"
proof -
  have "contact_ok (contacts r ! i)" "uc_aor (contacts r ! i) = ur_aor r" "aor_ok g (ur_aor r)"
    using assms(1) nth_mem [OF assms(2)] by (simp_all add: rec_ok_def)
  then show "rec_ok g (set_mem_flag_at rc i r)"
    using assms(1) set_update_subset_insert [of "contacts r" i "set_mem_flag rc (contacts r ! i)"]
    by (auto simp: set_mem_flag_at_def rec_ok_def)
  show "rec_blocks (set_mem_flag_at rc i r) = rec_blocks r"
    using assms(2) by (simp add: set_mem_flag_at_def rec_blocks_def sum_blocks_update)
qed (simp_all add: set_mem_flag_at_def)

lemma move_on_top_keeps:
  assumes "rec_ok g r" "i < length (contacts r)"
  shows "rec_ok g (move_on_top r i)" "rec_blocks (move_on_top r i) = rec_blocks r"
    "ur_aor (move_on_top r i) = ur_aor r" "watchers (move_on_top r i) = watchers r"
proof -
  have "set (contacts (move_on_top r i)) \<subseteq> set (contacts r)"
    using set_remove_nth [of i "contacts r"] nth_mem [OF assms(2)] by (auto simp: move_on_top_def)
  then show "rec_ok g (move_on_top r i)" using assms(1) by (auto simp: rec_ok_def move_on_top_def)
  show "rec_blocks (move_on_top r i) = rec_blocks r"
    using sum_blocks_remove [OF assms(2)] by (simp add: move_on_top_def rec_blocks_def)
qed (simp_all add: move_on_top_def)

lemma reg_update_one_keeps:
  assumes ok: "rec_ok g r" and aor: "aor_ok g (ur_aor r)"
  obtains ret err' r' w' where "reg_update_one g rc m ua c r w err = Some (ret, err', r', w')"
    "rec_ok g r'" "ur_aor r' = ur_aor r" "watchers r' = watchers r"
    "shm_live w' = shm_live w + rec_blocks r' - rec_blocks r"
proof (cases "get_ucontact r (rc_uri c)")
  case None
  let ?e = "calc_contact_expires rc (act_time g) m (rc_expires c)"
  show thesis
  proof (cases "?e = 0 \<or> calc_contact_q rc (rc_q c) 0 = None \<or> str2int (m_cseq m) = None")
    case True
    have "\<exists>ret err'. reg_update_one g rc m ua c r w err = Some (ret, err', r, w)"
      using None True by (auto simp: reg_update_one_def Let_def split: option.splits)
    with ok that show thesis by fastforce
  next
    case False
    then obtain q cseq where qc: "calc_contact_q rc (rc_q c) 0 = Some q" "str2int (m_cseq m) = Some cseq" by auto
    obtain x w1 where ins: "insert_ucontact g r (rc_uri c) ?e q (trim_trailing (m_callid m)) (sint cseq)
        (nat_flags m OR mem_only rc) ua (received_of m c) w = Some (x, w1)"
      using insert_total [OF aor] by fastforce
    show thesis
    proof (cases x)
      case (Inl y)
      with insert_fail_effect [of g r] ins None False qc ok that [of "-4" R_UL_INS_C r w1] show thesis
        by (simp add: reg_update_one_def Let_def)
    next
      case (Inr y)
      obtain i r1 where y: "y = (i, r1)" by fastforce
      with insert_keeps_rec [OF ok aor ins [unfolded Inr y]] ins Inr None False qc that [of 0 err r1 w1]
      show thesis by (simp add: reg_update_one_def Let_def)
    qed
  qed
next
  case (Some i)
  note i = get_ucontact_bound [OF Some]
  let ?e = "calc_contact_expires rc (act_time g) m (rc_expires c)"
  show thesis
  proof (cases "?e = 0")
    case True
    note f = set_mem_flag_at_keeps [OF ok i, of rc]
    have i': "i < length (contacts (set_mem_flag_at rc i r))" using i f by simp
    obtain r1 w1 where "delete_ucontact g (set_mem_flag_at rc i r) i w = Some (r1, w1)"
      "rec_ok g r1" "ur_aor r1 = ur_aor (set_mem_flag_at rc i r)" "watchers r1 = watchers (set_mem_flag_at rc i r)"
      "shm_live w1 = shm_live w + rec_blocks r1 - rec_blocks (set_mem_flag_at rc i r)"
      by (rule delete_contacts_step [OF f(1) i'])
    with f Some True that [of 0 err r1 w1] show thesis by (simp add: reg_update_one_def Let_def)
  next
    case False
    show thesis
    proof (cases "calc_contact_q rc (rc_q c) 0 = None \<or> str2int (m_cseq m) = None")
      case True
      then have "\<exists>ret err'. reg_update_one g rc m ua c r w err = Some (ret, err', r, w)"
        using Some False by (auto simp: reg_update_one_def Let_def split: option.splits)
      with ok that show thesis by fastforce
    next
      case False
      then obtain q cseq where qc: "calc_contact_q rc (rc_q c) 0 = Some q" "str2int (m_cseq m) = Some cseq" by auto
      let ?fs = "nat_flags m OR mem_only rc" and ?fr = "NOT (nat_flags m OR mem_only rc) AND (FL_NAT OR FL_MEM)"
      have "contact_ok (contacts r ! i)" "aor_ok g (uc_aor (contacts r ! i))"
        using ok nth_mem [OF i] by (simp_all add: rec_ok_def)
      then obtain ret uc w1 where upd: "update_ucontact g (contacts r ! i) ?e q (trim_trailing (m_callid m))
          (sint cseq) ?fs ?fr ua (received_of m c) w = Some (ret, uc, w1)"
        using update_total by (metis option.exhaust prod_cases3)
      note u = update_keeps_rec [OF ok i upd]
      let ?r = "r\<lparr>contacts := (contacts r)[i := uc]\<rparr>"
      have i': "i < length (contacts ?r)" using i by simp
      note top = move_on_top_keeps [OF conjunct1 [OF u] i']
      show thesis
      proof (cases "ret < 0")
        case True
        with Some \<open>?e \<noteq> 0\<close> qc upd u that [of "-8" R_UL_UPD_C ?r w1] show thesis
          by (simp add: reg_update_one_def Let_def)
      next
        case False
        with Some \<open>?e \<noteq> 0\<close> qc upd u top that [of 0 err "if desc_time_order g then move_on_top ?r i else ?r" w1]
        show thesis by (simp add: reg_update_one_def Let_def split: if_splits)
      qed
    qed
  qed
qed

lemma reg_update_loop_keeps:
  "rec_ok g r \<Longrightarrow> aor_ok g (ur_aor r) \<Longrightarrow>
   \<exists>ret err' r' w'. reg_update_loop g rc m ua cs r w err = Some (ret, err', r', w') \<and>
     rec_ok g r' \<and> ur_aor r' = ur_aor r \<and> watchers r' = watchers r \<and>
     shm_live w' = shm_live w + rec_blocks r' - rec_blocks r"
proof (induction cs arbitrary: r w err)
  case Nil
  then show ?case by simp
next
  case (Cons c cs)
  obtain ret err' r1 w1 where one: "reg_update_one g rc m ua c r w err = Some (ret, err', r1, w1)"
    "rec_ok g r1" "ur_aor r1 = ur_aor r" "watchers r1 = watchers r"
    "shm_live w1 = shm_live w + rec_blocks r1 - rec_blocks r"
    by (rule reg_update_one_keeps [OF Cons.prems])
  show ?case
  proof (cases "ret < 0")
    case True
    with one show ?thesis by simp
  next
    case False
    have "aor_ok g (ur_aor r1)" using one(3) Cons.prems(2) by simp
    from Cons.IH [OF one(2) this, of w1 err'] obtain x y r2 w2 where
      "reg_update_loop g rc m ua cs r1 w1 err' = Some (x, y, r2, w2)" "rec_ok g r2" "ur_aor r2 = ur_aor r1"
      "watchers r2 = watchers r1" "shm_live w2 = shm_live w1 + rec_blocks r2 - rec_blocks r1" by blast
    with one False show ?thesis by simp
  qed
qed


lemma reg_update_keeps:
  assumes ok: "cache_ok g base (rs_dom s) (rs_world s)" and aor: "aor_ok g aor"
    and a: "get_urecord (rs_dom s) aor = Some a"
  obtains ret s' where "reg_update g rc m a cs ua s = Some (ret, s')" "keeps g base aor s s'"
    "get_urecord (rs_dom s') aor = Some a"
proof -
  let ?r = "the_rec (rs_dom s) a"
  note r = ds.rec_ok_find [OF ok a]
  show thesis
  proof (cases "max_contacts rc \<noteq> 0 \<and> test_max_contacts g rc m ?r cs")
    case True
    obtain s' where "build g rc (contacts ?r) (s\<lparr>rs_err := R_TOO_MANY\<rparr>) = Some s'"
      "rs_dom s' = rs_dom s" "rs_world s' = rs_world s"
      by (rule build_total [of g rc "contacts ?r" "s\<lparr>rs_err := R_TOO_MANY\<rparr>"]) simp
    with True ok a that [of "-1" s'] show thesis by (simp add: reg_update_def Let_def keeps_def)
  next
    case False
    have "aor_ok g (ur_aor ?r)" using aor r by simp
    from reg_update_loop_keeps [OF r(1) this, of rc m ua "msg_contacts m" "rs_world s" "rs_err s"]
    obtain ret err' r' w' where u: "reg_update_loop g rc m ua (msg_contacts m) ?r (rs_world s) (rs_err s) =
        Some (ret, err', r', w')"
      "rec_ok g r'" "ur_aor r' = ur_aor ?r" "watchers r' = watchers ?r"
      "shm_live w' = shm_live (rs_world s) + rec_blocks r' - rec_blocks ?r" by blast
    let ?s = "(set_dw (set_rec (rs_dom s) a r') w' s)\<lparr>rs_err := err'\<rparr>"
    have k: "ur_aor r' = aor" using u(3) r by simp
    note c = ds.change_keeps [OF ok a k u(2,5)]
    have inv: "dom_inv (rs_dom s)" using ok by (simp add: store_ok_def)
    show thesis
      using that [of ret ?s] False u(1) c ds.change_good [OF inv a k]
      by (auto simp: reg_update_def Let_def keeps_def set_dw_def)
  qed
qed

lemma release_ok:
  assumes "cache_ok g base (rs_dom s) (rs_world s)" "get_urecord (rs_dom s) aor = Some a"
  shows "keeps g base aor s (release a s)"
proof -
  obtain d w where rel: "release_urecord (rs_dom s) a (rs_world s) = (d, w)" by fastforce
  with release_keeps [OF assms rel] show ?thesis by (simp add: release_def keeps_def set_dw_def)
qed

text \<open>The record of the address, if the loop has one.\<close>

definition at_record :: "string \<Rightarrow> addr option \<Rightarrow> reg_state \<Rightarrow> bool" where
  "at_record aor r s \<longleftrightarrow> get_urecord (rs_dom s) aor = r"

lemma reg_insert_loop_keeps:
  "cache_ok g base (rs_dom s) (rs_world s) \<Longrightarrow> aor_ok g aor \<Longrightarrow> at_record aor r s \<Longrightarrow>
   \<exists>ret r' s'. reg_insert_loop g rc m aor ua num r cs s = Some (ret, r', s') \<and> keeps g base aor s s' \<and>
     (\<not> ret < 0 \<longrightarrow> at_record aor r' s')"
proof (induction cs arbitrary: num r s)
  case Nil
  then show ?case by (simp add: keeps_refl)
next
  case (Cons c cs)
  let ?e = "calc_contact_expires rc (act_time g) m (rc_expires c)"
  show ?case
  proof (cases "?e = 0")
    case True
    with Cons.IH [OF Cons.prems, of num] show ?thesis by (simp add: Let_def)
  next
    case e: False
    show ?thesis
    proof (cases "max_contacts rc \<noteq> 0 \<and> num \<ge> max_contacts rc")
      case True
      obtain s' where "drop_record g aor (s\<lparr>rs_err := R_TOO_MANY\<rparr>) = Some s'"
        "keeps g base aor (s\<lparr>rs_err := R_TOO_MANY\<rparr>) s'"
        by (rule drop_total [of g base "s\<lparr>rs_err := R_TOO_MANY\<rparr>" aor]) (use Cons.prems in simp_all)
      with True e show ?thesis by (simp add: Let_def keeps_def)
    next
      case room: False
      obtain x s1 where x: "(case r of Some a \<Rightarrow> (Inr a, s)
          | None \<Rightarrow> (case insert_urecord g (rs_dom s) aor (rs_world s) of (x, d, w) \<Rightarrow> (x, set_dw d w s))) = (x, s1)"
        by fastforce
      have s1: "keeps g base aor s s1 \<and> (\<forall>a. x = Inr a \<longrightarrow> get_urecord (rs_dom s1) aor = Some a)"
      proof (cases r)
        case (Some a)
        with x Cons.prems show ?thesis by (auto simp: at_record_def keeps_refl)
      next
        case None
        obtain y d w where i: "insert_urecord g (rs_dom s) aor (rs_world s) = (y, d, w)"
          using prod_cases3 by blast
        have "get_urecord (rs_dom s) aor = None" using Cons.prems(3) None by (simp add: at_record_def)
        from insert_urecord_keeps [OF Cons.prems(1) this i] i x None show ?thesis
          by (cases y) (auto simp: keeps_def set_dw_def)
      qed
      show ?thesis
      proof (cases x)
        case (Inl y)
        with e room x s1 show ?thesis by (auto simp: Let_def keeps_def)
      next
        case (Inr a)
        with s1 have a: "get_urecord (rs_dom s1) aor = Some a" and ok1: "cache_ok g base (rs_dom s1) (rs_world s1)"
          by (simp_all add: keeps_def)
        have dropped: "\<exists>s'. map_option (\<lambda>s. (n, Some a, s)) (drop_record g aor t) = Some (n, Some a, s') \<and>
            keeps g base aor s s'"
          if td: "cache_ok g base (rs_dom t) (rs_world t)" "rs_dom t = rs_dom s1" for t n
        proof -
          obtain s' where "drop_record g aor t = Some s'" "keeps g base aor t s'"
            by (rule drop_total [OF td(1)])
          with s1 td(2) show ?thesis by (auto simp: keeps_def)
        qed
        show ?thesis
        proof (cases "calc_contact_q rc (rc_q c) 0 = None \<or> str2int (m_cseq m) = None")
          case True
          show ?thesis
          proof (cases "calc_contact_q rc (rc_q c) 0")
            case None
            then have "reg_insert_loop g rc m aor ua num r (c # cs) s =
                map_option (\<lambda>s. (-3, Some a, s)) (drop_record g aor (s1\<lparr>rs_err := R_INV_Q\<rparr>))"
              using e x Inr by (simp add: Let_def room)
            with dropped [of "s1\<lparr>rs_err := R_INV_Q\<rparr>" "-3"] ok1 show ?thesis by auto
          next
            case (Some q)
            with True have "str2int (m_cseq m) = None" by simp
            then have "reg_insert_loop g rc m aor ua num r (c # cs) s =
                map_option (\<lambda>s. (-4, Some a, s)) (drop_record g aor (s1\<lparr>rs_err := R_INV_CSEQ\<rparr>))"
              using e x Inr Some by (simp add: Let_def room)
            with dropped [of "s1\<lparr>rs_err := R_INV_CSEQ\<rparr>" "-4"] ok1 show ?thesis by auto
          qed
        next
          case False
          then obtain q cseq where qc: "calc_contact_q rc (rc_q c) 0 = Some q" "str2int (m_cseq m) = Some cseq" by auto
          note ro = ds.rec_ok_find [OF ok1 a]
          have aor': "aor_ok g (ur_aor (the_rec (rs_dom s1) a))" using Cons.prems(2) ro by simp
          obtain z w1 where ins: "insert_ucontact g (the_rec (rs_dom s1) a) (rc_uri c) ?e q (trim_trailing (m_callid m))
              (sint cseq) (nat_flags m OR mem_only rc) ua (received_of m c) (rs_world s1) = Some (z, w1)"
            using insert_total [OF aor'] by fastforce
          show ?thesis
          proof (cases z)
            case (Inl y)
            with ins insert_fail_effect have "shm_live w1 = shm_live (rs_world s1)" by blast
            with ok1 have "cache_ok g base (rs_dom s1) w1" by (simp add: store_ok_def)
            with e room x Inr qc ins Inl dropped [of "s1\<lparr>rs_world := w1, rs_err := R_UL_INS_C\<rparr>" "-5"]
            show ?thesis by (fastforce simp: Let_def)
          next
            case z: (Inr y)
            obtain i ur where y: "y = (i, ur)" by fastforce
            note k = insert_keeps_rec [OF ro(1) aor' ins [unfolded z y]]
            have kk: "ur_aor ur = aor" using k ro by simp
            have inv: "dom_inv (rs_dom s1)" using ok1 by (simp add: store_ok_def)
            let ?t = "set_dw (set_rec (rs_dom s1) a ur) w1 s1"
            note cg = ds.change_good [OF inv a kk]
            have "cache_ok g base (set_rec (rs_dom s1) a ur) w1"
              by (rule ds.change_keeps [OF ok1 a kk]) (use k in simp_all)
            then have t: "keeps g base aor s1 ?t" "cache_ok g base (rs_dom ?t) (rs_world ?t)" "at_record aor (Some a) ?t"
              using cg by (auto simp: keeps_def set_dw_def at_record_def)
            from Cons.IH [OF t(2) Cons.prems(2) t(3), of "num + 1"] obtain ret r' s' where
              "reg_insert_loop g rc m aor ua (num + 1) (Some a) cs ?t = Some (ret, r', s')"
              "keeps g base aor ?t s'" "\<not> ret < 0 \<longrightarrow> at_record aor r' s'" by blast
            with e room x Inr qc ins z y s1 t(1) show ?thesis
              by (auto simp: Let_def intro: keeps_trans)
          qed
        qed
      qed
    qed
  qed
qed

lemma reg_insert_keeps:
  assumes ok: "cache_ok g base (rs_dom s) (rs_world s)" and aor: "aor_ok g aor"
    and new: "get_urecord (rs_dom s) aor = None"
  obtains ret s' where "reg_insert g rc m cs aor ua s = Some (ret, s')" "keeps g base aor s s'"
proof -
  have "at_record aor None s" using new by (simp add: at_record_def)
  from reg_insert_loop_keeps [OF ok aor this, of rc m ua 0 cs] obtain ret r s1 where
    l: "reg_insert_loop g rc m aor ua 0 None cs s = Some (ret, r, s1)" "keeps g base aor s s1" by blast
  show thesis
  proof (cases "ret < 0 \<or> r = None")
    case True
    with l that show thesis by (cases "ret < 0"; cases r) (auto simp: reg_insert_def)
  next
    case False
    then obtain a where a: "r = Some a" by auto
    show thesis
    proof (cases "contacts (the_rec (rs_dom s1) a) = []")
      case True
      obtain s2 where "drop_record g aor s1 = Some s2" "keeps g base aor s1 s2"
        by (rule drop_total [OF keeps_ok [OF l(2)]])
      with True a False l that [of 0 s2] show thesis by (auto simp: reg_insert_def intro: keeps_trans)
    next
      case False2: False
      obtain s2 where "build g rc (contacts (the_rec (rs_dom s1) a)) s1 = Some s2"
        "rs_dom s2 = rs_dom s1" "rs_world s2 = rs_world s1" by (rule build_total)
      with False2 a False l that [of 0 s2] show thesis by (auto simp: reg_insert_def keeps_def)
    qed
  qed
qed

lemma reg_contacts_keeps:
  assumes ok: "cache_ok g base (rs_dom s) (rs_world s)" and aor: "aor_ok g aor"
  obtains ret s' where "reg_contacts g rc m cs aor ua s = Some (ret, s')" "keeps g base aor s s'"
proof (cases "get_urecord (rs_dom s) aor")
  case None
  obtain ret s' where "reg_insert g rc m cs aor ua s = Some (ret, s')" "keeps g base aor s s'"
    by (rule reg_insert_keeps [OF ok aor None])
  with None that show thesis by (simp add: reg_contacts_def)
next
  case (Some a)
  obtain ret s1 where u: "reg_update g rc m a cs ua s = Some (ret, s1)" "keeps g base aor s s1"
    "get_urecord (rs_dom s1) aor = Some a"
    by (rule reg_update_keeps [OF ok aor Some])
  obtain s2 where b: "build g rc (contacts (the_rec (rs_dom s1) a)) s1 = Some s2"
    "rs_dom s2 = rs_dom s1" "rs_world s2 = rs_world s1" by (rule build_total)
  have k2: "keeps g base aor s1 s2" using keeps_ok [OF u(2)] b by (simp add: keeps_def)
  have "get_urecord (rs_dom s2) aor = Some a" using u(3) b by simp
  from keeps_trans [OF keeps_trans [OF u(2) k2] release_ok [OF keeps_ok [OF k2] this]] u(1) b(1) Some that
  show thesis by (simp add: reg_contacts_def)
qed

lemma no_contacts_keeps:
  assumes ok: "cache_ok g base (rs_dom s) (rs_world s)"
  obtains s' where "no_contacts g rc aor s = Some (0, s')" "keeps g base aor s s'"
proof (cases "get_urecord (rs_dom s) aor")
  case None
  with that [of s] keeps_refl [OF ok] show thesis by (simp add: no_contacts_def)
next
  case (Some a)
  obtain s2 where "build g rc (contacts (the_rec (rs_dom s) a)) s = Some s2"
    "rs_dom s2 = rs_dom s" "rs_world s2 = rs_world s" by (rule build_total)
  with Some that [of s2] ok show thesis by (simp add: no_contacts_def keeps_def)
qed

lemma star_keeps:
  assumes ok: "cache_ok g base (rs_dom s) (rs_world s)" and now: "act_time g \<ge> 0"
  obtains s' where "star g rc aor s = Some (0, s')" "keeps g base aor s s'"
    "\<And>r. view (rs_dom s') aor = Some r \<Longrightarrow> list_all (\<lambda>c. \<not> live_contact g c) (contacts r)"
proof -
  define s1 where "s1 = (case get_urecord (rs_dom s) aor of
                 Some a \<Rightarrow>
                   (let r = the_rec (rs_dom s) a
                    in s\<lparr>rs_dom := set_rec (rs_dom s) a
                           (r\<lparr>contacts := map (set_mem_flag rc) (contacts r)\<rparr>)\<rparr>)
               | None \<Rightarrow> s)"
  have k1: "keeps g base aor s s1"
  proof (cases "get_urecord (rs_dom s) aor")
    case None
    then show ?thesis using keeps_refl [OF ok] by (simp add: s1_def)
  next
    case (Some a)
    note r = ds.rec_ok_find [OF ok Some]
    let ?r = "(the_rec (rs_dom s) a)\<lparr>contacts := map (set_mem_flag rc) (contacts (the_rec (rs_dom s) a))\<rparr>"
    have ro: "ur_aor ?r = aor" "rec_ok g ?r" "rec_blocks ?r = rec_blocks (the_rec (rs_dom s) a)"
      using r by (auto simp: rec_ok_def rec_blocks_def comp_def)
    have inv: "dom_inv (rs_dom s)" using ok by (simp add: store_ok_def)
    have "cache_ok g base (set_rec (rs_dom s) a ?r) (rs_world s)"
      by (rule ds.change_keeps [OF ok Some ro(1,2)]) (use ro in simp)
    with ds.change_good [OF inv Some ro(1)] Some show ?thesis
      by (auto simp: s1_def keeps_def Let_def)
  qed
  obtain d w where del: "delete_urecord g (rs_dom s1) aor (rs_world s1) = Some (d, w)" "cache_ok g base d w"
    and v: "view d = (case view (rs_dom s1) aor of None \<Rightarrow> view (rs_dom s1)
       | Some r \<Rightarrow> if contacts (wiped g r) = [] \<and> watchers r = [] then (view (rs_dom s1))(aor := None)
                 else (view (rs_dom s1))(aor \<mapsto> wiped g r))"
    by (rule delete_urecord_keeps [OF keeps_ok [OF k1]])
  have "list_all (\<lambda>c. \<not> live_contact g c) (contacts r)" if "view d aor = Some r" for r
    using that v by (auto simp: wiped_def list_all_iff marked_deleted_invalid [OF now] split: option.splits if_splits)
  moreover have "keeps g base aor s1 (set_dw d w s1)"
    using del(2) v by (auto simp: keeps_def set_dw_def split: option.split)
  moreover have "star g rc aor s = Some (0, set_dw d w s1)"
    using del(1) by (simp add: star_def drop_record_def flip: s1_def)
  ultimately show thesis using that [of "set_dw d w s1"] keeps_trans [OF k1] by (simp add: set_dw_def)
qed

lemma send_reply_keeps:
  "rs_dom (snd (send_reply rc s)) = rs_dom s" "rs_world (snd (send_reply rc s)) = rs_world s"
  by (simp_all add: send_reply_def Let_def)

lemma extract_aor_ok:
  assumes "extract_aor rc puri = Some (Inr aor)" "use_domain g \<longrightarrow> reg_use_domain rc"
  shows "aor_ok g aor"
  using assms by (auto simp: extract_aor_eq aor_ok_def Let_def split: option.splits prod.splits if_splits)

definition the_aor :: "rcfg \<Rightarrow> (string \<times> string) option \<Rightarrow> string" where
  "the_aor rc puri = (case extract_aor rc puri of Some (Inr aor) \<Rightarrow> aor | _ \<Rightarrow> [])"

lemma save_real_keeps:
  assumes ok: "cache_ok g base (rs_dom s) (rs_world s)" and ud: "use_domain g \<longrightarrow> reg_use_domain rc"
    and now: "act_time g \<ge> 0"
  obtains ret s' where "save_real g rc pm puri doreply s = Some (ret, s')" "keeps g base (the_aor rc puri) s s'"
    "ret \<in> {-1, 0, 1}"
proof -
  let ?k = "the_aor rc puri"
  define fail where "fail = (\<lambda>s. Some (0 :: int, if doreply then snd (send_reply rc s) else s))"
  define finish where "finish = (\<lambda>s. if doreply then
                          (case send_reply rc s of (x, s) \<Rightarrow> Some (if x < 0 then -1 else 1 :: int, s))
                        else Some (1, s))"
  have fail: "\<exists>s'. fail t = Some (0, s') \<and> keeps g base ?k s s'" if "keeps g base ?k s t" for t
    using that send_reply_keeps [of rc t] by (auto simp: fail_def keeps_def)
  have finish: "\<exists>ret s'. finish t = Some (ret, s') \<and> keeps g base ?k s s' \<and> ret \<in> {-1, 0, 1}"
    if "keeps g base ?k s t" for t
    using that send_reply_keeps [of rc t] by (cases "send_reply rc t") (auto simp: finish_def keeps_def)
  have err: "keeps g base ?k s (s\<lparr>rs_err := e\<rparr>)" for e using ok by (simp add: keeps_def)
  have err2: "keeps g base ?k s (s\<lparr>rs_err := x, rs_err := e\<rparr>)" for e x using ok by (simp add: keeps_def)
  note unf = save_real_def Let_def fail_def [symmetric] finish_def [symmetric]
  show thesis
  proof (cases pm)
    case (Inl e)
    with fail [OF err [of e]] that show thesis by (auto simp: unf)
  next
    case (Inr m)
    show thesis
    proof (cases "check_contacts rc (act_time g) m")
      case (Inl e)
      with fail [OF err [of e]] Inr that show thesis by (auto simp: unf)
    next
      case st: (Inr st)
      obtain x where x: "extract_aor rc puri = Some x" by (simp add: extract_aor_eq)
      show thesis
      proof (cases x)
        case (Inl e)
        with fail [OF err [of e]] Inr st x that show thesis by (auto simp: unf)
      next
        case aor: (Inr aor)
        then have k: "?k = aor" using x by (simp add: the_aor_def)
        have aok: "aor_ok g aor" using extract_aor_ok x aor ud by blast
        let ?s = "s\<lparr>rs_err := R_FINE\<rparr>"
        have oks: "cache_ok g base (rs_dom ?s) (rs_world ?s)" using ok by simp
        let ?ua = "case m_user_agent m of Some u \<Rightarrow> (if u \<noteq> [] then u else ''Unknown'') | None \<Rightarrow> ''Unknown''"
        let ?act = "if msg_contacts m = [] then (if st then star g rc aor ?s else no_contacts g rc aor ?s)
             else reg_contacts g rc m (msg_contacts m) aor ?ua ?s"
        have "\<exists>ret t. ?act = Some (ret, t) \<and> keeps g base ?k s t"
        proof -
          consider "msg_contacts m = []" "st" | "msg_contacts m = []" "\<not> st" | "msg_contacts m \<noteq> []" by blast
          then show ?thesis
          proof cases
            case 1
            obtain t where "star g rc aor ?s = Some (0, t)" "keeps g base aor ?s t"
              by (rule star_keeps [OF oks now])
            with 1 show ?thesis by (auto simp: k keeps_def)
          next
            case 2
            obtain t where "no_contacts g rc aor ?s = Some (0, t)" "keeps g base aor ?s t"
              by (rule no_contacts_keeps [OF oks])
            with 2 show ?thesis by (auto simp: k keeps_def)
          next
            case 3
            obtain ret t where "reg_contacts g rc m (msg_contacts m) aor ?ua ?s = Some (ret, t)"
              "keeps g base aor ?s t"
              by (rule reg_contacts_keeps [OF oks aok])
            with 3 show ?thesis by (auto simp: k keeps_def)
          qed
        qed
        then obtain ret t where act: "?act = Some (ret, t)" "keeps g base ?k s t" by blast
        have run: "save_real g rc pm puri doreply s = (if ret < 0 then fail t else finish t)"
          unfolding unf using Inr st x aor act(1) by simp
        show thesis using that run fail [OF act(2)] finish [OF act(2)] by (cases "ret < 0") auto
      qed
    qed
  qed
qed

subsection \<open>Properties of the registrar\<close>

lemma get_expires_mem_only [simp]:
  "get_expires_hf (rc\<lparr>mem_only := f\<rparr>) now m = get_expires_hf rc now m"
  by (cases "m_expires m") (simp_all add: get_expires_hf_def)

lemma extract_aor_mem_only [simp]: "extract_aor (rc\<lparr>mem_only := f\<rparr>) puri = extract_aor rc puri"
proof (cases puri)
  case (Some uh)
  then show ?thesis
    by (cases uh; cases "un_escape (fst uh)") (simp add: extract_aor_def Let_def)
qed (simp add: extract_aor_def)

lemma mem_only_irrelevant [simp]:
  "check_contacts (rc\<lparr>mem_only := f\<rparr>) now m = check_contacts rc now m"
  "calc_contact_expires (rc\<lparr>mem_only := f\<rparr>) now m ep = calc_contact_expires rc now m ep"
  "calc_contact_q (rc\<lparr>mem_only := f\<rparr>) qp q0 = calc_contact_q rc qp q0"
    apply (cases "m_contact m"; simp add: check_contacts_def)
   apply (simp add: calc_contact_expires_def Let_def)
  apply (simp add: calc_contact_q_def)
  done


lemma star_no_contacts: "check_contacts rc now m = Inr True \<Longrightarrow> msg_contacts m = []"
  by (cases "m_contact m") (auto simp: check_contacts_def msg_contacts_def split: if_splits)

text \<open>
  C33: A REGISTER request with the star contact is answered 200 and leaves no valid contact
  registered for the address, in every database mode.
\<close>

theorem star_unregisters:
  assumes "cache_ok g base (rs_dom s) (rs_world s)" "act_time g \<ge> 0"
    and "extract_aor rc puri = Some (Inr aor)" "check_contacts rc (act_time g) m = Inr True" "sl_ok rc"
  shows "\<exists>s'. save g rc (Inr m) puri s = Some (1, s') \<and>
    map rp_code (rs_replies s') = map rp_code (rs_replies s) @ [200] \<and>
    (\<forall>r. view (rs_dom s') aor = Some r \<longrightarrow> list_all (\<lambda>c. \<not> live_contact g c) (contacts r))"
proof -
  let ?rc = "rc\<lparr>mem_only := 0\<rparr>" and ?s = "s\<lparr>rs_err := R_FINE\<rparr>"
  have x: "extract_aor ?rc puri = Some (Inr aor)" using assms(3) by simp
  have c: "check_contacts ?rc (act_time g) m = Inr True"
    using assms(4) by simp
  have oks: "cache_ok g base (rs_dom ?s) (rs_world ?s)" using assms(1) by simp
  obtain t where t: "star g ?rc aor ?s = Some (0, t)"
    "\<And>r. view (rs_dom t) aor = Some r \<Longrightarrow> list_all (\<lambda>c. \<not> live_contact g c) (contacts r)"
    by (rule star_keeps [OF oks assms(2), of ?rc aor]) (rule that)
  have same: "rs_err t = R_FINE \<and> rs_replies t = rs_replies s"
    using t(1) by (auto simp: star_def drop_record_def set_dw_def Let_def split: option.splits)
  obtain y u where u: "send_reply ?rc t = (y, u)" by fastforce
  then have "y = 0 \<and> rs_dom u = rs_dom t \<and> map rp_code (rs_replies u) = map rp_code (rs_replies s) @ [200]"
    using same assms(5) by (auto simp: send_reply_def Let_def)
  with u x c t star_no_contacts [OF c] show ?thesis
    by (auto simp: save_def save_real_def Let_def)
qed

subsection \<open>Looking up\<close>

definition branch_of :: "ucontact \<Rightarrow> branch" where
  "branch_of c = \<lparr>br_uri = dat (uc_c c), br_dst_uri = dat (uc_received c), br_q = uc_q c\<rparr>"

definition fits :: "ucontact \<Rightarrow> bool" where
  "fits c \<longleftrightarrow> length (dat (uc_c c)) < MAX_URI_SIZE \<and> length (dat (uc_received c)) < MAX_URI_SIZE"

lemma append_branch_contact:
  "fits c \<Longrightarrow> append_branch m (Some (dat (uc_c c))) (dat (uc_received c)) (uc_q c) ds =
     (if length (branches ds) = MAX_BRANCHES - 1 then Some (-1, ds)
      else Some (1, ds\<lparr>branches := branches ds @ [branch_of c]\<rparr>))"
  by (auto simp: append_branch_def fits_def branch_of_def)

lemma lookup_branches_spec:
  "list_all fits (filter (live_contact g) cs) \<Longrightarrow> length (branches ds) \<le> MAX_BRANCHES - 1 \<Longrightarrow>
   \<exists>fl. lookup_branches g m cs nat_fl ds =
     Some (fl, ds\<lparr>branches := branches ds @
       map branch_of (take (MAX_BRANCHES - 1 - length (branches ds)) (filter (live_contact g) cs))\<rparr>)"
proof (induction cs arbitrary: ds nat_fl)
  case (Cons c cs)
  show ?case
  proof (cases "live_contact g c")
    case False
    with Cons show ?thesis by simp
  next
    case live: True
    show ?thesis
    proof (cases "length (branches ds) = MAX_BRANCHES - 1")
      case True
      with live Cons.prems append_branch_contact [of c m ds] show ?thesis by simp
    next
      case False
      let ?ds = "ds\<lparr>branches := branches ds @ [branch_of c]\<rparr>"
      from False Cons.prems have lt: "length (branches ds) < MAX_BRANCHES - 1" by simp
      from Cons.IH [of ?ds "nat_fl OR (uc_flags c AND FL_NAT)"] Cons.prems lt live obtain fl where
        "lookup_branches g m cs (nat_fl OR (uc_flags c AND FL_NAT)) ?ds =
          Some (fl, ?ds\<lparr>branches := branches ?ds @
            map branch_of (take (MAX_BRANCHES - 1 - length (branches ?ds)) (filter (live_contact g) cs))\<rparr>)"
        by auto
      moreover have "MAX_BRANCHES - 1 - length (branches ds) = Suc (MAX_BRANCHES - 1 - length (branches ?ds))"
        using lt by simp
      ultimately show ?thesis
        using live False Cons.prems append_branch_contact [of c m ds] by simp
    qed
  qed
qed simp

lemma dropWhile_filter: "filter P cs = x # xs \<Longrightarrow> \<exists>ys. dropWhile (\<lambda>c. \<not> P c) cs = x # ys \<and> filter P ys = xs"
  by (induction cs) (auto split: if_splits)

lemma lookup_spec:
  assumes aor: "extract_aor rc puri = Some (Inr aor)" and r: "view d aor = Some r"
    and cs: "filter (live_contact g) (contacts r) = c # cs" and fits: "list_all fits cs"
    and ok: "pkg_ok rc" "append_branches rc" "branches ds = []"
  shows "\<exists>m' ds' fl. lookup g rc d puri m ds = Some (1, m', ds', fl) \<and>
    new_uri m' = Some (dat (uc_c c)) \<and> rq_uri m' = rq_uri m \<and>
    ruri_q ds' = uc_q c \<and> branches ds' = map branch_of (take 29 cs)"
proof -
  from r obtain a where a: "get_urecord d aor = Some a" "the_rec d a = r" by (auto simp: view_def)
  obtain ys where ys: "dropWhile (\<lambda>c. \<not> live_contact g c) (contacts r) = c # ys" "filter (live_contact g) ys = cs"
    using dropWhile_filter [OF cs] by blast
  let ?m = "m\<lparr>new_uri := Some (dat (uc_c c))\<rparr>"
  let ?m2 = "if cap (uc_received c) \<noteq> None \<and> dat (uc_received c) \<noteq> [] then ?m\<lparr>dst_uri := Some (dat (uc_received c))\<rparr> else ?m"
  obtain fl where fl: "lookup_branches g ?m2 ys (uc_flags c AND FL_NAT) (set_ruri_q (uc_q c) ds) =
     Some (fl, (set_ruri_q (uc_q c) ds)\<lparr>branches := map branch_of (take 29 cs)\<rparr>)"
    using lookup_branches_spec [of g ys "set_ruri_q (uc_q c) ds" ?m2 "uc_flags c AND FL_NAT"] ys fits ok
    by (auto simp: set_ruri_q_def)
  have "lookup g rc d puri m ds =
      map_option (\<lambda>(nat_fl, ds). (1, ?m2, ds, nat_fl \<noteq> 0))
        (lookup_branches g ?m2 ys (uc_flags c AND FL_NAT) (set_ruri_q (uc_q c) ds))"
    using aor a ys ok by (simp add: lookup_def rewrite_uri_def Let_def)
  with fl show ?thesis by (auto simp: set_ruri_q_def)
qed

text \<open>
  C31: Looking up an address rewrites the Request-URI to the first valid contact of its
  record and adds the other valid contacts as branches in the record's order, as many as
  fit, each with its q value and the address it was received from. If the record is
  ordered by q the Request-URI gets a contact of highest q.
\<close>

theorem lookup_forks_valid_contacts:
  assumes "extract_aor rc puri = Some (Inr aor)" "view d aor = Some r"
    and "filter (live_contact g) (contacts r) = c # cs" "list_all fits cs"
    and "pkg_ok rc" "append_branches rc" "branches ds = []"
  shows "\<exists>m' ds' fl. lookup g rc d puri m ds = Some (1, m', ds', fl) \<and>
    new_uri m' = Some (dat (uc_c c)) \<and> ruri_q ds' = uc_q c \<and>
    branches ds' = map branch_of (take 29 cs) \<and>
    (q_ordered (contacts r) \<longrightarrow> (\<forall>c' \<in> set cs. uc_q c' \<le> uc_q c))"
proof -
  have "\<forall>c' \<in> set cs. uc_q c' \<le> uc_q c" if "q_ordered (contacts r)"
    using q_ordered_filter [OF that, of "live_contact g"] assms(3) by (simp add: q_ordered_Cons)
  with lookup_spec [OF assms, of m] show ?thesis by metis
qed

subsection \<open>Registering and then looking up\<close>

lemma new_ucontact_succeeds:
  assumes "\<And>n. shm_ok g n"
  shows "\<exists>c w'. new_ucontact g dmn aor contact e q callid cseq flags ua recv w = (Some c, w')"
  using assms by (cases recv) (simp_all add: new_ucontact_def dup_str_def shm_malloc_def Let_def)

lemma insert_first_contact:
  assumes mem: "\<And>n. shm_ok g n" and aor: "aor_ok g (ur_aor r)" and empty: "contacts r = []"
  obtains c w' where
    "insert_ucontact g r contact e q cid cs flags ua recv w = Some (Inr (0, r\<lparr>contacts := [c]\<rparr>), w')"
    "dat (uc_c c) = contact" "uc_expires c = e" "uc_q c = q"
proof -
  obtain c w1 where
    new: "new_ucontact g (ur_domain r) (ur_aor r) contact e q cid cs flags ua recv w = (Some c, w1)"
    using new_ucontact_succeeds [OF mem] by blast
  note c = new_ucontactD(1) [OF new]
  have m: "mem_insert_ucontact g r contact e q cid cs flags ua recv w = (Inr (0, r\<lparr>contacts := [c]\<rparr>), w1)"
    using new empty by (simp add: mem_insert_ucontact_def Let_def insert_nth_def)
  show thesis
  proof (cases "cfg_db_mode g = WRITE_THROUGH")
    case False
    with m c that [of c] show thesis by (simp add: insert_ucontact_def Let_def)
  next
    case True
    have "aor_ok g (uc_aor c)" using c aor by simp
    from db_access_total(1) [OF this] obtain ret w3 where
      "db_insert_ucontact g c (callbacks_if_any g UL_CONTACT_INSERT c
         (notify_watchers (r\<lparr>contacts := [c]\<rparr>) c (if e > 0 then PRES_ONLINE else PRES_OFFLINE) w1)) = Some (ret, w3)"
      by blast
    with True m c that [of "c\<lparr>uc_state := CS_SYNC\<rparr>" w3] show thesis
      by (simp add: insert_ucontact_def Let_def)
  qed
qed

lemma insert_urecord_succeeds:
  assumes "\<And>n. shm_ok g n"
  shows "\<exists>a d' w'. insert_urecord g d k w = (Inr a, d', w')"
  using assms by (simp add: insert_urecord_def mem_insert_urecord_def new_urecord_def shm_malloc_def Let_def)

subsection \<open>Examples\<close>

definition demo_state :: "db_mode \<Rightarrow> reg_state" where
  "demo_state m = \<lparr>rs_dom = demo_dom1 m, rs_world = demo_w2 m, rs_buf = \<lparr>cb_cap = None, cb_text = []\<rparr>,
     rs_err = R_FINE, rs_replies = []\<rparr>"

definition demo_star :: reg_msg where
  "demo_star = demo_msg\<lparr>m_contact := [\<lparr>star_flag = True, body_contacts = []\<rparr>],
     m_expires := Some \<lparr>exp_valid = True, exp_val = 0\<rparr>\<rparr>"

abbreviation (input) demo_puri :: "(string \<times> string) option" where
  "demo_puri \<equiv> Some (''bob'', ''b.org'')"


theorem star_unregisters_witness:
  "\<exists>s'. save (demo_cfg WRITE_THROUGH) demo_rc (Inr demo_star) demo_puri (demo_state WRITE_THROUGH) = Some (1, s') \<and>
     map rp_code (rs_replies s') = [200]"
proof -
  have "act_time (demo_cfg WRITE_THROUGH) \<ge> 0" "extract_aor demo_rc demo_puri = Some (Inr ''bob'')"
    "check_contacts demo_rc (act_time (demo_cfg WRITE_THROUGH)) demo_star = Inr True" "sl_ok demo_rc" by code_simp+
  then show ?thesis
    using star_unregisters [of "demo_cfg WRITE_THROUGH" 2 "demo_state WRITE_THROUGH" demo_rc demo_puri "''bob''" demo_star]
      demo_dom1_ok [of WRITE_THROUGH] by (auto simp: demo_state_def)
qed

theorem lookup_forks_valid_contacts_witness:
  "\<exists>m' ds' fl. lookup (demo_cfg NO_DB) demo_rc (demo_dom1 NO_DB) demo_puri demo_request demo_dset = Some (1, m', ds', fl) \<and>
     new_uri m' = Some ''sip:a''"
proof -
  let ?g = "demo_cfg NO_DB" and ?r = "the (view (demo_dom1 NO_DB) ''bob'')"
  have "extract_aor demo_rc demo_puri = Some (Inr ''bob'')" "view (demo_dom1 NO_DB) ''bob'' = Some ?r"
    "pkg_ok demo_rc" "append_branches demo_rc" "branches demo_dset = []" by code_simp+
  moreover have "filter (live_contact ?g) (contacts ?r) = hd (contacts ?r) # []"
    "dat (uc_c (hd (contacts ?r))) = ''sip:a''" by code_simp+
  ultimately show ?thesis
    using lookup_forks_valid_contacts [of demo_rc demo_puri "''bob''" "demo_dom1 NO_DB" ?r ?g
        "hd (contacts ?r)" "[]" demo_dset demo_request]
    by auto
qed

lemma reg_insert_first:
  assumes ok: "cache_ok g base (rs_dom s) (rs_world s)" and mem: "\<And>n. shm_ok g n" and aor: "aor_ok g aor"
    and new: "get_urecord (rs_dom s) aor = None" and room: "max_contacts rc \<ge> 0"
    and e: "calc_contact_expires rc (act_time g) m (rc_expires c) > 0"
    and q: "calc_contact_q rc (rc_q c) 0 = Some q" and cseq: "str2int (m_cseq m) = Some n"
  obtains s' r uc where "reg_insert g rc m [c] aor ua s = Some (0, s')"
    "view (rs_dom s') aor = Some r" "contacts r = [uc]" "dat (uc_c uc) = rc_uri c" "uc_q uc = q"
    "uc_expires uc = calc_contact_expires rc (act_time g) m (rc_expires c)"
    "rs_err s' = rs_err s" "rs_replies s' = rs_replies s"
proof -
  let ?e = "calc_contact_expires rc (act_time g) m (rc_expires c)"
  obtain a d w where i: "insert_urecord g (rs_dom s) aor (rs_world s) = (Inr a, d, w)"
    using insert_urecord_succeeds [OF mem] by blast
  from insert_urecord_keeps [OF ok new i] have d: "cache_ok g base d w" "get_urecord d aor = Some a"
    "the_rec d a = empty_record (d_name (rs_dom s)) aor" by auto
  let ?r = "empty_record (d_name (rs_dom s)) aor"
  obtain uc w1 where ins: "insert_ucontact g ?r (rc_uri c) ?e q (trim_trailing (m_callid m)) (sint n)
      (nat_flags m OR mem_only rc) ua (received_of m c) w = Some (Inr (0, ?r\<lparr>contacts := [uc]\<rparr>), w1)"
    "dat (uc_c uc) = rc_uri c" "uc_expires uc = ?e" "uc_q uc = q"
    by (rule insert_first_contact [OF mem, of ?r]) (use aor in simp_all)
  let ?u = "?r\<lparr>contacts := [uc]\<rparr>"
  let ?t = "set_dw (set_rec d a ?u) w1 (set_dw d w s)"
  have inv: "dom_inv d" using d(1) by (simp add: store_ok_def)
  have cg: "view (set_rec d a ?u) aor = Some ?u" "the_rec (set_rec d a ?u) a = ?u"
    using ds.change_good [OF inv d(2), of ?u] by (simp_all add: the_rec_def set_rec_def)
  have l: "reg_insert_loop g rc m aor ua 0 None [c] s = Some (0, Some a, ?t)"
    using e room q cseq i d(3) ins(1) by (simp add: Let_def set_dw_def)
  obtain s' where b: "build g rc (contacts ?u) ?t = Some s'" "rs_dom s' = rs_dom ?t" "rs_err s' = rs_err ?t"
    "rs_replies s' = rs_replies ?t" by (rule build_total)
  have "reg_insert g rc m [c] aor ua s = Some (0, s')"
    using l b(1) cg(2) by (simp add: reg_insert_def set_dw_def)
  then show thesis
    by (rule that [of s' ?u uc]) (use b cg ins in \<open>simp_all add: set_dw_def\<close>)
qed

text \<open>
  C32: What is registered can be found: when an address without record registers one valid
  contact and memory does not run out, the request is answered 200 and a following
  lookup of the address rewrites the Request-URI to exactly that contact, with its q value.
\<close>

theorem register_then_lookup:
  assumes "cache_ok g base (rs_dom s) (rs_world s)" "\<And>n. shm_ok g n"
    and "view (rs_dom s) aor = None" "extract_aor rc puri = Some (Inr aor)" "use_domain g \<longrightarrow> reg_use_domain rc"
    and "check_contacts rc (act_time g) m = Inr False" "msg_contacts m = [c]" "max_contacts rc \<ge> 0"
    and "calc_contact_expires rc (act_time g) m (rc_expires c) > act_time g" "act_time g \<ge> 0"
    and "calc_contact_q rc (rc_q c) 0 = Some q" "str2int (m_cseq m) = Some n"
    and "pkg_ok rc" "sl_ok rc" "append_branches rc" "branches ds = []"
  shows "\<exists>s' rq' ds' fl. save g rc (Inr m) puri s = Some (1, s') \<and>
    map rp_code (rs_replies s') = map rp_code (rs_replies s) @ [200] \<and>
    lookup g rc (rs_dom s') puri rq ds = Some (1, rq', ds', fl) \<and>
    new_uri rq' = Some (rc_uri c) \<and> ruri_q ds' = q \<and> branches ds' = []"
proof -
  let ?rc = "rc\<lparr>mem_only := 0\<rparr>" and ?s = "s\<lparr>rs_err := R_FINE\<rparr>"
  let ?ua = "case m_user_agent m of Some u \<Rightarrow> (if u \<noteq> [] then u else ''Unknown'') | None \<Rightarrow> ''Unknown''"
  have aok: "aor_ok g aor" by (rule extract_aor_ok [OF assms(4) assms(5)])
  have new: "get_urecord (rs_dom s) aor = None" using assms(3) by (simp add: view_def)
  obtain t r uc where t: "reg_insert g ?rc m [c] aor ?ua ?s = Some (0, t)"
    "view (rs_dom t) aor = Some r" "contacts r = [uc]" "dat (uc_c uc) = rc_uri c" "uc_q uc = q"
    "uc_expires uc = calc_contact_expires rc (act_time g) m (rc_expires c)"
    "rs_err t = R_FINE" "rs_replies t = rs_replies s"
    by (rule reg_insert_first [of g base ?s aor ?rc m c q n ?ua]) (use assms aok new in simp_all)
  have run: "reg_contacts g ?rc m [c] aor ?ua ?s = Some (0, t)"
    using t(1) new by (simp add: reg_contacts_def)
  obtain y u where u: "send_reply ?rc t = (y, u)" by fastforce
  then have u2: "y = 0 \<and> rs_dom u = rs_dom t \<and> map rp_code (rs_replies u) = map rp_code (rs_replies s) @ [200]"
    using t(7,8) assms by (auto simp: send_reply_def Let_def)
  have sv: "save g rc (Inr m) puri s = Some (1, u)"
    using u u2 run assms by (simp add: save_def save_real_def Let_def)
  have "filter (live_contact g) (contacts r) = uc # []" using t(3,6) assms(9) by (simp add: VALID_CONTACT_def)
  from lookup_spec [OF assms(4) t(2) this _ assms(13,15,16), of rq] sv u2 t show ?thesis by auto
qed

definition demo_rq :: "reg_contact" where
  "demo_rq = hd (msg_contacts demo_msg)"

theorem register_then_lookup_witness:
  "\<exists>s' rq' ds' fl. save (demo_cfg NO_DB) demo_rc (Inr demo_msg) (Some (''carol'', ''b.org'')) (demo_state NO_DB) = Some (1, s') \<and>
     lookup (demo_cfg NO_DB) demo_rc (rs_dom s') (Some (''carol'', ''b.org'')) demo_request demo_dset = Some (1, rq', ds', fl) \<and>
     new_uri rq' = Some ''sip:a''"
proof -
  let ?g = "demo_cfg NO_DB" and ?p = "Some (''carol'', ''b.org'')"
  have "cache_ok ?g 2 (rs_dom (demo_state NO_DB)) (rs_world (demo_state NO_DB))"
    using demo_dom1_ok by (simp add: demo_state_def)
  moreover have "\<And>n. shm_ok ?g n" "\<not> use_domain ?g" by (simp_all add: demo_cfg_def)
  moreover have "view (rs_dom (demo_state NO_DB)) ''carol'' = None" "extract_aor demo_rc ?p = Some (Inr ''carol'')"
    "check_contacts demo_rc (act_time ?g) demo_msg = Inr False" "msg_contacts demo_msg = [demo_rq]"
    "max_contacts demo_rc \<ge> 0" "act_time ?g \<ge> 0" "rc_uri demo_rq = ''sip:a''"
    "calc_contact_expires demo_rc (act_time ?g) demo_msg (rc_expires demo_rq) > act_time ?g"
    "calc_contact_q demo_rc (rc_q demo_rq) 0 = Some 500" "str2int (m_cseq demo_msg) = Some 1"
    "pkg_ok demo_rc" "sl_ok demo_rc" "append_branches demo_rc" "branches demo_dset = []" by code_simp+
  ultimately show ?thesis
    using register_then_lookup [of ?g 2 "demo_state NO_DB" "''carol''" demo_rc ?p demo_msg demo_rq 500 1 demo_dset demo_request]
    by auto
qed

subsection \<open>The limit on contacts\<close>

lemma count_after_known:
  "list_all (\<lambda>c. get_ucontact r (rc_uri c) \<noteq> None \<and> calc_contact_expires rc (act_time g) m (rc_expires c) \<noteq> 0) cs \<Longrightarrow>
   count_after g rc m r num cs = num"
  by (induction cs arbitrary: num) (auto simp: Let_def)

text \<open>
  The limit on the contacts of an address does not count contacts that have expired but
  are still in the record when they are registered again: a request that refreshes only
  such contacts passes the test, however many they are and however small the limit.
\<close>

theorem expired_contacts_escape_limit:
  assumes "list_all (\<lambda>c. \<not> live_contact g c) (contacts r)" "max_contacts rc \<ge> 0"
    and "list_all (\<lambda>c. get_ucontact r (rc_uri c) \<noteq> None \<and>
           calc_contact_expires rc (act_time g) m (rc_expires c) \<noteq> 0) cs"
  shows "\<not> test_max_contacts g rc m r cs"
proof -
  from assms(1) have "filter (live_contact g) (contacts r) = []" by (induction "contacts r") (simp_all add: list_all_iff)
  with assms show ?thesis by (simp add: test_max_contacts_def count_after_known)
qed

definition demo_expired :: urecord where
  "demo_expired = demo_record [demo_contact ''sip:a'' 500 ''c1'' 50, demo_contact ''sip:b'' 500 ''c2'' 60]"

definition demo_two :: "reg_contact list" where
  "demo_two = [demo_rq\<lparr>rc_uri := ''sip:a''\<rparr>, demo_rq\<lparr>rc_uri := ''sip:b''\<rparr>]"

theorem expired_contacts_escape_limit_witness:
  "\<not> test_max_contacts (demo_cfg NO_DB) (demo_rc\<lparr>max_contacts := 1\<rparr>) demo_msg demo_expired demo_two"
proof -
  have "list_all (\<lambda>c. \<not> live_contact (demo_cfg NO_DB) c) (contacts demo_expired)"
    "max_contacts (demo_rc\<lparr>max_contacts := 1\<rparr>) \<ge> 0"
    "list_all (\<lambda>c. get_ucontact demo_expired (rc_uri c) \<noteq> None \<and>
       calc_contact_expires (demo_rc\<lparr>max_contacts := 1\<rparr>) (act_time (demo_cfg NO_DB)) demo_msg (rc_expires c) \<noteq> 0) demo_two"
    by code_simp+
  from expired_contacts_escape_limit [OF this] show ?thesis .
qed

end
