(* ===== verification/Parse_Uri.thy ===== *)
theory Parse_Uri
  imports Ut
begin

section \<open>SIP URIs: parser/parse_uri.c\<close>

text \<open>
  The one-pass automaton that splits a URI into user, password, host, port, parameters and
  headers and recognises the parameters transport, ttl, user, method, maddr, lr and r2.
  Positions in the buffer are offsets; a \<open>span\<close> is a \<open>str\<close> that points into the buffer.
  \<open>E_FAULT\<close> stands for arithmetic on a null pointer. The C macros are definitions here.
\<close>

record span =
  sp :: "nat option"
  sl :: int

definition null_span :: span where
  "null_span = \<lparr>sp = None, sl = 0\<rparr>"

definition mk_span :: "nat \<Rightarrow> nat \<Rightarrow> span" where
  "mk_span s p = \<lparr>sp = Some s, sl = int p - int s\<rparr>"

datatype sip_protos = PROTO_NONE | PROTO_UDP | PROTO_TCP | PROTO_TLS | PROTO_SCTP

record sip_uri =
  u_user :: span
  u_passwd :: span
  u_host :: span
  u_port :: span
  u_params :: span
  u_headers :: span
  u_port_no :: u16
  u_proto :: sip_protos
  u_secure :: bool
  u_transport :: span
  u_ttl :: span
  u_user_param :: span
  u_maddr :: span
  u_method :: span
  u_lr :: span
  u_r2 :: span
  u_transport_val :: span
  u_ttl_val :: span
  u_user_param_val :: span
  u_maddr_val :: span
  u_method_val :: span
  u_lr_val :: span
  u_r2_val :: span

definition zero_uri :: sip_uri where
  "zero_uri = \<lparr>u_user = null_span, u_passwd = null_span, u_host = null_span, u_port = null_span,
     u_params = null_span, u_headers = null_span, u_port_no = 0, u_proto = PROTO_NONE, u_secure = False,
     u_transport = null_span, u_ttl = null_span, u_user_param = null_span, u_maddr = null_span,
     u_method = null_span, u_lr = null_span, u_r2 = null_span, u_transport_val = null_span,
     u_ttl_val = null_span, u_user_param_val = null_span, u_maddr_val = null_span,
     u_method_val = null_span, u_lr_val = null_span, u_r2_val = null_span\<rparr>"

datatype uri_state =
    URI_INIT | URI_USER | URI_PASSWORD | URI_PASSWORD_ALPHA | URI_HOST | URI_HOST_P
  | URI_HOST6_P | URI_HOST6_END | URI_PORT | URI_PARAM | URI_PARAM_P | URI_VAL_P | URI_HEADERS
  | PT_T | PT_R | PT_A | PT_N | PT_S | PT_P | PT_O | PT_R2 | PT_T2 | PT_eq
  | PTTL_T2 | PTTL_L | PTTL_eq
  | PU_U | PU_S | PU_E | PU_R | PU_eq
  | PM_M | PM_E | PM_T | PM_H | PM_O | PM_D | PM_eq
  | PMA_A | PMA_D | PMA_D2 | PMA_R | PMA_eq
  | PLR_L | PLR_R_FIN | PLR_eq
  | PR2_R | PR2_2_FIN | PR2_eq
  | VU_U | VU_D | VU_P_FIN
  | VT_T | VT_C | VT_P_FIN
  | VTLS_L | VTLS_S_FIN
  | VS_S | VS_C | VS_T | VS_P_FIN

datatype uri_err = E_TOO_SHORT | E_BAD_CHAR | E_BAD_HOST | E_BAD_PORT | E_BAD_URI | E_HEADERS | E_BUG_STATE | E_FAULT

text \<open>The parameter that \<open>param\<close> and \<open>param_val\<close> point to.\<close>

datatype uri_param = TRANSPORT | TTL | USER_PARAM | METHOD | MADDR | LR | R2

text \<open>The local variables of the parser, without \<open>p\<close>.\<close>

record ust =
  us_state :: uri_state
  us_s :: nat
  us_b :: "nat option"
  us_v :: "nat option"
  us_param :: "uri_param option"
  us_pass :: "nat option"
  found_user :: bool
  error_headers :: bool
  us_port :: u32
  us_uri :: sip_uri

type_synonym ures = "uri_err + ust"

definition goto :: "uri_state \<Rightarrow> ust \<Rightarrow> ust" where
  "goto st u = u\<lparr>us_state := st\<rparr>"

subsection \<open>The macros\<close>

definition case_port :: "char \<Rightarrow> ust \<Rightarrow> ust" where
  "case_port c u = u\<lparr>us_port := us_port u * 10 + of_nat (dig c)\<rparr>"

definition still_at_user :: "nat \<Rightarrow> ust \<Rightarrow> ures" where
  "still_at_user p u =
     (if found_user u then Inl E_BAD_CHAR
      else
        case sp (u_host (us_uri u)) of
          None \<Rightarrow> Inl E_FAULT
        | Some h \<Rightarrow>
            let uri = (case us_pass u of
                         Some q \<Rightarrow> zero_uri\<lparr>u_user := mk_span h q, u_passwd := mk_span (q + 1) p\<rparr>
                       | None \<Rightarrow> zero_uri\<lparr>u_user := mk_span h p\<rparr>)
            in Inr (u\<lparr>us_uri := uri, us_s := p + 1, found_user := True, error_headers := False,
                      us_state := URI_HOST\<rparr>))"

definition set_host :: "nat \<Rightarrow> ust \<Rightarrow> ust" where
  "set_host p u = u\<lparr>us_uri := (us_uri u)\<lparr>u_host := mk_span (us_s u) p\<rparr>, us_s := p + 1\<rparr>"

definition check_host_end :: "char \<Rightarrow> nat \<Rightarrow> ust \<Rightarrow> ures \<Rightarrow> ures" where
  "check_host_end c p u other =
     (if c = CHR '':'' then Inr (goto URI_PORT (set_host p u))
      else if c = CHR '';'' then Inr (goto URI_PARAM (set_host p u))
      else if c = CHR ''?'' then Inr (goto URI_HEADERS (set_host p u))
      else if c = CHR ''&'' \<or> c = CHR ''@'' then Inl E_BAD_CHAR
      else other)"

fun set_param :: "uri_param \<Rightarrow> span \<Rightarrow> span \<Rightarrow> sip_uri \<Rightarrow> sip_uri" where
  "set_param TRANSPORT n v uri = uri\<lparr>u_transport := n, u_transport_val := v\<rparr>"
| "set_param TTL n v uri = uri\<lparr>u_ttl := n, u_ttl_val := v\<rparr>"
| "set_param USER_PARAM n v uri = uri\<lparr>u_user_param := n, u_user_param_val := v\<rparr>"
| "set_param METHOD n v uri = uri\<lparr>u_method := n, u_method_val := v\<rparr>"
| "set_param MADDR n v uri = uri\<lparr>u_maddr := n, u_maddr_val := v\<rparr>"
| "set_param LR n v uri = uri\<lparr>u_lr := n, u_lr_val := v\<rparr>"
| "set_param R2 n v uri = uri\<lparr>u_r2 := n, u_r2_val := v\<rparr>"

definition param_set :: "nat \<Rightarrow> ust \<Rightarrow> ures" where
  "param_set p u =
     (case us_param u of
        None \<Rightarrow> Inl E_FAULT
      | Some n \<Rightarrow>
          (case us_b u of
             None \<Rightarrow> Inl E_FAULT
           | Some b \<Rightarrow>
               (case us_v u of
                  None \<Rightarrow> Inl E_FAULT
                | Some v \<Rightarrow> Inr (u\<lparr>us_uri := set_param n (mk_span b p) (mk_span v p) (us_uri u)\<rparr>))))"

definition no_pass :: "ust \<Rightarrow> ust" where
  "no_pass u = (if us_pass u \<noteq> None then u\<lparr>found_user := True, us_pass := None\<rparr> else u)"

definition semicolon_case :: "ust \<Rightarrow> ust" where
  "semicolon_case u = goto URI_PARAM (no_pass u)"

definition question_case :: "nat \<Rightarrow> ust \<Rightarrow> ust" where
  "question_case p u =
     no_pass (u\<lparr>us_uri := (us_uri u)\<lparr>u_params := mk_span (us_s u) p\<rparr>, us_state := URI_HEADERS, us_s := p + 1\<rparr>)"

definition maybe_pass :: "nat \<Rightarrow> ust \<Rightarrow> ust" where
  "maybe_pass p u =
     (if \<not> found_user u then
        (if us_pass u \<noteq> None then u\<lparr>found_user := True, us_pass := None\<rparr>
         else u\<lparr>us_pass := Some p\<rparr>)
      else u)"

definition colon_case :: "nat \<Rightarrow> ust \<Rightarrow> ust" where
  "colon_case p u = goto URI_PARAM_P (maybe_pass p u)"

definition param_common_cases :: "char \<Rightarrow> nat \<Rightarrow> ust \<Rightarrow> ures \<Rightarrow> ures" where
  "param_common_cases c p u other =
     (if c = CHR ''@'' then still_at_user p u
      else if c = CHR '';'' then Inr (semicolon_case u)
      else if c = CHR ''?'' then Inr (question_case p u)
      else if c = CHR '':'' then Inr (colon_case p u)
      else other)"

definition value_common_cases :: "char \<Rightarrow> nat \<Rightarrow> ust \<Rightarrow> ures \<Rightarrow> ures" where
  "value_common_cases c p u other =
     (if c = CHR ''@'' then still_at_user p u
      else if c = CHR '';'' then param_set p (semicolon_case u)
      else if c = CHR ''?'' then param_set p (question_case p u)
      else if c = CHR '':'' then Inr (goto URI_VAL_P (colon_case p u))
      else other)"

definition param_switch :: "char \<Rightarrow> char \<Rightarrow> uri_state \<Rightarrow> char \<Rightarrow> nat \<Rightarrow> ust \<Rightarrow> ures" where
  "param_switch c1 c2 new_state c p u =
     (if c = c1 \<or> c = c2 then Inr (goto new_state u)
      else param_common_cases c p u (Inr (goto URI_PARAM_P u)))"

definition param_switch1 :: "char \<Rightarrow> uri_state \<Rightarrow> char \<Rightarrow> nat \<Rightarrow> ust \<Rightarrow> ures" where
  "param_switch1 c1 new_state c p u =
     (if c = c1 then Inr (goto new_state u)
      else param_common_cases c p u (Inr (goto URI_PARAM_P u)))"

definition param_switch_big ::
  "char \<Rightarrow> char \<Rightarrow> char \<Rightarrow> char \<Rightarrow> uri_state \<Rightarrow> uri_state \<Rightarrow> char \<Rightarrow> nat \<Rightarrow> ust \<Rightarrow> ures" where
  "param_switch_big c1 c2 d1 d2 new_c new_d c p u =
     (if c = c1 \<or> c = c2 then Inr (goto new_c u)
      else if c = d1 \<or> c = d2 then Inr (goto new_d u)
      else param_common_cases c p u (Inr (goto URI_PARAM_P u)))"

definition value_switch :: "char \<Rightarrow> char \<Rightarrow> uri_state \<Rightarrow> char \<Rightarrow> nat \<Rightarrow> ust \<Rightarrow> ures" where
  "value_switch c1 c2 new_state c p u =
     (if c = c1 \<or> c = c2 then Inr (goto new_state u)
      else value_common_cases c p u (Inr (goto URI_VAL_P u)))"

definition value_switch_big ::
  "char \<Rightarrow> char \<Rightarrow> char \<Rightarrow> char \<Rightarrow> uri_state \<Rightarrow> uri_state \<Rightarrow> char \<Rightarrow> nat \<Rightarrow> ust \<Rightarrow> ures" where
  "value_switch_big c1 c2 d1 d2 new_c new_d c p u =
     (if c = c1 \<or> c = c2 then Inr (goto new_c u)
      else if c = d1 \<or> c = d2 then Inr (goto new_d u)
      else value_common_cases c p u (Inr (goto URI_VAL_P u)))"

definition set_proto :: "sip_protos \<Rightarrow> ures \<Rightarrow> ures" where
  "set_proto pr r =
     (case r of Inl e \<Rightarrow> Inl e | Inr u \<Rightarrow> Inr (u\<lparr>us_uri := (us_uri u)\<lparr>u_proto := pr\<rparr>\<rparr>))"

definition transport_fin :: "sip_protos \<Rightarrow> char \<Rightarrow> nat \<Rightarrow> ust \<Rightarrow> ures" where
  "transport_fin pr c p u =
     (if c = CHR ''@'' then still_at_user p u
      else if c = CHR '';'' then set_proto pr (param_set p (semicolon_case u))
      else if c = CHR ''?'' then set_proto pr (param_set p (question_case p u))
      else if c = CHR '':'' then Inr (goto URI_VAL_P (colon_case p u))
      else Inr (goto URI_VAL_P u))"

text \<open>The states that follow the equals sign of a parameter without values of its own.\<close>

definition param_eq :: "uri_param \<Rightarrow> char \<Rightarrow> nat \<Rightarrow> ust \<Rightarrow> ures" where
  "param_eq n c p u =
     (let u = u\<lparr>us_param := Some n\<rparr>
      in param_common_cases c p u (Inr (u\<lparr>us_v := Some p, us_state := URI_VAL_P\<rparr>)))"

definition set_flag :: "uri_param \<Rightarrow> nat \<Rightarrow> ust \<Rightarrow> ures" where
  "set_flag n p u =
     (case us_b u of
        None \<Rightarrow> Inl E_FAULT
      | Some b \<Rightarrow>
          Inr (u\<lparr>us_uri := (if n = LR then (us_uri u)\<lparr>u_lr := mk_span b p\<rparr>
                           else (us_uri u)\<lparr>u_r2 := mk_span b p\<rparr>)\<rparr>))"

text \<open>The states after the complete name \<open>lr\<close> or \<open>r2\<close>.\<close>

definition flag_fin :: "uri_param \<Rightarrow> uri_state \<Rightarrow> char \<Rightarrow> nat \<Rightarrow> ust \<Rightarrow> ures" where
  "flag_fin n eq c p u =
     (if c = CHR ''@'' then still_at_user p u
      else if c = CHR ''='' then Inr (goto eq u)
      else if c = CHR '';'' then set_flag n p (semicolon_case u)
      else if c = CHR ''?'' then set_flag n p (question_case p u)
      else if c = CHR '':'' then Inr (colon_case p u)
      else Inr (goto URI_PARAM_P u))"

subsection \<open>One character\<close>

definition user_is_host :: "nat \<Rightarrow> ust \<Rightarrow> ust" where
  "user_is_host p u =
     u\<lparr>us_uri := (us_uri u)\<lparr>u_port := mk_span (us_s u) p, u_port_no := ucast (us_port u),
         u_host := u_user (us_uri u), u_user := null_span\<rparr>,
       found_user := True, us_s := p + 1\<rparr>"

definition set_user :: "nat \<Rightarrow> ust \<Rightarrow> ust" where
  "set_user p u = u\<lparr>us_uri := (us_uri u)\<lparr>u_user := mk_span (us_s u) p\<rparr>, us_s := p + 1\<rparr>"

definition set_passwd :: "nat \<Rightarrow> ust \<Rightarrow> ust" where
  "set_passwd p u = u\<lparr>us_uri := (us_uri u)\<lparr>u_passwd := mk_span (us_s u) p\<rparr>,
     us_state := URI_HOST, found_user := True, us_s := p + 1\<rparr>"

definition step_init :: "char \<Rightarrow> nat \<Rightarrow> ust \<Rightarrow> ures" where
  "step_init c p u =
     (if c = CHR ''['' then Inr (u\<lparr>us_state := URI_HOST6_P, us_s := p\<rparr>)
      else if c = CHR '']'' \<or> c = CHR '':'' then Inl E_BAD_CHAR
      else Inr (goto URI_USER u))"

definition step_user :: "char \<Rightarrow> nat \<Rightarrow> ust \<Rightarrow> ures" where
  "step_user c p u =
     (if c = CHR ''@'' then Inr ((set_user p u)\<lparr>us_state := URI_HOST, found_user := True\<rparr>)
      else if c = CHR '':'' then Inr (goto URI_PASSWORD (set_user p u))
      else if c = CHR '';'' then Inr (goto URI_PARAM (set_host p u))
      else if c = CHR ''?'' then Inr (goto URI_HEADERS (set_host p u))
      else if c = CHR ''['' \<or> c = CHR '']'' then Inl E_BAD_CHAR
      else Inr u)"

definition step_password :: "char \<Rightarrow> nat \<Rightarrow> ust \<Rightarrow> ures" where
  "step_password c p u =
     (if c = CHR ''@'' then Inr ((set_passwd p u)\<lparr>us_port := 0\<rparr>)
      else if c = CHR '';'' then Inr (goto URI_PARAM (user_is_host p u))
      else if c = CHR ''?'' then Inr (goto URI_HEADERS (user_is_host p u))
      else if digit c then Inr (case_port c u)
      else if c = CHR ''['' \<or> c = CHR '']'' \<or> c = CHR '':'' then Inl E_BAD_CHAR
      else Inr (u\<lparr>us_port := 0, us_state := URI_PASSWORD_ALPHA\<rparr>))"

definition step_password_alpha :: "char \<Rightarrow> nat \<Rightarrow> ust \<Rightarrow> ures" where
  "step_password_alpha c p u =
     (if c = CHR ''@'' then Inr (set_passwd p u)
      else if c = CHR '';'' \<or> c = CHR ''?'' then Inl E_BAD_PORT
      else if c = CHR ''['' \<or> c = CHR '']'' \<or> c = CHR '':'' then Inl E_BAD_CHAR
      else Inr u)"

definition step_host :: "char \<Rightarrow> nat \<Rightarrow> ust \<Rightarrow> ures" where
  "step_host c p u =
     (if c = CHR ''['' then Inr (goto URI_HOST6_P u)
      else if c = CHR '':'' \<or> c = CHR '';'' \<or> c = CHR ''?'' \<or> c = CHR ''&'' \<or> c = CHR ''@''
      then Inl E_BAD_HOST
      else Inr (goto URI_HOST_P u))"

definition step_host6 :: "char \<Rightarrow> nat \<Rightarrow> ust \<Rightarrow> ures" where
  "step_host6 c p u =
     (if c = CHR '']'' then Inr (goto URI_HOST6_END u)
      else if c = CHR ''['' \<or> c = CHR ''&'' \<or> c = CHR ''@'' \<or> c = CHR '';'' \<or> c = CHR ''?''
      then Inl E_BAD_HOST
      else Inr u)"

definition set_port :: "nat \<Rightarrow> ust \<Rightarrow> ust" where
  "set_port p u = u\<lparr>us_uri := (us_uri u)\<lparr>u_port := mk_span (us_s u) p, u_port_no := ucast (us_port u)\<rparr>,
     us_s := p + 1\<rparr>"

definition step_port :: "char \<Rightarrow> nat \<Rightarrow> ust \<Rightarrow> ures" where
  "step_port c p u =
     (if c = CHR '';'' then Inr (goto URI_PARAM (set_port p u))
      else if c = CHR ''?'' then Inr (goto URI_HEADERS (set_port p u))
      else if digit c then Inr (case_port c u)
      else Inl E_BAD_PORT)"

text \<open>
  The case of the letter r falls through to the default case: the state \<open>PR2_R\<close> it has
  just set is overwritten.
\<close>

definition step_param :: "char \<Rightarrow> nat \<Rightarrow> ust \<Rightarrow> ures" where
  "step_param c p u =
     param_common_cases c p u
       (if c = CHR ''t'' \<or> c = CHR ''T'' then Inr (u\<lparr>us_b := Some p, us_state := PT_T\<rparr>)
        else if c = CHR ''u'' \<or> c = CHR ''U'' then Inr (u\<lparr>us_b := Some p, us_state := PU_U\<rparr>)
        else if c = CHR ''m'' \<or> c = CHR ''M'' then Inr (u\<lparr>us_b := Some p, us_state := PM_M\<rparr>)
        else if c = CHR ''l'' \<or> c = CHR ''L'' then Inr (u\<lparr>us_b := Some p, us_state := PLR_L\<rparr>)
        else if c = CHR ''r'' \<or> c = CHR ''R'' then
          Inr (goto URI_PARAM_P (u\<lparr>us_b := Some p, us_state := PR2_R\<rparr>))
        else Inr (goto URI_PARAM_P u))"

definition step_transport_eq :: "char \<Rightarrow> nat \<Rightarrow> ust \<Rightarrow> ures" where
  "step_transport_eq c p u =
     (let u = u\<lparr>us_param := Some TRANSPORT\<rparr>; v = u\<lparr>us_v := Some p\<rparr>
      in param_common_cases c p u
           (if c = CHR ''u'' \<or> c = CHR ''U'' then Inr (goto VU_U v)
            else if c = CHR ''t'' \<or> c = CHR ''T'' then Inr (goto VT_T v)
            else if c = CHR ''s'' \<or> c = CHR ''S'' then Inr (goto VS_S v)
            else Inr (goto URI_VAL_P v)))"

definition step_headers :: "char \<Rightarrow> nat \<Rightarrow> ust \<Rightarrow> ures" where
  "step_headers c p u =
     (if c = CHR ''@'' then still_at_user p u
      else if c = CHR '';'' then
        (if found_user u then Inl E_BAD_CHAR
         else if us_pass u \<noteq> None then Inl E_HEADERS
         else Inr (u\<lparr>error_headers := True\<rparr>))
      else if c = CHR '':'' then Inr (maybe_pass p u)
      else if c = CHR ''?'' then Inr (no_pass u)
      else Inr u)"

text \<open>The names of parameters, one group of states per name.\<close>

definition step_names :: "uri_state \<Rightarrow> char \<Rightarrow> nat \<Rightarrow> ust \<Rightarrow> ures" where
  "step_names st =
     (case st of
        PT_T \<Rightarrow> param_switch_big (CHR ''r'') (CHR ''R'') (CHR ''t'') (CHR ''T'') PT_R PTTL_T2
      | PT_R \<Rightarrow> param_switch (CHR ''a'') (CHR ''A'') PT_A
      | PT_A \<Rightarrow> param_switch (CHR ''n'') (CHR ''N'') PT_N
      | PT_N \<Rightarrow> param_switch (CHR ''s'') (CHR ''S'') PT_S
      | PT_S \<Rightarrow> param_switch (CHR ''p'') (CHR ''P'') PT_P
      | PT_P \<Rightarrow> param_switch (CHR ''o'') (CHR ''O'') PT_O
      | PT_O \<Rightarrow> param_switch (CHR ''r'') (CHR ''R'') PT_R2
      | PT_R2 \<Rightarrow> param_switch (CHR ''t'') (CHR ''T'') PT_T2
      | PT_T2 \<Rightarrow> param_switch1 (CHR ''='') PT_eq
      | PT_eq \<Rightarrow> step_transport_eq
      | PTTL_T2 \<Rightarrow> param_switch (CHR ''l'') (CHR ''L'') PTTL_L
      | PTTL_L \<Rightarrow> param_switch1 (CHR ''='') PTTL_eq
      | PTTL_eq \<Rightarrow> param_eq TTL
      | PU_U \<Rightarrow> param_switch (CHR ''s'') (CHR ''S'') PU_S
      | PU_S \<Rightarrow> param_switch (CHR ''e'') (CHR ''E'') PU_E
      | PU_E \<Rightarrow> param_switch (CHR ''r'') (CHR ''R'') PU_R
      | PU_R \<Rightarrow> param_switch1 (CHR ''='') PU_eq
      | PU_eq \<Rightarrow> param_eq USER_PARAM
      | PM_M \<Rightarrow> param_switch_big (CHR ''e'') (CHR ''E'') (CHR ''a'') (CHR ''A'') PM_E PMA_A
      | PM_E \<Rightarrow> param_switch (CHR ''t'') (CHR ''T'') PM_T
      | PM_T \<Rightarrow> param_switch (CHR ''h'') (CHR ''H'') PM_H
      | PM_H \<Rightarrow> param_switch (CHR ''o'') (CHR ''O'') PM_O
      | PM_O \<Rightarrow> param_switch (CHR ''d'') (CHR ''D'') PM_D
      | PM_D \<Rightarrow> param_switch1 (CHR ''='') PM_eq
      | PM_eq \<Rightarrow> param_eq METHOD
      | PMA_A \<Rightarrow> param_switch (CHR ''d'') (CHR ''D'') PMA_D
      | PMA_D \<Rightarrow> param_switch (CHR ''d'') (CHR ''D'') PMA_D2
      | PMA_D2 \<Rightarrow> param_switch (CHR ''r'') (CHR ''R'') PMA_R
      | PMA_R \<Rightarrow> param_switch1 (CHR ''='') PMA_eq
      | PMA_eq \<Rightarrow> param_eq MADDR
      | PLR_L \<Rightarrow> param_switch (CHR ''r'') (CHR ''R'') PLR_R_FIN
      | PLR_R_FIN \<Rightarrow> flag_fin LR PLR_eq
      | PLR_eq \<Rightarrow> param_eq LR
      | PR2_R \<Rightarrow> param_switch1 (CHR ''2'') PR2_2_FIN
      | PR2_2_FIN \<Rightarrow> flag_fin R2 PR2_eq
      | PR2_eq \<Rightarrow> param_eq R2
      | _ \<Rightarrow> (\<lambda>_ _ _. Inl E_BUG_STATE))"

text \<open>The values of the transport parameter.\<close>

definition step_values :: "uri_state \<Rightarrow> char \<Rightarrow> nat \<Rightarrow> ust \<Rightarrow> ures" where
  "step_values st =
     (case st of
        VU_U \<Rightarrow> value_switch (CHR ''d'') (CHR ''D'') VU_D
      | VU_D \<Rightarrow> value_switch (CHR ''p'') (CHR ''P'') VU_P_FIN
      | VU_P_FIN \<Rightarrow> transport_fin PROTO_UDP
      | VT_T \<Rightarrow> value_switch_big (CHR ''c'') (CHR ''C'') (CHR ''l'') (CHR ''L'') VT_C VTLS_L
      | VT_C \<Rightarrow> value_switch (CHR ''p'') (CHR ''P'') VT_P_FIN
      | VT_P_FIN \<Rightarrow> transport_fin PROTO_TCP
      | VTLS_L \<Rightarrow> value_switch (CHR ''s'') (CHR ''S'') VTLS_S_FIN
      | VTLS_S_FIN \<Rightarrow> transport_fin PROTO_TLS
      | VS_S \<Rightarrow> value_switch (CHR ''c'') (CHR ''C'') VS_C
      | VS_C \<Rightarrow> value_switch (CHR ''t'') (CHR ''T'') VS_T
      | VS_T \<Rightarrow> value_switch (CHR ''p'') (CHR ''P'') VS_P_FIN
      | VS_P_FIN \<Rightarrow> transport_fin PROTO_SCTP
      | _ \<Rightarrow> (\<lambda>_ _ _. Inl E_BUG_STATE))"

definition is_value_state :: "uri_state \<Rightarrow> bool" where
  "is_value_state st =
     (case st of
        VU_U \<Rightarrow> True | VU_D \<Rightarrow> True | VU_P_FIN \<Rightarrow> True | VT_T \<Rightarrow> True | VT_C \<Rightarrow> True |
        VT_P_FIN \<Rightarrow> True | VTLS_L \<Rightarrow> True | VTLS_S_FIN \<Rightarrow> True | VS_S \<Rightarrow> True | VS_C \<Rightarrow> True
        | VS_T \<Rightarrow> True | VS_P_FIN \<Rightarrow> True | _ \<Rightarrow> False)"

definition uri_step :: "char \<Rightarrow> nat \<Rightarrow> ust \<Rightarrow> ures" where
  "uri_step c p u =
     (case us_state u of
        URI_INIT \<Rightarrow> step_init c p u
      | URI_USER \<Rightarrow> step_user c p u
      | URI_PASSWORD \<Rightarrow> step_password c p u
      | URI_PASSWORD_ALPHA \<Rightarrow> step_password_alpha c p u
      | URI_HOST \<Rightarrow> step_host c p u
      | URI_HOST_P \<Rightarrow> check_host_end c p u (Inr u)
      | URI_HOST6_END \<Rightarrow> check_host_end c p u (Inl E_BAD_HOST)
      | URI_HOST6_P \<Rightarrow> step_host6 c p u
      | URI_PORT \<Rightarrow> step_port c p u
      | URI_PARAM \<Rightarrow> step_param c p u
      | URI_PARAM_P \<Rightarrow> param_common_cases c p u (Inr u)
      | URI_VAL_P \<Rightarrow> value_common_cases c p u (Inr u)
      | URI_HEADERS \<Rightarrow> step_headers c p u
      | st \<Rightarrow> (if is_value_state st then step_values st c p u else step_names st c p u))"

fun uri_loop :: "string \<Rightarrow> nat \<Rightarrow> ust \<Rightarrow> ures" where
  "uri_loop [] p u = Inr u"
| "uri_loop (c # cs) p u =
     (case uri_step c p u of Inl e \<Rightarrow> Inl e | Inr u \<Rightarrow> uri_loop cs (Suc p) u)"

subsection \<open>End of the URI\<close>

definition end_params :: "nat \<Rightarrow> ust \<Rightarrow> ust" where
  "end_params p u = u\<lparr>us_uri := (us_uri u)\<lparr>u_params := mk_span (us_s u) p\<rparr>\<rparr>"

definition end_host :: "nat \<Rightarrow> ust \<Rightarrow> sip_uri" where
  "end_host p u = (us_uri u)\<lparr>u_host := mk_span (us_s u) p\<rparr>"

definition the_uri :: "ures \<Rightarrow> uri_err + sip_uri" where
  "the_uri r = (case r of Inl e \<Rightarrow> Inl e | Inr u \<Rightarrow> Inr (us_uri u))"

text \<open>The states of maddr are missing from the code's switch and end in its default case.\<close>

definition uri_end :: "nat \<Rightarrow> ust \<Rightarrow> uri_err + sip_uri" where
  "uri_end p u =
     (case us_state u of
        URI_INIT \<Rightarrow> Inl E_TOO_SHORT
      | URI_USER \<Rightarrow> (if found_user u then Inl E_BAD_URI else Inr (end_host p u))
      | URI_PASSWORD \<Rightarrow>
          (if found_user u then Inl E_BAD_PORT
           else Inr ((us_uri u)\<lparr>u_port := mk_span (us_s u) p, u_port_no := ucast (us_port u),
                  u_host := u_user (us_uri u), u_user := null_span\<rparr>))
      | URI_PASSWORD_ALPHA \<Rightarrow> Inl E_BAD_PORT
      | URI_HOST_P \<Rightarrow> Inr (end_host p u)
      | URI_HOST6_END \<Rightarrow> Inr (end_host p u)
      | URI_HOST \<Rightarrow> Inl E_BAD_HOST
      | URI_HOST6_P \<Rightarrow> Inl E_BAD_HOST
      | URI_PORT \<Rightarrow> Inr (us_uri (set_port p u))
      | PLR_R_FIN \<Rightarrow> the_uri (set_flag LR p (end_params p u))
      | PLR_eq \<Rightarrow> the_uri (set_flag LR p (end_params p u))
      | PR2_2_FIN \<Rightarrow> the_uri (set_flag R2 p (end_params p u))
      | PR2_eq \<Rightarrow> the_uri (set_flag R2 p (end_params p u))
      | URI_HEADERS \<Rightarrow>
          (if error_headers u then Inl E_HEADERS
           else Inr ((us_uri u)\<lparr>u_headers := mk_span (us_s u) p\<rparr>))
      | VU_P_FIN \<Rightarrow> the_uri (set_proto PROTO_UDP (param_set p (end_params p u)))
      | VT_P_FIN \<Rightarrow> the_uri (set_proto PROTO_TCP (param_set p (end_params p u)))
      | VTLS_S_FIN \<Rightarrow> the_uri (set_proto PROTO_TLS (param_set p (end_params p u)))
      | VS_P_FIN \<Rightarrow> the_uri (set_proto PROTO_SCTP (param_set p (end_params p u)))
      | URI_VAL_P \<Rightarrow> the_uri (param_set p (end_params p u))
      | PMA_A \<Rightarrow> Inl E_BUG_STATE
      | PMA_D \<Rightarrow> Inl E_BUG_STATE
      | PMA_D2 \<Rightarrow> Inl E_BUG_STATE
      | PMA_R \<Rightarrow> Inl E_BUG_STATE
      | PMA_eq \<Rightarrow> Inl E_BUG_STATE
      | st \<Rightarrow>
          (if is_value_state st then the_uri (param_set p (end_params p u))
           else Inr (us_uri (end_params p u))))"

definition uri_start :: "nat \<Rightarrow> bool \<Rightarrow> ust" where
  "uri_start p sec = \<lparr>us_state = URI_INIT, us_s = p, us_b = None, us_v = None, us_param = None,
     us_pass = None, found_user = False, error_headers = False, us_port = 0,
     us_uri = zero_uri\<lparr>u_secure := sec\<rparr>\<rparr>"

definition lower_eq :: "char \<Rightarrow> char \<Rightarrow> bool" where
  "lower_eq c l \<longleftrightarrow> (of_char c :: u8) OR 0x20 = of_char l"

definition run_uri :: "string \<Rightarrow> nat \<Rightarrow> bool \<Rightarrow> uri_err + sip_uri" where
  "run_uri buf p sec =
     (case uri_loop (drop p buf) p (uri_start p sec) of
        Inl e \<Rightarrow> Inl e
      | Inr u \<Rightarrow> uri_end (length buf) u)"

definition parse_uri :: "string \<Rightarrow> uri_err + sip_uri" where
  "parse_uri buf =
     (if length buf < 5 then Inl E_TOO_SHORT
      else if \<not> (lower_eq (buf ! 0) CHR ''s'' \<and> lower_eq (buf ! 1) CHR ''i'' \<and> lower_eq (buf ! 2) CHR ''p'')
      then Inl E_BAD_URI
      else if buf ! 3 \<noteq> CHR '':'' then
        (if lower_eq (buf ! 3) CHR ''s'' \<and> buf ! 4 = CHR '':'' then run_uri buf 5 True else Inl E_BAD_URI)
      else run_uri buf 4 False)"

text \<open>The text a span denotes.\<close>

definition text_of :: "string \<Rightarrow> span \<Rightarrow> string" where
  "text_of buf x = (case sp x of None \<Rightarrow> [] | Some s \<Rightarrow> take (nat (sl x)) (drop s buf))"

subsection \<open>The parser stays inside its buffer\<close>

definition span_ok :: "nat \<Rightarrow> span \<Rightarrow> bool" where
  "span_ok n x \<longleftrightarrow> (case sp x of None \<Rightarrow> sl x = 0 | Some s \<Rightarrow> 0 \<le> sl x \<and> int s + sl x \<le> int n)"

definition spans :: "sip_uri \<Rightarrow> span list" where
  "spans u = [u_user u, u_passwd u, u_host u, u_port u, u_params u, u_headers u, u_transport u, u_ttl u,
     u_user_param u, u_maddr u, u_method u, u_lr u, u_r2 u, u_transport_val u, u_ttl_val u,
     u_user_param_val u, u_maddr_val u, u_method_val u, u_lr_val u, u_r2_val u]"

definition uri_ok :: "nat \<Rightarrow> sip_uri \<Rightarrow> bool" where
  "uri_ok n u \<longleftrightarrow> list_all (span_ok n) (spans u)"

definition early :: "uri_state \<Rightarrow> bool" where
  "early st =
     (case st of
        URI_INIT \<Rightarrow> True | URI_USER \<Rightarrow> True | URI_PASSWORD \<Rightarrow> True | URI_PASSWORD_ALPHA \<Rightarrow>
        True | URI_HOST \<Rightarrow> True | URI_HOST_P \<Rightarrow> True | URI_HOST6_P \<Rightarrow> True | URI_HOST6_END
        \<Rightarrow> True | URI_PORT \<Rightarrow> True | _ \<Rightarrow> False)"

definition valued :: "uri_state \<Rightarrow> bool" where
  "valued st \<longleftrightarrow> is_value_state st \<or> st = URI_VAL_P"

definition named :: "uri_state \<Rightarrow> bool" where
  "named st \<longleftrightarrow> \<not> early st \<and> st \<notin> {URI_PARAM, URI_PARAM_P, URI_HEADERS}"

definition before :: "nat option \<Rightarrow> nat \<Rightarrow> bool" where
  "before x p \<longleftrightarrow> (case x of None \<Rightarrow> True | Some n \<Rightarrow> n \<le> p)"

text \<open>
  Between two characters: the components found lie before the current position, and
  where the parser may still find out that what it took for the host was the user, that
  host is set and lies before the colon of a possible password.
\<close>

definition host_at :: "ust \<Rightarrow> nat \<Rightarrow> bool" where
  "host_at u h \<longleftrightarrow> sp (u_host (us_uri u)) = Some h"

definition at_user_ok :: "nat \<Rightarrow> ust \<Rightarrow> bool" where
  "at_user_ok p u \<longleftrightarrow>
     (\<exists>h. sp (u_host (us_uri u)) = Some h \<and> (\<forall>q. us_pass u = Some q \<longrightarrow> h \<le> q \<and> q < p))"

definition uri_inv :: "nat \<Rightarrow> ust \<Rightarrow> bool" where
  "uri_inv p u \<longleftrightarrow>
     us_s u \<le> p \<and> uri_ok p (us_uri u) \<and> before (us_b u) p \<and> before (us_v u) p \<and>
     (found_user u \<or>
       (if early (us_state u) then us_pass u = None \<and> (us_state u = URI_PORT \<longrightarrow> at_user_ok p u)
        else at_user_ok p u)) \<and>
     (named (us_state u) \<longrightarrow> us_b u \<noteq> None) \<and>
     (valued (us_state u) \<longrightarrow> us_v u \<noteq> None \<and> us_param u \<noteq> None)"

definition safe :: "nat \<Rightarrow> ures \<Rightarrow> bool" where
  "safe p r \<longleftrightarrow> (case r of Inl e \<Rightarrow> e \<noteq> E_FAULT | Inr u \<Rightarrow> uri_inv p u)"

lemma safe_simps [simp]: "safe p (Inl e) \<longleftrightarrow> e \<noteq> E_FAULT" "safe p (Inr u) \<longleftrightarrow> uri_inv p u"
  by (simp_all add: safe_def)

lemma span_ok_simps [simp]:
  "span_ok n null_span" "span_ok n (mk_span s p) \<longleftrightarrow> s \<le> p \<and> p \<le> n" "sp (mk_span s p) = Some s"
  "sp null_span = None"
  by (auto simp: span_ok_def null_span_def mk_span_def)

lemma span_ok_mono: "span_ok n x \<Longrightarrow> n \<le> m \<Longrightarrow> span_ok m x"
  by (auto simp: span_ok_def split: option.splits)

lemma uri_ok_Suc [simp]: "uri_ok p u \<Longrightarrow> uri_ok (Suc p) u"
  by (auto simp: uri_ok_def list_all_iff intro: span_ok_mono)

lemma zero_uri_ok [simp]: "uri_ok p zero_uri"
  by (simp add: uri_ok_def spans_def zero_uri_def)

lemma uri_ok_updates [simp]:
  assumes "uri_ok n u"
  shows "span_ok n x \<Longrightarrow> uri_ok n (u\<lparr>u_user := x\<rparr>)" "span_ok n x \<Longrightarrow> uri_ok n (u\<lparr>u_passwd := x\<rparr>)"
    "span_ok n x \<Longrightarrow> uri_ok n (u\<lparr>u_host := x\<rparr>)" "span_ok n x \<Longrightarrow> uri_ok n (u\<lparr>u_port := x\<rparr>)"
    "span_ok n x \<Longrightarrow> uri_ok n (u\<lparr>u_params := x\<rparr>)" "span_ok n x \<Longrightarrow> uri_ok n (u\<lparr>u_headers := x\<rparr>)"
    "span_ok n x \<Longrightarrow> uri_ok n (u\<lparr>u_lr := x\<rparr>)" "span_ok n x \<Longrightarrow> uri_ok n (u\<lparr>u_r2 := x\<rparr>)"
    "uri_ok n (u\<lparr>u_port_no := k\<rparr>)" "uri_ok n (u\<lparr>u_proto := pr\<rparr>)" "uri_ok n (u\<lparr>u_secure := b\<rparr>)"
    "span_ok n x \<Longrightarrow> span_ok n y \<Longrightarrow> uri_ok n (set_param pm x y u)"
  using assms by (cases pm; auto simp: uri_ok_def spans_def)+

lemma uri_okD: "uri_ok n u \<Longrightarrow> span_ok n (u_user u)" "uri_ok n u \<Longrightarrow> span_ok n (u_host u)"
  by (simp_all add: uri_ok_def spans_def)

lemma set_param_host [simp]: "u_host (set_param pm x y u) = u_host u"
  by (cases pm) simp_all

lemma before_simps [simp]: "before None p" "before (Some n) p \<longleftrightarrow> n \<le> p" "before x p \<Longrightarrow> before x (Suc p)"
  by (auto simp: before_def split: option.splits)

lemma state_classes [simp]:
  "early URI_HOST" "\<not> early URI_PARAM" "\<not> early URI_PARAM_P" "\<not> early URI_HEADERS" "\<not> early URI_VAL_P" "early URI_PORT"
  "\<not> named URI_HOST" "\<not> named URI_PARAM" "\<not> named URI_PARAM_P" "\<not> named URI_HEADERS" "named URI_VAL_P" "\<not> named URI_PORT"
  "\<not> valued URI_HOST" "\<not> valued URI_PARAM" "\<not> valued URI_PARAM_P" "\<not> valued URI_HEADERS" "valued URI_VAL_P" "\<not> valued URI_PORT"
  by (simp_all add: early_def named_def valued_def is_value_state_def)

lemma at_user_Suc [simp]: "at_user_ok p u \<Longrightarrow> at_user_ok (Suc p) u"
  by (auto simp: at_user_ok_def)

lemma at_user_cong:
  "sp (u_host (us_uri u)) = sp (u_host (us_uri v)) \<Longrightarrow> us_pass u = us_pass v \<Longrightarrow> at_user_ok p u = at_user_ok p v"
  by (simp add: at_user_ok_def)

lemma still_at_user_safe:
  assumes "uri_inv p u" "\<not> early (us_state u)"
  shows "safe (Suc p) (still_at_user p u)"
proof (cases "found_user u")
  case True
  then show ?thesis by (simp add: still_at_user_def)
next
  case False
  with assms have "at_user_ok p u" and ok: "uri_ok p (us_uri u)" by (simp_all add: uri_inv_def)
  then obtain h where h: "sp (u_host (us_uri u)) = Some h" "\<And>q. us_pass u = Some q \<Longrightarrow> h \<le> q \<and> q < p"
    by (auto simp: at_user_ok_def)
  have "h \<le> p" using uri_okD(2) [OF ok] h by (auto simp: span_ok_def)
  with False h assms show ?thesis
    by (cases "us_pass u") (auto simp: still_at_user_def uri_inv_def Let_def)
qed

lemma no_pass_simps [simp]:
  "us_state (no_pass u) = us_state u" "us_s (no_pass u) = us_s u" "us_uri (no_pass u) = us_uri u"
  "us_b (no_pass u) = us_b u" "us_v (no_pass u) = us_v u" "us_param (no_pass u) = us_param u"
  "found_user (no_pass u) \<longleftrightarrow> found_user u \<or> us_pass u \<noteq> None"
  "us_pass (no_pass u) = None" "error_headers (no_pass u) = error_headers u"
  by (auto simp: no_pass_def)

lemma late_Suc:
  assumes "uri_inv p u" "\<not> early (us_state u)"
  shows "found_user u \<or> at_user_ok (Suc p) u"
  using assms by (auto simp: uri_inv_def)

lemma semicolon_safe:
  assumes "uri_inv p u" "\<not> early (us_state u)"
  shows "uri_inv (Suc p) (semicolon_case u)"
  using assms by (auto simp: uri_inv_def semicolon_case_def goto_def at_user_ok_def)

lemma question_safe:
  assumes "uri_inv p u" "\<not> early (us_state u)"
  shows "uri_inv (Suc p) (question_case p u)"
  using assms by (auto simp: uri_inv_def question_case_def at_user_ok_def)

lemma maybe_pass_at_user:
  assumes "uri_inv p u" "\<not> early (us_state u)"
  shows "found_user (maybe_pass p u) \<or> at_user_ok (Suc p) (maybe_pass p u)"
proof (cases "found_user u \<or> us_pass u \<noteq> None")
  case True
  then show ?thesis by (auto simp: maybe_pass_def)
next
  case False
  with assms have "at_user_ok p u" and ok: "uri_ok p (us_uri u)" by (simp_all add: uri_inv_def)
  then obtain h where h: "sp (u_host (us_uri u)) = Some h" by (auto simp: at_user_ok_def)
  have "h \<le> p" using uri_okD(2) [OF ok] h by (auto simp: span_ok_def)
  with h False show ?thesis by (auto simp: maybe_pass_def at_user_ok_def)
qed

lemma maybe_pass_simps [simp]:
  "us_state (maybe_pass p u) = us_state u" "us_s (maybe_pass p u) = us_s u" "us_uri (maybe_pass p u) = us_uri u"
  "us_b (maybe_pass p u) = us_b u" "us_v (maybe_pass p u) = us_v u" "us_param (maybe_pass p u) = us_param u"
  by (auto simp: maybe_pass_def)

lemma goto_maybe_pass_safe:
  assumes "uri_inv p u" "\<not> early (us_state u)" "\<not> early st"
    and "named st \<longrightarrow> us_b u \<noteq> None" "valued st \<longrightarrow> us_v u \<noteq> None \<and> us_param u \<noteq> None"
  shows "uri_inv (Suc p) (goto st (maybe_pass p u))"
  using maybe_pass_at_user [OF assms(1,2)] assms by (auto simp: uri_inv_def goto_def at_user_ok_def)

lemma goto_safe:
  assumes "uri_inv p u" "\<not> early (us_state u)" "\<not> early st"
    and "named st \<longrightarrow> us_b u \<noteq> None" "valued st \<longrightarrow> us_v u \<noteq> None \<and> us_param u \<noteq> None"
  shows "uri_inv (Suc p) (goto st u)"
  using assms by (auto simp: uri_inv_def goto_def at_user_ok_def)

lemma param_set_safe:
  assumes "uri_inv (Suc p) u" "before (us_b u) p" "before (us_v u) p" "us_b u \<noteq> None" "us_v u \<noteq> None" "us_param u \<noteq> None"
  shows "safe (Suc p) (param_set p u)"
  using assms by (auto simp: param_set_def uri_inv_def at_user_ok_def)

lemma set_flag_safe:
  assumes "uri_inv (Suc p) u" "before (us_b u) p" "us_b u \<noteq> None"
  shows "safe (Suc p) (set_flag n p u)"
  using assms by (auto simp: set_flag_def uri_inv_def at_user_ok_def)

lemma set_proto_safe: "safe p r \<Longrightarrow> safe p (set_proto pr r)"
  by (cases r) (auto simp: set_proto_def uri_inv_def at_user_ok_def)

lemma param_common_safe:
  assumes "uri_inv p u" "\<not> early (us_state u)" "safe (Suc p) other"
  shows "safe (Suc p) (param_common_cases c p u other)"
  using assms still_at_user_safe [OF assms(1,2)] semicolon_safe [OF assms(1,2)] question_safe [OF assms(1,2)]
    goto_maybe_pass_safe [OF assms(1,2), of URI_PARAM_P]
  by (simp add: param_common_cases_def colon_case_def)

lemma valued_late: "valued st \<Longrightarrow> named st" "named st \<Longrightarrow> \<not> early st"
  by (cases st; simp add: valued_def named_def early_def is_value_state_def)+

lemma value_fields:
  assumes "uri_inv p u" "valued (us_state u)"
  shows "us_b u \<noteq> None" "us_v u \<noteq> None" "us_param u \<noteq> None" "before (us_b u) p" "before (us_v u) p"
    "\<not> early (us_state u)"
proof -
  have "named (us_state u)" "\<not> early (us_state u)"
    using assms(2) valued_late by blast+
  then show "us_b u \<noteq> None" "us_v u \<noteq> None" "us_param u \<noteq> None" "before (us_b u) p" "before (us_v u) p"
    "\<not> early (us_state u)" using assms by (auto simp: uri_inv_def)
qed

lemma semi_quest_fields [simp]:
  "us_b (semicolon_case u) = us_b u" "us_v (semicolon_case u) = us_v u" "us_param (semicolon_case u) = us_param u"
  "us_b (question_case p u) = us_b u" "us_v (question_case p u) = us_v u" "us_param (question_case p u) = us_param u"
  by (simp_all add: semicolon_case_def question_case_def goto_def)

lemma value_pieces:
  assumes "uri_inv p u" "valued (us_state u)"
  shows "safe (Suc p) (param_set p (semicolon_case u))" "safe (Suc p) (param_set p (question_case p u))"
    "uri_inv (Suc p) (goto URI_VAL_P (colon_case p u))" "safe (Suc p) (still_at_user p u)"
    "valued st \<Longrightarrow> uri_inv (Suc p) (goto st u)"
proof -
  note f = value_fields [OF assms]
  show "safe (Suc p) (param_set p (semicolon_case u))"
    using f by (intro param_set_safe semicolon_safe assms) simp_all
  show "safe (Suc p) (param_set p (question_case p u))"
    using f by (intro param_set_safe question_safe assms) simp_all
  have "goto URI_VAL_P (colon_case p u) = goto URI_VAL_P (maybe_pass p u)"
    by (simp add: colon_case_def goto_def)
  then show "uri_inv (Suc p) (goto URI_VAL_P (colon_case p u))"
    using f goto_maybe_pass_safe [OF assms(1) f(6), of URI_VAL_P] by simp
  show "safe (Suc p) (still_at_user p u)" by (rule still_at_user_safe [OF assms(1) f(6)])
  show "uri_inv (Suc p) (goto st u)" if "valued st"
    by (rule goto_safe [OF assms(1) f(6)])
      (use that f valued_late in auto)
qed

lemma value_common_safe:
  assumes "uri_inv p u" "valued (us_state u)" "safe (Suc p) other"
  shows "safe (Suc p) (value_common_cases c p u other)"
  using assms value_pieces [OF assms(1,2)] by (simp add: value_common_cases_def)

lemma value_switches_safe:
  assumes "uri_inv p u" "valued (us_state u)" "valued st" "valued st'"
  shows "safe (Suc p) (value_switch c1 c2 st c p u)" "safe (Suc p) (value_switch_big c1 c2 d1 d2 st st' c p u)"
    "safe (Suc p) (transport_fin pr c p u)"
proof -
  note v = value_pieces [OF assms(1,2)]
  show "safe (Suc p) (value_switch c1 c2 st c p u)" "safe (Suc p) (value_switch_big c1 c2 d1 d2 st st' c p u)"
    using v assms by (auto simp: value_switch_def value_switch_big_def intro!: value_common_safe)
  show "safe (Suc p) (transport_fin pr c p u)"
    using v by (auto simp: transport_fin_def intro!: set_proto_safe)
qed


lemma named_fields:
  assumes "uri_inv p u" "named (us_state u)"
  shows "us_b u \<noteq> None" "before (us_b u) p" "\<not> early (us_state u)"
  using assms by (auto simp: uri_inv_def named_def)

lemma named_switches_safe:
  assumes "uri_inv p u" "named (us_state u)" "named st" "\<not> valued st" "named st'" "\<not> valued st'"
  shows "safe (Suc p) (param_switch c1 c2 st c p u)" "safe (Suc p) (param_switch1 c1 st c p u)"
    "safe (Suc p) (param_switch_big c1 c2 d1 d2 st st' c p u)" "safe (Suc p) (flag_fin n st c p u)"
proof -
  note f = named_fields [OF assms(1,2)]
  have late: "\<not> early st" "\<not> early st'" using assms by (auto simp: named_def)
  have go: "uri_inv (Suc p) (goto st u)" "uri_inv (Suc p) (goto st' u)" "uri_inv (Suc p) (goto URI_PARAM_P u)"
    using f late assms by (auto intro!: goto_safe [OF assms(1) f(3)])
  show "safe (Suc p) (param_switch c1 c2 st c p u)" "safe (Suc p) (param_switch1 c1 st c p u)"
    "safe (Suc p) (param_switch_big c1 c2 d1 d2 st st' c p u)"
    using go f(3) by (auto simp: param_switch_def param_switch1_def param_switch_big_def
        intro!: param_common_safe [OF assms(1)])
  show "safe (Suc p) (flag_fin n st c p u)"
    using go f still_at_user_safe [OF assms(1) f(3)] semicolon_safe [OF assms(1) f(3)]
      question_safe [OF assms(1) f(3)] goto_maybe_pass_safe [OF assms(1) f(3), of URI_PARAM_P]
    by (auto simp: flag_fin_def colon_case_def intro!: set_flag_safe)
qed

lemma param_eq_safe:
  assumes "uri_inv p u" "named (us_state u)"
  shows "safe (Suc p) (param_eq n c p u)" "safe (Suc p) (step_transport_eq c p u)"
proof -
  note f = named_fields [OF assms]
  have i: "uri_inv p (u\<lparr>us_param := Some m\<rparr>)" for m
    using assms by (auto simp: uri_inv_def at_user_ok_def)
  have v: "uri_inv (Suc p) (u\<lparr>us_param := Some m, us_v := Some p, us_state := st\<rparr>)" if "valued st" for m st
    using assms f that valued_late [of st] by (auto simp: uri_inv_def at_user_ok_def)
  have vs: "valued VU_U" "valued VT_T" "valued VS_S" "valued URI_VAL_P"
    by (simp_all add: valued_def is_value_state_def)
  show "safe (Suc p) (param_eq n c p u)" "safe (Suc p) (step_transport_eq c p u)"
    using f(3) v vs i by (auto simp: param_eq_def step_transport_eq_def Let_def goto_def intro!: param_common_safe)
qed

lemma state_cls:
  shows "named PT_R" "named PTTL_T2" "named PT_A" "named PT_N" "named PT_S" "named PT_P" "named PT_O"
    "named PT_R2" "named PT_T2" "named PT_eq" "named PTTL_L" "named PTTL_eq" "named PU_S" "named PU_E" "named PU_R"
    "named PU_eq" "named PM_E" "named PMA_A" "named PM_T" "named PM_H" "named PM_O" "named PM_D" "named PM_eq"
    "named PMA_D" "named PMA_D2" "named PMA_R" "named PMA_eq" "named PLR_R_FIN" "named PLR_eq" "named PR2_2_FIN" "named PR2_eq"
    "\<not> valued PT_R" "\<not> valued PTTL_T2" "\<not> valued PT_A" "\<not> valued PT_N" "\<not> valued PT_S" "\<not> valued PT_P" "\<not> valued PT_O"
    "\<not> valued PT_R2" "\<not> valued PT_T2" "\<not> valued PT_eq" "\<not> valued PTTL_L" "\<not> valued PTTL_eq" "\<not> valued PU_S" "\<not> valued PU_E" "\<not> valued PU_R"
    "\<not> valued PU_eq" "\<not> valued PM_E" "\<not> valued PMA_A" "\<not> valued PM_T" "\<not> valued PM_H" "\<not> valued PM_O" "\<not> valued PM_D" "\<not> valued PM_eq"
    "\<not> valued PMA_D" "\<not> valued PMA_D2" "\<not> valued PMA_R" "\<not> valued PMA_eq" "\<not> valued PLR_R_FIN" "\<not> valued PLR_eq" "\<not> valued PR2_2_FIN" "\<not> valued PR2_eq"
    by (simp_all add: named_def early_def valued_def is_value_state_def)

lemma step_names_safe:
  assumes "uri_inv p u" "named (us_state u)" "\<not> valued (us_state u)"
  shows "safe (Suc p) (step_names (us_state u) c p u)"
proof -
  note sw = named_switches_safe(3) [OF assms(1,2)] param_eq_safe [OF assms(1,2)]
    named_switches_safe(1,2,4) [OF assms(1,2) _ _ state_cls(1) state_cls(32)]
  have "safe (Suc p) (step_names st c p u)" for st
    by (cases st) (simp_all add: step_names_def sw state_cls)
  then show ?thesis .
qed

lemma step_values_safe:
  assumes "uri_inv p u" "is_value_state (us_state u)"
  shows "safe (Suc p) (step_values (us_state u) c p u)"
proof -
  have v: "valued (us_state u)" using assms(2) by (simp add: valued_def)
  have state_cls: "valued VU_D" "valued VU_P_FIN" "valued VT_C" "valued VTLS_L" "valued VT_P_FIN" "valued VTLS_S_FIN"
    "valued VS_C" "valued VS_T" "valued VS_P_FIN"
    by (simp_all add: valued_def is_value_state_def)
  note sw = value_switches_safe(2) [OF assms(1) v] value_switches_safe(3) [OF assms(1) v state_cls(1) state_cls(1)]
    value_switches_safe(1) [OF assms(1) v _ state_cls(1)]
  have "safe (Suc p) (step_values st c p u)" for st
    by (cases st) (simp_all add: step_values_def sw state_cls)
  then show ?thesis .
qed

lemma uri_invD:
  assumes "uri_inv p u"
  shows "us_s u \<le> p" "uri_ok p (us_uri u)" "before (us_b u) p" "before (us_v u) p"
    "early (us_state u) \<Longrightarrow> \<not> found_user u \<Longrightarrow> us_pass u = None"
  using assms by (auto simp: uri_inv_def)

text \<open>A step to another early state.\<close>

lemma early_inv:
  assumes "us_s u \<le> p" "uri_ok p (us_uri u)" "before (us_b u) p" "before (us_v u) p" "early (us_state u)"
    "\<not> found_user u \<Longrightarrow> us_pass u = None" "us_state u \<noteq> URI_PORT"
  shows "uri_inv p u"
proof -
  have "\<not> named (us_state u)" "\<not> valued (us_state u)"
    using valued_late assms(5) by blast+
  with assms show ?thesis by (cases "found_user u") (simp_all add: uri_inv_def)
qed

lemma case_early [simp]:
  "early URI_INIT" "early URI_USER" "early URI_PASSWORD" "early URI_PASSWORD_ALPHA" "early URI_HOST_P"
  "early URI_HOST6_P" "early URI_HOST6_END"
  by (simp_all add: early_def)

lemma set_host_inv:
  assumes "uri_inv p u" "early (us_state u)"
  shows "uri_inv (Suc p) (goto URI_PORT (set_host p u))" "uri_inv (Suc p) (goto URI_PARAM (set_host p u))"
    "uri_inv (Suc p) (goto URI_HEADERS (set_host p u))"
  using uri_invD [OF assms(1)] assms(2)
  by (auto simp: uri_inv_def set_host_def goto_def at_user_ok_def)

lemma set_port_inv:
  assumes "uri_inv p u" "us_state u = URI_PORT" "st = URI_PARAM \<or> st = URI_HEADERS"
  shows "uri_inv (Suc p) (goto st (set_port p u))"
  using assms by (auto simp: uri_inv_def set_port_def goto_def at_user_ok_def)

lemma user_is_host_inv:
  assumes "uri_inv p u" "us_state u = URI_PASSWORD" "st = URI_PARAM \<or> st = URI_HEADERS"
  shows "uri_inv (Suc p) (goto st (user_is_host p u))"
proof -
  have "span_ok (Suc p) (u_user (us_uri u))" using uri_okD(1) uri_invD(2) [OF assms(1)] span_ok_mono by fastforce
  with assms show ?thesis by (auto simp: uri_inv_def user_is_host_def goto_def)
qed

lemma early_steps_safe:
  assumes "uri_inv p u"
  shows "us_state u = URI_INIT \<Longrightarrow> safe (Suc p) (step_init c p u)"
    "us_state u = URI_USER \<Longrightarrow> safe (Suc p) (step_user c p u)"
    "us_state u = URI_PASSWORD \<Longrightarrow> safe (Suc p) (step_password c p u)"
    "us_state u = URI_PASSWORD_ALPHA \<Longrightarrow> safe (Suc p) (step_password_alpha c p u)"
    "us_state u = URI_HOST \<Longrightarrow> safe (Suc p) (step_host c p u)"
    "us_state u = URI_HOST6_P \<Longrightarrow> safe (Suc p) (step_host6 c p u)"
proof -
  note D = uri_invD [OF assms]
  show "us_state u = URI_INIT \<Longrightarrow> safe (Suc p) (step_init c p u)"
    using D by (simp add: step_init_def goto_def) (intro conjI impI; rule early_inv; simp)
  show "us_state u = URI_USER \<Longrightarrow> safe (Suc p) (step_user c p u)"
    using D set_host_inv [OF assms] by (simp add: step_user_def goto_def set_user_def) (intro conjI impI; rule early_inv; simp)
  show "us_state u = URI_PASSWORD \<Longrightarrow> safe (Suc p) (step_password c p u)"
    using D user_is_host_inv [OF assms]
    by (simp add: step_password_def set_passwd_def case_port_def) (intro conjI impI; rule early_inv; simp)
  show "us_state u = URI_PASSWORD_ALPHA \<Longrightarrow> safe (Suc p) (step_password_alpha c p u)"
    using D by (simp add: step_password_alpha_def set_passwd_def) (intro conjI impI; rule early_inv; simp)
  show "us_state u = URI_HOST \<Longrightarrow> safe (Suc p) (step_host c p u)"
    using D by (simp add: step_host_def goto_def) (intro conjI impI; rule early_inv; simp)
  show "us_state u = URI_HOST6_P \<Longrightarrow> safe (Suc p) (step_host6 c p u)"
    using D by (simp add: step_host6_def goto_def) (intro conjI impI; rule early_inv; simp)
qed

lemma early_steps_safe2:
  assumes "uri_inv p u"
  shows "us_state u = URI_HOST_P \<Longrightarrow> safe (Suc p) (check_host_end c p u (Inr u))"
    "us_state u = URI_HOST6_END \<Longrightarrow> safe (Suc p) (check_host_end c p u (Inl E_BAD_HOST))"
    "us_state u = URI_PORT \<Longrightarrow> safe (Suc p) (step_port c p u)"
proof -
  note D = uri_invD [OF assms]
  show "us_state u = URI_HOST_P \<Longrightarrow> safe (Suc p) (check_host_end c p u (Inr u))"
    using D set_host_inv [OF assms] by (simp add: check_host_end_def) (intro conjI impI; rule early_inv; simp)
  show "us_state u = URI_HOST6_END \<Longrightarrow> safe (Suc p) (check_host_end c p u (Inl E_BAD_HOST))"
    using D set_host_inv [OF assms] by (simp add: check_host_end_def)
  assume st: "us_state u = URI_PORT"
  have "uri_inv (Suc p) (case_port c u)"
    using assms st by (simp add: case_port_def uri_inv_def at_user_ok_def) auto
  then show "safe (Suc p) (step_port c p u)"
    using set_port_inv [OF assms st] by (simp add: step_port_def)
qed

lemma param_starts: "named PT_T" "named PU_U" "named PM_M" "named PLR_L"
  "\<not> valued PT_T" "\<not> valued PU_U" "\<not> valued PM_M" "\<not> valued PLR_L"
  by (simp_all add: named_def early_def valued_def is_value_state_def)

lemma late_steps_safe:
  assumes "uri_inv p u" "\<not> early (us_state u)"
  shows "safe (Suc p) (step_param c p u)"
    "us_state u = URI_PARAM_P \<Longrightarrow> safe (Suc p) (param_common_cases c p u (Inr u))"
    "us_state u = URI_VAL_P \<Longrightarrow> safe (Suc p) (value_common_cases c p u (Inr u))"
    "us_state u = URI_HEADERS \<Longrightarrow> safe (Suc p) (step_headers c p u)"
proof -
  note D = uri_invD [OF assms(1)]
  have new: "uri_inv (Suc p) (u\<lparr>us_b := Some p, us_state := st\<rparr>)" if "named st" "\<not> valued st" for st
    using assms that valued_late by (auto simp: uri_inv_def at_user_ok_def)
  have skip: "uri_inv (Suc p) (u\<lparr>us_b := Some p, us_state := URI_PARAM_P\<rparr>)"
    using assms by (auto simp: uri_inv_def at_user_ok_def)
  have same: "uri_inv (Suc p) u" using assms by (auto simp: uri_inv_def at_user_ok_def)
  show "safe (Suc p) (step_param c p u)"
    using new [OF param_starts(1) param_starts(5)] new [OF param_starts(2) param_starts(6)]
      new [OF param_starts(3) param_starts(7)] new [OF param_starts(4) param_starts(8)] skip
      goto_safe [OF assms, of URI_PARAM_P]
    unfolding step_param_def by (intro param_common_safe [OF assms]) (simp add: goto_def)
  show "us_state u = URI_PARAM_P \<Longrightarrow> safe (Suc p) (param_common_cases c p u (Inr u))"
    using same by (intro param_common_safe [OF assms]) simp
  show "us_state u = URI_VAL_P \<Longrightarrow> safe (Suc p) (value_common_cases c p u (Inr u))"
    using same by (intro value_common_safe [OF assms(1)]) simp_all
  assume st: "us_state u = URI_HEADERS"
  have "uri_inv (Suc p) (goto URI_HEADERS (maybe_pass p u))"
    by (rule goto_maybe_pass_safe [OF assms]) simp_all
  moreover have "goto URI_HEADERS (maybe_pass p u) = maybe_pass p u"
    using st by (simp add: goto_def maybe_pass_def)
  moreover have "uri_inv (Suc p) (no_pass u)" "uri_inv (Suc p) (u\<lparr>error_headers := True\<rparr>)"
    using assms by (auto simp: uri_inv_def at_user_ok_def)
  ultimately show "safe (Suc p) (step_headers c p u)"
    using same still_at_user_safe [OF assms] by (simp add: step_headers_def)
qed

lemma uri_step_safe:
  assumes "uri_inv p u"
  shows "safe (Suc p) (uri_step c p u)"
proof (cases "early (us_state u)")
  case True
  then show ?thesis
    by (cases "us_state u") (simp_all add: uri_step_def early_def early_steps_safe [OF assms] early_steps_safe2 [OF assms])
next
  case late: False
  note L = late_steps_safe [OF assms late]
  have cls: "named st \<Longrightarrow> \<not> valued st \<Longrightarrow> us_state u = st \<Longrightarrow> safe (Suc p) (step_names st c p u)"
    "is_value_state st \<Longrightarrow> us_state u = st \<Longrightarrow> safe (Suc p) (step_values st c p u)" for st
    using step_names_safe [OF assms] step_values_safe [OF assms] by blast+
  show ?thesis
    using late by (cases "us_state u")
      (simp_all add: uri_step_def early_def L cls named_def valued_def is_value_state_def)
qed

lemma uri_loop_safe: "uri_inv p u \<Longrightarrow> safe (p + length cs) (uri_loop cs p u)"
proof (induction cs arbitrary: p u)
  case (Cons c cs)
  show ?case
  proof (cases "uri_step c p u")
    case (Inl e)
    with uri_step_safe [OF Cons.prems, of c] show ?thesis by simp
  next
    case (Inr v)
    with uri_step_safe [OF Cons.prems, of c] Cons.IH [of "Suc p" v] show ?thesis by simp
  qed
qed simp

definition end_ok :: "nat \<Rightarrow> uri_err + sip_uri \<Rightarrow> bool" where
  "end_ok n r \<longleftrightarrow> (case r of Inl e \<Rightarrow> e \<noteq> E_FAULT | Inr u \<Rightarrow> uri_ok n u)"

lemma end_ok_simps [simp]: "end_ok n (Inl e) \<longleftrightarrow> e \<noteq> E_FAULT" "end_ok n (Inr u) \<longleftrightarrow> uri_ok n u"
  by (simp_all add: end_ok_def)

lemma uri_end_ok:
  assumes "uri_inv p u"
  shows "end_ok p (uri_end p u)"
proof -
  note D = uri_invD [OF assms]
  have user: "span_ok p (u_user (us_uri u))" using D(2) by (rule uri_okD)
  have par: "uri_ok p (us_uri (end_params p u))" using D by (simp add: end_params_def)
  have val: "end_ok p (the_uri (param_set p (end_params p u)))"
    "end_ok p (the_uri (set_proto pr (param_set p (end_params p u))))" if "valued (us_state u)" for pr
    using value_fields [OF assms that] par
    by (auto simp: param_set_def the_uri_def set_proto_def end_params_def)
  have flag: "end_ok p (the_uri (set_flag n p (end_params p u)))" if "named (us_state u)" for n
    using named_fields [OF assms that] par by (auto simp: set_flag_def the_uri_def end_params_def)
  have cls: "valued URI_VAL_P" "valued VU_P_FIN" "valued VT_P_FIN" "valued VTLS_S_FIN" "valued VS_P_FIN"
    "valued VU_U" "valued VU_D" "valued VT_T" "valued VT_C" "valued VTLS_L" "valued VS_S" "valued VS_C" "valued VS_T"
    "named PLR_R_FIN" "named PLR_eq" "named PR2_2_FIN" "named PR2_eq"
    by (simp_all add: valued_def named_def early_def is_value_state_def)
  show ?thesis
    by (cases "us_state u")
      (use par val flag user D in \<open>simp_all add: uri_end_def cls end_host_def set_port_def is_value_state_def\<close>)
qed

lemma run_uri_ok:
  assumes "p \<le> length buf"
  shows "end_ok (length buf) (run_uri buf p sec)"
proof -
  have "uri_inv p (uri_start p sec)"
    by (intro early_inv) (simp_all add: uri_start_def)
  from uri_loop_safe [OF this, of "drop p buf"] have
    "safe (length buf) (uri_loop (drop p buf) p (uri_start p sec))" using assms by simp
  then show ?thesis
    by (cases "uri_loop (drop p buf) p (uri_start p sec)") (simp_all add: run_uri_def uri_end_ok)
qed

lemma parse_uri_end_ok: "end_ok (length buf) (parse_uri buf)"
  using run_uri_ok [of 4 buf False] run_uri_ok [of 5 buf True] by (simp add: parse_uri_def)

text \<open>
  C6: Parsing any URI terminates without arithmetic on a null pointer, and every component
  and parameter of a parsed URI lies inside the buffer.
\<close>

theorem parse_uri_inside_buffer:
  "case parse_uri buf of Inl e \<Rightarrow> e \<noteq> E_FAULT | Inr u \<Rightarrow> list_all (span_ok (length buf)) (spans u)"
  using parse_uri_end_ok [of buf] by (cases "parse_uri buf") (simp_all add: uri_ok_def)

subsection \<open>What the parser finds\<close>

lemma uri_loop_append:
  "uri_loop (xs @ ys) p u =
     (case uri_loop xs p u of Inl e \<Rightarrow> Inl e | Inr v \<Rightarrow> uri_loop ys (p + length xs) v)"
  by (induction xs arbitrary: p u) (simp_all split: sum.split)

lemma uri_loop_stays:
  "(\<And>c q. c \<in> set xs \<Longrightarrow> uri_step c q u = Inr u) \<Longrightarrow> uri_loop xs p u = Inr u"
  by (induction xs arbitrary: p) simp_all

definition plain :: "char \<Rightarrow> bool" where
  "plain c \<longleftrightarrow> c \<notin> {CHR ''@'', CHR '':'', CHR '';'', CHR ''?'', CHR ''['', CHR '']'', CHR ''&''}"

text \<open>A run of plain characters from the start of the user or of the host.\<close>

lemma plain_user:
  assumes "us_state u = URI_INIT" "xs \<noteq> []" "list_all plain xs"
  shows "uri_loop xs p u = Inr (goto URI_USER u)"
proof -
  obtain c cs where xs: "xs = c # cs" using assms(2) by (cases xs) auto
  have "uri_step c p u = Inr (goto URI_USER u)"
    using assms xs by (simp add: uri_step_def step_init_def plain_def)
  moreover have "uri_loop cs (Suc p) (goto URI_USER u) = Inr (goto URI_USER u)"
    by (rule uri_loop_stays)
      (use assms(3) xs in \<open>auto simp: uri_step_def step_user_def plain_def goto_def list_all_iff\<close>)
  ultimately show ?thesis by (simp add: xs)
qed

lemma plain_host:
  assumes "us_state u = URI_HOST" "xs \<noteq> []" "list_all plain xs"
  shows "uri_loop xs p u = Inr (goto URI_HOST_P u)"
proof -
  obtain c cs where xs: "xs = c # cs" using assms(2) by (cases xs) auto
  have "uri_step c p u = Inr (goto URI_HOST_P u)"
    using assms xs by (simp add: uri_step_def step_host_def plain_def)
  moreover have "uri_loop cs (Suc p) (goto URI_HOST_P u) = Inr (goto URI_HOST_P u)"
    by (rule uri_loop_stays)
      (use assms(3) xs in \<open>auto simp: uri_step_def check_host_end_def plain_def goto_def list_all_iff\<close>)
  ultimately show ?thesis by (simp add: xs)
qed

lemma digits_port:
  assumes "us_state u = URI_PORT" "us_port u = of_nat n" "list_all digit xs"
  shows "uri_loop xs p u = Inr (u\<lparr>us_port := of_nat (dec_val n xs)\<rparr>)"
  using assms
proof (induction xs arbitrary: p n u)
  case (Cons c cs)
  have nosep: "c \<noteq> CHR '';''" "c \<noteq> CHR ''?''" using Cons.prems(3) by auto
  have "of_nat n * 10 + of_nat (dig c) = (of_nat (10 * n + dig c) :: u32)" by simp
  then have "uri_step c p u = Inr (u\<lparr>us_port := of_nat (10 * n + dig c)\<rparr>)"
    using Cons.prems nosep by (simp add: uri_step_def step_port_def case_port_def del: of_nat_add of_nat_mult)
  with Cons.IH [of "u\<lparr>us_port := of_nat (10 * n + dig c)\<rparr>" "10 * n + dig c"] Cons.prems show ?case by simp
qed simp

lemma ucast_nat: "ucast (of_nat n :: u32) = (of_nat n :: u16)"
  by transfer (simp add: take_bit_of_nat flip: of_nat_take_bit)

lemma lower_eq_sip: "lower_eq (CHR ''s'') (CHR ''s'')" "lower_eq (CHR ''i'') (CHR ''i'')" "lower_eq (CHR ''p'') (CHR ''p'')"
  by code_simp+

lemma step_user_at: "us_state u = URI_USER \<Longrightarrow>
    uri_step CHR ''@'' p u = Inr ((set_user p u)\<lparr>us_state := URI_HOST, found_user := True\<rparr>)"
  by (simp add: uri_step_def step_user_def)

lemma step_host_colon: "us_state u = URI_HOST_P \<Longrightarrow> uri_step CHR '':'' p u = Inr (goto URI_PORT (set_host p u))"
  by (simp add: uri_step_def check_host_end_def)

lemma text_of_mk: "s \<le> p \<Longrightarrow> text_of buf (mk_span s p) = take (p - s) (drop s buf)"
  by (simp add: text_of_def mk_span_def nat_diff_distrib)

lemma parse_user_host_port:
  fixes usr hst prt :: string
  defines "buf \<equiv> ''sip:'' @ usr @ ''@'' @ hst @ '':'' @ prt"
  assumes "usr \<noteq> []" "list_all plain usr" "hst \<noteq> []" "list_all plain hst" "list_all digit prt"
  obtains u where "parse_uri buf = Inr u" "text_of buf (u_user u) = usr" "text_of buf (u_host u) = hst"
    "text_of buf (u_port u) = prt" "u_port_no u = of_nat (dec_val 0 prt)" "u_passwd u = null_span" "\<not> u_secure u"
    "u_params u = null_span" "u_headers u = null_span"
proof -
  let ?n = "4 + length usr" and ?u0 = "uri_start 4 False"
  let ?m = "Suc ?n + length hst"
  let ?u1 = "(set_user ?n (goto URI_USER ?u0))\<lparr>us_state := URI_HOST, found_user := True\<rparr>"
  let ?u2 = "goto URI_PORT (set_host ?m (goto URI_HOST_P ?u1))"
  let ?u3 = "?u2\<lparr>us_port := of_nat (dec_val 0 prt)\<rparr>"
  have len: "length buf = Suc ?m + length prt" by (simp add: buf_def)
  have 1: "uri_loop usr 4 ?u0 = Inr (goto URI_USER ?u0)"
    by (rule plain_user) (use assms in \<open>simp_all add: uri_start_def\<close>)
  have 2: "uri_loop hst (Suc ?n) ?u1 = Inr (goto URI_HOST_P ?u1)"
    by (rule plain_host) (use assms in simp_all)
  have 3: "uri_loop prt (Suc ?m) ?u2 = Inr ?u3"
    by (rule digits_port) (use assms in \<open>simp_all add: goto_def set_host_def set_user_def uri_start_def\<close>)
  have loop: "uri_loop (usr @ ''@'' @ hst @ '':'' @ prt) 4 ?u0 = Inr ?u3"
    using 1 2 3 by (simp add: uri_loop_append step_user_at step_host_colon goto_def add.commute)
  have run: "parse_uri buf = Inr (us_uri (set_port (length buf) ?u3))"
    using loop assms(2)
    by (simp add: parse_uri_def run_uri_def buf_def lower_eq_sip uri_end_def goto_def)
  show thesis
    by (rule that [OF run], unfold len)
      (simp_all add: set_port_def goto_def set_host_def set_user_def uri_start_def zero_uri_def text_of_mk ucast_nat buf_def eval_nat_numeral)
qed

text \<open>
  C7: Parsing user, host and port finds exactly these components; the port number is the
  value of the digits modulo 65536, whatever their number.
\<close>

theorem parse_uri_user_host_port:
  assumes "usr \<noteq> []" "list_all plain usr" "hst \<noteq> []" "list_all plain hst" "list_all digit prt"
  shows "\<exists>u. let buf = ''sip:'' @ usr @ ''@'' @ hst @ '':'' @ prt in
    parse_uri buf = Inr u \<and> text_of buf (u_user u) = usr \<and> text_of buf (u_host u) = hst \<and>
    text_of buf (u_port u) = prt \<and> unat (u_port_no u) = dec_val 0 prt mod 65536 \<and>
    u_passwd u = null_span \<and> u_params u = null_span \<and> \<not> u_secure u"
proof -
  obtain u where u: "parse_uri (''sip:'' @ usr @ ''@'' @ hst @ '':'' @ prt) = Inr u"
    "text_of (''sip:'' @ usr @ ''@'' @ hst @ '':'' @ prt) (u_user u) = usr"
    "text_of (''sip:'' @ usr @ ''@'' @ hst @ '':'' @ prt) (u_host u) = hst"
    "text_of (''sip:'' @ usr @ ''@'' @ hst @ '':'' @ prt) (u_port u) = prt"
    "u_port_no u = of_nat (dec_val 0 prt)" "u_passwd u = null_span" "\<not> u_secure u" "u_params u = null_span"
    by (rule parse_user_host_port [OF assms])
  have "unat (u_port_no u) = dec_val 0 prt mod 65536"
    by (simp add: u(5) unat_of_nat)
  with u show ?thesis by (auto simp: Let_def)
qed

theorem parse_uri_user_host_port_witness:
  "\<exists>u. parse_uri ''sip:bob@b.org:70596'' = Inr u \<and> unat (u_port_no u) = 5060"
proof -
  have "list_all plain ''bob''" "list_all plain ''b.org''" "list_all digit ''70596''" by code_simp+
  moreover have "dec_val 0 ''70596'' mod 65536 = 5060" by (simp add: dig_def)
  ultimately show ?thesis using parse_uri_user_host_port [of "''bob''" "''b.org''" "''70596''"] by (simp add: Let_def) blast
qed

text \<open>
  A sips URI whose user part holds a semicolon loses the mark that it is secure: the
  parser takes the user for the host first and clears the whole result when it finds the
  at-sign.
\<close>

theorem sips_mark_lost:
  assumes "usr \<noteq> []" "list_all plain usr" "hst \<noteq> []" "list_all plain hst"
  shows "\<exists>u. let buf = ''sips:'' @ usr @ '';@'' @ hst in
    parse_uri buf = Inr u \<and> text_of buf (u_user u) = usr @ '';'' \<and> text_of buf (u_host u) = hst \<and> \<not> u_secure u"
proof -
  let ?buf = "''sips:'' @ usr @ '';@'' @ hst"
  let ?n = "5 + length usr" and ?u0 = "uri_start 5 True"
  let ?u1 = "goto URI_PARAM (set_host ?n (goto URI_USER ?u0))"
  let ?u2 = "?u1\<lparr>us_uri := zero_uri\<lparr>u_user := mk_span 5 (Suc ?n)\<rparr>, us_s := Suc (Suc ?n), found_user := True,
     error_headers := False, us_state := URI_HOST\<rparr>"
  let ?u3 = "goto URI_HOST_P ?u2"
  have 1: "uri_loop usr 5 ?u0 = Inr (goto URI_USER ?u0)"
    by (rule plain_user) (use assms in \<open>simp_all add: uri_start_def\<close>)
  have 2: "uri_step CHR '';'' ?n (goto URI_USER ?u0) = Inr ?u1"
    by (simp add: uri_step_def step_user_def goto_def)
  have 3: "uri_step CHR ''@'' (Suc ?n) ?u1 = Inr ?u2"
    by (simp add: uri_step_def step_param_def param_common_cases_def still_at_user_def goto_def set_host_def
        uri_start_def Let_def)
  have 4: "uri_loop hst (Suc (Suc ?n)) ?u2 = Inr ?u3"
    by (rule plain_host) (use assms in simp_all)
  have loop: "uri_loop (usr @ '';@'' @ hst) 5 ?u0 = Inr ?u3"
    using 1 2 3 4 by (simp add: uri_loop_append)
  have s: "lower_eq CHR ''s'' CHR ''s''" by code_simp
  have run: "parse_uri ?buf = Inr (end_host (length ?buf) ?u3)"
    using loop assms by (simp add: parse_uri_def run_uri_def lower_eq_sip s uri_end_def goto_def)
  show ?thesis
    unfolding Let_def
    by (rule exI, rule conjI, rule run)
      (simp add: end_host_def goto_def zero_uri_def text_of_mk eval_nat_numeral)
qed

theorem sips_mark_lost_witness:
  "\<exists>u. parse_uri ''sips:bob;@b.org'' = Inr u \<and> \<not> u_secure u"
proof -
  have "list_all plain ''bob''" "list_all plain ''b.org''" by code_simp+
  with sips_mark_lost [of "''bob''" "''b.org''"] show ?thesis by (auto simp: Let_def)
qed

text \<open>
  A URI that ends in an incomplete maddr parameter, which is just one the parser need
  not recognise, is rejected as a bug of the parser, while other incomplete parameters
  are accepted.
\<close>

theorem incomplete_maddr_rejected:
  assumes "hst \<noteq> []" "list_all plain hst"
  shows "parse_uri (''sip:'' @ hst @ '';ma'') = Inl E_BUG_STATE \<and>
    (\<exists>u. parse_uri (''sip:'' @ hst @ '';me'') = Inr u)"
proof -
  let ?n = "4 + length hst" and ?u0 = "uri_start 4 False"
  have 1: "uri_loop hst 4 ?u0 = Inr (goto URI_USER ?u0)"
    by (rule plain_user) (use assms in \<open>simp_all add: uri_start_def\<close>)
  show ?thesis
    using 1 assms
    by (simp add: parse_uri_def run_uri_def lower_eq_sip uri_loop_append uri_step_def step_user_def step_param_def
        param_common_cases_def step_names_def param_switch_big_def goto_def uri_end_def is_value_state_def)
qed

theorem incomplete_maddr_rejected_witness:
  "parse_uri ''sip:b.org;ma'' = Inl E_BUG_STATE"
proof -
  have "list_all plain ''b.org''" by code_simp
  with incomplete_maddr_rejected [of "''b.org''"] show ?thesis by simp
qed

subsection \<open>The parameter r2\<close>

fun is_r2 :: "uri_state \<Rightarrow> bool" where
  "is_r2 PR2_R = True"
| "is_r2 PR2_2_FIN = True"
| "is_r2 PR2_eq = True"
| "is_r2 _ = False"

definition no_r2 :: "ust \<Rightarrow> bool" where
  "no_r2 u \<longleftrightarrow> us_param u \<noteq> Some R2 \<and> u_r2 (us_uri u) = null_span \<and> u_r2_val (us_uri u) = null_span"

definition keeps_r2 :: "ures \<Rightarrow> bool" where
  "keeps_r2 r \<longleftrightarrow> (case r of Inl e \<Rightarrow> True | Inr u \<Rightarrow> no_r2 u \<and> \<not> is_r2 (us_state u))"

lemma keeps_r2_simps [simp]: "keeps_r2 (Inl e)" "keeps_r2 (Inr u) \<longleftrightarrow> no_r2 u \<and> \<not> is_r2 (us_state u)"
  by (simp_all add: keeps_r2_def)

lemma no_r2_set_param: "n \<noteq> R2 \<Longrightarrow> u_r2 (set_param n x y u) = u_r2 u \<and> u_r2_val (set_param n x y u) = u_r2_val u"
  by (cases n) simp_all

lemma no_r2_pieces [simp]:
  assumes "no_r2 u"
  shows "no_r2 (goto st u)" "us_state (goto st u) = st" "no_r2 (semicolon_case u)" "no_r2 (question_case p u)"
    "no_r2 (colon_case p u)" "no_r2 (maybe_pass p u)" "no_r2 (no_pass u)" "no_r2 (set_host p u)" "no_r2 (set_port p u)"
    "no_r2 (user_is_host p u)" "no_r2 (set_user p u)" "no_r2 (set_passwd p u)" "no_r2 (case_port c u)" "no_r2 (end_params p u)"
    "us_state (semicolon_case u) = URI_PARAM" "us_state (question_case p u) = URI_HEADERS"
    "us_state (colon_case p u) = URI_PARAM_P"
  using assms by (simp_all add: no_r2_def goto_def semicolon_case_def question_case_def colon_case_def maybe_pass_def
      no_pass_def set_host_def set_port_def user_is_host_def set_user_def set_passwd_def case_port_def end_params_def)

lemma no_r2_more [simp]:
  assumes "no_r2 u"
  shows "no_r2 (u\<lparr>us_state := st\<rparr>)" "no_r2 (u\<lparr>us_s := n\<rparr>)" "no_r2 (u\<lparr>found_user := b\<rparr>)" "no_r2 (u\<lparr>error_headers := b\<rparr>)"
    "no_r2 (u\<lparr>us_port := k\<rparr>)" "no_r2 (u\<lparr>us_b := x\<rparr>)" "no_r2 (u\<lparr>us_v := x\<rparr>)" "m \<noteq> R2 \<Longrightarrow> no_r2 (u\<lparr>us_param := Some m\<rparr>)"
  using assms by (simp_all add: no_r2_def)

lemma still_at_user_r2 [simp]: "no_r2 u \<Longrightarrow> keeps_r2 (still_at_user p u)"
  by (auto simp: still_at_user_def no_r2_def Let_def zero_uri_def split: option.split)

lemma param_set_r2 [simp]: "no_r2 u \<Longrightarrow> \<not> is_r2 (us_state u) \<Longrightarrow> keeps_r2 (param_set p u)"
  by (auto simp: param_set_def no_r2_def no_r2_set_param split: option.split)

lemma set_proto_r2 [simp]: "keeps_r2 r \<Longrightarrow> keeps_r2 (set_proto pr r)"
  by (cases r) (simp_all add: set_proto_def no_r2_def)

lemma set_flag_r2 [simp]: "no_r2 u \<Longrightarrow> \<not> is_r2 (us_state u) \<Longrightarrow> keeps_r2 (set_flag LR p u)"
  by (auto simp: set_flag_def no_r2_def split: option.split)

lemma param_common_r2 [simp]: "no_r2 u \<Longrightarrow> keeps_r2 other \<Longrightarrow> keeps_r2 (param_common_cases c p u other)"
  by (simp add: param_common_cases_def)

lemma value_common_r2 [simp]: "no_r2 u \<Longrightarrow> keeps_r2 other \<Longrightarrow> keeps_r2 (value_common_cases c p u other)"
  by (simp add: value_common_cases_def)

lemma switches_r2 [simp]:
  assumes "no_r2 u" "\<not> is_r2 st"
  shows "keeps_r2 (param_switch c1 c2 st c p u)" "keeps_r2 (param_switch1 c1 st c p u)"
    "\<not> is_r2 st' \<Longrightarrow> keeps_r2 (param_switch_big c1 c2 d1 d2 st st' c p u)"
    "keeps_r2 (value_switch c1 c2 st c p u)" "\<not> is_r2 st' \<Longrightarrow> keeps_r2 (value_switch_big c1 c2 d1 d2 st st' c p u)"
    "keeps_r2 (flag_fin LR st c p u)"
  using assms by (simp_all add: param_switch_def param_switch1_def param_switch_big_def value_switch_def
      value_switch_big_def flag_fin_def)

lemma eqs_r2 [simp]:
  assumes "no_r2 u"
  shows "keeps_r2 (transport_fin pr c p u)" "m \<noteq> R2 \<Longrightarrow> keeps_r2 (param_eq m c p u)" "keeps_r2 (step_transport_eq c p u)"
  using assms by (simp_all add: transport_fin_def param_eq_def step_transport_eq_def Let_def)

lemma step_groups_r2:
  assumes "no_r2 u" "\<not> is_r2 st"
  shows "keeps_r2 (step_names st c p u)" "keeps_r2 (step_values st c p u)"
  using assms by (cases st; simp add: step_names_def step_values_def)+

lemma uri_step_r2:
  assumes "no_r2 u" "\<not> is_r2 (us_state u)"
  shows "keeps_r2 (uri_step c p u)"
proof -
  have p: "us_state (set_user p v) = us_state v" "us_state (case_port c v) = us_state v"
    "us_state (maybe_pass p v) = us_state v" "us_state (no_pass v) = us_state v" "us_state (set_passwd p v) = URI_HOST" for v
    by (simp_all add: set_user_def case_port_def set_passwd_def)
  have e: "keeps_r2 (step_init c p u)" "us_state u = URI_USER \<Longrightarrow> keeps_r2 (step_user c p u)"
    "us_state u = URI_PASSWORD \<Longrightarrow> keeps_r2 (step_password c p u)"
    "us_state u = URI_PASSWORD_ALPHA \<Longrightarrow> keeps_r2 (step_password_alpha c p u)"
    "keeps_r2 (step_host c p u)" "us_state u = URI_HOST_P \<Longrightarrow> keeps_r2 (check_host_end c p u (Inr u))"
    "keeps_r2 (check_host_end c p u (Inl E_BAD_HOST))" "us_state u = URI_HOST6_P \<Longrightarrow> keeps_r2 (step_host6 c p u)"
    "us_state u = URI_PORT \<Longrightarrow> keeps_r2 (step_port c p u)" "keeps_r2 (step_param c p u)"
    "us_state u = URI_HEADERS \<Longrightarrow> keeps_r2 (step_headers c p u)"
    using assms(1) by (simp_all add: step_init_def step_user_def step_password_def step_password_alpha_def step_host_def
        check_host_end_def step_host6_def step_port_def step_param_def step_headers_def p)
  have g: "us_state u = st \<Longrightarrow> keeps_r2 (step_names st c p u)" "us_state u = st \<Longrightarrow> keeps_r2 (step_values st c p u)" for st
    using step_groups_r2 [OF assms(1)] assms(2) by auto
  show ?thesis
    by (cases "us_state u") (use assms e g in \<open>simp_all add: uri_step_def\<close>)
qed

lemma uri_loop_r2: "no_r2 u \<Longrightarrow> \<not> is_r2 (us_state u) \<Longrightarrow> keeps_r2 (uri_loop cs p u)"
proof (induction cs arbitrary: p u)
  case (Cons c cs)
  show ?case
  proof (cases "uri_step c p u")
    case (Inr v)
    with uri_step_r2 [OF Cons.prems, of c p] Cons.IH show ?thesis by simp
  qed simp
qed simp

lemma the_uri_r2: "keeps_r2 r \<Longrightarrow> the_uri r = Inr v \<Longrightarrow> u_r2 v = null_span \<and> u_r2_val v = null_span"
  by (cases r) (auto simp: the_uri_def no_r2_def)

lemma uri_end_r2:
  assumes "no_r2 u" "\<not> is_r2 (us_state u)" "uri_end p u = Inr v"
  shows "u_r2 v = null_span \<and> u_r2_val v = null_span"
proof -
  have s: "us_state (end_params p u) = us_state u" by (simp add: end_params_def)
  have f: "keeps_r2 (param_set p (end_params p u))" "keeps_r2 (set_proto pr (param_set p (end_params p u)))"
    "keeps_r2 (set_flag LR p (end_params p u))" "no_r2 (end_params p u)" for pr
    using assms by (simp_all add: s)
  show ?thesis
    using assms(3)
    by (cases "us_state u")
      (use assms(1,2) f(1-3) [THEN the_uri_r2] f(4) in
        \<open>auto simp: uri_end_def no_r2_def end_host_def set_port_def is_value_state_def split: if_splits\<close>)
qed

lemma run_uri_r2: "run_uri buf p sec = Inr v \<Longrightarrow> u_r2 v = null_span \<and> u_r2_val v = null_span"
proof -
  assume r: "run_uri buf p sec = Inr v"
  have "no_r2 (uri_start p sec)" "\<not> is_r2 (us_state (uri_start p sec))"
    by (simp_all add: no_r2_def uri_start_def zero_uri_def)
  from uri_loop_r2 [OF this, of "drop p buf" p] r uri_end_r2 show ?thesis
    by (auto simp: run_uri_def split: sum.splits)
qed

text \<open>
  The parameter r2 is never recognised, in no URI: the case of its first letter falls
  through, so its states are unreachable.
\<close>

theorem r2_never_recognised:
  assumes "parse_uri buf = Inr u"
  shows "u_r2 u = null_span \<and> u_r2_val u = null_span"
  using assms run_uri_r2 by (auto simp: parse_uri_def split: if_splits)

theorem r2_never_recognised_witness:
  "\<exists>u. parse_uri ''sip:b.org;r2=on'' = Inr u \<and> text_of ''sip:b.org;r2=on'' (u_params u) = ''r2=on'' \<and> u_r2 u = null_span"
proof -
  let ?b = "''sip:b.org;r2=on''"
  have "parse_uri ?b = Inr (projr (parse_uri ?b))" "text_of ?b (u_params (projr (parse_uri ?b))) = ''r2=on''"
    by code_simp+
  with r2_never_recognised [of ?b] show ?thesis by blast
qed

end
