(* ===== verification/Tcp_Read.thy ===== *)
theory Tcp_Read
  imports Ut
begin

section \<open>Reading SIP messages from a TCP connection: tcp_read.c\<close>

text \<open>
  The bytes of a connection are cut into messages by an automaton that looks for the
  Content-Length header field and the empty line after the header. \<open>rq_buf\<close> holds the
  bytes read so far, so that \<open>pos\<close> is its length; the other pointers are offsets. What
  the operating system delivers is a list of read events, each used by one call of
  \<open>read\<close>; \<open>receive_msg\<close> is a parameter. Compiled without TLS.
\<close>

datatype tcp_req_errors = TCP_REQ_INIT | TCP_REQ_OK | TCP_READ_ERROR | TCP_REQ_OVERRUN | TCP_REQ_BAD_LEN

datatype tcp_req_states =
    H_SKIP_EMPTY | H_SKIP | H_LF | H_LFCR | H_BODY | H_STARTWS
  | H_CONT_LEN1 | H_CONT_LEN2 | H_CONT_LEN3 | H_CONT_LEN4 | H_CONT_LEN5 | H_CONT_LEN6 | H_CONT_LEN7
  | H_CONT_LEN8 | H_CONT_LEN9 | H_CONT_LEN10 | H_CONT_LEN11 | H_CONT_LEN12 | H_CONT_LEN13
  | H_L_COLON | H_CONT_LEN_BODY | H_CONT_LEN_BODY_PARSE

abbreviation (input) TCP_BUF_SIZE :: nat where "TCP_BUF_SIZE \<equiv> 65535"

record tcp_req =
  rq_buf :: string
  rq_start :: nat
  rq_parsed :: int
  rq_body :: "nat option"
  content_len :: int
  has_content_len :: bool
  complete :: bool
  bytes_to_go :: int
  rq_error :: tcp_req_errors
  rq_state :: tcp_req_states

definition init_tcp_req :: tcp_req where
  "init_tcp_req = \<lparr>rq_buf = [], rq_start = 0, rq_parsed = 0, rq_body = None, content_len = 0,
     has_content_len = False, complete = False, bytes_to_go = 0, rq_error = TCP_REQ_OK,
     rq_state = H_SKIP_EMPTY\<rparr>"

subsection \<open>The header automaton\<close>

abbreviation (input) LF :: char where "LF \<equiv> CHR 0x0A"
abbreviation (input) CR :: char where "CR \<equiv> CHR 0x0D"
abbreviation (input) TAB :: char where "TAB \<equiv> CHR 0x09"

definition to :: "tcp_req_states \<Rightarrow> tcp_req \<Rightarrow> tcp_req" where
  "to st r = r\<lparr>rq_state := st\<rparr>"

definition crlf_default_skip_case :: "char \<Rightarrow> tcp_req \<Rightarrow> tcp_req" where
  "crlf_default_skip_case c r = (if c = LF then to H_LF r else to H_SKIP r)"

definition content_len_beg_case :: "char \<Rightarrow> tcp_req \<Rightarrow> tcp_req \<Rightarrow> tcp_req" where
  "content_len_beg_case c r other =
     (if c = CHR '' '' \<or> c = TAB then
        (if \<not> has_content_len r then to H_STARTWS r else to H_SKIP r)
      else if c = CHR ''C'' \<or> c = CHR ''c'' then
        (if \<not> has_content_len r then to H_CONT_LEN1 r else to H_SKIP r)
      else if c = CHR ''l'' \<or> c = CHR ''L'' then
        (if \<not> has_content_len r then to H_L_COLON r else to H_SKIP r)
      else other)"

definition change_state :: "char \<Rightarrow> char \<Rightarrow> tcp_req_states \<Rightarrow> char \<Rightarrow> tcp_req \<Rightarrow> tcp_req" where
  "change_state upper lower newstate c r =
     (if c = upper \<or> c = lower then to newstate r else crlf_default_skip_case c r)"

text \<open>
  The end of the header at offset \<open>p\<close>. The second result is whether the code leaves the
  loop.
\<close>

definition end_of_header :: "nat \<Rightarrow> tcp_req \<Rightarrow> tcp_req \<times> bool" where
  "end_of_header p r =
     (let r = to H_BODY r
      in if has_content_len r then
           let r = r\<lparr>rq_body := Some (p + 1), bytes_to_go := content_len r\<rparr>
           in if bytes_to_go r = 0 then (r\<lparr>complete := True\<rparr>, True) else (r, False)
         else (r\<lparr>rq_error := TCP_REQ_BAD_LEN\<rparr>, False))"

definition step_lf :: "char \<Rightarrow> nat \<Rightarrow> tcp_req \<Rightarrow> tcp_req \<times> bool" where
  "step_lf c p r =
     (if c = CR then (to H_LFCR r, False)
      else if c = LF then end_of_header p r
      else (content_len_beg_case c r (to H_SKIP r), False))"

definition step_skip_empty :: "char \<Rightarrow> nat \<Rightarrow> tcp_req \<Rightarrow> tcp_req" where
  "step_skip_empty c p r =
     (if c = LF \<or> c = CR \<or> c = CHR '' '' \<or> c = TAB then r
      else if c = CHR ''C'' \<or> c = CHR ''c'' then (to H_CONT_LEN1 r)\<lparr>rq_start := p\<rparr>
      else if c = CHR ''l'' \<or> c = CHR ''L'' then (to H_L_COLON r)\<lparr>rq_start := p\<rparr>
      else (to H_SKIP r)\<lparr>rq_start := p\<rparr>)"

definition step_l_colon :: "char \<Rightarrow> tcp_req \<Rightarrow> tcp_req" where
  "step_l_colon c r =
     (if c = CHR '' '' \<or> c = TAB then r
      else if c = CHR '':'' then to H_CONT_LEN_BODY r
      else crlf_default_skip_case c r)"

definition step_len_body :: "char \<Rightarrow> tcp_req \<Rightarrow> tcp_req" where
  "step_len_body c r =
     (if c = CHR '' '' \<or> c = TAB then r
      else if digit c then (to H_CONT_LEN_BODY_PARSE r)\<lparr>content_len := int (dig c)\<rparr>
      else crlf_default_skip_case c r)"

definition step_len_parse :: "char \<Rightarrow> tcp_req \<Rightarrow> tcp_req" where
  "step_len_parse c r =
     (if digit c then r\<lparr>content_len := i32 (content_len r * 10 + int (dig c))\<rparr>
      else if c = CR \<or> c = CHR '' '' \<or> c = TAB then (to H_SKIP r)\<lparr>has_content_len := True\<rparr>
      else if c = LF then (to H_LF r)\<lparr>has_content_len := True\<rparr>
      else to H_SKIP r)"

text \<open>One character in a state other than \<open>H_BODY\<close> and \<open>H_SKIP\<close>.\<close>

definition hdr_step :: "char \<Rightarrow> nat \<Rightarrow> tcp_req \<Rightarrow> tcp_req \<times> bool" where
  "hdr_step c p r =
     (case rq_state r of
        H_LF \<Rightarrow> step_lf c p r
      | H_LFCR \<Rightarrow> (if c = LF then end_of_header p r else (to H_SKIP r, False))
      | H_STARTWS \<Rightarrow> (content_len_beg_case c r (crlf_default_skip_case c r), False)
      | H_SKIP_EMPTY \<Rightarrow> (step_skip_empty c p r, False)
      | H_CONT_LEN1 \<Rightarrow> (change_state CHR ''O'' CHR ''o'' H_CONT_LEN2 c r, False)
      | H_CONT_LEN2 \<Rightarrow> (change_state CHR ''N'' CHR ''n'' H_CONT_LEN3 c r, False)
      | H_CONT_LEN3 \<Rightarrow> (change_state CHR ''T'' CHR ''t'' H_CONT_LEN4 c r, False)
      | H_CONT_LEN4 \<Rightarrow> (change_state CHR ''E'' CHR ''e'' H_CONT_LEN5 c r, False)
      | H_CONT_LEN5 \<Rightarrow> (change_state CHR ''N'' CHR ''n'' H_CONT_LEN6 c r, False)
      | H_CONT_LEN6 \<Rightarrow> (change_state CHR ''T'' CHR ''t'' H_CONT_LEN7 c r, False)
      | H_CONT_LEN7 \<Rightarrow> (change_state CHR ''-'' CHR ''_'' H_CONT_LEN8 c r, False)
      | H_CONT_LEN8 \<Rightarrow> (change_state CHR ''L'' CHR ''l'' H_CONT_LEN9 c r, False)
      | H_CONT_LEN9 \<Rightarrow> (change_state CHR ''E'' CHR ''e'' H_CONT_LEN10 c r, False)
      | H_CONT_LEN10 \<Rightarrow> (change_state CHR ''N'' CHR ''n'' H_CONT_LEN11 c r, False)
      | H_CONT_LEN11 \<Rightarrow> (change_state CHR ''G'' CHR ''g'' H_CONT_LEN12 c r, False)
      | H_CONT_LEN12 \<Rightarrow> (change_state CHR ''T'' CHR ''t'' H_CONT_LEN13 c r, False)
      | H_CONT_LEN13 \<Rightarrow> (change_state CHR ''H'' CHR ''h'' H_L_COLON c r, False)
      | H_L_COLON \<Rightarrow> (step_l_colon c r, False)
      | H_CONT_LEN_BODY \<Rightarrow> (step_len_body c r, False)
      | H_CONT_LEN_BODY_PARSE \<Rightarrow> (step_len_parse c r, False)
      | _ \<Rightarrow> (r, False))"

text \<open>
  The loop over the unparsed bytes. A negative number of bytes to go moves \<open>p\<close> backwards,
  so that the final position is an integer.
\<close>

function scan :: "string \<Rightarrow> nat \<Rightarrow> tcp_req \<Rightarrow> int \<times> tcp_req" where
  "scan buf p r =
     (if p < length buf \<and> rq_error r = TCP_REQ_OK then
        (case rq_state r of
           H_BODY \<Rightarrow>
             (let remaining = min (int (length buf) - int p) (bytes_to_go r);
                  r' = r\<lparr>bytes_to_go := bytes_to_go r - remaining\<rparr>
              in if bytes_to_go r' = 0 then (int p + remaining, r'\<lparr>complete := True\<rparr>)
                 else scan buf (p + nat remaining) r')
         | H_SKIP \<Rightarrow>
             (case memchr LF (drop p buf) of
                Some i \<Rightarrow> scan buf (p + i + 1) (to H_LF r)
              | None \<Rightarrow> (int (length buf), r))
         | _ \<Rightarrow>
             (case hdr_step (buf ! p) p r of
                (r, True) \<Rightarrow> (int (p + 1), r)
              | (r, False) \<Rightarrow> scan buf (p + 1) r))
      else (int p, r))"
  by pat_completeness auto

termination
  by (relation "measure (\<lambda>(buf, p, r). length buf - p)") (auto simp: min_def split: if_splits)

declare scan.simps [simp del]

subsection \<open>Reading\<close>

datatype read_event = Data string | Would_block | Interrupted | Failed | Eof

datatype conn_state = S_CONN_OK | S_CONN_EOF

record tcp_connection =
  tc_req :: tcp_req
  tc_state :: conn_state
  tc_input :: "read_event list"
  delivered :: "(string \<times> int) list"

text \<open>
  \<open>read\<close> delivers at most \<open>bytes_free\<close> bytes and leaves the rest; with no more events it
  would block. The first result is the number of bytes, 0 or -1.
\<close>

fun read_loop :: "nat \<Rightarrow> read_event list \<Rightarrow> (int \<times> string \<times> read_event) \<times> read_event list" where
  "read_loop n [] = ((-1, [], Would_block), [])"
| "read_loop n (Interrupted # es) = read_loop n es"
| "read_loop n (Data s # es) =
     ((int (length (take n s)), take n s, Data (take n s)), if length s \<le> n then es else Data (drop n s) # es)"
| "read_loop n (Would_block # es) = ((-1, [], Would_block), es)"
| "read_loop n (Failed # es) = ((-1, [], Failed), es)"
| "read_loop n (Eof # es) = ((0, [], Eof), Eof # es)"

definition tcp_read :: "tcp_connection \<Rightarrow> int \<times> tcp_connection" where
  "tcp_read c =
     (let r = tc_req c; bytes_free = TCP_BUF_SIZE - length (rq_buf r)
      in if bytes_free = 0 then (-1, c\<lparr>tc_req := r\<lparr>rq_error := TCP_REQ_OVERRUN\<rparr>\<rparr>)
         else
           (case read_loop bytes_free (tc_input c) of
              ((n, s, ev), es) \<Rightarrow>
                let c = c\<lparr>tc_input := es\<rparr>
                in if n = -1 then
                     (if ev = Would_block then (0, c)
                      else (-1, c\<lparr>tc_req := r\<lparr>rq_error := TCP_READ_ERROR\<rparr>\<rparr>))
                   else
                     let c = (if n = 0 then c\<lparr>tc_state := S_CONN_EOF\<rparr> else c)
                     in (n, c\<lparr>tc_req := r\<lparr>rq_buf := rq_buf r @ s\<rparr>\<rparr>)))"

definition tcp_read_headers :: "tcp_connection \<Rightarrow> int \<times> tcp_connection" where
  "tcp_read_headers c =
     (case (if rq_parsed (tc_req c) < int (length (rq_buf (tc_req c))) then (0, c, True)
            else (case tcp_read c of (n, c) \<Rightarrow> (n, c, n > 0))) of
        (bytes, c, go_on) \<Rightarrow>
          if \<not> go_on then (bytes, c)
          else
            (case scan (rq_buf (tc_req c)) (nat (rq_parsed (tc_req c))) (tc_req c) of
               (p, r) \<Rightarrow> (bytes, c\<lparr>tc_req := r\<lparr>rq_parsed := p\<rparr>\<rparr>)))"

datatype conn_resp = CONN_RELEASE | CONN_ERROR | CONN_EOF

text \<open>
  The outcome of handling a readable connection: an answer, an access outside the buffer,
  or not finished after the given number of rounds.
\<close>

datatype 'a outcome = Done 'a | Fault | Out_of_fuel

definition next_request :: "tcp_req \<Rightarrow> tcp_req" where
  "next_request r = init_tcp_req\<lparr>rq_buf := drop (nat (rq_parsed r)) (rq_buf r)\<rparr>"

text \<open>
  \<open>recv\<close> is whether \<open>receive_msg\<close> succeeds on a message; what it was called with is
  recorded: the bytes from the start of the message and the length.
\<close>

fun tcp_read_req :: "(string \<Rightarrow> int \<Rightarrow> bool) \<Rightarrow> nat \<Rightarrow> tcp_connection \<Rightarrow> (conn_resp \<times> tcp_connection) outcome" where
  "tcp_read_req recv 0 c = Out_of_fuel"
| "tcp_read_req recv (Suc fuel) c =
     (let ok = (rq_error (tc_req c) = TCP_REQ_OK); (bytes, c) = (if ok then tcp_read_headers c else (0, c))
      in if bytes = -1 then Done (CONN_ERROR, c)
         else if ok \<and> tc_state c = S_CONN_EOF \<and> \<not> complete (tc_req c)
         then Done (CONN_EOF, c)
         else if rq_error (tc_req c) \<noteq> TCP_REQ_OK then Done (CONN_ERROR, c)
         else if complete (tc_req c) then
           (if \<not> has_content_len (tc_req c) then
              Done (CONN_ERROR, c\<lparr>tc_req := (tc_req c)\<lparr>rq_error := TCP_REQ_BAD_LEN\<rparr>\<rparr>)
            else if rq_parsed (tc_req c) < 0 then Fault
            else
              let r = tc_req c; len = rq_parsed r - int (rq_start r);
                  msg = take (nat len) (drop (rq_start r) (rq_buf r));
                  c = c\<lparr>delivered := delivered c @ [(msg, len)]\<rparr>
              in if \<not> recv msg len then Done (CONN_ERROR, c)
                 else
                   let size = length (rq_buf r) - nat (rq_parsed r);
                       c = c\<lparr>tc_req := next_request r\<rparr>
                   in if size \<noteq> 0 then tcp_read_req recv fuel c
                      else if tc_state c = S_CONN_EOF then Done (CONN_EOF, c)
                      else Done (CONN_RELEASE, c))
         else Done (CONN_RELEASE, c))"

subsection \<open>Scanning in pieces\<close>

declare memchr_None_iff [simp del]

definition finished :: "tcp_req \<Rightarrow> bool" where
  "finished r \<longleftrightarrow> complete r \<or> rq_error r \<noteq> TCP_REQ_OK"

lemma scan_stop: "\<not> (p < length buf \<and> rq_error r = TCP_REQ_OK) \<Longrightarrow> scan buf p r = (int p, r)"
  by (subst scan.simps) (simp only: if_False)

lemma scan_body:
  assumes "p < length buf" "rq_error r = TCP_REQ_OK" "rq_state r = H_BODY"
  shows "scan buf p r =
    (let n = min (int (length buf) - int p) (bytes_to_go r)
     in (int p + n, r\<lparr>bytes_to_go := bytes_to_go r - n, complete := complete r \<or> bytes_to_go r - n = 0\<rparr>))"
  using assms
  by (subst scan.simps) (auto simp: Let_def min_def scan_stop)

lemma scan_skip:
  assumes "p < length buf" "rq_error r = TCP_REQ_OK" "rq_state r = H_SKIP"
  shows "scan buf p r =
    (case memchr LF (drop p buf) of
       Some i \<Rightarrow> scan buf (p + i + 1) (to H_LF r) | None \<Rightarrow> (int (length buf), r))"
  using assms by (subst scan.simps) simp

lemma scan_step:
  assumes "p < length buf" "rq_error r = TCP_REQ_OK" "rq_state r \<noteq> H_BODY" "rq_state r \<noteq> H_SKIP"
  shows "scan buf p r =
    (case hdr_step (buf ! p) p r of (r, True) \<Rightarrow> (int (p + 1), r) | (r, False) \<Rightarrow> scan buf (p + 1) r)"
  using assms by (subst scan.simps) (cases "rq_state r"; simp)

lemma scan_cases:
  assumes "p < length buf" "rq_error r = TCP_REQ_OK"
  obtains "rq_state r = H_BODY" | "rq_state r = H_SKIP" | "rq_state r \<noteq> H_BODY" "rq_state r \<noteq> H_SKIP"
  using assms by blast

lemma to_simps [simp]: "complete (to st r) = complete r" "rq_error (to st r) = rq_error r" "rq_state (to st r) = st"
  "has_content_len (to st r) = has_content_len r" "content_len (to st r) = content_len r" "bytes_to_go (to st r) = bytes_to_go r"
  "rq_start (to st r) = rq_start r" "rq_body (to st r) = rq_body r"
  by (simp_all add: to_def)

lemma memchr_append:
  "memchr c (xs @ ys) = (case memchr c xs of Some i \<Rightarrow> Some i | None \<Rightarrow> map_option (\<lambda>i. length xs + i) (memchr c ys))"
proof (induction xs)
  case Nil
  then show ?case by (cases "memchr c ys") simp_all
next
  case (Cons x xs)
  then show ?case by (cases "memchr c xs"; cases "memchr c ys") simp_all
qed

lemma pieces_keep [simp]:
  "complete (crlf_default_skip_case c r) = complete r" "complete (change_state u l st c r) = complete r"
  "complete (step_skip_empty c p r) = complete r" "complete (step_l_colon c r) = complete r"
  "complete (step_len_body c r) = complete r" "complete (step_len_parse c r) = complete r"
  "complete other = complete r \<Longrightarrow> complete (content_len_beg_case c r other) = complete r"
  by (simp_all add: crlf_default_skip_case_def change_state_def step_skip_empty_def step_l_colon_def
      step_len_body_def step_len_parse_def content_len_beg_case_def)

lemma end_of_header_keeps: "end_of_header p r = (r', d) \<Longrightarrow> complete r' = (complete r \<or> d)"
  by (auto simp: end_of_header_def Let_def split: if_splits)

lemma hdr_step_keeps:
  assumes "hdr_step c p r = (r', d)"
  shows "complete r' = (complete r \<or> d)"
  using assms end_of_header_keeps [of p r r' d]
  by (cases "rq_state r") (auto simp: hdr_step_def step_lf_def split: if_splits)

text \<open>A scan that ends in the middle of a message has used all its bytes and can be continued.\<close>

lemma scan_resume:
  "scan b1 p r = (q, r') \<Longrightarrow> p \<le> length b1 \<Longrightarrow> \<not> finished r' \<Longrightarrow>
   q = int (length b1) \<and> scan (b1 @ b2) p r = scan (b1 @ b2) (length b1) r'"
proof (induction "length b1 - p" arbitrary: p r rule: less_induct)
  case less
  show ?case
  proof (cases "p < length b1 \<and> rq_error r = TCP_REQ_OK")
    case False
    then have "scan b1 p r = (int p, r)" by (rule scan_stop)
    with False less.prems show ?thesis by (auto simp: finished_def)
  next
    case True
    then have p: "p < length b1" "p < length (b1 @ b2)" and ok: "rq_error r = TCP_REQ_OK" by simp_all
    consider "rq_state r = H_BODY" | "rq_state r = H_SKIP" | "rq_state r \<noteq> H_BODY" "rq_state r \<noteq> H_SKIP" by blast
    then show ?thesis
    proof cases
      case body: 1
      note s1 = scan_body [OF p(1) ok body] and s2 = scan_body [OF p(2) ok body]
      let ?n = "int (length b1) - int p"
      from less.prems(1,3) s1 have n: "bytes_to_go r > ?n" "q = int (length b1)"
        "r' = r\<lparr>bytes_to_go := bytes_to_go r - ?n, complete := False\<rparr>" "\<not> complete r"
        by (auto simp: Let_def min_def finished_def split: if_splits)
      show ?thesis
      proof (cases "b2 = []")
        case True
        with less.prems(1) n show ?thesis by (simp add: scan_stop)
      next
        case False
        then have l: "length b1 < length (b1 @ b2)" by simp
        have "scan (b1 @ b2) (length b1) r' = scan (b1 @ b2) p r"
          unfolding s2 by (subst scan_body [OF l]) (use n ok body in \<open>auto simp: Let_def min_def algebra_simps\<close>)
        with n show ?thesis by simp
      qed
    next
      case skip: 2
      note s1 = scan_skip [OF p(1) ok skip] and s2 = scan_skip [OF p(2) ok skip]
      show ?thesis
      proof (cases "memchr LF (drop p b1)")
        case None
        then have r': "q = int (length b1)" "r' = r" using less.prems(1) s1 by auto
        show ?thesis
        proof (cases "b2 = []")
          case True
          with less.prems(1) r' show ?thesis by (simp add: scan_stop)
        next
          case False
          then have l: "length b1 < length (b1 @ b2)" by simp
          show ?thesis
            unfolding s2 r' using scan_skip [OF l ok skip] p None
            by (auto simp: memchr_append split: option.split)
        qed
      next
        case (Some i)
        then have i: "p + i + 1 \<le> length b1" using memchr_SomeD [OF Some] p(1) by auto
        have "scan (b1 @ b2) p r = scan (b1 @ b2) (p + i + 1) (to H_LF r)"
          using s2 Some p by (simp add: memchr_append)
        moreover have "scan b1 (p + i + 1) (to H_LF r) = (q, r')" using less.prems(1) s1 Some by simp
        ultimately show ?thesis using less.hyps [of "p + i + 1" "to H_LF r"] p i less.prems(3) by simp
      qed
    next
      case other: 3
      note s1 = scan_step [OF p(1) ok other] and s2 = scan_step [OF p(2) ok other]
      obtain r1 d where h: "hdr_step (b1 ! p) p r = (r1, d)" by fastforce
      have same: "(b1 @ b2) ! p = b1 ! p" using p by (simp add: nth_append)
      show ?thesis
      proof (cases d)
        case True
        then have "complete r1" using hdr_step_keeps [OF h] by simp
        with h True less.prems(1,3) s1 show ?thesis by (auto simp: finished_def)
      next
        case False
        then have "scan b1 (p + 1) r1 = (q, r')" using less.prems(1) s1 h by simp
        moreover have "scan (b1 @ b2) p r = scan (b1 @ b2) (p + 1) r1" using s2 h same False by simp
        ultimately show ?thesis using less.hyps [of "p + 1" r1] p less.prems(3) by simp
      qed
    qed
  qed
qed


text \<open>A scan that has found the end of a message, or an error, ignores what follows.\<close>

lemma scan_final:
  "scan b1 p r = (q, r') \<Longrightarrow> finished r' \<Longrightarrow> \<not> finished r \<Longrightarrow> scan (b1 @ b2) p r = (q, r')"
proof (induction "length b1 - p" arbitrary: p r rule: less_induct)
  case less
  have ok: "rq_error r = TCP_REQ_OK" "\<not> complete r" using less.prems(3) by (simp_all add: finished_def)
  show ?case
  proof (cases "p < length b1")
    case False
    then have "scan b1 p r = (int p, r)" by (intro scan_stop) simp
    with less.prems show ?thesis by simp
  next
    case True
    then have p: "p < length b1" "p < length (b1 @ b2)" by simp_all
    consider "rq_state r = H_BODY" | "rq_state r = H_SKIP" | "rq_state r \<noteq> H_BODY" "rq_state r \<noteq> H_SKIP" by blast
    then show ?thesis
    proof cases
      case body: 1
      from less.prems(1,2) scan_body [OF p(1) ok(1) body] ok have "bytes_to_go r \<le> int (length b1) - int p"
        by (auto simp: Let_def min_def finished_def split: if_splits)
      then show ?thesis
        using scan_body [OF p(1) ok(1) body] scan_body [OF p(2) ok(1) body] less.prems(1)
        by (simp add: Let_def min_def)
    next
      case skip: 2
      note s1 = scan_skip [OF p(1) ok(1) skip] and s2 = scan_skip [OF p(2) ok(1) skip]
      show ?thesis
      proof (cases "memchr LF (drop p b1)")
        case None
        then have "r' = r" using less.prems(1) s1 by auto
        with less.prems show ?thesis by simp
      next
        case (Some i)
        have "scan (b1 @ b2) p r = scan (b1 @ b2) (p + i + 1) (to H_LF r)"
          using s2 Some p by (simp add: memchr_append)
        moreover have "scan b1 (p + i + 1) (to H_LF r) = (q, r')" using less.prems(1) s1 Some by simp
        ultimately show ?thesis
          using less.hyps [of "p + i + 1" "to H_LF r"] p ok less.prems(2) by (simp add: finished_def)
      qed
    next
      case other: 3
      note s1 = scan_step [OF p(1) ok(1) other] and s2 = scan_step [OF p(2) ok(1) other]
      obtain r1 d where h: "hdr_step (b1 ! p) p r = (r1, d)" by fastforce
      have same: "(b1 @ b2) ! p = b1 ! p" using p by (simp add: nth_append)
      show ?thesis
      proof (cases d)
        case True
        with h less.prems(1) s1 s2 same show ?thesis by simp
      next
        case False
        then have run: "scan b1 (p + 1) r1 = (q, r')" using less.prems(1) s1 h by simp
        have run2: "scan (b1 @ b2) p r = scan (b1 @ b2) (p + 1) r1" using s2 h same False by simp
        show ?thesis
        proof (cases "finished r1")
          case True
          then have "rq_error r1 \<noteq> TCP_REQ_OK"
            using h False ok hdr_step_keeps [OF h] by (auto simp: finished_def)
          with run run2 show ?thesis by (simp add: scan_stop)
        next
          case unfinished: False
          with run run2 less.hyps [of "p + 1" r1] p less.prems(2) show ?thesis by simp
        qed
      qed
    qed
  qed
qed

text \<open>The automaton looks neither at the buffer pointer nor at the parsed position of the request.\<close>

definition place :: "string \<Rightarrow> int \<Rightarrow> tcp_req \<Rightarrow> tcp_req" where
  "place x y r = r\<lparr>rq_buf := x, rq_parsed := y\<rparr>"

lemma place_simps [simp]:
  "rq_state (place x y r) = rq_state r" "rq_error (place x y r) = rq_error r" "complete (place x y r) = complete r"
  "bytes_to_go (place x y r) = bytes_to_go r" "has_content_len (place x y r) = has_content_len r"
  "content_len (place x y r) = content_len r" "rq_buf (place x y r) = x" "rq_parsed (place x y r) = y"
  "rq_start (place x y r) = rq_start r" "rq_body (place x y r) = rq_body r" "finished (place x y r) = finished r"
  "place x y (place x' y' r) = place x y r"
  by (simp_all add: place_def finished_def)

lemma pieces_place [simp]:
  "to st (place x y r) = place x y (to st r)"
  "crlf_default_skip_case c (place x y r) = place x y (crlf_default_skip_case c r)"
  "change_state u l st c (place x y r) = place x y (change_state u l st c r)"
  "step_skip_empty c p (place x y r) = place x y (step_skip_empty c p r)"
  "step_l_colon c (place x y r) = place x y (step_l_colon c r)"
  "step_len_body c (place x y r) = place x y (step_len_body c r)"
  "step_len_parse c (place x y r) = place x y (step_len_parse c r)"
  "content_len_beg_case c (place x y r) (place x y other) = place x y (content_len_beg_case c r other)"
  "end_of_header p (place x y r) = apfst (place x y) (end_of_header p r)"
  by (simp_all add: place_def to_def crlf_default_skip_case_def change_state_def step_skip_empty_def step_l_colon_def
      step_len_body_def step_len_parse_def content_len_beg_case_def end_of_header_def Let_def)

lemma hdr_step_place: "hdr_step c p (place x y r) = apfst (place x y) (hdr_step c p r)"
  by (cases "rq_state r") (simp_all add: hdr_step_def step_lf_def)

lemma scan_place: "scan buf p (place x y r) = apsnd (place x y) (scan buf p r)"
proof (induction "length buf - p" arbitrary: p r rule: less_induct)
  case less
  show ?case
  proof (cases "p < length buf \<and> rq_error r = TCP_REQ_OK")
    case False
    then have "\<not> (p < length buf \<and> rq_error (place x y r) = TCP_REQ_OK)" by simp
    from scan_stop [OF this] scan_stop [OF False] show ?thesis by simp
  next
    case True
    then have p: "p < length buf" "rq_error r = TCP_REQ_OK" "rq_error (place x y r) = TCP_REQ_OK" by simp_all
    consider "rq_state r = H_BODY" | "rq_state r = H_SKIP" | "rq_state r \<noteq> H_BODY" "rq_state r \<noteq> H_SKIP" by blast
    then show ?thesis
    proof cases
      case 1
      then show ?thesis using scan_body [OF p(1,2)] scan_body [OF p(1,3)] by (simp add: Let_def place_def)
    next
      case 2
      show ?thesis
      proof (cases "memchr LF (drop p buf)")
        case (Some i)
        then show ?thesis
          using scan_skip [OF p(1,2) 2] scan_skip [OF p(1,3)] 2 less.hyps [of "p + i + 1" "to H_LF r"] p by simp
      qed (use scan_skip [OF p(1,2) 2] scan_skip [OF p(1,3)] 2 in simp)
    next
      case 3
      obtain r1 d where h: "hdr_step (buf ! p) p r = (r1, d)" by fastforce
      with 3 show ?thesis
        using scan_step [OF p(1,2) 3] scan_step [OF p(1,3)] less.hyps [of "p + 1" r1] p
        by (cases d) (simp_all add: hdr_step_place)
    qed
  qed
qed

text \<open>The request after the bytes \<open>b\<close> of a message have been read, in whatever pieces.\<close>

definition fed :: "string \<Rightarrow> tcp_req" where
  "fed b = (case scan b 0 init_tcp_req of (p, r) \<Rightarrow> place b p r)"

lemma init_unfinished [simp]: "\<not> finished init_tcp_req" "rq_error init_tcp_req = TCP_REQ_OK"
  by (simp_all add: finished_def init_tcp_req_def)

lemma fed_parsed: "\<not> finished (fed b) \<Longrightarrow> rq_parsed (fed b) = int (length b)"
  using scan_resume [of b 0 init_tcp_req] by (auto simp: fed_def split: prod.splits)

lemma fed_buf [simp]: "rq_buf (fed b) = b"
  by (simp add: fed_def split: prod.split)

lemma fed_more:
  assumes "\<not> finished (fed b)"
  shows "(case scan (b @ x) (length b) (place (b @ x) y (fed b)) of (p, r) \<Rightarrow> r\<lparr>rq_parsed := p\<rparr>) = fed (b @ x)"
proof -
  obtain p r where s: "scan b 0 init_tcp_req = (p, r)" by fastforce
  with assms have "\<not> finished r" by (simp add: fed_def)
  from scan_resume [OF s _ this, of x] have
    "scan (b @ x) 0 init_tcp_req = scan (b @ x) (length b) r" by simp
  moreover obtain q r2 where "scan (b @ x) (length b) r = (q, r2)" by fastforce
  moreover have "fed b = place b p r" by (simp add: fed_def s)
  ultimately show ?thesis by (simp add: fed_def scan_place)
qed

lemma fed_final:
  assumes "finished (fed b)"
  shows "fed (b @ x) = (fed b)\<lparr>rq_buf := b @ x\<rparr>"
proof -
  obtain p r where s: "scan b 0 init_tcp_req = (p, r)" by fastforce
  with assms have "finished r" by (simp add: fed_def)
  from scan_final [OF s this init_unfinished(1), of x] show ?thesis by (simp add: fed_def s place_def)
qed

subsection \<open>Well-formed messages\<close>

text \<open>The letters of the name after its first, in both spellings the automaton takes.\<close>

definition cl_letters :: "(char \<times> char) list" where
  "cl_letters = zip ''ONTENT-LENGTH'' ''ontent_length''"

definition spells :: "string \<Rightarrow> (char \<times> char) list \<Rightarrow> bool" where
  "spells = list_all2 (\<lambda>c (u, l). c = u \<or> c = l)"

definition name_of :: "string \<Rightarrow> string" where
  "name_of = takeWhile (\<lambda>c. c \<noteq> CHR '':'' \<and> c \<noteq> CHR '' '' \<and> c \<noteq> TAB)"

text \<open>The line names the Content-Length header field, in long or in short form.\<close>

definition is_len_name :: "string \<Rightarrow> bool" where
  "is_len_name l \<longleftrightarrow>
     spells (name_of l) ((CHR ''C'', CHR ''c'') # cl_letters) \<or> spells (name_of l) [(CHR ''L'', CHR ''l'')]"

definition plain_line :: "string \<Rightarrow> bool" where
  "plain_line l \<longleftrightarrow> l \<noteq> [] \<and> LF \<notin> set l \<and> hd l \<noteq> CR"

definition other_line :: "string \<Rightarrow> bool" where
  "other_line l \<longleftrightarrow> plain_line l \<and> hd l \<noteq> CHR '' '' \<and> hd l \<noteq> TAB \<and> \<not> is_len_name l"

definition lines_text :: "string list \<Rightarrow> string" where
  "lines_text ls = concat (map (\<lambda>l. l @ [CR, LF]) ls)"

definition head_text :: "string list \<Rightarrow> string \<Rightarrow> string list \<Rightarrow> string" where
  "head_text ls1 ds ls2 =
     lines_text ls1 @ ''Content-Length: '' @ ds @ [CR, LF] @ lines_text ls2 @ [CR, LF]"

definition good_head :: "string list \<Rightarrow> string \<Rightarrow> string list \<Rightarrow> bool" where
  "good_head ls1 ds ls2 \<longleftrightarrow> ls1 \<noteq> [] \<and> list_all other_line ls1 \<and> ds \<noteq> [] \<and> list_all digit ds \<and> list_all plain_line ls2"

definition cl_states :: "tcp_req_states list" where
  "cl_states = [H_CONT_LEN1, H_CONT_LEN2, H_CONT_LEN3, H_CONT_LEN4, H_CONT_LEN5, H_CONT_LEN6, H_CONT_LEN7,
     H_CONT_LEN8, H_CONT_LEN9, H_CONT_LEN10, H_CONT_LEN11, H_CONT_LEN12, H_CONT_LEN13, H_L_COLON]"

lemma cl_len: "length cl_letters = 13" "length cl_states = 14"
  by (simp_all add: cl_letters_def cl_states_def)

lemma less13: "i < (13 :: nat) \<longleftrightarrow> i \<in> {0, 1, 2, 3, 4, 5, 6, 7, 8, 9, 10, 11, 12}"
  unfolding insert_iff empty_iff by presburger

lemma step_letter:
  assumes "i < 13" "rq_state r = cl_states ! i"
  shows "hdr_step c p r =
    ((if c = fst (cl_letters ! i) \<or> c = snd (cl_letters ! i) then to (cl_states ! Suc i) r
      else crlf_default_skip_case c r), False)"
  using assms unfolding less13
  by (auto simp: cl_states_def cl_letters_def hdr_step_def change_state_def)

lemma cl_states_ok: "i < 14 \<Longrightarrow> cl_states ! i \<noteq> H_BODY \<and> cl_states ! i \<noteq> H_SKIP"
proof -
  have "list_all (\<lambda>s. s \<noteq> H_BODY \<and> s \<noteq> H_SKIP) cl_states" by (simp add: cl_states_def)
  then show "i < 14 \<Longrightarrow> cl_states ! i \<noteq> H_BODY \<and> cl_states ! i \<noteq> H_SKIP"
    by (simp add: list_all_length cl_len)
qed

lemma letters_no_sep: "i < 13 \<Longrightarrow> {fst (cl_letters ! i), snd (cl_letters ! i)} \<inter> {CHR '':'', CHR '' '', TAB, CR, LF} = {}"
proof -
  have "list_all (\<lambda>x. {fst x, snd x} \<inter> {CHR '':'', CHR '' '', TAB, CR, LF} = {}) cl_letters"
    by (simp add: cl_letters_def)
  then show "i < 13 \<Longrightarrow> {fst (cl_letters ! i), snd (cl_letters ! i)} \<inter> {CHR '':'', CHR '' '', TAB, CR, LF} = {}"
    by (simp add: list_all_length cl_len)
qed

text \<open>One step of the scan at a known character.\<close>

lemma scan_char:
  assumes "rq_error r = TCP_REQ_OK" "rq_state r \<noteq> H_BODY" "rq_state r \<noteq> H_SKIP" "hdr_step c (length pre) r = (r', False)"
  shows "scan (pre @ c # rest) (length pre) r = scan (pre @ c # rest) (Suc (length pre)) r'"
  using scan_step [of "length pre" "pre @ c # rest" r] assms by simp

lemma skip_line:
  assumes "rq_error r = TCP_REQ_OK" "rq_state r = H_SKIP" "LF \<notin> set t"
  shows "scan (pre @ t @ LF # rest) (length pre) r =
    scan (pre @ t @ LF # rest) (length pre + length t + 1) (to H_LF r)"
  using scan_skip [of "length pre" "pre @ t @ LF # rest" r] assms by (simp add: memchr_first)

lemma spells_Cons: "spells (c # cs) ((u, l) # xs) \<longleftrightarrow> (c = u \<or> c = l) \<and> spells cs xs"
  by (simp add: spells_def)

lemma spells_Nil [simp]: "spells [] xs \<longleftrightarrow> xs = []" "spells cs [] \<longleftrightarrow> cs = []"
  by (auto simp: spells_def)

lemma name_mismatch:
  "i \<le> 13 \<Longrightarrow> rq_error r = TCP_REQ_OK \<Longrightarrow> rq_state r = cl_states ! i \<Longrightarrow> LF \<notin> set t \<Longrightarrow>
   \<not> spells (name_of t) (drop i cl_letters) \<Longrightarrow>
   scan (pre @ t @ CR # LF # rest) (length pre) r =
     scan (pre @ t @ CR # LF # rest) (length pre + length t + 2) (to H_LF r)"
proof (induction t arbitrary: i pre r)
  case Nil
  then have i: "i < 13" using cl_len by (cases "i = 13") (simp_all add: name_of_def)
  have st: "rq_state r \<noteq> H_BODY" "rq_state r \<noteq> H_SKIP" using cl_states_ok [of i] i Nil.prems(3) by simp_all
  have "hdr_step CR (length pre) r = (to H_SKIP r, False)"
    using step_letter [OF i Nil.prems(3)] letters_no_sep [OF i] by (auto simp: crlf_default_skip_case_def)
  from scan_char [OF Nil.prems(2) st this, of "LF # rest"] skip_line [of "to H_SKIP r" "[]" "pre @ [CR]" rest] Nil.prems(2)
  show ?case by (simp add: to_def)
next
  case (Cons c t)
  have st: "rq_state r \<noteq> H_BODY" "rq_state r \<noteq> H_SKIP"
    using cl_states_ok [of i] Cons.prems(1,3) by simp_all
  have c: "c \<noteq> LF" and t: "LF \<notin> set t" using Cons.prems(4) by auto
  have skip: "scan (pre @ (c # t) @ CR # LF # rest) (length pre) r =
     scan (pre @ (c # t) @ CR # LF # rest) (length pre + length (c # t) + 2) (to H_LF r)"
    if "hdr_step c (length pre) r = (to H_SKIP r, False)"
    using scan_char [OF Cons.prems(2) st that, of "t @ CR # LF # rest"] Cons.prems(2) t
      skip_line [of "to H_SKIP r" "t @ [CR]" "pre @ [c]" rest] by (simp add: to_def)
  show ?case
  proof (cases "i < 13")
    case i: True
    note step = step_letter [OF i Cons.prems(3), of c "length pre"]
    show ?thesis
    proof (cases "c = fst (cl_letters ! i) \<or> c = snd (cl_letters ! i)")
      case False
      with step c skip show ?thesis by (simp add: crlf_default_skip_case_def)
    next
      case True
      then have sep: "c \<noteq> CHR '':''" "c \<noteq> CHR '' ''" "c \<noteq> TAB" using letters_no_sep [OF i] by auto
      have d: "drop i cl_letters = cl_letters ! i # drop (Suc i) cl_letters"
        using i cl_len by (simp add: Cons_nth_drop_Suc)
      have "\<not> spells (name_of t) (drop (Suc i) cl_letters)"
        using Cons.prems(5) True sep by (cases "cl_letters ! i") (auto simp: name_of_def d spells_Cons)
      from Cons.IH [OF _ _ _ t this, of "to (cl_states ! Suc i) r" "pre @ [c]"]
        scan_char [OF Cons.prems(2) st, of c pre "to (cl_states ! Suc i) r" "t @ CR # LF # rest"]
        True step i Cons.prems(2)
      show ?thesis by (simp add: to_def)
    qed
  next
    case False
    then have "i = 13" using Cons.prems(1) by simp
    then have l: "rq_state r = H_L_COLON" using Cons.prems(3) by (simp add: cl_states_def)
    have "name_of (c # t) \<noteq> []" using Cons.prems(5) \<open>i = 13\<close> cl_len by auto
    then have "c \<noteq> CHR '':''" "c \<noteq> CHR '' ''" "c \<noteq> TAB" by (auto simp: name_of_def split: if_splits)
    with l c have "hdr_step c (length pre) r = (to H_SKIP r, False)"
      by (simp add: hdr_step_def step_l_colon_def crlf_default_skip_case_def)
    then show ?thesis by (rule skip)
  qed
qed


lemma line_first_char:
  assumes "rq_state r = H_LF \<or> rq_state r = H_SKIP_EMPTY" "\<not> has_content_len r"
    "c \<noteq> LF" "c \<noteq> CR" "c \<noteq> CHR '' ''" "c \<noteq> TAB"
  shows "hdr_step c p r =
    (let r' = (if rq_state r = H_LF then r else r\<lparr>rq_start := p\<rparr>)
     in if c = CHR ''C'' \<or> c = CHR ''c'' then to H_CONT_LEN1 r'
        else if c = CHR ''l'' \<or> c = CHR ''L'' then to H_L_COLON r' else to H_SKIP r', False)"
  using assms(1)
proof
  assume "rq_state r = H_LF"
  then show ?thesis using assms(2-) by (simp add: hdr_step_def step_lf_def content_len_beg_case_def)
next
  assume "rq_state r = H_SKIP_EMPTY"
  then show ?thesis using assms(2-) by (simp add: hdr_step_def step_skip_empty_def to_def)
qed

text \<open>A whole line, from its first character.\<close>

lemma line_from:
  assumes "rq_error r = TCP_REQ_OK" "rq_state r = H_LF \<or> rq_state r = H_SKIP_EMPTY"
    and "plain_line l" "has_content_len r \<and> rq_state r = H_LF \<or> \<not> has_content_len r \<and> other_line l"
  shows "scan (pre @ l @ CR # LF # rest) (length pre) r =
    scan (pre @ l @ CR # LF # rest) (length pre + length l + 2)
      (to H_LF (if rq_state r = H_LF then r else r\<lparr>rq_start := length pre\<rparr>))"
proof -
  let ?r = "if rq_state r = H_LF then r else r\<lparr>rq_start := length pre\<rparr>"
  obtain c t where l: "l = c # t" using assms(3) by (cases l) (auto simp: plain_line_def)
  have c: "c \<noteq> LF" "c \<noteq> CR" "LF \<notin> set t" using assms(3) l by (auto simp: plain_line_def)
  have st: "rq_state r \<noteq> H_BODY" "rq_state r \<noteq> H_SKIP" using assms(2) by auto
  have toto: "to s (to s' q) = to s q" for s s' q by (simp add: to_def)
  have ok: "rq_error ?r = TCP_REQ_OK" using assms(1) by simp
  have skip: ?thesis if "hdr_step c (length pre) r = (to H_SKIP ?r, False)"
    using scan_char [OF assms(1) st that, of "t @ CR # LF # rest"] ok c
      skip_line [of "to H_SKIP ?r" "t @ [CR]" "pre @ [c]" rest] by (simp add: l toto)
  have name: ?thesis if "hdr_step c (length pre) r = (to (cl_states ! i) ?r, False)"
      "i \<le> 13" "\<not> spells (name_of t) (drop i cl_letters)" for i
    using scan_char [OF assms(1) st that(1), of "t @ CR # LF # rest"] ok c that
      name_mismatch [of i "to (cl_states ! i) ?r" t "pre @ [c]" rest] by (simp add: l toto)
  show ?thesis
  proof (cases "has_content_len r")
    case True
    with assms(2,4) have "rq_state r = H_LF" by auto
    with True c have "hdr_step c (length pre) r = (to H_SKIP ?r, False)"
      by (simp add: hdr_step_def step_lf_def content_len_beg_case_def)
    then show ?thesis by (rule skip)
  next
    case False
    then have o: "c \<noteq> CHR '' ''" "c \<noteq> TAB" "\<not> is_len_name l" using assms(4) l by (auto simp: other_line_def)
    note hs = line_first_char [OF assms(2) False c(1,2) o(1,2), of "length pre"]
    consider "c = CHR ''C'' \<or> c = CHR ''c''" | "c = CHR ''l'' \<or> c = CHR ''L''"
      | "\<not> (c = CHR ''C'' \<or> c = CHR ''c'')" "\<not> (c = CHR ''l'' \<or> c = CHR ''L'')" by blast
    then show ?thesis
    proof cases
      case 1
      then have "\<not> spells (name_of t) (drop 0 cl_letters)" using o(3) l
        by (auto simp: is_len_name_def name_of_def spells_Cons)
      moreover have "hdr_step c (length pre) r = (to (cl_states ! 0) ?r, False)"
        using hs 1 by (simp add: cl_states_def)
      ultimately show ?thesis by (intro name [of 0]) simp_all
    next
      case 2
      then have "\<not> spells (name_of t) (drop 13 cl_letters)" using o(3) l cl_len
        by (auto simp: is_len_name_def name_of_def spells_Cons)
      moreover have "hdr_step c (length pre) r = (to (cl_states ! 13) ?r, False)"
        using hs 2 by (auto simp: cl_states_def)
      ultimately show ?thesis by (intro name [of 13]) simp_all
    next
      case 3
      with hs show ?thesis by (intro skip) simp
    qed
  qed
qed

lemma lines_text_simps [simp]: "lines_text [] = []" "lines_text (l # ls) = l @ CR # LF # lines_text ls"
  by (simp_all add: lines_text_def)

lemma lines_from:
  "rq_error r = TCP_REQ_OK \<Longrightarrow> rq_state r = H_LF \<Longrightarrow> list_all plain_line ls \<Longrightarrow>
   has_content_len r \<or> list_all other_line ls \<Longrightarrow>
   scan (pre @ lines_text ls @ rest) (length pre) r =
     scan (pre @ lines_text ls @ rest) (length pre + length (lines_text ls)) r"
proof (induction ls arbitrary: pre)
  case (Cons l ls)
  have r: "to H_LF r = r" using Cons.prems(2) by (simp add: to_def)
  have "scan (pre @ l @ CR # LF # lines_text ls @ rest) (length pre) r =
      scan (pre @ l @ CR # LF # lines_text ls @ rest) (length pre + length l + 2) r"
    using line_from [of r l pre "lines_text ls @ rest"] Cons.prems r by auto
  moreover have "has_content_len r \<or> list_all other_line ls" using Cons.prems(4) by auto
  ultimately show ?case using Cons.IH [of "pre @ l @ [CR, LF]"] Cons.prems by (simp add: add.assoc)
qed simp

text \<open>Steps over known characters that neither skip nor finish.\<close>

fun hdr_run :: "string \<Rightarrow> nat \<Rightarrow> tcp_req \<Rightarrow> tcp_req option" where
  "hdr_run [] p r = Some r"
| "hdr_run (c # cs) p r =
     (if rq_error r = TCP_REQ_OK \<and> rq_state r \<noteq> H_BODY \<and> rq_state r \<noteq> H_SKIP
      then (case hdr_step c p r of (r', d) \<Rightarrow> if d then None else hdr_run cs (Suc p) r') else None)"

lemma scan_run:
  "hdr_run cs (length pre) r = Some r' \<Longrightarrow>
   scan (pre @ cs @ rest) (length pre) r = scan (pre @ cs @ rest) (length pre + length cs) r'"
proof (induction cs arbitrary: pre r)
  case (Cons c cs)
  obtain r1 d where h: "hdr_step c (length pre) r = (r1, d)" by fastforce
  with Cons.prems have st: "rq_error r = TCP_REQ_OK" "rq_state r \<noteq> H_BODY" "rq_state r \<noteq> H_SKIP" "\<not> d"
    "hdr_run cs (Suc (length pre)) r1 = Some r'" by (auto split: if_splits)
  with Cons.IH [of "pre @ [c]" r1] scan_char [of r c pre r1 "cs @ rest"] h show ?case by simp
qed simp

lemma hdr_run_append:
  "hdr_run (xs @ ys) p r = Option.bind (hdr_run xs p r) (hdr_run ys (p + length xs))"
  by (induction xs arbitrary: p r) (auto split: prod.split)

lemma i32_step: "i32 (i32 a * 10 + b) = i32 (a * 10 + b)"
proof -
  have "(word_of_int (i32 a * 10 + b) :: 32 word) = word_of_int (a * 10 + b)"
    by (simp add: i32_def)
  then show ?thesis by (simp add: i32_def)
qed

lemma digits_run:
  "rq_error r = TCP_REQ_OK \<Longrightarrow> rq_state r = H_CONT_LEN_BODY_PARSE \<Longrightarrow> content_len r = i32 (int n) \<Longrightarrow>
   list_all digit ds \<Longrightarrow> hdr_run ds p r = Some (r\<lparr>content_len := i32 (int (dec_val n ds))\<rparr>)"
proof (induction ds arbitrary: n p r)
  case (Cons d ds)
  have "i32 (int n * 10 + int (dig d)) = i32 (int (10 * n + dig d))" by (simp add: algebra_simps)
  with Cons show ?case
    using Cons.IH [of "r\<lparr>content_len := i32 (int (10 * n + dig d))\<rparr>" "10 * n + dig d"]
    by (simp add: hdr_step_def step_len_parse_def i32_step)
qed simp

lemma small_i32: "0 \<le> x \<Longrightarrow> x < 2 ^ 31 \<Longrightarrow> i32 x = x"
  by (rule i32_id) simp_all

lemma dig_small: "digit d \<Longrightarrow> dig d < 10"
  unfolding dig_def by linarith

lemma length_line:
  assumes "rq_error r = TCP_REQ_OK" "rq_state r = H_LF" "\<not> has_content_len r" "ds \<noteq> []" "list_all digit ds"
  shows "hdr_run (''Content-Length: '' @ ds @ [CR]) p r =
    Some ((to H_SKIP r)\<lparr>content_len := i32 (int (dec_val 0 ds)), has_content_len := True\<rparr>)"
proof -
  obtain d ds' where ds: "ds = d # ds'" using assms(4) by (cases ds) auto
  have d: "digit d" "d \<noteq> CHR '' ''" "d \<noteq> TAB" "list_all digit ds'" using assms(5) ds by auto
  have name: "hdr_run ''Content-Length: '' q r = Some (to H_CONT_LEN_BODY r)" for q
    using assms(1-3)
    by (simp add: hdr_step_def step_lf_def content_len_beg_case_def change_state_def step_l_colon_def step_len_body_def
        to_def)
  have "int (dig d) = i32 (int (dig d))" using dig_small [OF d(1)] by (simp add: small_i32)
  then have first: "hdr_step d q (to H_CONT_LEN_BODY r) =
      ((to H_CONT_LEN_BODY_PARSE r)\<lparr>content_len := i32 (int (dig d))\<rparr>, False)" for q
    using d by (simp add: hdr_step_def step_len_body_def to_def)
  have rest: "hdr_run ds' q ((to H_CONT_LEN_BODY_PARSE r)\<lparr>content_len := i32 (int (dig d))\<rparr>) =
      Some ((to H_CONT_LEN_BODY_PARSE r)\<lparr>content_len := i32 (int (dec_val (dig d) ds'))\<rparr>)" for q
    using digits_run [of "(to H_CONT_LEN_BODY_PARSE r)\<lparr>content_len := i32 (int (dig d))\<rparr>" "dig d" ds'] assms(1) d
    by simp
  have cr: "hdr_step CR q ((to H_CONT_LEN_BODY_PARSE r)\<lparr>content_len := x\<rparr>) =
      ((to H_SKIP r)\<lparr>content_len := x, has_content_len := True\<rparr>, False)" for q x
    by (simp add: hdr_step_def step_len_parse_def to_def)
  have all: "hdr_run (ds' @ [CR]) q ((to H_CONT_LEN_BODY_PARSE r)\<lparr>content_len := i32 (int (dig d))\<rparr>) =
      Some ((to H_SKIP r)\<lparr>content_len := i32 (int (dec_val (dig d) ds')), has_content_len := True\<rparr>)" for q
    using assms(1) by (simp add: hdr_run_append rest cr)
  have "hdr_run (d # ds' @ [CR]) q (to H_CONT_LEN_BODY r) =
      hdr_run (ds' @ [CR]) (Suc q) ((to H_CONT_LEN_BODY_PARSE r)\<lparr>content_len := i32 (int (dig d))\<rparr>)" for q
    using assms(1) first by simp
  then show ?thesis
    unfolding hdr_run_append [of "''Content-Length: ''"] name by (simp add: ds all)
qed


definition after_head :: "string list \<Rightarrow> string \<Rightarrow> string list \<Rightarrow> tcp_req" where
  "after_head ls1 ds ls2 =
     (let v = i32 (int (dec_val 0 ds))
      in init_tcp_req\<lparr>content_len := v, has_content_len := True, rq_state := H_BODY,
           rq_body := Some (length (head_text ls1 ds ls2)), bytes_to_go := v, complete := (v = 0)\<rparr>)"

lemma head_scan:
  assumes "good_head ls1 ds ls2"
  defines "h \<equiv> head_text ls1 ds ls2"
  shows "scan (h @ rest) 0 init_tcp_req =
    (if i32 (int (dec_val 0 ds)) = 0 then (int (length h), after_head ls1 ds ls2)
     else scan (h @ rest) (length h) (after_head ls1 ds ls2))"
proof -
  obtain l ls where ls1: "ls1 = l # ls" using assms(1) by (cases ls1) (auto simp: good_head_def)
  have H: "other_line l" "list_all other_line ls" "ds \<noteq> []" "list_all digit ds" "list_all plain_line ls2"
    "plain_line l" "list_all plain_line ls"
    using assms(1) ls1 by (auto simp: good_head_def other_line_def list_all_iff)
  let ?v = "i32 (int (dec_val 0 ds))"
  let ?r1 = "to H_LF init_tcp_req"
  let ?r2 = "?r1\<lparr>content_len := ?v, has_content_len := True\<rparr>"
  define A B C D where "A = l @ [CR, LF]" and "B = lines_text ls" and "C = ''Content-Length: '' @ ds @ [CR]"
    and "D = lines_text ls2"
  note parts = A_def B_def C_def D_def
  have h: "h = A @ B @ C @ LF # D @ [CR, LF]"
    by (simp add: h_def head_text_def ls1 parts)
  have buf: "h @ rest = A @ B @ C @ LF # D @ CR # LF # rest" by (simp add: h)
  have init: "rq_error init_tcp_req = TCP_REQ_OK" "rq_state init_tcp_req = H_SKIP_EMPTY" "\<not> has_content_len init_tcp_req"
    "init_tcp_req\<lparr>rq_start := 0\<rparr> = init_tcp_req"
    by (simp_all add: init_tcp_req_def)
  have 1: "scan (h @ rest) 0 init_tcp_req = scan (h @ rest) (length A) ?r1"
    using line_from [of init_tcp_req l "[]" "B @ C @ LF # D @ CR # LF # rest"] H init by (simp add: buf A_def)
  have 2: "scan (h @ rest) (length A) ?r1 = scan (h @ rest) (length (A @ B)) ?r1"
    using lines_from [of ?r1 ls A "C @ LF # D @ CR # LF # rest"] H init by (simp add: buf B_def)
  let ?skip = "(to H_SKIP ?r1)\<lparr>content_len := ?v, has_content_len := True\<rparr>"
  have 3: "scan (h @ rest) (length (A @ B)) ?r1 = scan (h @ rest) (length (A @ B @ C)) ?skip"
  proof -
    have "hdr_run C (length (A @ B)) ?r1 = Some ?skip"
      unfolding C_def by (rule length_line) (use H init in simp_all)
    from scan_run [OF this, of "LF # D @ CR # LF # rest"] show ?thesis by (simp add: buf add.assoc)
  qed
  have skip_to: "to H_LF ?skip = ?r2" by (simp add: to_def init_tcp_req_def)
  have 4: "scan (h @ rest) (length (A @ B @ C)) ?skip = scan (h @ rest) (length (A @ B @ C @ [LF])) ?r2"
    using skip_line [of ?skip "[]" "A @ B @ C" "D @ CR # LF # rest"] init skip_to by (simp add: buf add.assoc)
  have 5: "scan (h @ rest) (length (A @ B @ C @ [LF])) ?r2 = scan (h @ rest) (length (A @ B @ C @ LF # D)) ?r2"
    using lines_from [of ?r2 ls2 "A @ B @ C @ [LF]" "CR # LF # rest"] H init by (simp add: buf add.assoc D_def)
  let ?E = "A @ B @ C @ LF # D"
  have 6: "scan (h @ rest) (length ?E) ?r2 = scan (h @ rest) (length (?E @ [CR])) (to H_LFCR ?r2)"
    using scan_char [of ?r2 CR ?E "to H_LFCR ?r2" "LF # rest"] init
    by (simp add: buf hdr_step_def step_lf_def)
  have len: "length h = length (?E @ [CR]) + 1" by (simp add: h)
  have at: "(h @ rest) ! length (?E @ [CR]) = LF"
    using nth_append_length [of "?E @ [CR]" LF rest] by (simp add: buf)
  have "hdr_step LF (length (?E @ [CR])) (to H_LFCR ?r2) = (after_head ls1 ds ls2, ?v = 0)"
    using init len by (simp add: hdr_step_def end_of_header_def after_head_def to_def h_def [symmetric] init_tcp_req_def Let_def)
  then have 7: "scan (h @ rest) (length (?E @ [CR])) (to H_LFCR ?r2) =
      (if ?v = 0 then (int (length h), after_head ls1 ds ls2) else scan (h @ rest) (length h) (after_head ls1 ds ls2))"
    using scan_step [of "length (?E @ [CR])" "h @ rest" "to H_LFCR ?r2"] at len init by simp
  show ?thesis using 1 2 3 4 5 6 7 by simp
qed

definition good_msg :: "string \<Rightarrow> bool" where
  "good_msg m \<longleftrightarrow>
     (\<exists>ls1 ds ls2 body. good_head ls1 ds ls2 \<and> dec_val 0 ds = length body \<and> length body < 2 ^ 31 \<and>
        m = head_text ls1 ds ls2 @ body)"

lemma good_msg_nonempty: "good_msg m \<Longrightarrow> m \<noteq> []"
  by (auto simp: good_msg_def head_text_def)

lemma good_msg_scan:
  assumes "good_msg m"
  obtains r where "scan (m @ rest) 0 init_tcp_req = (int (length m), r)" "complete r" "has_content_len r"
    "rq_error r = TCP_REQ_OK" "rq_start r = 0"
proof -
  obtain ls1 ds ls2 body where g: "good_head ls1 ds ls2" "dec_val 0 ds = length body" "length body < 2 ^ 31"
    and m: "m = head_text ls1 ds ls2 @ body" using assms by (auto simp: good_msg_def)
  let ?r = "after_head ls1 ds ls2"
  have v: "i32 (int (dec_val 0 ds)) = int (length body)" using g by (simp add: small_i32)
  have r: "rq_error ?r = TCP_REQ_OK" "rq_state ?r = H_BODY" "bytes_to_go ?r = int (length body)" "has_content_len ?r"
    "rq_start ?r = 0" "complete ?r \<longleftrightarrow> body = []"
    using v by (simp_all add: after_head_def init_tcp_req_def Let_def)
  note s = head_scan [OF g(1), of "body @ rest", unfolded v]
  show thesis
  proof (cases "body = []")
    case True
    with s r m that [of ?r] show thesis by simp
  next
    case False
    then have "length (head_text ls1 ds ls2) < length (head_text ls1 ds ls2 @ body @ rest)" by simp
    from scan_body [OF this r(1,2)] s r m False that [of "?r\<lparr>bytes_to_go := 0, complete := True\<rparr>"]
    show thesis by (simp add: min_def split: if_splits)
  qed
qed

lemma scan_le: "scan buf p r = (q, r') \<Longrightarrow> p \<le> length buf \<Longrightarrow> q \<le> int (length buf)"
proof (induction "length buf - p" arbitrary: p r rule: less_induct)
  case less
  show ?case
  proof (cases "p < length buf \<and> rq_error r = TCP_REQ_OK")
    case False
    from scan_stop [OF this] less.prems show ?thesis by simp
  next
    case True
    then have p: "p < length buf" and ok: "rq_error r = TCP_REQ_OK" by simp_all
    consider "rq_state r = H_BODY" | "rq_state r = H_SKIP" | "rq_state r \<noteq> H_BODY" "rq_state r \<noteq> H_SKIP" by blast
    then show ?thesis
    proof cases
      case 1
      with scan_body [OF p ok] less.prems show ?thesis by (auto simp: Let_def)
    next
      case 2
      show ?thesis
      proof (cases "memchr LF (drop p buf)")
        case None
        with scan_skip [OF p ok 2] less.prems show ?thesis by auto
      next
        case (Some i)
        then have "p + i + 1 \<le> length buf" using memchr_SomeD [OF Some] p by auto
        with Some scan_skip [OF p ok 2] less.prems less.hyps [of "p + i + 1" "to H_LF r"] p show ?thesis by simp
      qed
    next
      case 3
      obtain r1 d where "hdr_step (buf ! p) p r = (r1, d)" by fastforce
      with scan_step [OF p ok 3] less.prems less.hyps [of "p + 1" r1] p show ?thesis by (cases d) auto
    qed
  qed
qed

lemma prefix_unfinished:
  assumes "good_msg (b @ x)" "x \<noteq> []"
  shows "\<not> finished (fed b)"
proof
  assume f: "finished (fed b)"
  obtain p r where s: "scan b 0 init_tcp_req = (p, r)" by fastforce
  obtain r' where "scan ((b @ x) @ []) 0 init_tcp_req = (int (length (b @ x)), r')"
    by (rule good_msg_scan [OF assms(1)])
  moreover have "scan (b @ x) 0 init_tcp_req = (p, r)"
    using f s by (intro scan_final [OF s]) (simp_all add: fed_def)
  ultimately have "p = int (length (b @ x))" by simp
  with scan_le [OF s] assms(2) show False by simp
qed

lemma fed_Nil: "fed [] = init_tcp_req" "\<not> finished (fed [])"
  by (simp_all add: fed_def scan_stop place_def init_tcp_req_def finished_def)

lemma read_fresh:
  assumes "tc_req c = init_tcp_req\<lparr>rq_buf := y\<rparr>" "y \<noteq> []"
  shows "tcp_read_headers c = (0, c\<lparr>tc_req := fed y\<rparr>)"
proof -
  have i: "init_tcp_req\<lparr>rq_buf := y\<rparr> = place y 0 init_tcp_req" by (simp add: place_def init_tcp_req_def)
  obtain p r where s: "scan y 0 init_tcp_req = (p, r)" by fastforce
  have "scan y 0 (tc_req c) = (p, place y 0 r)" using assms(1) i s by (simp add: scan_place)
  moreover have "(place y 0 r)\<lparr>rq_parsed := p\<rparr> = fed y" by (simp add: fed_def s place_def)
  moreover have "rq_buf (tc_req c) = y" "rq_parsed (tc_req c) = 0" using assms(1) by (simp_all add: init_tcp_req_def)
  ultimately show ?thesis using assms(2) by (simp add: tcp_read_headers_def)
qed

text \<open>The rounds over complete messages in the buffer.\<close>

lemma rounds:
  "tc_req c = init_tcp_req\<lparr>rq_buf := concat ms @ b\<rparr> \<Longrightarrow> concat ms @ b \<noteq> [] \<Longrightarrow> tc_state c = S_CONN_OK \<Longrightarrow>
   list_all good_msg ms \<Longrightarrow> \<not> finished (fed b) \<Longrightarrow> list_all (\<lambda>m. recv m (int (length m))) ms \<Longrightarrow> fuel > length ms \<Longrightarrow>
   tcp_read_req recv fuel c =
     Done (CONN_RELEASE, c\<lparr>delivered := delivered c @ map (\<lambda>m. (m, int (length m))) ms, tc_req := fed b\<rparr>)"
proof (induction ms arbitrary: c fuel)
  case Nil
  then obtain n where "fuel = Suc n" by (cases fuel) auto
  with Nil read_fresh [OF Nil.prems(1)] show ?case by (simp add: finished_def init_tcp_req_def Let_def)
next
  case (Cons m ms)
  then obtain n where n: "fuel = Suc n" "n > length ms" by (cases fuel) auto
  let ?y = "concat ms @ b"
  obtain r where s: "scan (m @ ?y) 0 init_tcp_req = (int (length m), r)" "complete r" "has_content_len r"
    "rq_error r = TCP_REQ_OK" "rq_start r = 0"
    by (rule good_msg_scan [of m ?y]) (use Cons.prems in auto)
  have f: "fed (m @ ?y) = place (m @ ?y) (int (length m)) r" using s by (simp add: fed_def)
  note rd = read_fresh [OF Cons.prems(1,2)]
  let ?c = "c\<lparr>delivered := delivered c @ [(m, int (length m))], tc_req := init_tcp_req\<lparr>rq_buf := ?y\<rparr>\<rparr>"
  have nx: "next_request (fed (m @ ?y)) = init_tcp_req\<lparr>rq_buf := ?y\<rparr>"
    by (simp add: next_request_def f)
  have run: "tcp_read_req recv fuel c =
      (if ?y \<noteq> [] then tcp_read_req recv n ?c else Done (CONN_RELEASE, ?c))"
    using rd s Cons.prems n f nx by (simp add: init_tcp_req_def Let_def)
  show ?case
  proof (cases "?y = []")
    case True
    moreover have "ms = []" using True Cons.prems(4) good_msg_nonempty by (cases ms) auto
    ultimately show ?thesis unfolding run by (simp add: fed_Nil init_tcp_req_def)
  next
    case False
    from Cons.IH [of ?c n] False Cons.prems n show ?thesis unfolding run by simp
  qed
qed


text \<open>
  The connection between two reads: the messages delivered so far and a part of the next
  one.
\<close>

definition between :: "string \<Rightarrow> tcp_connection \<Rightarrow> bool" where
  "between b c \<longleftrightarrow> tc_req c = fed b \<and> \<not> finished (fed b) \<and> tc_state c = S_CONN_OK"

lemma read_data:
  assumes "between b c" "x \<noteq> []" "length b + length x \<le> TCP_BUF_SIZE"
  shows "tcp_read_req recv fuel (c\<lparr>tc_input := [Data x]\<rparr>) =
    tcp_read_req recv fuel (c\<lparr>tc_input := [], tc_req := init_tcp_req\<lparr>rq_buf := b @ x\<rparr>\<rparr>)"
proof (cases fuel)
  case (Suc n)
  let ?c = "c\<lparr>tc_input := [Data x]\<rparr>" and ?d = "c\<lparr>tc_input := [], tc_req := init_tcp_req\<lparr>rq_buf := b @ x\<rparr>\<rparr>"
  have b: "tc_req c = fed b" "\<not> finished (fed b)" using assms(1) by (simp_all add: between_def)
  have e: "rq_error (fed b) = TCP_REQ_OK" using b(2) by (simp add: finished_def)
  have len: "length b < TCP_BUF_SIZE" using assms(2,3) by (cases x) simp_all
  have rd: "tcp_read ?c = (int (length x), c\<lparr>tc_input := [], tc_req := place (b @ x) (int (length b)) (fed b)\<rparr>)"
    using b fed_parsed [OF b(2)] assms(2,3) len by (auto simp: tcp_read_def Let_def place_def)
  obtain p r where s: "scan (b @ x) (length b) (place (b @ x) (int (length b)) (fed b)) = (p, r)" by fastforce
  have "r\<lparr>rq_parsed := p\<rparr> = fed (b @ x)" using fed_more [OF b(2), of x "int (length b)"] s by simp
  then have "tcp_read_headers ?c = (int (length x), c\<lparr>tc_input := [], tc_req := fed (b @ x)\<rparr>)"
    using b fed_parsed [OF b(2)] rd s assms(2) by (simp add: tcp_read_headers_def)
  moreover have "tcp_read_headers ?d = (0, c\<lparr>tc_input := [], tc_req := fed (b @ x)\<rparr>)"
    using read_fresh [of ?d "b @ x"] assms(2) by simp
  moreover have "rq_error (init_tcp_req\<lparr>rq_buf := b @ x\<rparr>) = TCP_REQ_OK" by (simp add: init_tcp_req_def)
  ultimately show ?thesis using Suc b e by simp
qed simp

lemma prefix_split:
  "y @ z = concat ms \<Longrightarrow> \<exists>ms1 ms2 b. ms = ms1 @ ms2 \<and> y = concat ms1 @ b \<and> b @ z = concat ms2 \<and>
     (b = [] \<or> (\<exists>m ms3 x. ms2 = m # ms3 \<and> m = b @ x \<and> x \<noteq> []))"
proof (induction ms arbitrary: y)
  case Nil
  then show ?case by simp
next
  case (Cons m ms)
  show ?case
  proof (cases "length m \<le> length y")
    case True
    with Cons.prems obtain y' where y: "y = m @ y'" "y' @ z = concat ms"
      by (auto simp: append_eq_append_conv2)
    from Cons.IH [OF y(2)] obtain ms1 ms2 b where i: "ms = ms1 @ ms2" "y' = concat ms1 @ b" "b @ z = concat ms2"
      "b = [] \<or> (\<exists>m ms3 x. ms2 = m # ms3 \<and> m = b @ x \<and> x \<noteq> [])" by blast
    then show ?thesis using y by (intro exI [of _ "m # ms1"] exI [of _ ms2] exI [of _ b]) simp
  next
    case False
    with Cons.prems obtain x where "m = y @ x" "x \<noteq> []" by (auto simp: append_eq_append_conv2)
    then show ?thesis using Cons.prems by (intro exI [of _ "[]"] exI [of _ "m # ms"] exI [of _ y]) auto
  qed
qed

text \<open>The connection becomes readable once for each piece of the stream.\<close>

fun serve :: "(string \<Rightarrow> int \<Rightarrow> bool) \<Rightarrow> nat \<Rightarrow> tcp_connection \<Rightarrow> string list \<Rightarrow> (conn_resp \<times> tcp_connection) outcome" where
  "serve recv fuel c [] = Done (CONN_RELEASE, c)"
| "serve recv fuel c (x # xs) =
     (case tcp_read_req recv fuel (c\<lparr>tc_input := [Data x]\<rparr>) of
        Done (CONN_RELEASE, c) \<Rightarrow> serve recv fuel c xs
      | other \<Rightarrow> other)"

lemma serve_stream:
  "between b c \<Longrightarrow> b @ concat xs = concat ms \<Longrightarrow> list_all good_msg ms \<Longrightarrow>
   list_all (\<lambda>m. recv m (int (length m))) ms \<Longrightarrow> [] \<notin> set xs \<Longrightarrow> fuel > length ms \<Longrightarrow>
   (b = [] \<or> (\<exists>m \<in> set ms. length b \<le> length m)) \<Longrightarrow>
   \<forall>m \<in> set ms. \<forall>x \<in> set xs. length m + length x \<le> TCP_BUF_SIZE \<Longrightarrow>
   \<exists>c'. serve recv fuel c xs = Done (CONN_RELEASE, c') \<and>
     delivered c' = delivered c @ map (\<lambda>m. (m, int (length m))) ms"
proof (induction xs arbitrary: b c ms)
  case Nil
  have "ms = []"
  proof (cases ms)
    case (Cons m ms')
    then have "good_msg m" using Nil.prems(3) by simp
    from good_msg_scan [OF this, of "concat ms'"] obtain r where
      "scan (m @ concat ms') 0 init_tcp_req = (int (length m), r)" "complete r" by blast
    then have "finished (fed b)" using Nil.prems(2) Cons by (simp add: fed_def finished_def)
    with Nil.prems(1) show ?thesis by (simp add: between_def)
  qed
  then show ?case by simp
next
  case (Cons x xs)
  have x: "x \<noteq> []" using Cons.prems(5) by auto
  have "(b @ x) @ concat xs = concat ms" using Cons.prems(2) by simp
  from prefix_split [OF this] obtain ms1 ms2 b' where sp: "ms = ms1 @ ms2" "b @ x = concat ms1 @ b'"
    "b' @ concat xs = concat ms2" "b' = [] \<or> (\<exists>m ms3 x. ms2 = m # ms3 \<and> m = b' @ x \<and> x \<noteq> [])" by blast
  have unf: "\<not> finished (fed b')"
    using sp(4)
  proof
    assume "b' = []"
    then show ?thesis by (simp add: fed_Nil)
  next
    assume "\<exists>m ms3 x. ms2 = m # ms3 \<and> m = b' @ x \<and> x \<noteq> []"
    then obtain m ms3 x where "ms2 = m # ms3" "m = b' @ x" "x \<noteq> []" by blast
    with prefix_unfinished [of b' x] sp(1) Cons.prems(3) show ?thesis by simp
  qed
  have size: "length b + length x \<le> TCP_BUF_SIZE"
  proof (cases "b = []")
    case True
    obtain m where "m \<in> set ms" using Cons.prems(2) x by (cases ms) auto
    with Cons.prems(8) True show ?thesis by force
  next
    case False
    with Cons.prems(7,8) show ?thesis by force
  qed
  have ne: "concat ms1 @ b' \<noteq> []" using sp(2) x by (metis append_is_Nil_conv)
  let ?c = "c\<lparr>tc_input := [], delivered := delivered c @ map (\<lambda>m. (m, int (length m))) ms1, tc_req := fed b'\<rparr>"
  have "tcp_read_req recv fuel (c\<lparr>tc_input := [], tc_req := init_tcp_req\<lparr>rq_buf := b @ x\<rparr>\<rparr>) = Done (CONN_RELEASE, ?c)"
    using ne rounds [of "c\<lparr>tc_input := [], tc_req := init_tcp_req\<lparr>rq_buf := b @ x\<rparr>\<rparr>" ms1 b' recv fuel] sp Cons.prems x unf
    by (simp add: between_def)
  then have run: "serve recv fuel c (x # xs) = serve recv fuel ?c xs"
    using read_data [OF Cons.prems(1) x size] by simp
  have "\<exists>c'. serve recv fuel ?c xs = Done (CONN_RELEASE, c') \<and>
      delivered c' = delivered ?c @ map (\<lambda>m. (m, int (length m))) ms2"
  proof (rule Cons.IH [of b'])
    show "between b' ?c" using unf Cons.prems(1) by (simp add: between_def)
    show "b' @ concat xs = concat ms2" by (rule sp(3))
    show "list_all good_msg ms2" "list_all (\<lambda>m. recv m (int (length m))) ms2" "[] \<notin> set xs" "fuel > length ms2"
      using Cons.prems sp(1) by simp_all
    show "b' = [] \<or> (\<exists>m \<in> set ms2. length b' \<le> length m)" using sp(4) by auto
    show "\<forall>m \<in> set ms2. \<forall>x \<in> set xs. length m + length x \<le> TCP_BUF_SIZE" using Cons.prems(8) sp(1) by simp
  qed
  with run sp(1) show ?case by auto
qed

subsection \<open>The connection never loops for ever\<close>

lemma scan_buf: "scan buf p r = (q, r') \<Longrightarrow> rq_buf r' = rq_buf r"
proof -
  have "place (rq_buf r) (rq_parsed r) r = r" by (simp add: place_def)
  then show "scan buf p r = (q, r') \<Longrightarrow> rq_buf r' = rq_buf r"
    using scan_place [of buf p "rq_buf r" "rq_parsed r" r] by (metis apsnd_conv place_simps(7) snd_conv surj_pair)
qed

lemma read_loop_le: "read_loop n es = ((k, s, ev), es') \<Longrightarrow> length s \<le> n"
  by (induction n es arbitrary: k s ev es' rule: read_loop.induct) auto

lemma tcp_read_size:
  assumes "tcp_read c = (n, c')" "length (rq_buf (tc_req c)) \<le> TCP_BUF_SIZE"
  shows "length (rq_buf (tc_req c')) \<le> TCP_BUF_SIZE"
  using assms read_loop_le
  by (fastforce simp: tcp_read_def Let_def split: prod.splits if_splits)

lemma tcp_read_headers_size:
  assumes "tcp_read_headers c = (n, c')" "length (rq_buf (tc_req c)) \<le> TCP_BUF_SIZE"
  shows "length (rq_buf (tc_req c')) \<le> TCP_BUF_SIZE"
  using assms tcp_read_size
  by (fastforce simp: tcp_read_headers_def dest: scan_buf split: prod.splits if_splits)

lemma again_shrinks:
  assumes pos: "\<And>msg len. recv msg len \<Longrightarrow> 0 < len"
    and rd: "tcp_read_headers c = (n, c')"
    and loop: "tcp_read_req recv (Suc fuel) c = Out_of_fuel"
    and ok: "rq_error (tc_req c) = TCP_REQ_OK"
  obtains d where "tcp_read_req recv fuel d = Out_of_fuel" "rq_parsed (tc_req d) = 0" "rq_buf (tc_req d) \<noteq> []"
    "length (rq_buf (tc_req d)) < length (rq_buf (tc_req c'))"
proof -
  let ?r = "tc_req c'"
  let ?len = "rq_parsed ?r - int (rq_start ?r)"
  let ?msg = "take (nat ?len) (drop (rq_start ?r) (rq_buf ?r))"
  let ?d = "c'\<lparr>delivered := delivered c' @ [(?msg, ?len)], tc_req := next_request ?r\<rparr>"
  have "recv ?msg ?len \<and> \<not> rq_parsed ?r < 0 \<and> length (rq_buf ?r) - nat (rq_parsed ?r) \<noteq> 0 \<and>
      tcp_read_req recv fuel ?d = Out_of_fuel"
    using loop rd ok by (simp add: Let_def split: if_splits)
  moreover from this have "0 < ?len" using pos by blast
  ultimately show thesis
    by (intro that [of ?d]) (auto simp: next_request_def init_tcp_req_def)
qed


lemma buffered_terminates:
  assumes "\<And>msg len. recv msg len \<Longrightarrow> 0 < len"
  shows "rq_parsed (tc_req c) = 0 \<Longrightarrow> rq_buf (tc_req c) \<noteq> [] \<Longrightarrow> length (rq_buf (tc_req c)) \<le> fuel \<Longrightarrow>
    tcp_read_req recv fuel c \<noteq> Out_of_fuel"
proof (induction fuel arbitrary: c)
  case (Suc fuel)
  show ?case
  proof
    assume loop: "tcp_read_req recv (Suc fuel) c = Out_of_fuel"
    then have ok: "rq_error (tc_req c) = TCP_REQ_OK" by (auto simp: Let_def split: if_splits)
    obtain n c' where rd: "tcp_read_headers c = (n, c')" by fastforce
    have same: "rq_buf (tc_req c') = rq_buf (tc_req c)"
      using rd Suc.prems(1,2) by (auto simp: tcp_read_headers_def dest: scan_buf split: prod.splits)
    show False
      by (rule again_shrinks [OF assms rd loop ok]) (use same Suc in auto)
  qed
qed simp


text \<open>
  C8: However a stream of well-formed messages is cut into pieces by the network, each
  message is delivered exactly once, whole, in order, with its length.
\<close>

theorem tcp_stream_delivered:
  assumes "tc_req c = init_tcp_req" "tc_state c = S_CONN_OK" "concat pieces = concat msgs" "[] \<notin> set pieces"
    and "list_all good_msg msgs" "list_all (\<lambda>m. recv m (int (length m))) msgs"
    and "\<forall>m \<in> set msgs. \<forall>x \<in> set pieces. length m + length x \<le> 65535" "fuel > length msgs"
  shows "\<exists>c'. serve recv fuel c pieces = Done (CONN_RELEASE, c') \<and>
    delivered c' = delivered c @ map (\<lambda>m. (m, int (length m))) msgs"
  by (rule serve_stream [of "[]"]) (use assms fed_Nil in \<open>simp_all add: between_def\<close>)

text \<open>
  In the middle of a message, reading more bytes has exactly the effect of reading all
  bytes of the message so far at once, whatever the bytes are.
\<close>

theorem tcp_pieces_irrelevant:
  assumes "tc_req c = fed b" "\<not> finished (fed b)" "x \<noteq> []" "length b + length x \<le> 65535" "tc_state c = S_CONN_OK"
  shows "tcp_read_req recv fuel (c\<lparr>tc_input := [Data x]\<rparr>) =
    tcp_read_req recv fuel (c\<lparr>tc_input := [], tc_req := init_tcp_req\<lparr>rq_buf := b @ x\<rparr>\<rparr>)"
  by (rule read_data) (use assms in \<open>simp_all add: between_def\<close>)

lemma i32_wrap: "i32 v = i32 (v - 2 ^ 32)"
proof -
  have "take_bit 32 (v - 2 ^ 32) = take_bit 32 v" by (simp add: take_bit_eq_mod)
  then have "(word_of_int (v - 2 ^ 32) :: 32 word) = word_of_int v"
    by (simp only: word_of_int_eq_iff) simp
  then show ?thesis by (simp only: i32_def)
qed


subsection \<open>Examples\<close>

definition demo_conn :: tcp_connection where
  "demo_conn = \<lparr>tc_req = init_tcp_req, tc_state = S_CONN_OK, tc_input = [], delivered = []\<rparr>"

definition demo_options :: string where
  "demo_options = head_text [''OPTIONS sip:b SIP/2.0'', ''Call-ID: 1''] ''2'' [''CSeq: 1 OPTIONS''] @ ''hi''"

lemma demo_options_good: "good_msg demo_options"
proof -
  have "good_head [''OPTIONS sip:b SIP/2.0'', ''Call-ID: 1''] ''2'' [''CSeq: 1 OPTIONS'']" by code_simp
  then show ?thesis
    unfolding good_msg_def demo_options_def by (intro exI conjI, assumption) (simp_all add: dig_def)
qed

theorem tcp_stream_delivered_witness:
  "\<exists>c'. serve (\<lambda>_ _. True) 3 demo_conn [take 30 demo_options, drop 30 demo_options @ demo_options] =
       Done (CONN_RELEASE, c') \<and> map fst (delivered c') = [demo_options, demo_options]"
proof -
  let ?p = "[take 30 demo_options, drop 30 demo_options @ demo_options]"
  have "length demo_options = 75" "take 30 demo_options \<noteq> []" by code_simp+
  then have "\<forall>m \<in> set [demo_options, demo_options]. \<forall>x \<in> set ?p. length m + length x \<le> 65535" "[] \<notin> set ?p"
    by auto
  then show ?thesis
    using tcp_stream_delivered [of demo_conn ?p "[demo_options, demo_options]" "\<lambda>_ _. True" 3] demo_options_good
    by (auto simp: demo_conn_def)
qed

theorem tcp_pieces_irrelevant_witness:
  "tcp_read_req (\<lambda>_ _. True) 5 ((demo_conn\<lparr>tc_req := fed ''OPT''\<rparr>)\<lparr>tc_input := [Data ''IONS'']\<rparr>) =
   tcp_read_req (\<lambda>_ _. True) 5 ((demo_conn\<lparr>tc_req := fed ''OPT''\<rparr>)
     \<lparr>tc_input := [], tc_req := init_tcp_req\<lparr>rq_buf := ''OPT'' @ ''IONS''\<rparr>\<rparr>)"
proof -
  have "\<not> finished (fed ''OPT'')" by code_simp
  then show ?thesis
    using tcp_pieces_irrelevant [of "demo_conn\<lparr>tc_req := fed ''OPT''\<rparr>" "''OPT''" "''IONS''" "\<lambda>_ _. True" 5]
    by (simp add: demo_conn_def)
qed



end
