(* ===== verification/Ws_Uri.thy ===== *)
theory Ws_Uri
  imports Ut "HOL-Library.Monad_Syntax"
begin

section \<open>WorkSmart URIs: modules/worksmart/fun.c\<close>

text \<open>
  The dial plan works on user parts of the form type-command-group-context-token. The
  structure \<open>ws_uri\<close> holds a 100-byte buffer that is cut in place and pointers into it.
  A buffer is the list of its bytes, so that its length is its capacity; a string ends
  at its first zero byte. A write past the end of a buffer is \<open>None\<close>. What the database
  answers is a parameter.
\<close>

abbreviation (input) NUL :: char where "NUL \<equiv> CHR 0x00"
abbreviation (input) WS_SEPERATOR :: char where "WS_SEPERATOR \<equiv> CHR ''-''"

subsection \<open>C strings in buffers\<close>

definition cstr :: "string \<Rightarrow> string" where
  "cstr buf = takeWhile (\<lambda>c. c \<noteq> NUL) buf"

definition c_strncpy :: "string \<Rightarrow> string \<Rightarrow> nat \<Rightarrow> string" where
  "c_strncpy buf s n = take n (s @ replicate n NUL) @ drop n buf"

definition c_strcat :: "string \<Rightarrow> string \<Rightarrow> string option" where
  "c_strcat buf s =
     (let k = length (cstr buf)
      in if k + length s < length buf then Some (take k buf @ s @ NUL # drop (k + length s + 1) buf)
         else None)"

text \<open>\<open>snprintf\<close> of a string into an empty string of \<open>n\<close> bytes.\<close>

definition snprintf_s :: "nat \<Rightarrow> string \<Rightarrow> string" where
  "snprintf_s n s = take (n - 1) s"

definition isspace :: "char \<Rightarrow> bool" where
  "isspace c \<longleftrightarrow> c = CHR '' '' \<or> c \<in> {CHR 0x09, CHR 0x0A, CHR 0x0B, CHR 0x0C, CHR 0x0D}"

text \<open>\<open>atoi\<close> of the C library: \<open>strtol\<close> with a 64-bit \<open>long\<close>, cut to an \<open>int\<close>.\<close>

definition atoi :: "string \<Rightarrow> int" where
  "atoi s =
     (let s = dropWhile isspace s;
          neg = (s \<noteq> [] \<and> hd s = CHR ''-'');
          s = (if s \<noteq> [] \<and> (hd s = CHR ''-'' \<or> hd s = CHR ''+'') then tl s else s);
          v = int (dec_val 0 (takeWhile digit s))
      in i32 (if neg then max (- v) (- (2 ^ 63)) else min v (2 ^ 63 - 1)))"

fun strstr :: "string \<Rightarrow> string \<Rightarrow> bool" where
  "strstr [] sub = (sub = [])"
| "strstr (c # s) sub = (take (length sub) (c # s) = sub \<or> strstr s sub)"

subsection \<open>The structure and its five parts\<close>

text \<open>A pointer to a string: null, into the buffer of the structure, or to another string.\<close>

datatype ws_ptr = Null | Off nat | Str string

record ws_uri =
  ws_parsed :: string
  ws_type :: ws_ptr
  ws_command :: ws_ptr
  ws_group :: ws_ptr
  ws_context :: ws_ptr
  ws_token :: ws_ptr

definition zero_ws_uri :: ws_uri where
  "zero_ws_uri = \<lparr>ws_parsed = replicate 100 NUL, ws_type = Null, ws_command = Null, ws_group = Null,
     ws_context = Null, ws_token = Null\<rparr>"

definition ws_text :: "ws_uri \<Rightarrow> ws_ptr \<Rightarrow> string option" where
  "ws_text w p =
     (case p of Null \<Rightarrow> None | Off i \<Rightarrow> Some (cstr (drop i (ws_parsed w))) | Str s \<Rightarrow> Some s)"

definition strchr_at :: "string \<Rightarrow> nat \<Rightarrow> nat option" where
  "strchr_at buf i = map_option (\<lambda>k. i + k) (memchr WS_SEPERATOR (cstr (drop i buf)))"

definition strrchr_at :: "string \<Rightarrow> nat \<Rightarrow> nat option" where
  "strrchr_at buf i = map_option (\<lambda>k. i + k) (memrchr WS_SEPERATOR (cstr (drop i buf)))"

definition ws_cut :: "nat \<Rightarrow> ws_uri \<Rightarrow> ws_uri" where
  "ws_cut i w = w\<lparr>ws_parsed := (ws_parsed w)[i := NUL]\<rparr>"

definition split_ws_uri :: "ws_uri \<Rightarrow> bool \<times> ws_uri" where
  "split_ws_uri w =
     (case strchr_at (ws_parsed w) 0 of
        None \<Rightarrow> (False, w\<lparr>ws_type := Null\<rparr>)
      | Some i \<Rightarrow>
          let w = (ws_cut i w)\<lparr>ws_type := Off 0, ws_command := Off (i + 1)\<rparr>
          in (case strchr_at (ws_parsed w) (i + 1) of
                None \<Rightarrow> (False, w)
              | Some j \<Rightarrow>
                  let w = (ws_cut j w)\<lparr>ws_group := Off (j + 1)\<rparr>
                  in (case strchr_at (ws_parsed w) (j + 1) of
                        None \<Rightarrow> (False, w)
                      | Some k \<Rightarrow>
                          let w = (ws_cut k w)\<lparr>ws_context := Off (k + 1)\<rparr>
                          in (case strrchr_at (ws_parsed w) (k + 1) of
                                None \<Rightarrow> (False, w)
                              | Some l \<Rightarrow> (True, (ws_cut l w)\<lparr>ws_token := Off (l + 1)\<rparr>)))))"

definition parse_ws_uri_buffer :: "string \<Rightarrow> nat \<Rightarrow> int \<times> ws_uri" where
  "parse_ws_uri_buffer buffer nLength =
     (let s = snprintf_s 99 (take nLength buffer);
          w = zero_ws_uri\<lparr>ws_parsed := s @ replicate (100 - length s) NUL\<rparr>
      in (case split_ws_uri w of (ok, w) \<Rightarrow> (if ok then 0 else -1, w)))"

subsection \<open>Dialled numbers completed from the caller\<close>

text \<open>
  The From header of a request: missing, not parsable, or with the user part that
  \<open>parse_uri\<close> leaves in its result and the tag.
\<close>

datatype from_hdr = No_From | Bad_From | From (from_user: string) (from_tag: "string option")

definition bad_from :: "nat \<times> string" where
  "bad_from = (400, ''Bad Request Hint: From Header not framed properly'')"

text \<open>
  The site of the caller and the token are appended to the buffer. The result is whether
  this succeeds, the replies sent and the buffer.
\<close>

definition add_site :: "from_hdr \<Rightarrow> string \<Rightarrow> string \<Rightarrow> (bool \<times> (nat \<times> string) list \<times> string) option" where
  "add_site from token buf =
     (case from of
        No_From \<Rightarrow> None
      | Bad_From \<Rightarrow> Some (False, [bad_from], buf)
      | From user _ \<Rightarrow>
          (let extension = snprintf_s 255 user
           in case memchr WS_SEPERATOR extension of
                None \<Rightarrow> Some (False, [], buf)
              | Some i \<Rightarrow>
                  do {
                    buf \<leftarrow> c_strcat buf (drop (Suc i) extension);
                    buf \<leftarrow> c_strcat buf ''-'';
                    buf \<leftarrow> c_strcat buf token;
                    Some (True, [], buf)
                  }))"

definition x11_type :: "int \<Rightarrow> string" where
  "x11_type n =
     (if n = 311 then ''dir-''
      else if n \<in> {211, 411, 511, 611, 711, 811, 911} then ''inv-''
      else ''ext-'')"

definition short_dial :: "from_hdr \<Rightarrow> string \<Rightarrow> string \<Rightarrow> string \<Rightarrow> string \<Rightarrow> (bool \<times> (nat \<times> string) list \<times> string) option" where
  "short_dial from token ty extension buf =
     do {
       buf \<leftarrow> c_strcat (c_strncpy buf ty 99) extension;
       buf \<leftarrow> c_strcat buf ''-'';
       buf \<leftarrow> c_strcat buf ''0-'';
       add_site from token buf
     }"

text \<open>The result is the value returned, the structure and the replies sent.\<close>

definition parse_ws_uri :: "from_hdr \<Rightarrow> string \<Rightarrow> string \<Rightarrow> (int \<times> ws_uri \<times> (nat \<times> string) list) option" where
  "parse_ws_uri from d_uri token =
     (let buf = c_strncpy (replicate 100 NUL) d_uri 99; parsed = cstr buf; dirTemp = atoi parsed; len = length parsed
      in if strstr parsed ''--'' then
           Some (1, zero_ws_uri\<lparr>ws_parsed := c_strncpy buf ''invtype'' 99, ws_type := Off 0\<rparr>, [])
         else
           do {
             res \<leftarrow>
               (if len = 3 \<and> dirTemp > 0 then short_dial from token (x11_type dirTemp) parsed buf
                else if (len = 4 \<or> len = 5) \<and> dirTemp > 0 then short_dial from token ''ext-'' parsed buf
                else if take 3 parsed = ''mwi'' then
                  do {
                    buf \<leftarrow> c_strcat buf ''-'';
                    buf \<leftarrow> c_strcat buf ''0-'';
                    add_site from token buf
                  }
                else Some (True, [], buf));
             Some (case res of (ok, rp, buf) \<Rightarrow>
                     let w = zero_ws_uri\<lparr>ws_parsed := buf\<rparr>
                     in if \<not> ok then (-1, w, rp)
                        else (case split_ws_uri w of (ok, w) \<Rightarrow> (if ok then 1 else -1, w, [])))
           })"

subsection \<open>Telephone numbers and agents\<close>

text \<open>\<open>snprintf (buf, n, ...)\<close> of the text \<open>s\<close>.\<close>

definition c_snprintf :: "string \<Rightarrow> nat \<Rightarrow> string \<Rightarrow> string" where
  "c_snprintf buf n s = (let t = take (n - 1) s in t @ NUL # drop (length t + 1) buf)"

function strip_loop :: "string \<Rightarrow> string \<Rightarrow> string option" where
  "strip_loop buf cur =
     (case memchr WS_SEPERATOR cur of
        None \<Rightarrow> c_strcat buf cur
      | Some i \<Rightarrow> do { buf \<leftarrow> c_strcat buf (take i cur); strip_loop buf (drop (Suc i) cur) })"
  by pat_completeness auto

termination
  by (relation "measure (\<lambda>(_, cur). length cur)") (auto dest: memchr_SomeD)

declare strip_loop.simps [simp del]

datatype country = USA | UK | Other_Country

definition normalize_number :: "country \<Rightarrow> string \<Rightarrow> string \<Rightarrow> string \<Rightarrow> nat \<Rightarrow> nat \<times> string" where
  "normalize_number cc national_prefix phone buf n =
     (case cc of
        USA \<Rightarrow>
          (let buf = (if length phone = 10 then c_snprintf buf (n - 1) (national_prefix @ phone)
                      else c_strncpy buf phone (n - 1))
           in (length (cstr buf), buf))
      | UK \<Rightarrow>
          (let buf = (if take 1 phone = take 1 national_prefix then c_strncpy buf phone (n - 1)
                      else c_snprintf buf (n - 1) (national_prefix @ phone))
           in (length (cstr buf), buf))
      | Other_Country \<Rightarrow> (0, buf))"

text \<open>
  The number with its dashes removed is copied back before it is handled like a number
  without dashes. The results are the value returned, the buffer and the number.
\<close>

definition normalize :: "country \<Rightarrow> string \<Rightarrow> string \<Rightarrow> string \<Rightarrow> nat \<Rightarrow> nat \<Rightarrow> (nat \<times> string \<times> string) option" where
  "normalize cc national_prefix phone buf n phone_len =
     (if WS_SEPERATOR \<notin> set phone then
        (case normalize_number cc national_prefix phone buf n of (r, buf) \<Rightarrow> Some (r, buf, phone))
      else
        do {
          buf \<leftarrow> strip_loop (buf[0 := NUL]) phone;
          let phone = take (phone_len - 1) (cstr buf);
          (case normalize_number cc national_prefix phone buf n of (r, buf) \<Rightarrow> Some (r, buf, phone))
        })"

text \<open>
  The agent of a user part: a digit before the first separator is removed and returned,
  the first separator becomes the at sign, the others dots. A leading separator makes the
  code read before its buffer.
\<close>

definition get_wsagent_id :: "string \<Rightarrow> nat \<Rightarrow> (string \<times> nat) option" where
  "get_wsagent_id inbuffer outbuf_len =
     (let out = take (outbuf_len - 1) inbuffer
      in case memchr WS_SEPERATOR out of
           None \<Rightarrow> Some (out, 0)
         | Some 0 \<Rightarrow> None
         | Some (Suc k) \<Rightarrow>
             let (value, i, out) = (if digit (out ! k) then (dig (out ! k), k, take k out @ drop (Suc k) out)
                                    else (0, Suc k, out))
             in Some (take i out @ CHR ''@'' # map (\<lambda>c. if c = WS_SEPERATOR then CHR ''.'' else c) (drop (Suc i) out), value))"

text \<open>\<open>db\<close> is the extension that the database has for an agent.\<close>

definition get_direct_extension :: "(string \<Rightarrow> int option) \<Rightarrow> string \<Rightarrow> int option" where
  "get_direct_extension db username =
     (case get_wsagent_id username 511 of
        None \<Rightarrow> None
      | Some (cUserName, _) \<Rightarrow>
          Some (if cUserName = [] then -1 else case db cUserName of None \<Rightarrow> -1 | Some exten \<Rightarrow> exten))"

subsection \<open>Classifying a dialled URI\<close>

fun dec_text :: "nat \<Rightarrow> string" where
  "dec_text n = (if n < 10 then [dig_char n] else dec_text (n div 10) @ [dig_char (n mod 10)])"

declare dec_text.simps [simp del]

definition int_text :: "int \<Rightarrow> string" where
  "int_text i = (if i < 0 then CHR ''-'' # dec_text (nat (- i)) else dec_text (nat i))"

datatype UriType =
    Extension | IVR_Command | Xfer4DID | CNF_Request | ACD_Agent_Extension | PSTN_Transfer | Pickup_Request
  | ACD_Request | DIR_Request | INV_Request | ACD_Voicemail | ACD_Voicemail_Transfer | ACD_Agent | ACD_DID
  | MWI_Request | Push_To_Talk | Disaster_Request | OB_Transfer | Acccode_Type | MOBILECALL | VMD_Command
  | VM_OPRCALL | IEXTCALL | ICOMCALL | Bla_PhoneNumber | GEXT | ACEFORWARD | NINE11 | ACDXFER | CTC_Request
  | WSCTCBCALL | WSPCR | FGRP | SIX11 | LCR_Request | Phone_Number | International_Phnumber | Feature_Request
  | WS_URI | Local_User | Invalid_Uri | No_Site

text \<open>The names of the types in the order of the enumeration; \<open>No_Site\<close> is the value -1.\<close>

definition uri_types :: "(string \<times> UriType) list" where
  "uri_types =
     [(''ext'', Extension), (''cmd'', IVR_Command), (''xfer'', Xfer4DID), (''cnf'', CNF_Request),
      (''acdext'', ACD_Agent_Extension), (''pst'', PSTN_Transfer), (''pkp'', Pickup_Request), (''con'', ACD_Request),
      (''dir'', DIR_Request), (''inv'', INV_Request), (''vmln'', ACD_Voicemail), (''vmlo'', ACD_Voicemail_Transfer),
      (''agt'', ACD_Agent), (''did'', ACD_DID), (''mwi'', MWI_Request), (''ptt'', Push_To_Talk),
      (''wsdis'', Disaster_Request), (''obxfer'', OB_Transfer), (''act'', Acccode_Type), (''moc'', MOBILECALL),
      (''vmd'', VMD_Command), (''vmo'', VM_OPRCALL), (''iext'', IEXTCALL), (''icom'', ICOMCALL),
      (''bla'', Bla_PhoneNumber), (''gext'', GEXT), (''wsace'', ACEFORWARD), (''nine11'', NINE11),
      (''acdxfer'', ACDXFER), (''ctc'', CTC_Request), (''wsctcb'', WSCTCBCALL), (''pcr'', WSPCR), (''fgrp'', FGRP),
      (''six11'', SIX11), (''lcr'', LCR_Request)]"

text \<open>What the classification reads besides the URI.\<close>

record ws_env =
  we_from :: from_hdr
  we_headers :: "(string \<times> string) list"
  we_prio :: string
  international_prefix :: string
  prefix_length :: nat
  ws_ctccall_flag :: bool
  proxy_domain :: string
  agent_db :: "string \<Rightarrow> int option"

record ws_result =
  wr_type :: UriType
  wr_ws :: ws_uri
  wr_uri :: string
  wr_token :: string
  wr_replies :: "(nat \<times> string) list"
  wr_headers :: "string list"

definition tag_ends :: "ws_env \<Rightarrow> string \<Rightarrow> bool" where
  "tag_ends e s =
     (case we_from e of
        From _ (Some tag) \<Rightarrow> length tag > 4 \<and> length s \<le> length tag \<and> drop (length tag - length s) tag = s
      | _ \<Rightarrow> False)"

definition is_3pcc :: "ws_env \<Rightarrow> bool" where
  "is_3pcc e = tag_ends e ''3pcc''"

definition is_3pccacdsup :: "ws_env \<Rightarrow> nat" where
  "is_3pccacdsup e = (if tag_ends e ''acdsup'' then 2 else if tag_ends e ''3pcc'' then 1 else 0)"

text \<open>The type of a URI that was cut into parts.\<close>

definition named_type :: "ws_uri \<Rightarrow> (UriType \<times> ws_uri) option" where
  "named_type w =
     (let w = (if ws_text w (ws_command w) = Some ''611'' then w\<lparr>ws_type := Str ''six11''\<rparr> else w)
      in do {
           ty \<leftarrow> ws_text w (ws_type w);
           (case map_of uri_types ty of
              Some Extension \<Rightarrow>
                do {
                  c \<leftarrow> ws_text w (ws_command w);
                  Some (if 9990 \<le> atoi c \<and> atoi c \<le> 9999 then Feature_Request else Extension, w)
                }
            | Some t \<Rightarrow> Some (t, w)
            | None \<Rightarrow> Some (WS_URI, w))
         })"

definition numeric_type :: "ws_env \<Rightarrow> string \<Rightarrow> UriType" where
  "numeric_type e uri =
     (let nJunk = atoi uri; nLength = length uri
      in if 10 \<le> nJunk \<and> nJunk \<le> 80 \<and> nLength = 2 then Pickup_Request
         else if take (prefix_length e) uri = take (prefix_length e) (international_prefix e) then International_Phnumber
         else if 7 \<le> nLength \<and> nLength \<le> 11 then Phone_Number
         else if 10 \<le> nLength then Phone_Number
         else Invalid_Uri)"

text \<open>An extension framed as a WorkSmart URI and cut into its parts.\<close>

definition frame_ext :: "string \<Rightarrow> int \<Rightarrow> string \<Rightarrow> string \<Rightarrow> UriType \<Rightarrow> UriType \<times> ws_uri" where
  "frame_ext prefix exten site token ty =
     (let tmpuri = snprintf_s 255 (prefix @ int_text exten @ ''-0-'' @ site @ ''-'' @ token)
      in (case parse_ws_uri_buffer tmpuri (length tmpuri) of (r, w) \<Rightarrow> (if r = 0 then ty else Invalid_Uri, w)))"

text \<open>A URI that is not of the five-part form.\<close>

definition other_type :: "ws_env \<Rightarrow> nat \<Rightarrow> ws_result \<Rightarrow> ws_result option" where
  "other_type e uri_len r =
     (let uri = wr_uri r
      in if atoi uri \<noteq> 0 \<and> \<not> strstr uri ''-'' then Some (r\<lparr>wr_type := numeric_type e uri\<rparr>)
         else if \<exists>c \<in> set uri. \<not> digit c \<and> c \<noteq> WS_SEPERATOR then
           (if \<not> ws_ctccall_flag e \<and> is_3pcc e then Some (r\<lparr>wr_type := Local_User\<rparr>)
            else
              do {
                nExten \<leftarrow> get_direct_extension (agent_db e) uri;
                Some (if nExten = -1 then r\<lparr>wr_type := Invalid_Uri\<rparr>
                      else (case memchr WS_SEPERATOR uri of
                              None \<Rightarrow> r\<lparr>wr_type := No_Site\<rparr>
                            | Some i \<Rightarrow>
                                (case frame_ext ''ext-'' nExten (drop (Suc i) uri) (wr_token r) Extension of
                                   (ty, w) \<Rightarrow> r\<lparr>wr_type := ty, wr_ws := w\<rparr>)))
              })
         else Some (r\<lparr>wr_type := Phone_Number, wr_uri := take (uri_len - 1) (filter digit uri)\<rparr>))"

definition add_ctc_headers :: "ws_env \<Rightarrow> ws_result \<Rightarrow> ws_result option" where
  "add_ctc_headers e r =
     (case parse_ws_uri_buffer (wr_uri r) (length (wr_uri r)) of
        (res, w) \<Rightarrow>
          if res \<noteq> 0 then Some r
          else
            do {
              g \<leftarrow> ws_text w (ws_group w);
              x \<leftarrow> ws_text w (ws_context w);
              Some (if list_ex digit (take 1 g) \<and> length g \<le> 5 \<and> list_ex digit (take 1 x) \<and> atoi x = 0 then r
                    else r\<lparr>wr_headers := wr_headers r @
                      [''Alert-Info: Auto Answer'' @ [CHR 0x0D, CHR 0x0A],
                       snprintf_s 255 (''Call-Info:<sip:'' @ proxy_domain e @ ''>'' @ [CHR 0x5C] @ '';answer-after=0'' @
                         [CHR 0x0D, CHR 0x0A])]\<rparr>)
            })"

text \<open>The site of the caller, or of the header WSWEBCallInfo.\<close>

definition after_sep :: "string \<Rightarrow> string option" where
  "after_sep s = map_option (\<lambda>i. drop (Suc i) s) (memchr WS_SEPERATOR s)"

definition ctc_site :: "ws_env \<Rightarrow> string" where
  "ctc_site e =
     (case we_from e of
        From user _ \<Rightarrow>
          (case after_sep (snprintf_s 127 user) of
             Some s \<Rightarrow> snprintf_s 127 s
           | None \<Rightarrow>
               (case find (\<lambda>h. strlower (take 13 (fst h)) = ''wswebcallinfo'') (we_headers e) of
                  None \<Rightarrow> []
                | Some (_, body) \<Rightarrow>
                    (case after_sep (snprintf_s 127 body) of
                       None \<Rightarrow> []
                     | Some s \<Rightarrow> snprintf_s 127 (takeWhile (\<lambda>c. c \<noteq> CHR ''#'') s))))
      | _ \<Rightarrow> [])"

text \<open>Click-to-call requests.\<close>

definition ctc_request :: "ws_env \<Rightarrow> nat \<Rightarrow> ws_result \<Rightarrow> ws_result option" where
  "ctc_request e token_len r =
     do {
       r \<leftarrow> add_ctc_headers e r;
       g \<leftarrow> ws_text (wr_ws r) (ws_group (wr_ws r));
       x \<leftarrow> ws_text (wr_ws r) (ws_context (wr_ws r));
       k \<leftarrow> ws_text (wr_ws r) (ws_token (wr_ws r));
       Some (if list_ex digit (take 1 g) \<and> length g \<le> 5 then
               (let token = (if atoi (we_prio e) \<noteq> 1 \<or> atoi x = 0 then snprintf_s (token_len - 1) k else wr_token r)
                in (case frame_ext ''iext-'' (atoi g) (ctc_site e) token IEXTCALL of
                      (ty, w) \<Rightarrow> r\<lparr>wr_type := ty, wr_ws := w, wr_token := token\<rparr>))
             else r)
     }"

definition ctc_callback :: "ws_env \<Rightarrow> ws_result \<Rightarrow> ws_result option" where
  "ctc_callback e r =
     (case parse_ws_uri_buffer (wr_uri r) (length (wr_uri r)) of
        (res, w1) \<Rightarrow>
          do {
            tmpuri \<leftarrow>
              (if res = 0 then
                 do {
                   g \<leftarrow> ws_text w1 (ws_group w1);
                   x \<leftarrow> ws_text w1 (ws_context w1);
                   Some (snprintf_s 255 (g @ ''-'' @ x))
                 }
               else Some []);
            nExten \<leftarrow> get_direct_extension (agent_db e) tmpuri;
            Some (if nExten = -1 then r\<lparr>wr_type := Invalid_Uri\<rparr>
                  else (case after_sep tmpuri of
                          None \<Rightarrow> r\<lparr>wr_type := No_Site\<rparr>
                        | Some site \<Rightarrow>
                            let token = (case ws_text w1 (ws_token w1) of
                                           Some k \<Rightarrow> (if k \<noteq> [] then k else wr_token r) | None \<Rightarrow> wr_token r)
                            in (case frame_ext ''ext-'' nExten site token Extension of
                                  (ty, w) \<Rightarrow> r\<lparr>wr_type := ty, wr_ws := w\<rparr>)))
          })"

text \<open>
  \<open>uri_len\<close> and \<open>token_len\<close> are the sizes of the buffers of the URI and the token, which
  the code may change.
\<close>

definition get_uri_type :: "ws_env \<Rightarrow> string \<Rightarrow> string \<Rightarrow> nat \<Rightarrow> nat \<Rightarrow> ws_result option" where
  "get_uri_type e uri token uri_len token_len =
     do {
       (res, w, replies) \<leftarrow> parse_ws_uri (we_from e) uri token;
       let r = \<lparr>wr_type = Invalid_Uri, wr_ws = w, wr_uri = uri, wr_token = token, wr_replies = replies, wr_headers = []\<rparr>;
       r \<leftarrow> (if res = 1 then do { (ty, w) \<leftarrow> named_type w; Some (r\<lparr>wr_type := ty, wr_ws := w\<rparr>) }
             else other_type e uri_len r);
       r \<leftarrow> (if wr_type r \<noteq> No_Site \<and> ws_ctccall_flag e then
               (if wr_type r = CTC_Request \<and> is_3pccacdsup e = 1 then ctc_request e token_len r
                else if wr_type r = WSCTCBCALL then ctc_callback e r
                else Some r)
             else Some r);
       Some (if wr_type r \<noteq> No_Site \<and> ws_token (wr_ws r) = Null
             then r\<lparr>wr_ws := (wr_ws r)\<lparr>ws_token := Str (wr_token r)\<rparr>\<rparr> else r)
     }"

subsection \<open>Cutting a WorkSmart URI\<close>

lemma cstr_append: "NUL \<notin> set f \<Longrightarrow> cstr (f @ x) = f @ cstr x"
  by (induction f) (auto simp: cstr_def)

lemma cstr_simps [simp]: "cstr [] = []" "cstr (c # x) = (if c = NUL then [] else c # cstr x)"
  by (simp_all add: cstr_def)

lemma cstr_id: "NUL \<notin> set f \<Longrightarrow> cstr f = f"
  using cstr_append [of f "[]"] by simp

definition plain :: "string \<Rightarrow> bool" where
  "plain f \<longleftrightarrow> NUL \<notin> set f \<and> WS_SEPERATOR \<notin> set f"

lemma strchr_here:
  "plain f \<Longrightarrow> strchr_at (p @ f @ WS_SEPERATOR # r) (length p) = Some (length p + length f)"
  by (simp add: strchr_at_def plain_def cstr_append memchr_first)

lemma strrchr_here:
  "NUL \<notin> set f \<Longrightarrow> plain g \<Longrightarrow>
   strrchr_at (p @ f @ WS_SEPERATOR # g @ NUL # r) (length p) = Some (length p + length f)"
  by (simp add: strrchr_at_def plain_def cstr_append memrchr_last)

lemma cut_here:
  "ws_parsed w = p @ f @ WS_SEPERATOR # r \<Longrightarrow> n = length p + length f \<Longrightarrow> ws_cut n w = w\<lparr>ws_parsed := p @ f @ NUL # r\<rparr>"
  by (simp add: ws_cut_def list_update_append)

lemma text_here:
  "ws_parsed w = p @ f @ NUL # r \<Longrightarrow> NUL \<notin> set f \<Longrightarrow> n = length p \<Longrightarrow> ws_text w (Off n) = Some f"
  by (simp add: ws_text_def cstr_append)

text \<open>The five parts, and the texts the pointers show.\<close>

definition ws_parts :: "ws_uri \<Rightarrow> string \<Rightarrow> string \<Rightarrow> string \<Rightarrow> string \<Rightarrow> string \<Rightarrow> bool" where
  "ws_parts w t c g x k \<longleftrightarrow>
     ws_text w (ws_type w) = Some t \<and> ws_text w (ws_command w) = Some c \<and> ws_text w (ws_group w) = Some g \<and>
     ws_text w (ws_context w) = Some x \<and> ws_text w (ws_token w) = Some k"

lemma split_parts:
  assumes "plain t" "plain c" "plain g" "NUL \<notin> set x" "plain k"
    and "ws_parsed w = t @ WS_SEPERATOR # c @ WS_SEPERATOR # g @ WS_SEPERATOR # x @ WS_SEPERATOR # k @ NUL # r"
  shows "\<exists>w'. split_ws_uri w = (True, w') \<and> ws_parts w' t c g x k"
proof -
  let ?B = "\<lambda>a b d e. t @ a # c @ b # g @ d # x @ e # k @ NUL # r"
  let ?p1 = "t @ [NUL]" and ?p2 = "t @ NUL # c @ [NUL]" and ?p3 = "t @ NUL # c @ NUL # g @ [NUL]"
  let ?s = WS_SEPERATOR
  have 1: "strchr_at (?B ?s ?s ?s ?s) 0 = Some (length t)"
    using strchr_here [OF assms(1), of "[]"] by simp
  have 2: "strchr_at (?B NUL ?s ?s ?s) (Suc (length t)) = Some (length ?p1 + length c)"
    using strchr_here [OF assms(2), of ?p1] by simp
  have 3: "strchr_at (?B NUL NUL ?s ?s) (Suc (length ?p1 + length c)) = Some (length ?p2 + length g)"
    using strchr_here [OF assms(3), of ?p2] by (simp add: add.assoc)
  have 4: "strrchr_at (?B NUL NUL NUL ?s) (Suc (length ?p2 + length g)) = Some (length ?p3 + length x)"
    using strrchr_here [OF assms(4,5), of ?p3] by (simp add: add.assoc)
  have c1: "(?B ?s ?s ?s ?s)[length t := NUL] = ?B NUL ?s ?s ?s"
    by (simp add: list_update_append)
  have c2: "(?B NUL ?s ?s ?s)[length ?p1 + length c := NUL] = ?B NUL NUL ?s ?s"
    by (simp add: list_update_append)
  have c3: "(?B NUL NUL ?s ?s)[length ?p2 + length g := NUL] = ?B NUL NUL NUL ?s"
    by (simp add: list_update_append)
  have c4: "(?B NUL NUL NUL ?s)[length ?p3 + length x := NUL] = ?B NUL NUL NUL NUL"
    by (simp add: list_update_append)
  let ?w = "w\<lparr>ws_parsed := ?B NUL NUL NUL NUL, ws_type := Off 0, ws_command := Off (Suc (length t)),
    ws_group := Off (Suc (length ?p1 + length c)), ws_context := Off (Suc (length ?p2 + length g)),
    ws_token := Off (Suc (length ?p3 + length x))\<rparr>"
  have "split_ws_uri w = (True, ?w)"
    using assms(6)
    by (simp add: split_ws_uri_def 1 2 [simplified] 3 [simplified] 4 [simplified] ws_cut_def c1 c2 [simplified] c3 [simplified] c4 [simplified] Let_def)
  moreover have "ws_parts ?w t c g x k"
    using assms(1-5) text_here [of ?w "[]" t] text_here [of ?w ?p1 c] text_here [of ?w ?p2 g] text_here [of ?w ?p3 x]
      text_here [of ?w "?p3 @ x @ [NUL]" k]
    by (simp add: ws_parts_def plain_def add.assoc)
  ultimately show ?thesis by blast
qed

text \<open>
  A text of the form type-command-group-context-token that fits the buffer is cut into
  exactly these five parts; the context may contain separators.
\<close>

theorem ws_uri_round_trip:
  assumes "plain t" "plain c" "plain g" "NUL \<notin> set x" "plain k"
    and "buffer = t @ ''-'' @ c @ ''-'' @ g @ ''-'' @ x @ ''-'' @ k" "length buffer \<le> 98"
  shows "\<exists>w. parse_ws_uri_buffer buffer (length buffer) = (0, w) \<and> ws_parts w t c g x k"
proof -
  define r where "r = replicate (99 - length buffer) NUL"
  have "100 - length buffer = Suc (99 - length buffer)" using assms(7) by simp
  then have pad: "replicate (100 - length buffer) NUL = NUL # r" by (simp only: r_def replicate_Suc)
  obtain w where "split_ws_uri (zero_ws_uri\<lparr>ws_parsed := buffer @ NUL # r\<rparr>) = (True, w)" "ws_parts w t c g x k"
    using split_parts [OF assms(1-5), of "zero_ws_uri\<lparr>ws_parsed := buffer @ NUL # r\<rparr>" r] assms(6) by auto
  then show ?thesis using assms(7) by (simp add: parse_ws_uri_buffer_def snprintf_s_def pad Let_def)
qed

subsection \<open>Completing dialled numbers\<close>

definition padded :: "string \<Rightarrow> string" where
  "padded s = s @ replicate (100 - length s) NUL"

lemma cstr_replicate [simp]: "cstr (replicate n NUL) = []"
  by (cases n) simp_all

lemma cstr_padded: "NUL \<notin> set s \<Longrightarrow> cstr (padded s) = s"
  by (simp add: padded_def cstr_append)

lemma strcat_padded:
  assumes "NUL \<notin> set s" "length s \<le> 99"
  shows "c_strcat (padded s) f = (if length (s @ f) \<le> 99 then Some (padded (s @ f)) else None)"
proof (cases "length (s @ f) \<le> 99")
  case True
  then have "100 - (length s + length f) = Suc (99 - (length s + length f))" by simp
  then have "replicate (100 - (length s + length f)) NUL = NUL # replicate (99 - (length s + length f)) NUL"
    by (simp only: replicate_Suc)
  with True assms show ?thesis
    by (simp add: c_strcat_def cstr_append padded_def Let_def)
next
  case False
  with assms show ?thesis by (simp add: c_strcat_def cstr_append padded_def)
qed

lemma strncpy_padded:
  assumes "length ty \<le> 99" "length s \<le> 99"
  shows "c_strncpy (padded s) ty 99 = padded ty"
proof -
  have "drop 99 (padded s) = replicate 1 NUL"
    using assms(2) by (simp add: padded_def)
  moreover have "100 - length ty = (99 - length ty) + 1" using assms(1) by simp
  ultimately show ?thesis
    unfolding c_strncpy_def padded_def using assms(1) by (simp only: replicate_add) simp
qed

lemma padded_Nil: "replicate 100 NUL = padded []"
  by (simp add: padded_def)

lemma atoi_digits:
  assumes "list_all digit d" "dec_val 0 d < 2 ^ 31"
  shows "atoi d = int (dec_val 0 d)"
proof (cases d)
  case (Cons c cs)
  have t: "takeWhile digit d = d" using assms(1) by (simp add: list_all_iff)
  have "\<not> isspace c" "c \<noteq> CHR ''-''" "c \<noteq> CHR ''+''" using assms(1) Cons by (auto simp: isspace_def)
  then show ?thesis using t assms(2) Cons by (simp add: atoi_def i32_id)
qed (simp add: atoi_def i32_def)

lemma digits_plain: "list_all digit d \<Longrightarrow> plain d"
  by (auto simp: list_all_iff plain_def)

lemma strstr_first: "strstr s sub \<Longrightarrow> sub \<noteq> [] \<Longrightarrow> hd sub \<in> set s"
  by (induction s) (auto, metis list.set_sel(1) take_eq_Nil2 hd_take length_greater_0_conv list.sel(1))

lemma x11_type_cases: "x11_type n = ''dir-'' \<or> x11_type n = ''inv-'' \<or> x11_type n = ''ext-''"
  by (simp add: x11_type_def)

text \<open>What is written for a number of three to five digits, without the length check.\<close>

definition completed :: "string \<Rightarrow> string \<Rightarrow> string \<Rightarrow> string" where
  "completed d site token =
     (if length d = 3 then x11_type (int (dec_val 0 d)) else ''ext-'') @ d @ ''-0-'' @ site @ ''-'' @ token"

lemma short_dial_eq:
  assumes "u = x @ WS_SEPERATOR # site" "WS_SEPERATOR \<notin> set x" "NUL \<notin> set u" "length u \<le> 254"
    and "list_all digit d" "length ty = 4" "NUL \<notin> set ty" "length d \<le> 5" "NUL \<notin> set token"
  shows "short_dial (From u tag) token ty d (padded d) =
    (let s = ty @ d @ ''-0-'' @ site @ ''-'' @ token in if length s \<le> 99 then Some (True, [], padded s) else None)"
proof -
  have d: "NUL \<notin> set d" using digits_plain [OF assms(5)] by (simp add: plain_def)
  have m: "memchr WS_SEPERATOR u = Some (length x)" using assms(1,2) by (simp add: memchr_first)
  have s: "NUL \<notin> set site" using assms(1,3) by auto
  show ?thesis
    using assms(1,3,4,6-9) d s m
    by (simp add: short_dial_def strncpy_padded strcat_padded add_site_def snprintf_s_def Let_def)
qed

lemma completed_parse:
  assumes "u = x @ WS_SEPERATOR # site" "WS_SEPERATOR \<notin> set x" "NUL \<notin> set u" "length u \<le> 254"
    and "list_all digit d" "length d \<in> {3, 4, 5}" "0 < dec_val 0 d" "dec_val 0 d < 2 ^ 31" "NUL \<notin> set token"
  shows "parse_ws_uri (From u tag) d token =
    (let s = completed d site token
     in if length s \<le> 99 then
          (case split_ws_uri (zero_ws_uri\<lparr>ws_parsed := padded s\<rparr>) of (ok, w) \<Rightarrow> Some (if ok then 1 else -1, w, []))
        else None)"
proof -
  have d: "NUL \<notin> set d" "WS_SEPERATOR \<notin> set d" using digits_plain [OF assms(5)] by (simp_all add: plain_def)
  have b: "c_strncpy (replicate 100 NUL) d 99 = padded d"
    using strncpy_padded [of d "[]"] assms(6) by (auto simp: padded_Nil)
  have n: "\<not> strstr d ''--''" using strstr_first [of d "''--''"] d(2) by auto
  have ty: "length (x11_type v) = 4" "NUL \<notin> set (x11_type v)" for v by (simp_all add: x11_type_def)
  note sd = short_dial_eq [OF assms(1-5) _ _ _ assms(9)]
  have l: "length d \<le> 5" using assms(6) by auto
  show ?thesis
    using assms(6,7) n d sd [OF ty l] sd [of "''ext-''"] l
    by (auto simp: parse_ws_uri_def b cstr_padded atoi_digits [OF assms(5,8)] completed_def Let_def split: prod.splits)
qed

lemma dec_val_bound: "list_all digit ds \<Longrightarrow> dec_val a ds < (a + 1) * 10 ^ length ds"
proof (induction ds arbitrary: a)
  case (Cons c ds)
  have "dig c \<le> 9" using Cons.prems by (auto simp: dig_def le_diff_conv)
  then have "(10 * a + dig c + 1) * 10 ^ length ds \<le> (10 * a + 10) * 10 ^ length ds" by (intro mult_right_mono) simp_all
  with Cons show ?case by (fastforce simp: algebra_simps intro: less_le_trans)
qed simp

lemma short_number_small:
  assumes "list_all digit d" "length d \<in> {3, 4, 5}"
  shows "dec_val 0 d < 2 ^ 31"
proof -
  have "(10 :: nat) ^ length d \<le> 10 ^ 5" using assms(2) by (intro power_increasing) auto
  with dec_val_bound [OF assms(1), of 0] show ?thesis by simp
qed

text \<open>
  C10: A dialled number of three to five digits is completed with the site of the caller and
  the token: the parts of the result are the type, the number, the group 0, the site and
  the token.
\<close>

theorem short_dial_completed:
  assumes "u = x @ ''-'' @ site" "CHR ''-'' \<notin> set x" "NUL \<notin> set u" "length u \<le> 254"
    and "list_all digit d" "length d \<in> {3, 4, 5}" "0 < dec_val 0 d" "plain token"
    and "length (completed d site token) \<le> 99"
  shows "\<exists>w. parse_ws_uri (From u tag) d token = Some (1, w, []) \<and>
    ws_parts w (if length d = 3 then butlast (x11_type (int (dec_val 0 d))) else ''ext'') d ''0'' site token"
proof -
  let ?ty = "if length d = 3 then butlast (x11_type (int (dec_val 0 d))) else ''ext''"
  let ?s = "completed d site token"
  define r where "r = replicate (99 - length ?s) NUL"
  have "100 - length ?s = Suc (99 - length ?s)" using assms(9) by simp
  then have p: "padded ?s = ?s @ NUL # r" unfolding padded_def r_def by (simp only: replicate_Suc)
  have s: "?s = ?ty @ WS_SEPERATOR # d @ WS_SEPERATOR # ''0'' @ WS_SEPERATOR # site @ WS_SEPERATOR # token"
    by (auto simp: completed_def x11_type_def)
  have ty: "plain ?ty" by (simp add: plain_def x11_type_def)
  have site: "NUL \<notin> set site" using assms(1,3) by auto
  have v: "dec_val 0 d < 2 ^ 31" by (rule short_number_small [OF assms(5,6)])
  have "ws_parsed (zero_ws_uri\<lparr>ws_parsed := padded ?s\<rparr>) =
      ?ty @ WS_SEPERATOR # d @ WS_SEPERATOR # ''0'' @ WS_SEPERATOR # site @ WS_SEPERATOR # token @ NUL # r"
    unfolding p unfolding s by simp
  from split_parts [OF ty digits_plain [OF assms(5)] _ site assms(8) this]
  obtain w where "split_ws_uri (zero_ws_uri\<lparr>ws_parsed := padded ?s\<rparr>) = (True, w)" "ws_parts w ?ty d ''0'' site token"
    by (auto simp: plain_def)
  moreover have "parse_ws_uri (From u tag) d token =
      (case split_ws_uri (zero_ws_uri\<lparr>ws_parsed := padded ?s\<rparr>) of (ok, w) \<Rightarrow> Some (if ok then 1 else -1, w, []))"
    using completed_parse [OF _ assms(2-7) v, of site token tag] assms(1,8,9) by (simp add: plain_def)
  ultimately show ?thesis by auto
qed

text \<open>
  Nothing bounds the length of the completed number: the code writes past the end of
  the 100-byte buffer exactly when the site of the caller is too long.
\<close>

theorem short_dial_overflow:
  assumes "u = x @ ''-'' @ site" "CHR ''-'' \<notin> set x" "NUL \<notin> set u" "length u \<le> 254"
    and "list_all digit d" "length d \<in> {3, 4, 5}" "0 < dec_val 0 d" "plain token"
  shows "parse_ws_uri (From u tag) d token = None \<longleftrightarrow> 100 \<le> length d + length site + length token + 8"
proof -
  have v: "dec_val 0 d < 2 ^ 31" by (rule short_number_small [OF assms(5,6)])
  have "length (completed d site token) = length d + length site + length token + 8"
    by (simp add: completed_def x11_type_def)
  then show ?thesis
    using completed_parse [OF _ assms(2-7) v, of site token tag] assms(1,8)
    by (auto simp: plain_def Let_def split: prod.splits)
qed

theorem short_dial_overflow_witness:
  "parse_ws_uri (From (''ann-'' @ replicate 80 CHR ''x'') None) ''1001'' ''0123456789'' = None"
  using short_dial_overflow [of "''ann-'' @ replicate 80 CHR ''x''" "''ann''" "replicate 80 CHR ''x''" "''1001''"
      "''0123456789''" None]
  by (simp add: plain_def dig_def)

theorem short_dial_completed_witness:
  "\<exists>w. parse_ws_uri (From ''ann-acme-com'' None) ''1001'' ''0123456789'' = Some (1, w, []) \<and>
    ws_parts w ''ext'' ''1001'' ''0'' ''acme-com'' ''0123456789''"
  using short_dial_completed [of "''ann-acme-com''" "''ann''" "''acme-com''" "''1001''" "''0123456789''" None]
  by (simp add: plain_def dig_def completed_def)

theorem ws_uri_round_trip_witness:
  "\<exists>w. parse_ws_uri_buffer ''cmd-2-0-acme-com-77'' 19 = (0, w) \<and> ws_parts w ''cmd'' ''2'' ''0'' ''acme-com'' ''77''"
  using ws_uri_round_trip [of "''cmd''" "''2''" "''0''" "''acme-com''" "''77''" "''cmd-2-0-acme-com-77''"]
  by (simp add: plain_def eval_nat_numeral)

subsection \<open>Dialled numbers with dashes\<close>

definition seps :: "string \<Rightarrow> nat \<Rightarrow> nat" where
  "seps buf i = length (filter (\<lambda>c. c = WS_SEPERATOR) (cstr (drop i buf)))"

lemma cstr_drop: "i \<le> length (cstr buf) \<Longrightarrow> cstr (drop i buf) = drop i (cstr buf)"
proof (induction i arbitrary: buf)
  case (Suc i)
  then show ?case by (cases buf) (auto split: if_splits)
qed simp

lemma filter_sep_split:
  "memchr c xs = Some k \<Longrightarrow> length (filter (\<lambda>x. x = c) xs) = Suc (length (filter (\<lambda>x. x = c) (drop (Suc k) xs)))"
  by (induction xs arbitrary: k) (auto split: if_splits)

lemma seps_next:
  assumes "strchr_at buf i = Some j"
  shows "seps buf i = Suc (seps (buf[j := NUL]) (j + 1))"
proof -
  obtain k where k: "memchr WS_SEPERATOR (cstr (drop i buf)) = Some k" "j = i + k"
    using assms by (auto simp: strchr_at_def)
  have "Suc k \<le> length (cstr (drop i buf))" using memchr_SomeD [OF k(1)] by auto
  from cstr_drop [OF this] have "cstr (drop (j + 1) buf) = drop (Suc k) (cstr (drop i buf))" using k(2) by (simp add: add.commute)
  then show ?thesis using filter_sep_split [OF k(1)] by (simp add: seps_def)
qed

lemma seps_last: "strrchr_at buf i = Some j \<Longrightarrow> 0 < seps buf i"
proof -
  assume "strrchr_at buf i = Some j"
  then obtain k where "memrchr WS_SEPERATOR (cstr (drop i buf)) = Some k" by (auto simp: strrchr_at_def)
  from memrchr_SomeD [OF this] have "WS_SEPERATOR \<in> set (cstr (drop i buf))" by (metis nth_mem)
  then show ?thesis by (auto simp: seps_def filter_empty_conv)
qed

lemma split_needs_four: "split_ws_uri w = (True, w') \<Longrightarrow> 4 \<le> seps (ws_parsed w) 0"
  by (fastforce simp: split_ws_uri_def ws_cut_def Let_def dest!: seps_next seps_last split: option.splits)

lemma split_fails_token: "split_ws_uri w = (False, w') \<Longrightarrow> ws_token w = Null \<Longrightarrow> ws_token w' = Null"
  by (auto simp: split_ws_uri_def ws_cut_def Let_def split: option.splits)

lemma strstr_char: "strstr s [c] \<longleftrightarrow> c \<in> set s"
  by (induction s) auto

text \<open>
  A number with one to three single dashes among its digits is classified as a
  telephone number, and the dashes are removed from the URI.
\<close>

theorem dashed_number_is_phone:
  assumes "\<forall>c \<in> set uri. digit c \<or> c = CHR ''-''" "\<not> strstr uri ''--''"
    and "1 \<le> length (filter (\<lambda>c. c = CHR ''-'') uri)" "length (filter (\<lambda>c. c = CHR ''-'') uri) \<le> 3"
    and "6 \<le> length uri" "length uri \<le> 99" "length uri < uri_len"
  shows "\<exists>r. get_uri_type e uri token uri_len token_len = Some r \<and> wr_type r = Phone_Number \<and>
    wr_uri r = filter digit uri \<and> wr_token r = token \<and> wr_replies r = [] \<and> wr_headers r = []"
proof -
  have n: "NUL \<notin> set uri" using assms(1) by auto
  have b: "c_strncpy (replicate 100 NUL) uri 99 = padded uri"
    using strncpy_padded [of uri "[]"] assms(6) by (simp add: padded_Nil)
  let ?w = "zero_ws_uri\<lparr>ws_parsed := padded uri\<rparr>"
  have "seps (padded uri) 0 \<le> 3" using assms(4) n by (simp add: seps_def cstr_padded)
  then obtain w where w: "split_ws_uri ?w = (False, w)"
    using split_needs_four [of ?w] by (cases "split_ws_uri ?w"; cases "fst (split_ws_uri ?w)") auto
  have "ws_token w = Null" by (rule split_fails_token [OF w]) (simp add: zero_ws_uri_def)
  have "take 3 uri \<noteq> ''mwi''"
    using assms(1,5) by (cases uri) auto
  then have p: "parse_ws_uri (we_from e) uri token = Some (-1, w, [])"
    using assms(2,5) n w by (auto simp: parse_ws_uri_def b cstr_padded Let_def)
  have "WS_SEPERATOR \<in> set uri" using assms(3) by (auto simp: filter_empty_conv Suc_le_eq)
  moreover have "length (filter digit uri) \<le> uri_len - 1" using assms(7) length_filter_le [of digit uri] by linarith
  moreover have inv: "(\<exists>c \<in> set uri. \<not> digit c \<and> c \<noteq> WS_SEPERATOR) = False" using assms(1) by auto
  have "other_type e uri_len r = Some (r\<lparr>wr_type := Phone_Number, wr_uri := take (uri_len - 1) (filter digit uri)\<rparr>)"
    if "wr_uri r = uri" for r
    unfolding other_type_def Let_def that inv strstr_char using calculation(1) by simp
  ultimately show ?thesis
    using p \<open>ws_token w = Null\<close> by (simp add: get_uri_type_def)
qed

theorem dashed_number_is_phone_witness:
  "\<forall>e token. \<exists>r. get_uri_type e ''408-555-1212'' token 255 32 = Some r \<and> wr_type r = Phone_Number \<and>
    wr_uri r = ''4085551212''"
proof (intro allI)
  fix e token
  define u where "u = ''408-555-1212''"
  have f: "filter digit u = ''4085551212''" "\<forall>c \<in> set u. digit c \<or> c = CHR ''-''" "\<not> strstr u ''--''"
    "length (filter (\<lambda>c. c = CHR ''-'') u) = 2" "length u = 12"
    by (simp_all add: u_def)
  show "\<exists>r. get_uri_type e ''408-555-1212'' token 255 32 = Some r \<and> wr_type r = Phone_Number \<and> wr_uri r = ''4085551212''"
    using dashed_number_is_phone [of u 255 e token 32] f unfolding u_def [symmetric] by auto
qed

subsection \<open>Normalising numbers\<close>

lemma c_strcat_text:
  assumes "NUL \<notin> set f"
  shows "if length (cstr buf) + length f < length buf
    then \<exists>r. c_strcat buf f = Some r \<and> cstr r = cstr buf @ f \<and> length r = length buf
    else c_strcat buf f = None"
proof -
  have t: "take (length (cstr buf)) buf = cstr buf" unfolding cstr_def by (rule takeWhile_eq_take [symmetric])
  have "NUL \<notin> set (cstr buf)" by (auto simp: cstr_def dest: set_takeWhileD)
  then show ?thesis using assms by (auto simp: c_strcat_def t cstr_append Let_def)
qed

lemma strip_loop_text:
  "NUL \<notin> set cur \<Longrightarrow>
   if length (cstr buf) + length (filter (\<lambda>c. c \<noteq> WS_SEPERATOR) cur) < length buf
   then \<exists>r. strip_loop buf cur = Some r \<and> cstr r = cstr buf @ filter (\<lambda>c. c \<noteq> WS_SEPERATOR) cur \<and> length r = length buf
   else strip_loop buf cur = None"
proof (induction buf cur rule: strip_loop.induct)
  case (1 buf cur)
  show ?case
  proof (cases "memchr WS_SEPERATOR cur")
    case None
    then have "filter (\<lambda>c. c \<noteq> WS_SEPERATOR) cur = cur" by (simp add: filter_id_conv) metis
    moreover have "strip_loop buf cur = c_strcat buf cur"
      using None by (subst strip_loop.simps) (simp del: memchr_None_iff)
    ultimately show ?thesis using c_strcat_text [OF 1(2), of buf] by simp
  next
    case (Some i)
    let ?f = "take i cur" and ?g = "drop (Suc i) cur"
    have i: "i < length cur" "cur ! i = WS_SEPERATOR" "WS_SEPERATOR \<notin> set ?f" using memchr_SomeD [OF Some] by auto
    have nf: "NUL \<notin> set ?f" "NUL \<notin> set ?g" using 1(2) by (auto dest: in_set_takeD in_set_dropD)
    have "cur = ?f @ WS_SEPERATOR # ?g" using id_take_nth_drop [OF i(1)] i(2) by simp
    then have "filter (\<lambda>c. c \<noteq> WS_SEPERATOR) cur = filter (\<lambda>c. c \<noteq> WS_SEPERATOR) (?f @ WS_SEPERATOR # ?g)" by simp
    also have "\<dots> = ?f @ filter (\<lambda>c. c \<noteq> WS_SEPERATOR) ?g"
      using i(3) by (simp add: filter_id_conv) metis
    finally have fl: "filter (\<lambda>c. c \<noteq> WS_SEPERATOR) cur = ?f @ filter (\<lambda>c. c \<noteq> WS_SEPERATOR) ?g" .
    have st: "strip_loop buf cur = Option.bind (c_strcat buf ?f) (\<lambda>b. strip_loop b ?g)"
      using Some by (subst strip_loop.simps) simp
    show ?thesis
    proof (cases "length (cstr buf) + length ?f < length buf")
      case True
      then obtain r where r: "c_strcat buf ?f = Some r" "cstr r = cstr buf @ ?f" "length r = length buf"
        using c_strcat_text [OF nf(1), of buf] by auto
      define G where "G = filter (\<lambda>c. c \<noteq> WS_SEPERATOR) ?g"
      have "strip_loop buf cur = strip_loop r ?g" by (simp add: st r(1))
      moreover have "length (cstr buf) + length (?f @ G) = length (cstr r) + length G" by (simp add: r(2))
      moreover have "cstr buf @ ?f @ G = cstr r @ G" by (simp add: r(2))
      ultimately show ?thesis
        using 1(1) [OF Some r(1) nf(2)] unfolding fl G_def [symmetric] r(3) by presburger
    next
      case False
      then have "c_strcat buf ?f = None" using c_strcat_text [OF nf(1), of buf] by simp
      with False show ?thesis by (simp add: st fl)
    qed
  qed
qed


lemma notin_set_takeI: "x \<notin> set s \<Longrightarrow> x \<notin> set (take n s)"
  by (auto dest: in_set_takeD)

lemma strncpy_text:
  assumes "NUL \<notin> set p" "cstr b = p" "length p < length b"
  shows "cstr (c_strncpy b p (length b - 1)) = p"
proof (cases "length p = length b - 1")
  case True
  have "b = take (length p) b @ drop (length p) b" by simp
  moreover have "cstr (drop (length p) b) = []" using cstr_drop [of "length p" b] assms(2) by simp
  ultimately show ?thesis using assms(1) True by (simp add: c_strncpy_def cstr_append)
next
  case False
  with assms have "length b - 1 - length p = Suc (length b - 2 - length p)" by simp
  then show ?thesis
    using assms by (simp add: c_strncpy_def cstr_append)
qed

text \<open>
  Normalising a number with dashes gives what the digits alone give: the number with the
  national prefix where the country asks for it. The code overruns its buffer exactly when
  the number without dashes does not fit.
\<close>

theorem normalize_removes_dashes:
  assumes "CHR ''-'' \<in> set phone" "NUL \<notin> set phone" "p = filter (\<lambda>c. c \<noteq> CHR ''-'') phone"
    and "length p < phone_len" "buf \<noteq> []"
  shows "if length p < length buf
    then \<exists>b. normalize cc pre phone buf (length buf) phone_len =
        Some (if cc = Other_Country then 0 else length (cstr b), b, p) \<and>
      (NUL \<notin> set pre \<longrightarrow> cstr b =
        (case cc of
           USA \<Rightarrow> if length p = 10 then take (length buf - 2) (pre @ p) else p
         | UK \<Rightarrow> if take 1 p = take 1 pre then p else take (length buf - 2) (pre @ p)
         | Other_Country \<Rightarrow> p))
    else normalize cc pre phone buf (length buf) phone_len = None"
proof (cases "length p < length buf")
  case False
  then show ?thesis
    using strip_loop_text [OF assms(2), of "buf[0 := NUL]"] assms(1,3,5) by (cases buf) (auto simp: normalize_def)
next
  case True
  have "NUL \<notin> set p" using assms(2,3) by simp
  obtain b where b: "strip_loop (buf[0 := NUL]) phone = Some b" "cstr b = p" "length b = length buf"
    using strip_loop_text [OF assms(2), of "buf[0 := NUL]"] assms(3,5) True by (cases buf) auto
  have cp: "cstr (c_strncpy b p (length buf - 1)) = p"
    using strncpy_text [OF \<open>NUL \<notin> set p\<close> b(2)] True unfolding b(3) by blast
  have pp: "take (phone_len - 1) p = p" using assms(4) by simp
  have sp: "cstr (c_snprintf b (length buf - 1) s) = take (length buf - 2) s" if "NUL \<notin> set s" for s
    using that by (simp add: c_snprintf_def cstr_append Let_def notin_set_takeI numeral_2_eq_2)
  have n: "normalize cc pre phone buf (length buf) phone_len =
      (case normalize_number cc pre p b (length buf) of (r, b) \<Rightarrow> Some (r, b, p))"
    using assms(1) b(1) pp by (simp add: normalize_def b(2))
  have "\<exists>b'. normalize_number cc pre p b (length buf) = (if cc = Other_Country then 0 else length (cstr b'), b') \<and>
      (NUL \<notin> set pre \<longrightarrow> cstr b' =
        (case cc of
           USA \<Rightarrow> if length p = 10 then take (length buf - 2) (pre @ p) else p
         | UK \<Rightarrow> if take 1 p = take 1 pre then p else take (length buf - 2) (pre @ p)
         | Other_Country \<Rightarrow> p))"
    using cp sp [of "pre @ p"] b(2) \<open>NUL \<notin> set p\<close> unfolding normalize_number_def Let_def
    by (cases cc) (simp_all del: take_append)
  then show ?thesis using True n by auto
qed

theorem normalize_removes_dashes_witness:
  "\<exists>b. normalize USA ''1'' ''408-555-1212'' (replicate 32 NUL) 32 256 = Some (length (cstr b), b, ''4085551212'') \<and>
    cstr b = ''14085551212''"
proof -
  define u where "u = ''408-555-1212''"
  have f: "filter (\<lambda>c. c \<noteq> CHR ''-'') u = ''4085551212''" "CHR ''-'' \<in> set u" "NUL \<notin> set u"
    by (simp_all add: u_def)
  show ?thesis
    using normalize_removes_dashes [of u "''4085551212''" 256 "replicate 32 NUL" USA "''1''"] f
    unfolding u_def [symmetric] by auto
qed

end
