(* ===== verification/Ws_Fork.thy ===== *)
theory Ws_Fork
  imports Ws_Uri Parse_Uri "HOL-Library.Multiset"
begin

section \<open>WorkSmart hunt groups: worksmart.c, nested\_call\_shm.c\<close>

text \<open>
  A hunt group with more members than branches is split into fork groups, each called
  through a URI of its own that comes back to the proxy. Its members live in a shared
  memory segment; a table of segments, cleaned by a watcher process, lets a restart remove
  what is left. Calls are named by tokens that are unique over all processes.
\<close>

subsection \<open>Splitting a group\<close>

text \<open>
  \<open>max_fork\<close> is the module parameter \<open>MAX_FORK_BRANCHES\<close>; \<open>uri_mem\<close> is whether the
  Request-URI can be allocated. \<open>fk_uri\<close> is the buffer that all rounds share, \<open>fk_out\<close> the
  user parts handed to \<open>set_uri2\<close> and \<open>append_branch\<close>, \<open>fk_count\<close> the number of groups
  counted in the shared segment, if it exists.
\<close>

record fork_cfg =
  max_fork :: nat
  fk_site :: string
  fk_token :: string
  own_ip :: string
  port_no :: nat
  uri_mem :: bool

datatype fork_out = Request_Uri string | Branch string

record fork_state =
  fk_uri :: string
  fk_append :: nat
  fk_out :: "fork_out list"
  fk_count :: "int option"

definition UpdateShmCounter :: "fork_state \<Rightarrow> fork_state" where
  "UpdateShmCounter s = s\<lparr>fk_count := map_option (\<lambda>n. n + 1) (fk_count s)\<rparr>"

definition forked_uri :: "fork_cfg \<Rightarrow> string \<Rightarrow> string" where
  "forked_uri cfg uri = snprintf_s 127 (''sip:'' @ uri @ ''@'' @ own_ip cfg @ '':'' @ dec_text (port_no cfg))"

definition append_forkeduri :: "fork_cfg \<Rightarrow> fork_state \<Rightarrow> fork_state" where
  "append_forkeduri cfg s =
     (let fgroup_uri = forked_uri cfg (fk_uri s)
      in if fk_append s = 0 then
           (if uri_mem cfg then s\<lparr>fk_append := 1, fk_out := fk_out s @ [Request_Uri fgroup_uri]\<rparr> else s)
         else s\<lparr>fk_out := fk_out s @ [Branch fgroup_uri]\<rparr>)"

definition fgrp_text :: "fork_cfg \<Rightarrow> int \<Rightarrow> int \<Rightarrow> int \<Rightarrow> string" where
  "fgrp_text cfg nStart nEnd nRows =
     ''fgrp-'' @ int_text nStart @ ''-'' @ int_text nEnd @ ''-'' @ fk_site cfg @ ''-'' @ fk_token cfg @
     (if nRows \<noteq> 0 then CHR ''_'' # int_text nRows else [])"

text \<open>
  The loop over the parts of a range; \<open>gen\<close> is the recursive call and \<open>k\<close> the number of
  parts still allowed.
\<close>

fun fork_loop :: "(int \<Rightarrow> int \<Rightarrow> fork_state \<Rightarrow> fork_state option) \<Rightarrow> fork_cfg \<Rightarrow> int \<Rightarrow> int \<Rightarrow> int \<Rightarrow> nat \<Rightarrow>
    nat \<Rightarrow> int \<Rightarrow> fork_state \<Rightarrow> fork_state option" where
  "fork_loop gen cfg nGroups nEnd nRows uri_len 0 nNewEnd s = Some s"
| "fork_loop gen cfg nGroups nEnd nRows uri_len (Suc k) nNewEnd s =
     (if nNewEnd < nEnd then
        let nNewStart = nNewEnd + 1; m = int (max_fork cfg);
            nNewEnd = (if nGroups > m then nNewStart + nGroups - 1 else nNewStart + m - 1);
            nNewEnd = (if nNewEnd > nEnd then nEnd else nNewEnd);
            s = s\<lparr>fk_uri := snprintf_s (uri_len - 1) (fgrp_text cfg nNewStart nNewEnd nRows)\<rparr>
        in do {
             s \<leftarrow> gen nNewStart nNewEnd s;
             fork_loop gen cfg nGroups nEnd nRows uri_len k nNewEnd s
           }
      else Some s)"

text \<open>
  The recursive calls pass \<open>sizeof(uri)\<close>, the size of a pointer, as the size of the
  buffer. \<open>None\<close> is a division by zero or too little fuel.
\<close>

fun generate_forkgroup :: "fork_cfg \<Rightarrow> nat \<Rightarrow> int \<Rightarrow> int \<Rightarrow> int \<Rightarrow> bool \<Rightarrow> int \<Rightarrow> nat \<Rightarrow> fork_state \<Rightarrow> fork_state option" where
  "generate_forkgroup cfg 0 nStart nEnd nPrevSize nVal nRows uri_len s = None"
| "generate_forkgroup cfg (Suc fuel) nStart nEnd nPrevSize nVal nRows uri_len s =
     (let m = int (max_fork cfg); nSize = nEnd - nStart + 1; nDiff = nPrevSize - nSize;
          counted = (\<lambda>s. if nEnd - nStart < m \<and> fk_uri s \<noteq> [] then UpdateShmCounter s else s)
      in if nSize > m then
           (if m = 0 then None
            else
              let nGroups = nSize div m + (if nSize mod m > 0 then 1 else 0);
                  (nVal, s) = (if nDiff < m \<and> fk_uri s \<noteq> [] then (True, append_forkeduri cfg (counted s)) else (nVal, s))
              in fork_loop (\<lambda>a b s. generate_forkgroup cfg fuel a b nPrevSize nVal nRows 8 s)
                   cfg nGroups nEnd nRows uri_len (max_fork cfg) (nStart - 1) s)
         else Some (if \<not> nVal then append_forkeduri cfg (counted s) else s))"

text \<open>What the dial plan does with a fork group: split it, or call its members.\<close>

datatype fgrp_result = Split fork_state | Call_Members int int | Not_Routed

definition dialplan_fgrp :: "fork_cfg \<Rightarrow> nat \<Rightarrow> int option \<Rightarrow> ws_uri \<Rightarrow> fgrp_result option" where
  "dialplan_fgrp cfg fuel groups w =
     do {
       c \<leftarrow> ws_text w (ws_command w);
       g \<leftarrow> ws_text w (ws_group w);
       x \<leftarrow> ws_text w (ws_context w);
       k \<leftarrow> ws_text w (ws_token w);
       if c = [] \<or> g = [] then Some Not_Routed
       else
         let nStart = atoi c; nEnd = atoi g; nDiff = nEnd - nStart; m = int (max_fork cfg)
         in if nDiff \<ge> m then
              (if m = 0 then None
               else
                 let nPrevSize = nDiff div m + (if nDiff mod m > 0 then 1 else 0)
                 in map_option Split
                      (generate_forkgroup (cfg\<lparr>fk_site := x, fk_token := k\<rparr>) fuel nStart nEnd nPrevSize False 0 128
                        \<lparr>fk_uri = [], fk_append = 0, fk_out = [], fk_count = groups\<rparr>))
            else Some (Call_Members nStart nEnd)
     }"

subsection \<open>The table of segments\<close>

text \<open>
  A node of the table: segment, time of insertion, and 1 in use, -1 given up by the watcher
  or 0 free. \<open>live\<close> are the fork group segments that exist in the system. The table has
  \<open>noofshmsegments - 2\<close> nodes.
\<close>

record shm_node =
  nd_shmid :: int
  nd_time :: int
  nd_in_use :: int

record shm_state =
  nodes :: "shm_node list"
  live :: "int list"

definition free_node :: "shm_node \<Rightarrow> shm_node" where
  "free_node n = n\<lparr>nd_shmid := 0, nd_in_use := 0\<rparr>"

text \<open>The first node with a property is changed.\<close>

fun change_first :: "(shm_node \<Rightarrow> bool) \<Rightarrow> (shm_node \<Rightarrow> shm_node) \<Rightarrow> shm_node list \<Rightarrow> shm_node list" where
  "change_first p f [] = []"
| "change_first p f (n # ns) = (if p n then f n # ns else n # change_first p f ns)"

text \<open>\<open>select_shmid\<close> compares with the global variable \<open>shmid\<close>, not with its argument.\<close>

definition select_shmid :: "int \<Rightarrow> int \<Rightarrow> shm_state \<Rightarrow> bool" where
  "select_shmid shmid shm_id s = list_ex (\<lambda>n. nd_shmid n = shmid \<and> nd_in_use n = 1) (nodes s)"

definition insert_shmid_shm :: "int \<Rightarrow> int \<Rightarrow> shm_state \<Rightarrow> shm_state" where
  "insert_shmid_shm now shm_id s =
     s\<lparr>nodes := change_first (\<lambda>n. nd_in_use n = 0) (\<lambda>n. n\<lparr>nd_shmid := shm_id, nd_time := now, nd_in_use := 1\<rparr>) (nodes s)\<rparr>"

definition shmctl_rmid :: "int \<Rightarrow> shm_state \<Rightarrow> shm_state" where
  "shmctl_rmid shm_id s = s\<lparr>live := remove1 shm_id (live s)\<rparr>"

definition holds :: "int \<Rightarrow> shm_node \<Rightarrow> bool" where
  "holds shm_id n \<longleftrightarrow> nd_shmid n = shm_id \<and> nd_in_use n = 1"

definition update_shmid :: "int \<Rightarrow> int \<Rightarrow> int \<Rightarrow> shm_state \<Rightarrow> shm_state" where
  "update_shmid now shm_id nCount s =
     (if list_ex (holds shm_id) (nodes s) then
        let s = s\<lparr>nodes := change_first (holds shm_id)
                   (\<lambda>n. if nCount < 1 then free_node (n\<lparr>nd_time := now\<rparr>) else n\<lparr>nd_time := now\<rparr>) (nodes s)\<rparr>
        in if nCount < 1 then shmctl_rmid shm_id s else s
      else s)"

text \<open>The part of \<open>f_clear_forkgroup_shared_memory\<close> after the segment is found.\<close>

definition f_clear_forkgroup :: "int \<Rightarrow> shm_state \<Rightarrow> shm_state" where
  "f_clear_forkgroup shm_id s =
     (if list_ex (holds shm_id) (nodes s)
      then shmctl_rmid shm_id (s\<lparr>nodes := change_first (holds shm_id) free_node (nodes s)\<rparr>)
      else s)"

text \<open>\<open>shm_create\<close> registers the segment it has created.\<close>

definition shm_create :: "int \<Rightarrow> int \<Rightarrow> int \<Rightarrow> shm_state \<Rightarrow> shm_state" where
  "shm_create shmid now new_id s =
     (let s = s\<lparr>live := new_id # live s\<rparr>
      in if \<not> select_shmid shmid new_id s then insert_shmid_shm now new_id s else s)"

definition shmid_clear_onstartup :: "nat \<Rightarrow> shm_state \<Rightarrow> shm_state" where
  "shmid_clear_onstartup prev s =
     (let old = take prev (nodes s)
      in s\<lparr>nodes := map (\<lambda>n. if nd_in_use n = 1 then (free_node n)\<lparr>nd_time := 0\<rparr> else n) old @ drop prev (nodes s),
           live := foldl (\<lambda>l n. if nd_in_use n = 1 then remove1 (nd_shmid n) l else l) (live s) old\<rparr>)"

text \<open>One pass of the watcher process over the table at time \<open>cur_time\<close>.\<close>

definition watch_node :: "int \<Rightarrow> int \<Rightarrow> int \<Rightarrow> shm_node \<Rightarrow> shm_node" where
  "watch_node timer deletetimer cur_time n =
     (if nd_in_use n = 1 \<and> cur_time - nd_time n > timer then n\<lparr>nd_in_use := -1, nd_time := cur_time\<rparr>
      else if nd_in_use n = -1 \<and> cur_time - nd_time n > deletetimer then (free_node n)\<lparr>nd_time := 0\<rparr>
      else n)"

definition nested_calls_shm_clear :: "int \<Rightarrow> int \<Rightarrow> int \<Rightarrow> shm_state \<Rightarrow> shm_state" where
  "nested_calls_shm_clear timer deletetimer cur_time s =
     s\<lparr>nodes := map (watch_node timer deletetimer cur_time) (nodes s),
       live := foldl (\<lambda>l n. if nd_in_use n = -1 \<and> cur_time - nd_time n > deletetimer then remove1 (nd_shmid n) l else l)
         (live s) (nodes s)\<rparr>"

subsection \<open>Tokens\<close>

definition generate_unique_process_range :: "int \<Rightarrow> int \<Rightarrow> u32" where
  "generate_unique_process_range serviceid Rank =
     (let id = (word_of_int (serviceid smod 8) :: u32);
          id = push_bit 5 id OR word_of_int (Rank smod 32)
      in push_bit 24 id)"

text \<open>The results are the token and the next value of the counter \<open>cps\<close>.\<close>

definition generate_unique_token :: "u32 \<Rightarrow> u32 \<Rightarrow> u32 \<Rightarrow> u32 \<times> u32" where
  "generate_unique_token uniq_process_id now cps =
     (let rand = push_bit 7 (now AND 0x1FFFF);
          cur_cps = cps AND 0x7F;
          cps = cps + 1;
          (cps, cur_cps) = (if cur_cps = 0 then (cps + 1, 1) else (cps, cur_cps));
          rand = rand OR cur_cps
      in (uniq_process_id OR (rand AND 0xFFFFFF), cps))"

fun tokens :: "u32 \<Rightarrow> u32 list \<Rightarrow> u32 \<Rightarrow> u32 list" where
  "tokens uniq [] cps = []"
| "tokens uniq (now # ts) cps =
     (case generate_unique_token uniq now cps of (t, cps) \<Rightarrow> t # tokens uniq ts cps)"

subsection \<open>Tokens are unique\<close>

lemma masks: "(0x7F :: u32) = mask 7" "(0x1FFFF :: u32) = mask 17" "(0xFFFFFF :: u32) = mask 24"
  by (simp_all add: mask_eq_exp_minus_1)

definition counter :: "u32 \<Rightarrow> u32" where
  "counter cps = (if cps AND 0x7F = 0 then 1 else cps AND 0x7F)"

lemma low_bits:
  assumes "(c :: u32) AND mask 7 = c"
  shows "bit c n \<Longrightarrow> n < 7"
proof -
  assume "bit c n"
  then have "bit (c AND mask 7) n" using assms by simp
  then show "n < 7" by (simp add: bit_simps)
qed

lemma counter_low: "counter cps AND mask 7 = counter cps"
  by (simp add: counter_def masks and.assoc) (simp add: mask_eq_exp_minus_1)

lemma token_parts:
  fixes c pid now :: u32
  assumes "c AND mask 7 = c"
  defines "t \<equiv> push_bit 24 pid OR ((push_bit 7 (now AND mask 17) OR c) AND mask 24)"
  shows "t AND mask 7 = c" "drop_bit 7 t AND mask 17 = now AND mask 17" "drop_bit 24 t = pid AND mask 8"
proof -
  note c = low_bits [OF assms(1)]
  show "t AND mask 7 = c"
    by (rule bit_word_eqI) (auto simp: t_def bit_simps dest: c)
  show "drop_bit 7 t AND mask 17 = now AND mask 17"
    by (rule bit_word_eqI) (auto simp: t_def bit_simps dest: c)
  show "drop_bit 24 t = pid AND mask 8"
    by (rule bit_word_eqI) (auto simp: t_def bit_simps dest: c)
qed

definition pos :: "u32 \<Rightarrow> nat" where
  "pos cps = unat (counter cps) - 1"

definition next_cps :: "u32 \<Rightarrow> u32" where
  "next_cps cps = (if cps AND 0x7F = 0 then cps + 2 else cps + 1)"

lemma unat_low: "unat (cps AND 0x7F :: u32) = unat cps mod 128"
  by (simp add: masks unsigned_take_bit_eq take_bit_eq_mod unat_mod flip: take_bit_eq_mask)

lemma pos_next: "pos (next_cps cps) = (pos cps + 1) mod 127"
proof -
  have z: "cps AND 0x7F = 0 \<longleftrightarrow> unat cps mod 128 = 0" for cps :: u32
    using unat_low [of cps] by (metis unat_0 unat_eq_zero)
  have n: "unat (cps + 1) mod 128 = (unat cps + 1) mod 128" "unat (cps + 2) mod 128 = (unat cps + 2) mod 128"
    by (simp_all add: unat_word_ariths mod_mod_cancel)
  have m: "x mod 128 mod 127 = (if x mod 128 = 127 then 0 else x mod 128)" for x :: nat
  proof -
    have "x mod 128 < 128" by simp
    then show ?thesis by (auto simp del: mod_less_divisor)
  qed
  show ?thesis
    using m [of "unat cps"] n unat_low [of cps] unat_low [of "cps + 1"] unat_low [of "cps + 2"]
    by (auto simp: pos_def next_cps_def counter_def z mod_Suc)
qed

lemma pos_bound: "pos cps < 127" "unat (counter cps) = Suc (pos cps)"
proof -
  have "counter cps \<noteq> 0" "unat (counter cps) < 128" by (auto simp: counter_def unat_low)
  then show "pos cps < 127" "unat (counter cps) = Suc (pos cps)" using unat_gt_0 [of "counter cps"] by (auto simp: pos_def)
qed

lemma token_eq:
  "generate_unique_token (push_bit 24 pid) now cps =
     (push_bit 24 pid OR ((push_bit 7 (now AND mask 17) OR counter cps) AND mask 24), next_cps cps)"
  by (simp add: generate_unique_token_def counter_def next_cps_def masks Let_def add.assoc)

lemma tokens_nth:
  "i < length ts \<Longrightarrow> \<exists>c. pos c = (pos cps + i) mod 127 \<and>
     tokens (push_bit 24 pid) ts cps ! i = push_bit 24 pid OR ((push_bit 7 (ts ! i AND mask 17) OR counter c) AND mask 24)"
proof (induction ts arbitrary: i cps)
  case (Cons t ts)
  show ?case
  proof (cases i)
    case 0
    then show ?thesis using pos_bound(1) [of cps] by (auto simp: token_eq)
  next
    case (Suc j)
    with Cons.IH [of j "next_cps cps"] Cons.prems show ?thesis by (auto simp: token_eq pos_next mod_simps)
  qed
qed simp

lemma tokens_length [simp]: "length (tokens uniq ts cps) = length ts"
  by (induction ts arbitrary: cps) (simp_all split: prod.splits)

lemma same_position:
  assumes "(p + i) mod 127 = (p + j) mod (127 :: nat)" "i < j"
  shows "i + 127 \<le> j"
proof -
  have "127 dvd (p + j) - (p + i)" using assms by (metis mod_eq_dvd_iff_nat le_less nat_add_left_cancel_le)
  then have "127 dvd j - i" by simp
  with assms(2) show ?thesis by (metis add.commute dvd_imp_le le_diff_conv2 less_imp_le zero_less_diff)
qed

lemma process_range:
  assumes "0 \<le> s" "s < 8" "0 \<le> r" "r < 32"
  shows "generate_unique_process_range s r = push_bit 24 (word_of_int (32 * s + r))"
    "(word_of_int (32 * s + r) :: u32) AND mask 8 = word_of_int (32 * s + r)"
proof -
  have b: "push_bit 5 (word_of_int s) OR word_of_int r = (word_of_int (32 * s + r) :: u32)"
  proof -
    have "push_bit 5 (word_of_int s) OR word_of_int r = push_bit 5 (word_of_int s) + (word_of_int r :: u32)"
    proof (rule disjunctive_add [symmetric])
      fix n
      have "r = take_bit 5 r" using assms by (simp add: take_bit_int_eq_self)
      then have "bit r n \<Longrightarrow> n < 5" by (metis bit_take_bit_iff)
      then show "\<not> bit (push_bit 5 (word_of_int s) :: u32) n \<or> \<not> bit (word_of_int r :: u32) n"
        by (auto simp: bit_simps)
    qed
    then show ?thesis by (simp add: push_bit_eq_mult wi_hom_add wi_hom_mult mult.commute)
  qed
  have sm: "s smod 8 = s" "r smod 32 = r"
    using assms smod_mod_positive [of s 8] smod_mod_positive [of r 32] by simp_all
  show "generate_unique_process_range s r = push_bit 24 (word_of_int (32 * s + r))"
    by (simp only: generate_unique_process_range_def Let_def sm b)
  have t: "take_bit 8 (32 * s + r) = 32 * s + r" using assms by (simp add: take_bit_int_eq_self)
  have w: "take_bit 8 (word_of_int x) = (word_of_int (take_bit 8 x) :: u32)" for x
    by (rule bit_word_eqI) (auto simp: bit_simps)
  show "(word_of_int (32 * s + r) :: u32) AND mask 8 = word_of_int (32 * s + r)"
    using w [of "32 * s + r"] unfolding t by (simp only: take_bit_eq_mask)
qed

lemma tokens_in_range: "t \<in> set (tokens (push_bit 24 pid) ts cps) \<Longrightarrow> drop_bit 24 t = pid AND mask 8"
proof -
  assume "t \<in> set (tokens (push_bit 24 pid) ts cps)"
  then obtain i where i: "i < length ts" "t = tokens (push_bit 24 pid) ts cps ! i" by (metis in_set_conv_nth tokens_length)
  then show ?thesis using tokens_nth [OF i(1), of cps pid] token_parts(3) [OF counter_low] by auto
qed

lemma sorted_run:
  assumes "sorted ts" "i \<le> j" "j < length ts" "ts ! i = (ts ! j :: nat)"
  shows "j - i < count_list ts (ts ! j)"
proof -
  have "\<forall>k \<in> {i..j}. ts ! k = ts ! j"
    using assms by (metis atLeastAtMost_iff le_antisym le_less_trans sorted_nth_mono)
  then have "{i..j} \<subseteq> {k. k < length ts \<and> ts ! j = ts ! k}" using assms(3) by auto
  then have "card {i..j} \<le> card {k. k < length ts \<and> ts ! j = ts ! k}" by (intro card_mono) auto
  then show ?thesis using assms(2) by (simp add: count_list_eq_length_filter length_filter_conv_card)
qed

lemma tokens_distinct:
  assumes "sorted ts" "\<forall>t \<in> set ts. t < hd ts + 2 ^ 17" "\<forall>t. count_list ts t \<le> 127"
  shows "distinct (tokens (push_bit 24 pid) (map of_nat ts) cps)"
proof -
  have "tokens (push_bit 24 pid) (map of_nat ts) cps ! i \<noteq> tokens (push_bit 24 pid) (map of_nat ts) cps ! j"
    if ij: "i < j" "j < length ts" for i j
  proof
    let ?t = "tokens (push_bit 24 pid) (map of_nat ts) cps"
    assume eq: "?t ! i = ?t ! j"
    obtain c where c: "pos c = (pos cps + i) mod 127"
      "?t ! i = push_bit 24 pid OR ((push_bit 7 (of_nat (ts ! i) AND mask 17) OR counter c) AND mask 24)"
      using tokens_nth [of i "map of_nat ts" cps pid] ij by auto
    obtain d where d: "pos d = (pos cps + j) mod 127"
      "?t ! j = push_bit 24 pid OR ((push_bit 7 (of_nat (ts ! j) AND mask 17) OR counter d) AND mask 24)"
      using tokens_nth [of j "map of_nat ts" cps pid] ij by auto
    have "counter c = counter d"
      using eq c(2) d(2) token_parts(1) [OF counter_low] by metis
    then have "(pos cps + i) mod 127 = (pos cps + j) mod 127" using c(1) d(1) by (simp add: pos_def)
    then have far: "i + 127 \<le> j" using ij(1) by (rule same_position)
    have "(of_nat (ts ! i) AND mask 17 :: u32) = of_nat (ts ! j) AND mask 17"
      using eq c(2) d(2) token_parts(2) [OF counter_low] by metis
    then have "unat (of_nat (ts ! i) AND mask 17 :: u32) = unat (of_nat (ts ! j) AND mask 17 :: u32)" by simp
    then have m: "ts ! i mod 2 ^ 17 = ts ! j mod 2 ^ 17"
      by (simp add: unsigned_take_bit_eq take_bit_eq_mod unat_of_nat unat_mod mod_mod_cancel flip: take_bit_eq_mask)
    have le: "ts ! i \<le> ts ! j" using assms(1) ij by (intro sorted_nth_mono) auto
    have "hd ts \<le> ts ! i" using assms(1) ij by (metis hd_conv_nth le0 length_0_conv less_trans not_less_zero sorted_nth_mono less_imp_le)
    moreover have "ts ! j < hd ts + 2 ^ 17" using assms(2) ij(2) by simp
    ultimately have "ts ! j - ts ! i < 2 ^ 17" by simp
    moreover have "2 ^ 17 dvd ts ! j - ts ! i" using m le by (metis mod_eq_dvd_iff_nat)
    ultimately have "ts ! i = ts ! j" using le by (metis diff_is_0_eq dvd_imp_le le_antisym not_le zero_less_diff)
    then have "j - i < count_list ts (ts ! j)" using assms(1) ij by (intro sorted_run) auto
    moreover have "count_list ts (ts ! j) \<le> 127" using assms(3) by blast
    ultimately show False using far by linarith
  qed
  then show ?thesis by (auto simp: distinct_conv_nth) (metis nat_neq_iff)
qed



subsection \<open>The table knows every segment\<close>

definition tracked :: "shm_node list \<Rightarrow> int list" where
  "tracked ns = map nd_shmid (filter (\<lambda>n. nd_in_use n \<noteq> 0) ns)"

definition empty_node :: shm_node where
  "empty_node = \<lparr>nd_shmid = 0, nd_time = 0, nd_in_use = 0\<rparr>"

text \<open>
  The life of the table of \<open>n\<close> nodes: fork groups are created, called, finished and
  cleared, and the watcher passes. The system hands out identifiers that no segment has;
  \<open>shmid\<close>, the segment of the server state, is one of its own. The last argument are the
  segments created while the table was full.
\<close>

inductive shm_reach :: "int \<Rightarrow> int \<Rightarrow> int \<Rightarrow> nat \<Rightarrow> shm_state \<Rightarrow> int list \<Rightarrow> bool" for shmid timer deletetimer n where
  start: "shm_reach shmid timer deletetimer n \<lparr>nodes = replicate n empty_node, live = []\<rparr> []"
| create: "shm_reach shmid timer deletetimer n s lost \<Longrightarrow> new_id \<notin> set (live s) \<Longrightarrow> new_id \<noteq> shmid \<Longrightarrow>
     shm_reach shmid timer deletetimer n (shm_create shmid now new_id s)
       (if list_ex (\<lambda>n. nd_in_use n = 0) (nodes s) then lost else new_id # lost)"
| update: "shm_reach shmid timer deletetimer n s lost \<Longrightarrow>
     shm_reach shmid timer deletetimer n (update_shmid now shm_id nCount s) lost"
| clear: "shm_reach shmid timer deletetimer n s lost \<Longrightarrow>
     shm_reach shmid timer deletetimer n (f_clear_forkgroup shm_id s) lost"
| watch: "shm_reach shmid timer deletetimer n s lost \<Longrightarrow>
     shm_reach shmid timer deletetimer n (nested_calls_shm_clear timer deletetimer now s) lost"

text \<open>Every segment is in the table or lost, and only once.\<close>

definition shm_inv :: "int \<Rightarrow> shm_state \<Rightarrow> int list \<Rightarrow> bool" where
  "shm_inv shmid s lost \<longleftrightarrow>
     mset (live s) = mset (tracked (nodes s)) + mset lost \<and> distinct (live s) \<and> shmid \<notin> set (live s) \<and>
     (\<forall>n \<in> set (nodes s). nd_in_use n \<in> {0, 1, -1})"

lemma tracked_simps [simp]:
  "tracked [] = []" "tracked (n # ns) = (if nd_in_use n \<noteq> 0 then nd_shmid n # tracked ns else tracked ns)"
  by (simp_all add: tracked_def)

lemma tracked_insert:
  "mset (tracked (change_first (\<lambda>n. nd_in_use n = 0) (\<lambda>n. n\<lparr>nd_shmid := i, nd_time := t, nd_in_use := 1\<rparr>) ns)) =
   mset (tracked ns) + (if list_ex (\<lambda>n. nd_in_use n = 0) ns then {#i#} else {#})"
  by (induction ns) auto

lemma change_first_set:
  "n \<in> set (change_first p f ns) \<Longrightarrow> n \<in> set ns \<or> (\<exists>m \<in> set ns. p m \<and> n = f m)"
  by (induction ns) (auto split: if_splits)

lemma free_node_simps [simp]: "nd_in_use (free_node n) = 0" "nd_shmid (free_node n) = 0"
  by (simp_all add: free_node_def)

lemma tracked_free:
  "list_ex (holds i) ns \<Longrightarrow> (\<And>n. nd_in_use (f n) = 0) \<Longrightarrow>
   mset (tracked ns) = add_mset i (mset (tracked (change_first (holds i) f ns)))"
  by (induction ns) (auto simp: holds_def)

lemma tracked_keep:
  "(\<And>n. nd_in_use (f n) = nd_in_use n \<and> nd_shmid (f n) = nd_shmid n) \<Longrightarrow> tracked (change_first p f ns) = tracked ns"
  by (induction ns) auto

lemma inv_init: "shm_inv shmid \<lparr>nodes = replicate n empty_node, live = []\<rparr> []"
proof -
  have "tracked (replicate n empty_node) = []" by (induction n) (simp_all add: empty_node_def)
  then show ?thesis by (simp add: shm_inv_def empty_node_def)
qed

lemma inv_create:
  assumes "shm_inv shmid s lost" "new_id \<notin> set (live s)" "new_id \<noteq> shmid"
  shows "shm_inv shmid (shm_create shmid now new_id s)
    (if list_ex (\<lambda>n. nd_in_use n = 0) (nodes s) then lost else new_id # lost)"
proof -
  have "set (tracked (nodes s)) \<subseteq> set (live s)"
    using assms(1) unfolding shm_inv_def by (metis mset_subset_eq_add_left set_mset_mono set_mset_mset)
  then have "\<forall>n \<in> set (nodes s). nd_in_use n \<noteq> 0 \<longrightarrow> nd_shmid n \<in> set (live s)" by (auto simp: tracked_def)
  moreover have "shmid \<notin> set (live s)" using assms(1) by (simp add: shm_inv_def)
  ultimately have "\<not> select_shmid shmid new_id (s\<lparr>live := new_id # live s\<rparr>)"
    by (auto simp: select_shmid_def list_ex_iff)
  then show ?thesis
    using assms
    by (auto simp: shm_create_def insert_shmid_shm_def shm_inv_def tracked_insert Let_def dest: change_first_set)
qed

lemma inv_drop:
  assumes "shm_inv shmid s lost" "list_ex (holds i) (nodes s)" "\<And>n. nd_in_use (f n) = 0"
  shows "shm_inv shmid (shmctl_rmid i (s\<lparr>nodes := change_first (holds i) f (nodes s)\<rparr>)) lost"
proof -
  have "mset (live s) = add_mset i (mset (tracked (change_first (holds i) f (nodes s)))) + mset lost"
    using assms(1) tracked_free [OF assms(2,3)] by (simp add: shm_inv_def)
  then show ?thesis
    using assms(1,3) by (auto simp: shm_inv_def shmctl_rmid_def mset_remove1 dest: change_first_set notin_set_remove1)
qed

lemma inv_update:
  assumes "shm_inv shmid s lost"
  shows "shm_inv shmid (update_shmid now i nCount s) lost"
proof (cases "list_ex (holds i) (nodes s) \<and> nCount < 1")
  case True
  with inv_drop [OF assms, of i "\<lambda>n. free_node (n\<lparr>nd_time := now\<rparr>)"] show ?thesis
    by (simp add: update_shmid_def)
next
  case False
  then show ?thesis
    using assms by (auto simp: update_shmid_def shm_inv_def tracked_keep dest!: change_first_set)
qed

lemma inv_clear: "shm_inv shmid s lost \<Longrightarrow> shm_inv shmid (f_clear_forkgroup i s) lost"
  using inv_drop [of shmid s lost i free_node] by (simp add: f_clear_forkgroup_def)

lemma watch_live:
  "mset l = mset (tracked ns) + M \<Longrightarrow>
   mset (foldl (\<lambda>l n. if nd_in_use n = -1 \<and> now - nd_time n > d then remove1 (nd_shmid n) l else l) l ns) =
     mset (tracked (map (watch_node t d now) ns)) + M"
proof (induction ns arbitrary: l M)
  case (Cons n ns)
  let ?gone = "nd_in_use n = -1 \<and> now - nd_time n > d"
  show ?case
  proof (cases ?gone)
    case True
    then have "mset (remove1 (nd_shmid n) l) = mset (tracked ns) + M"
      using Cons.prems by simp
    from Cons.IH [OF this] True show ?thesis by (simp add: watch_node_def)
  next
    case False
    then have t: "tracked [watch_node t d now n] = tracked [n]" by (auto simp: watch_node_def)
    have "mset l = mset (tracked ns) + (mset (tracked [n]) + M)" using Cons.prems by simp
    from Cons.IH [OF this] False t show ?thesis by (auto split: if_splits)
  qed
qed simp

lemma inv_watch: "shm_inv shmid s lost \<Longrightarrow> shm_inv shmid (nested_calls_shm_clear t d now s) lost"
proof -
  assume i: "shm_inv shmid s lost"
  let ?s = "nested_calls_shm_clear t d now s"
  have m: "mset (live ?s) = mset (tracked (nodes ?s)) + mset lost"
    using i watch_live [of "live s" "nodes s" "mset lost" d now t] by (simp add: nested_calls_shm_clear_def shm_inv_def)
  let ?drop = "\<lambda>l n. if nd_in_use n = -1 \<and> now - nd_time n > d then remove1 (nd_shmid n) l else l"
  have "x \<in> set (foldl ?drop l ns) \<Longrightarrow> x \<in> set l" for x l and ns :: "shm_node list"
  proof (induction ns arbitrary: l)
    case (Cons n ns)
    then have "x \<in> set (?drop l n)" by simp
    then show ?case by (simp split: if_splits) (meson notin_set_remove1)
  qed simp
  moreover have "distinct l \<Longrightarrow> distinct (foldl ?drop l ns)" for l and ns :: "shm_node list"
    by (induction ns arbitrary: l) auto
  ultimately have "distinct (live ?s)" "shmid \<notin> set (live ?s)"
    using i by (auto simp: shm_inv_def nested_calls_shm_clear_def)
  with m i show ?thesis
    by (auto simp: shm_inv_def nested_calls_shm_clear_def watch_node_def split: if_splits)
qed


text \<open>
  C12: Over every history of creating, calling, finishing and clearing fork groups and of
  passes of the watcher, the shared segments that exist are exactly those in use in the
  table and those created while the table was full, each once.
\<close>

theorem segment_table_complete:
  assumes "shm_reach shmid timer deletetimer n s lost"
  shows "set (live s) = set (tracked (nodes s)) \<union> set lost \<and> distinct (tracked (nodes s) @ lost) \<and>
    length (live s) = length (tracked (nodes s)) + length lost"
proof -
  from assms have "shm_inv shmid s lost"
  proof induction
    case (create s lost new_id now)
    then show ?case by (intro inv_create)
  qed (simp_all add: inv_init inv_update inv_clear inv_watch)
  then have m: "mset (live s) = mset (tracked (nodes s) @ lost)" "distinct (live s)" by (simp_all add: shm_inv_def)
  then show ?thesis
    using mset_eq_setD [OF m(1)] mset_eq_length [OF m(1)] mset_eq_imp_distinct_iff [OF m(1)] by auto
qed

theorem segment_table_complete_witness:
  "set (live (update_shmid 20 7 0 (shm_create 5 10 7 \<lparr>nodes = replicate 3 empty_node, live = []\<rparr>))) = {}"
proof -
  let ?s = "\<lparr>nodes = replicate 3 empty_node, live = []\<rparr>"
  have "shm_reach 5 60 10 3 (update_shmid 20 7 0 (shm_create 5 10 7 ?s))
      (if list_ex (\<lambda>n. nd_in_use n = 0) (nodes ?s) then [] else [7])"
    by (intro shm_reach.update shm_reach.create shm_reach.start) simp_all
  from segment_table_complete [OF this] show ?thesis
    by (simp add: numeral_3_eq_3 empty_node_def shm_create_def insert_shmid_shm_def update_shmid_def select_shmid_def
        holds_def shmctl_rmid_def)
qed

text \<open>
  The watcher gives a segment up only when it has not been called for more than
  \<open>timer\<close> seconds, and removes it more than \<open>deletetimer\<close> seconds after that.
\<close>

theorem watcher_patience:
  assumes "sorted ts" "nd_in_use n = 1" "0 \<le> deletetimer"
    and "nd_in_use (fold (watch_node timer deletetimer) ts n) \<noteq> 1"
  shows "ts \<noteq> [] \<and> last ts > nd_time n + timer \<and>
    (nd_in_use (fold (watch_node timer deletetimer) ts n) = 0 \<longrightarrow> last ts > nd_time n + timer + deletetimer + 1)"
proof -
  define R where "R m c \<longleftrightarrow>
    (nd_in_use m = 1 \<and> nd_time m = nd_time n) \<or>
    (nd_in_use m = -1 \<and> nd_time m > nd_time n + timer \<and> nd_time m \<le> c) \<or>
    (nd_in_use m = 0 \<and> c > nd_time n + timer + deletetimer + 1)" for m :: shm_node and c
  have step: "R m c \<Longrightarrow> c \<le> c' \<Longrightarrow> R (watch_node timer deletetimer c' m) c'" for m c c'
    by (auto simp: R_def watch_node_def)
  have "R m c \<Longrightarrow> sorted (c # ts) \<Longrightarrow> R (fold (watch_node timer deletetimer) ts m) (last (c # ts))" for m c ts
    by (induction ts arbitrary: m c) (auto dest: step)
  moreover have "R n (hd ts)" using assms(2) by (simp add: R_def)
  moreover have "ts \<noteq> []" using assms(2,4) by auto
  ultimately have "R (fold (watch_node timer deletetimer) ts n) (last ts)"
    using assms(1) step [of n "hd ts" "hd ts"] by (cases ts) auto
  with assms(3,4) \<open>ts \<noteq> []\<close> show ?thesis by (auto simp: R_def)
qed

theorem watcher_patience_witness:
  "\<exists>ts. last ts > (100 :: int) + 60 \<and>
    nd_in_use (fold (watch_node 60 10) ts \<lparr>nd_shmid = 7, nd_time = 100, nd_in_use = 1\<rparr>) = 0"
proof -
  let ?n = "\<lparr>nd_shmid = 7, nd_time = 100, nd_in_use = 1\<rparr>"
  have "nd_in_use (fold (watch_node 60 10) [120, 161, 172] ?n) = 0" by (simp add: watch_node_def)
  with watcher_patience [of "[120, 161, 172]" ?n 10 60] show ?thesis by (intro exI [of _ "[120, 161, 172]"]) simp
qed

subsection \<open>A group is split into consecutive ranges\<close>

function chunks :: "int \<Rightarrow> int \<Rightarrow> int \<Rightarrow> (int \<times> int) list" where
  "chunks sz s e = (if s > e \<or> sz < 1 then [] else (s, min e (s + sz - 1)) # chunks sz (s + sz) e)"
  by pat_completeness auto

termination
  by (relation "measure (\<lambda>(sz, s, e). nat (e - s + 1))") auto

declare chunks.simps [simp del]

lemma chunks_empty: "s > e \<Longrightarrow> chunks sz s e = []"
  by (simp add: chunks.simps)

lemma chunks_cover: "1 \<le> sz \<Longrightarrow> concat (map (\<lambda>(x, y). [x..y]) (chunks sz s e)) = [s..e]"
proof (induction sz s e rule: chunks.induct)
  case (1 sz s e)
  show ?case
  proof (cases "s > e")
    case True
    then show ?thesis by (simp add: chunks_empty)
  next
    case False
    with 1 have "concat (map (\<lambda>(x, y). [x..y]) (chunks sz (s + sz) e)) = [s + sz..e]" by simp
    moreover have "[s..min e (s + sz - 1)] @ [s + sz..e] = [s..e]"
    proof (cases "s + sz \<le> e")
      case True
      then have "min e (s + sz - 1) = s + sz - 1" by simp
      with True 1(2) show ?thesis using upto_split2 [of s "s + sz - 1" e] by simp
    qed simp
    ultimately show ?thesis using False 1(2) by (subst chunks.simps) simp
  qed
qed

lemma chunks_member:
  "(x, y) \<in> set (chunks sz s e) \<Longrightarrow> \<exists>i. 0 \<le> i \<and> x = s + i * sz \<and> x \<le> e \<and> y = min e (x + sz - 1) \<and> 1 \<le> sz"
proof (induction sz s e rule: chunks.induct)
  case (1 sz s e)
  from 1(2) have ne: "\<not> (s > e \<or> sz < 1)" by (subst (asm) chunks.simps) (auto split: if_splits)
  with 1(2) consider "x = s" "y = min e (s + sz - 1)" | "(x, y) \<in> set (chunks sz (s + sz) e)"
    by (subst (asm) chunks.simps) auto
  then show ?case
  proof cases
    case 1
    with ne show ?thesis by (intro exI [of _ 0]) auto
  next
    case 2
    from 1(1) [OF ne 2] obtain i where "0 \<le> i" "x = s + sz + i * sz" "x \<le> e" "y = min e (x + sz - 1)" by auto
    with ne show ?thesis by (intro exI [of _ "i + 1"]) (auto simp: algebra_simps)
  qed
qed

lemma chunks_length: "e - s + 1 \<le> int k * sz \<Longrightarrow> 1 \<le> sz \<Longrightarrow> length (chunks sz s e) \<le> k"
proof (induction k arbitrary: s)
  case 0
  then show ?case by (simp add: chunks_empty)
next
  case (Suc k)
  then have "length (chunks sz (s + sz) e) \<le> k" by (intro Suc.IH) (auto simp: algebra_simps)
  then show ?case by (subst chunks.simps) simp
qed

text \<open>What is handed over for a list of URIs; the first one becomes the Request-URI.\<close>

definition outs :: "bool \<Rightarrow> string list \<Rightarrow> fork_out list" where
  "outs first ts = (case ts of [] \<Rightarrow> [] | t # ts \<Rightarrow> (if first then Request_Uri t else Branch t) # map Branch ts)"

text \<open>A step hands over the URIs \<open>ts\<close> and counts \<open>n\<close> groups.\<close>

definition emits :: "fork_cfg \<Rightarrow> string list \<Rightarrow> int \<Rightarrow> fork_state \<Rightarrow> fork_state \<Rightarrow> bool" where
  "emits cfg ts n s s' \<longleftrightarrow>
     fk_out s' = fk_out s @ outs (fk_append s = 0) (map (forked_uri cfg) ts) \<and>
     (fk_append s' = 0 \<longleftrightarrow> fk_append s = 0 \<and> ts = []) \<and>
     fk_count s' = map_option (\<lambda>c. c + n) (fk_count s)"

lemma outs_append: "outs b (xs @ ys) = outs b xs @ outs (b \<and> xs = []) ys"
  by (cases xs; cases ys) (auto simp: outs_def)

lemma emits_trans: "emits cfg xs m s t \<Longrightarrow> emits cfg ys n t u \<Longrightarrow> emits cfg (xs @ ys) (m + n) s u"
  by (auto simp: emits_def outs_append option.map_comp comp_def add.assoc)

lemma emits_Nil: "emits cfg [] 0 s s"
  by (simp add: emits_def outs_def option.map_ident)

lemma emits_uri: "emits cfg ts n (s\<lparr>fk_uri := t\<rparr>) = emits cfg ts n s"
  by (rule ext) (simp add: emits_def)

lemma emits_one: "uri_mem cfg \<Longrightarrow> emits cfg [fk_uri s] 0 s (append_forkeduri cfg s)"
  by (simp add: emits_def outs_def append_forkeduri_def Let_def option.map_ident)

lemma emits_counted: "emits cfg xs n (UpdateShmCounter s) t \<Longrightarrow> emits cfg xs (1 + n) s t"
  by (simp add: emits_def UpdateShmCounter_def option.map_comp comp_def add.assoc)

text \<open>The loop over the parts, for any recursive call that hands over URIs of its range.\<close>

lemma fork_loop_emits:
  fixes cfg nRows uri_len
  defines "T \<equiv> \<lambda>x y. snprintf_s (uri_len - 1) (fgrp_text cfg x y nRows)"
  assumes "1 \<le> max_fork cfg" "sz = (if G > int (max_fork cfg) then G else int (max_fork cfg))"
    and "\<And>x y s. (x, y) \<in> set (chunks sz (a + 1) e) \<Longrightarrow> fk_uri s = T x y \<Longrightarrow>
        \<exists>s'. gen x y s = Some s' \<and> emits cfg (f x y) (g x y) s s'"
    and "length (chunks sz (a + 1) e) \<le> k"
  shows "\<exists>s'. fork_loop gen cfg G e nRows uri_len k a s = Some s' \<and>
    emits cfg (concat (map (\<lambda>(x, y). f x y) (chunks sz (a + 1) e)))
      (sum_list (map (\<lambda>(x, y). g x y) (chunks sz (a + 1) e))) s s'"
  using assms(4,5)
proof (induction k arbitrary: a s)
  case 0
  then show ?case by (simp add: emits_Nil)
next
  case (Suc k)
  have sz: "1 \<le> sz" using assms(2,3) by auto
  show ?case
  proof (cases "a < e")
    case False
    then have "chunks sz (a + 1) e = []" by (simp add: chunks_empty)
    with False show ?thesis by (simp add: emits_Nil)
  next
    case True
    define b where "b = min e (a + 1 + sz - 1)"
    have ch: "chunks sz (a + 1) e = (a + 1, b) # chunks sz (a + 1 + sz) e"
      using True sz unfolding b_def by (subst chunks.simps) simp
    have next_ch: "chunks sz (a + 1 + sz) e = chunks sz (b + 1) e"
      by (cases "a + sz \<le> e") (simp_all add: b_def chunks_empty add.commute add.left_commute)
    let ?s = "s\<lparr>fk_uri := T (a + 1) b\<rparr>"
    obtain t where t: "gen (a + 1) b ?s = Some t" "emits cfg (f (a + 1) b) (g (a + 1) b) ?s t"
      using Suc.prems(1) [of "a + 1" b ?s] by (auto simp: ch)
    obtain s' where r: "fork_loop gen cfg G e nRows uri_len k b t = Some s'"
      "emits cfg (concat (map (\<lambda>(x, y). f x y) (chunks sz (b + 1) e)))
        (sum_list (map (\<lambda>(x, y). g x y) (chunks sz (b + 1) e))) t s'"
      using Suc.IH [of b t] Suc.prems unfolding ch next_ch by auto
    have y: "(let e' = (if G > int (max_fork cfg) then a + 1 + G - 1 else a + 1 + int (max_fork cfg) - 1)
        in if e' > e then e else e') = b"
      using assms(3) by (auto simp: Let_def b_def)
    have "fork_loop gen cfg G e nRows uri_len (Suc k) a s = Some s'"
      using True t(1) r(1) y by (simp add: Let_def T_def)
    with emits_trans [OF t(2) r(2)] show ?thesis by (simp add: ch next_ch emits_uri)
  qed
qed

text \<open>Division rounded up, as the code computes it.\<close>

definition cdiv :: "int \<Rightarrow> int \<Rightarrow> int" where
  "cdiv a m = a div m + (if a mod m > 0 then 1 else 0)"

lemma cdiv_bounds:
  assumes "0 < m"
  shows "a \<le> m * cdiv a m" "m * cdiv a m \<le> a + m - 1"
proof -
  define q r where "q = a div m" and "r = a mod m"
  have d: "a = m * q + r" "0 \<le> r" "r < m" using assms by (simp_all add: q_def r_def)
  have c: "cdiv a m = q + (if r > 0 then 1 else 0)" by (simp add: cdiv_def q_def r_def)
  show "a \<le> m * cdiv a m" "m * cdiv a m \<le> a + m - 1"
    using d unfolding c by (auto simp: distrib_left)
qed

lemma cdiv_small: "2 \<le> m \<Longrightarrow> m < a \<Longrightarrow> cdiv a m < a"
proof -
  assume a: "2 \<le> m" "m < a"
  have "m * cdiv a m \<le> a + m - 1" using a cdiv_bounds(2) [of m a] by simp
  also have "\<dots> < 2 * a" using a by simp
  also have "\<dots> \<le> m * a" using a by (intro mult_right_mono) auto
  finally show "cdiv a m < a" using a by simp
qed

definition part_size :: "int \<Rightarrow> int \<Rightarrow> int" where
  "part_size n m = (if cdiv n m > m then cdiv n m else m)"

lemma part_size_bounds:
  assumes "2 \<le> m" "m < n"
  shows "part_size n m < n" "m \<le> part_size n m" "n \<le> m * part_size n m"
proof -
  have "m * cdiv n m \<le> m * part_size n m" using assms by (intro mult_left_mono) (auto simp: part_size_def)
  moreover have "n \<le> m * cdiv n m" using cdiv_bounds(1) [of m n] assms by simp
  ultimately show "n \<le> m * part_size n m" by linarith
qed (use assms cdiv_small in \<open>auto simp: part_size_def\<close>)

lemma generate_split:
  assumes "e - s + 1 > int (max_fork cfg)" "0 < max_fork cfg"
  shows "generate_forkgroup cfg (Suc fuel) s e np v nRows ul st =
    (let m = int (max_fork cfg);
         hit = (np - (e - s + 1) < m \<and> fk_uri st \<noteq> []);
         st = (if hit then append_forkeduri cfg st else st)
     in fork_loop (\<lambda>a b st. generate_forkgroup cfg fuel a b np (v \<or> hit) nRows 8 st)
          cfg (cdiv (e - s + 1) m) e nRows ul (max_fork cfg) (s - 1) st)"
proof -
  have "\<not> e - s < int (max_fork cfg)" using assms(1) by simp
  with assms show ?thesis by (auto simp: Let_def cdiv_def)
qed

lemma generate_leaf:
  assumes "e - s + 1 \<le> int (max_fork cfg)"
  shows "generate_forkgroup cfg (Suc fuel) s e np v nRows ul st =
    Some (if v then st else append_forkeduri cfg (if fk_uri st \<noteq> [] then UpdateShmCounter st else st))"
  using assms by (auto simp: Let_def)

text \<open>Rounds below a range that was handed over hand over nothing.\<close>

lemma quiet:
  assumes "2 \<le> max_fork cfg"
  shows "np - (e - s + 1) \<ge> int (max_fork cfg) \<or> e - s + 1 \<le> int (max_fork cfg) \<Longrightarrow> nat (e - s + 1) < fuel \<Longrightarrow>
    \<exists>st'. generate_forkgroup cfg fuel s e np True nRows ul st = Some st' \<and> emits cfg [] 0 st st'"
proof (induction fuel arbitrary: s e ul st)
  case (Suc fuel)
  let ?m = "int (max_fork cfg)"
  show ?case
  proof (cases "e - s + 1 \<le> ?m")
    case True
    then show ?thesis using generate_leaf by (auto simp: emits_Nil)
  next
    case False
    then have big: "e - s + 1 > ?m" and far: "np - (e - s + 1) \<ge> ?m" using Suc.prems(1) by auto
    let ?n = "e - s + 1" and ?sz = "part_size (e - s + 1) ?m"
    have sz: "?sz < ?n" "?m \<le> ?sz" "?n \<le> ?m * ?sz" using part_size_bounds [of ?m ?n] assms big by auto
    have loop: "generate_forkgroup cfg (Suc fuel) s e np True nRows ul st =
        fork_loop (\<lambda>a b st. generate_forkgroup cfg fuel a b np True nRows 8 st) cfg (cdiv ?n ?m) e nRows ul (max_fork cfg) (s - 1) st"
      using generate_split [OF big, of fuel np True nRows ul st] assms far by (simp add: Let_def)
    have "\<exists>st'. fork_loop (\<lambda>a b st. generate_forkgroup cfg fuel a b np True nRows 8 st)
          cfg (cdiv ?n ?m) e nRows ul (max_fork cfg) (s - 1) st = Some st' \<and>
        emits cfg (concat (map (\<lambda>(x, y). []) (chunks ?sz (s - 1 + 1) e))) (sum_list (map (\<lambda>(x, y). 0) (chunks ?sz (s - 1 + 1) e))) st st'"
    proof (rule fork_loop_emits)
      fix x y st
      assume "(x, y) \<in> set (chunks ?sz (s - 1 + 1) e)"
      then obtain i where i: "0 \<le> i" "x = s + i * ?sz" "x \<le> e" "y = min e (x + ?sz - 1)" using chunks_member by fastforce
      then have "y - x + 1 \<le> ?sz" by auto
      then have "y - x + 1 < ?n" using sz(1) by simp
      then show "\<exists>s'. generate_forkgroup cfg fuel x y np True nRows 8 st = Some s' \<and> emits cfg [] 0 st s'"
        using far Suc.prems(2) big by (intro Suc.IH) auto
    next
      show "length (chunks ?sz (s - 1 + 1) e) \<le> max_fork cfg" using sz assms by (intro chunks_length) auto
    qed (use assms in \<open>auto simp: part_size_def\<close>)
    moreover have "concat (map (\<lambda>(x, y). []) l) = ([] :: string list)" "sum_list (map (\<lambda>(x, y). 0) l) = (0 :: int)"
      for l :: "(int \<times> int) list" by (induction l) auto
    ultimately show ?thesis unfolding loop by simp
  qed
qed simp

lemma inner_far:
  fixes m :: int
  assumes "3 \<le> m" "m < cdiv l m" "l - 1 \<le> np"
  shows "np - cdiv l m \<ge> m"
proof -
  let ?c = "cdiv l m"
  have "m * ?c \<le> l + m - 1" using cdiv_bounds(2) [of m l] assms(1) by simp
  moreover have "(m - 1) * (m + 1) \<le> (m - 1) * ?c" using assms by (intro mult_left_mono) auto
  moreover have "3 * m \<le> m * m" using assms(1) by (intro mult_right_mono) auto
  ultimately have "1 + m * ?c \<le> l + m" "m * m + ?c \<le> 1 + m * ?c" "m * 3 \<le> m * m" by (simp_all add: algebra_simps)
  then show ?thesis using assms(1,3) by linarith
qed

text \<open>A part is handed over under its own URI.\<close>

lemma part_handed_over:
  assumes "3 \<le> max_fork cfg" "uri_mem cfg" "fk_uri st \<noteq> []" "nat (y - x + 1) < fuel"
    and "y - x + 1 \<le> int (max_fork cfg) \<or> y - x \<le> np \<and> np - (y - x + 1) < int (max_fork cfg)"
  shows "\<exists>st'. generate_forkgroup cfg fuel x y np False nRows 8 st = Some st' \<and>
    emits cfg [fk_uri st] (if y - x < int (max_fork cfg) then 1 else 0) st st'"
proof -
  obtain f where f: "fuel = Suc f" using assms(4) by (cases fuel) auto
  let ?m = "int (max_fork cfg)" and ?l = "y - x + 1"
  show ?thesis
  proof (cases "?l \<le> ?m")
    case True
    have "emits cfg [fk_uri (UpdateShmCounter st)] 0 (UpdateShmCounter st) (append_forkeduri cfg (UpdateShmCounter st))"
      by (rule emits_one [OF assms(2)])
    then have "emits cfg [fk_uri st] (1 + 0) st (append_forkeduri cfg (UpdateShmCounter st))"
      by (intro emits_counted) (simp add: UpdateShmCounter_def)
    with generate_leaf [OF True, of f np False nRows 8 st] True assms(3) show ?thesis by (simp add: f)
  next
    case False
    then have big: "?l > ?m" and np: "y - x \<le> np" "np - ?l < ?m" using assms(5) by auto
    let ?sz = "part_size ?l ?m" and ?st = "append_forkeduri cfg st"
    have sz: "?sz < ?l" "?m \<le> ?sz" "?l \<le> ?m * ?sz" using part_size_bounds [of ?m ?l] assms(1) big by auto
    have loop: "generate_forkgroup cfg fuel x y np False nRows 8 st =
        fork_loop (\<lambda>a b st. generate_forkgroup cfg f a b np True nRows 8 st) cfg (cdiv ?l ?m) y nRows 8 (max_fork cfg) (x - 1) ?st"
      using generate_split [OF big, of f np False nRows 8 st] assms(1,3) np by (simp add: f)
    have "\<exists>st'. fork_loop (\<lambda>a b st. generate_forkgroup cfg f a b np True nRows 8 st)
          cfg (cdiv ?l ?m) y nRows 8 (max_fork cfg) (x - 1) ?st = Some st' \<and>
        emits cfg (concat (map (\<lambda>(x, y). []) (chunks ?sz (x - 1 + 1) y))) (sum_list (map (\<lambda>(x, y). 0) (chunks ?sz (x - 1 + 1) y))) ?st st'"
    proof (rule fork_loop_emits)
      fix u v st
      assume "(u, v) \<in> set (chunks ?sz (x - 1 + 1) y)"
      then obtain i where i: "u = x + i * ?sz" "u \<le> y" "v = min y (u + ?sz - 1)" using chunks_member by fastforce
      then have len: "v - u + 1 \<le> ?sz" by auto
      moreover have "np - ?sz \<ge> ?m \<or> ?sz \<le> ?m"
        using inner_far [of ?m ?l np] assms(1) np(1) by (auto simp: part_size_def)
      ultimately have "np - (v - u + 1) \<ge> ?m \<or> v - u + 1 \<le> ?m" by linarith
      moreover have "nat (v - u + 1) < f" using len sz(1) assms(4) big by (simp add: f)
      ultimately show "\<exists>s'. generate_forkgroup cfg f u v np True nRows 8 st = Some s' \<and> emits cfg [] 0 st s'"
        using assms(1) by (intro quiet) auto
    next
      show "length (chunks ?sz (x - 1 + 1) y) \<le> max_fork cfg" using sz assms(1) by (intro chunks_length) auto
    qed (use assms(1) in \<open>auto simp: part_size_def\<close>)
    moreover have "concat (map (\<lambda>(x, y). []) l) = ([] :: string list)" "sum_list (map (\<lambda>(x, y). 0) l) = (0 :: int)"
      for l :: "(int \<times> int) list" by (induction l) auto
    ultimately obtain st' where "generate_forkgroup cfg fuel x y np False nRows 8 st = Some st'" "emits cfg [] 0 ?st st'"
      unfolding loop by auto
    with emits_trans [OF emits_one [OF assms(2), of st]] big show ?thesis by fastforce
  qed
qed

lemma chunk_lengths:
  assumes "2 \<le> m" "m \<le> e - s" "(x, y) \<in> set (chunks (part_size (e - s + 1) m) s e)"
  defines "np \<equiv> cdiv (e - s) m"
  shows "y - x + 1 \<le> part_size (e - s + 1) m" "x \<le> y"
    "y - x + 1 \<le> m \<or> y - x \<le> np \<and> np - (y - x + 1) < m"
proof -
  let ?n = "e - s + 1" and ?sz = "part_size (e - s + 1) m"
  have sz: "?sz < ?n" "m \<le> ?sz" "?n \<le> m * ?sz" using part_size_bounds [of m ?n] assms by auto
  obtain i where i: "0 \<le> i" "x = s + i * ?sz" "x \<le> e" "y = min e (x + ?sz - 1)" using chunks_member [OF assms(3)] by auto
  show le: "y - x + 1 \<le> ?sz" "x \<le> y" using i sz assms(1) by auto
  show "y - x + 1 \<le> m \<or> y - x \<le> np \<and> np - (y - x + 1) < m"
  proof (cases "cdiv ?n m > m")
    case False
    then show ?thesis using le by (simp add: part_size_def)
  next
    case True
    define G where "G = cdiv ?n m"
    have G: "?sz = G" using True by (simp add: part_size_def G_def)
    have b: "?n \<le> m * G" "m * G \<le> ?n + m - 1" using cdiv_bounds [of m ?n] assms(1) by (simp_all add: G_def)
    have c: "e - s \<le> m * np" "m * np \<le> e - s + m - 1" using cdiv_bounds [of m "e - s"] assms(1) by (simp_all add: np_def)
    have "m * (G - 1) \<le> m * np" using b c by (simp add: algebra_simps)
    then have lo: "G - 1 \<le> np" using assms(1) by simp
    have "m * np < m * (G + 1)" using b c assms(1) by (simp add: algebra_simps)
    then have hi: "np \<le> G" using assms(1) by simp
    have "i * G < m * G" using i b unfolding G by linarith
    then have "i \<le> m - 1" using True assms(1) by (simp add: G_def mult_less_cancel_right)
    then have "i * G \<le> (m - 1) * G" using True assms(1) by (intro mult_right_mono) (simp_all add: G_def)
    then have "G - m + 1 \<le> y - x + 1" using i b unfolding G by (auto simp: algebra_simps min_def)
    moreover have "y - x + 1 \<le> G" using le(1) unfolding G .
    ultimately show ?thesis using lo hi by auto
  qed
qed

lemma split_group:
  assumes "3 \<le> max_fork cfg" "uri_mem cfg" "int (max_fork cfg) \<le> e - s" "nat (e - s + 1) < fuel"
    and "fk_uri st = []"
  defines "ps \<equiv> chunks (part_size (e - s + 1) (int (max_fork cfg))) s e"
  shows "\<exists>st'. generate_forkgroup cfg fuel s e (cdiv (e - s) (int (max_fork cfg))) False 0 128 st = Some st' \<and>
    emits cfg (map (\<lambda>(x, y). snprintf_s 127 (fgrp_text cfg x y 0)) ps)
      (sum_list (map (\<lambda>(x, y). if y - x < int (max_fork cfg) then 1 else 0) ps)) st st'"
proof -
  let ?m = "int (max_fork cfg)" and ?n = "e - s + 1" and ?np = "cdiv (e - s) (int (max_fork cfg))"
  let ?sz = "part_size ?n ?m" and ?T = "\<lambda>x y. snprintf_s 127 (fgrp_text cfg x y 0)"
  obtain f where f: "fuel = Suc f" using assms(4) by (cases fuel) auto
  have big: "?n > ?m" using assms(3) by simp
  have sz: "?sz < ?n" "?m \<le> ?sz" "?n \<le> ?m * ?sz" using part_size_bounds [of ?m ?n] assms(1) big by auto
  have loop: "generate_forkgroup cfg fuel s e ?np False 0 128 st =
      fork_loop (\<lambda>a b st. generate_forkgroup cfg f a b ?np False 0 8 st) cfg (cdiv ?n ?m) e 0 128 (max_fork cfg) (s - 1) st"
    using generate_split [OF big, of f ?np False 0 128 st] assms(1,5) by (simp add: f)
  have "\<exists>st'. fork_loop (\<lambda>a b st. generate_forkgroup cfg f a b ?np False 0 8 st)
        cfg (cdiv ?n ?m) e 0 128 (max_fork cfg) (s - 1) st = Some st' \<and>
      emits cfg (concat (map (\<lambda>(x, y). [?T x y]) (chunks ?sz (s - 1 + 1) e)))
        (sum_list (map (\<lambda>(x, y). if y - x < ?m then 1 else 0) (chunks ?sz (s - 1 + 1) e))) st st'"
  proof (rule fork_loop_emits)
    fix x y and st :: fork_state
    assume ch: "(x, y) \<in> set (chunks ?sz (s - 1 + 1) e)" and u: "fk_uri st = snprintf_s (128 - 1) (fgrp_text cfg x y 0)"
    have u: "fk_uri st = ?T x y" using u by simp
    then have ne: "fk_uri st \<noteq> []" by (simp add: snprintf_s_def fgrp_text_def)
    have l: "y - x + 1 \<le> ?sz" "x \<le> y" "y - x + 1 \<le> ?m \<or> y - x \<le> ?np \<and> ?np - (y - x + 1) < ?m"
      using chunk_lengths [of ?m e s x y] ch assms(1,3) by simp_all
    show "\<exists>s'. generate_forkgroup cfg f x y ?np False 0 8 st = Some s' \<and>
        emits cfg [?T x y] (if y - x < ?m then 1 else 0) st s'"
      unfolding u [symmetric] using l sz(1) assms(4) by (intro part_handed_over [OF assms(1,2) ne]) (auto simp: f)
  next
    show "length (chunks ?sz (s - 1 + 1) e) \<le> max_fork cfg" using sz assms(1) by (intro chunks_length) auto
  qed (use assms(1) in \<open>auto simp: part_size_def\<close>)
  moreover have "concat (map (\<lambda>(x, y). [?T x y]) l) = map (\<lambda>(x, y). ?T x y) l" for l by (induction l) auto
  ultimately show ?thesis unfolding loop ps_def by simp
qed

text \<open>
  Splitting a group hands over one URI for each of at most \<open>MAX_FORK_BRANCHES\<close>
  consecutive ranges that together cover the group exactly once, the first as Request-URI
  and the others as branches; each range is smaller than the group, and groups that need no
  further splitting are counted. This holds although the inner rounds cut their URIs.
\<close>

theorem fork_group_partition:
  assumes "3 \<le> max_fork cfg" "uri_mem cfg" "int (max_fork cfg) \<le> e - s" "nat (e - s + 1) < fuel"
  shows "\<exists>ps st. generate_forkgroup cfg fuel s e (cdiv (e - s) (int (max_fork cfg))) False 0 128
        \<lparr>fk_uri = [], fk_append = 0, fk_out = [], fk_count = Some 0\<rparr> = Some st \<and>
      fk_out st = outs True (map (\<lambda>(x, y). forked_uri cfg (snprintf_s 127 (fgrp_text cfg x y 0))) ps) \<and>
      concat (map (\<lambda>(x, y). [x..y]) ps) = [s..e] \<and> length ps \<le> max_fork cfg \<and>
      (\<forall>(x, y) \<in> set ps. x \<le> y \<and> y - x < e - s) \<and>
      fk_count st = Some (int (length (filter (\<lambda>(x, y). y - x < int (max_fork cfg)) ps)))"
proof -
  let ?m = "int (max_fork cfg)" and ?n = "e - s + 1"
  let ?ps = "chunks (part_size ?n ?m) s e" and ?st = "\<lparr>fk_uri = [], fk_append = 0, fk_out = [], fk_count = Some 0\<rparr>"
  have sz: "part_size ?n ?m < ?n" "?m \<le> part_size ?n ?m" "?n \<le> ?m * part_size ?n ?m"
    using part_size_bounds [of ?m ?n] assms(1,3) by auto
  obtain st where st: "generate_forkgroup cfg fuel s e (cdiv (e - s) ?m) False 0 128 ?st = Some st"
    "emits cfg (map (\<lambda>(x, y). snprintf_s 127 (fgrp_text cfg x y 0)) ?ps)
      (sum_list (map (\<lambda>(x, y). if y - x < ?m then 1 else 0) ?ps)) ?st st"
    using split_group [OF assms, of ?st] by auto
  have "sum_list (map (\<lambda>(x, y). if y - x < ?m then 1 else 0) ps) = int (length (filter (\<lambda>(x, y). y - x < ?m) ps))" for ps
    by (induction ps) auto
  moreover have mp: "map (forked_uri cfg) (map (\<lambda>(x, y). snprintf_s 127 (fgrp_text cfg x y 0)) ps) =
      map (\<lambda>(x, y). forked_uri cfg (snprintf_s 127 (fgrp_text cfg x y 0))) ps" for ps
    by auto
  ultimately have "fk_count st = Some (int (length (filter (\<lambda>(x, y). y - x < ?m) ?ps)))"
    and "fk_out st = outs True (map (\<lambda>(x, y). forked_uri cfg (snprintf_s 127 (fgrp_text cfg x y 0))) ?ps)"
    using st(2) unfolding emits_def mp by simp_all
  moreover have "concat (map (\<lambda>(x, y). [x..y]) ?ps) = [s..e]" using sz assms(1) by (intro chunks_cover) auto
  moreover have "length ?ps \<le> max_fork cfg" using sz assms(1) by (intro chunks_length) auto
  moreover have "\<forall>(x, y) \<in> set ?ps. x \<le> y \<and> y - x < e - s"
    using chunk_lengths [of ?m e s] assms(1,3) sz(1) by fastforce
  ultimately show ?thesis using st(1) by blast
qed

theorem fork_group_partition_witness:
  "\<exists>ps st. generate_forkgroup \<lparr>max_fork = 3, fk_site = ''acme'', fk_token = ''7'', own_ip = ''10.0.0.1'', port_no = 5060,
        uri_mem = True\<rparr> 8 0 6 (cdiv 6 3) False 0 128 \<lparr>fk_uri = [], fk_append = 0, fk_out = [], fk_count = Some 0\<rparr> = Some st \<and>
      concat (map (\<lambda>(x, y). [x..y]) ps) = [0..6] \<and> length ps \<le> 3"
  using fork_group_partition [of "\<lparr>max_fork = 3, fk_site = ''acme'', fk_token = ''7'', own_ip = ''10.0.0.1'',
      port_no = 5060, uri_mem = True\<rparr>" 6 0 8] by auto

subsection \<open>Fork groups come back through the dial plan\<close>

lemma dec_text_value: "list_all digit (dec_text n) \<and> dec_val 0 (dec_text n) = n \<and> dec_text n \<noteq> []"
proof (induction n rule: dec_text.induct)
  case (1 n)
  show ?case
  proof (cases "n < 10")
    case True
    then show ?thesis by (subst (1 2 3) dec_text.simps) simp
  next
    case False
    have "dec_val 0 (xs @ [dig_char k]) = 10 * dec_val 0 xs + k" if "k < 10" for xs k
      using that by (simp add: dec_val_def)
    with 1 [OF False] False show ?thesis by (subst (1 2 3) dec_text.simps) simp
  qed
qed

lemma int_text_nonneg:
  assumes "0 \<le> x" "x < 2 ^ 31"
  shows "list_all digit (int_text x)" "int_text x \<noteq> []" "atoi (int_text x) = x" "Ws_Uri.plain (int_text x)"
    "dec_val 0 (int_text x) = nat x"
proof -
  have t: "int_text x = dec_text (nat x)" using assms by (simp add: int_text_def)
  show d: "list_all digit (int_text x)" and "int_text x \<noteq> []" "dec_val 0 (int_text x) = nat x"
    using dec_text_value [of "nat x"] by (simp_all add: t)
  then show "atoi (int_text x) = x" using assms by (subst atoi_digits) auto
  show "Ws_Uri.plain (int_text x)" by (rule digits_plain [OF d])
qed

lemma strstr_skip: "CHR ''-'' \<notin> set f \<Longrightarrow> strstr (f @ r) ''--'' \<Longrightarrow> strstr r ''--''"
  by (induction f) auto

text \<open>Names that are used in fork URIs.\<close>

definition fork_names :: "fork_cfg \<Rightarrow> bool" where
  "fork_names cfg \<longleftrightarrow>
     list_all Parse_Uri.plain (fk_site cfg @ fk_token cfg @ own_ip cfg) \<and> NUL \<notin> set (fk_site cfg) \<and>
     Ws_Uri.plain (fk_token cfg) \<and> \<not> strstr (''-'' @ fk_site cfg @ ''-'' @ fk_token cfg) ''--'' \<and> own_ip cfg \<noteq> [] \<and>
     length (fk_site cfg) + length (fk_token cfg) \<le> 60 \<and> length (own_ip cfg) \<le> 15 \<and> port_no cfg < 100000"

lemma fgrp_no_double:
  assumes "fork_names cfg" "0 \<le> x" "x < 2 ^ 31" "0 \<le> y" "y < 2 ^ 31"
  shows "\<not> strstr (fgrp_text cfg x y 0) ''--''"
proof
  note X = int_text_nonneg [OF assms(2,3)] and Y = int_text_nonneg [OF assms(4,5)]
  obtain a as where a: "int_text x = a # as" "digit a" using X(1,2) by (cases "int_text x") auto
  obtain b bs where b: "int_text y = b # bs" "digit b" using Y(1,2) by (cases "int_text y") auto
  have nd: "a \<noteq> CHR ''-''" "b \<noteq> CHR ''-''" using a(2) b(2) by auto
  let ?t = "''-'' @ fk_site cfg @ ''-'' @ fk_token cfg"
  assume "strstr (fgrp_text cfg x y 0) ''--''"
  then have "strstr (''fgrp'' @ CHR ''-'' # a # as @ CHR ''-'' # b # bs @ ?t) ''--''" by (simp add: fgrp_text_def a b)
  then have "strstr (CHR ''-'' # a # as @ CHR ''-'' # b # bs @ ?t) ''--''" by (rule strstr_skip [rotated]) simp
  then have "strstr (int_text x @ CHR ''-'' # b # bs @ ?t) ''--''" using nd by (simp add: a)
  then have "strstr (CHR ''-'' # b # bs @ ?t) ''--''" by (rule strstr_skip [rotated]) (use X(4) in \<open>simp add: Ws_Uri.plain_def\<close>)
  then have "strstr (int_text y @ ?t) ''--''" using nd by (simp add: b)
  then have "strstr ?t ''--''" by (rule strstr_skip [rotated]) (use Y(4) in \<open>simp add: Ws_Uri.plain_def\<close>)
  with assms(1) show False by (simp add: fork_names_def)
qed

lemma dec_text_length: "n < 10 ^ k \<Longrightarrow> 0 < k \<Longrightarrow> length (dec_text n) \<le> k"
proof (induction n arbitrary: k rule: dec_text.induct)
  case (1 n)
  show ?case
  proof (cases "n < 10")
    case True
    with 1(3) show ?thesis by (subst dec_text.simps) simp
  next
    case False
    then obtain j where j: "k = Suc j" "0 < j" using 1(2,3) by (cases k; cases "k - 1") auto
    then have "n div 10 < 10 ^ j" using 1(2) by (simp add: less_mult_imp_div_less algebra_simps)
    from 1(1) [OF False this j(2)] False j show ?thesis by (subst dec_text.simps) simp
  qed
qed

lemma int_text_length: "0 \<le> x \<Longrightarrow> x < 2 ^ 31 \<Longrightarrow> length (int_text x) \<le> 10"
  using dec_text_length [of "nat x" 10] by (auto simp: int_text_def)

text \<open>The URI of a range is classified as a fork group with its parts.\<close>

lemma fgrp_recognised:
  assumes "fork_names cfg" "0 \<le> x" "x < 2 ^ 31" "0 \<le> y" "y < 2 ^ 31" "x \<noteq> 611"
  shows "\<exists>r. get_uri_type e (fgrp_text cfg x y 0) token 255 32 = Some r \<and> wr_type r = FGRP \<and>
    ws_parts (wr_ws r) ''fgrp'' (int_text x) (int_text y) (fk_site cfg) (fk_token cfg)"
proof -
  note X = int_text_nonneg [OF assms(2,3)] and Y = int_text_nonneg [OF assms(4,5)]
  let ?u = "fgrp_text cfg x y 0"
  have u: "?u = ''fgrp'' @ CHR ''-'' # int_text x @ CHR ''-'' # int_text y @ CHR ''-'' # fk_site cfg @ CHR ''-'' # fk_token cfg"
    by (simp add: fgrp_text_def)
  have len: "6 \<le> length ?u" "length ?u \<le> 98"
    using assms(1) int_text_length [OF assms(2,3)] int_text_length [OF assms(4,5)] X(2) Y(2)
    by (auto simp: u fork_names_def Suc_le_eq)
  have nul: "NUL \<notin> set ?u" "NUL \<notin> set (fk_site cfg)" "Ws_Uri.plain (fk_token cfg)"
    using assms(1) X(4) Y(4) by (auto simp: u fork_names_def Ws_Uri.plain_def)
  define r where "r = replicate (99 - length ?u) NUL"
  have "100 - length ?u = Suc (99 - length ?u)" using len by simp
  then have p: "padded ?u = ?u @ NUL # r" unfolding padded_def r_def by (simp only: replicate_Suc)
  have b: "c_strncpy (replicate 100 NUL) ?u 99 = padded ?u"
    using strncpy_padded [of ?u "[]"] len by (simp add: padded_Nil)
  have "ws_parsed (zero_ws_uri\<lparr>ws_parsed := padded ?u\<rparr>) =
      ''fgrp'' @ CHR ''-'' # int_text x @ CHR ''-'' # int_text y @ CHR ''-'' # fk_site cfg @ CHR ''-'' # fk_token cfg @ NUL # r"
    unfolding p unfolding u by simp
  from split_parts [OF _ X(4) Y(4) nul(2,3) this]
  obtain w where w: "split_ws_uri (zero_ws_uri\<lparr>ws_parsed := padded ?u\<rparr>) = (True, w)"
    "ws_parts w ''fgrp'' (int_text x) (int_text y) (fk_site cfg) (fk_token cfg)"
    by (auto simp: Ws_Uri.plain_def)
  have m: "take 3 ?u \<noteq> ''mwi''" by (simp add: u)
  have pw: "parse_ws_uri (we_from e) ?u token = Some (1, w, [])"
    using fgrp_no_double [OF assms(1-5)] len nul(1) w(1) m by (simp add: parse_ws_uri_def b cstr_padded Let_def)
  have "int_text x \<noteq> ''611''"
  proof
    assume "int_text x = ''611''"
    with X(5) have "nat x = 611" by (simp add: dig_def)
    with assms(6) show False by simp
  qed
  then have nt: "named_type w = Some (FGRP, w)"
    using w(2) by (simp add: named_type_def ws_parts_def uri_types_def)
  have tok: "ws_token w \<noteq> Null" using w(2) by (auto simp: ws_parts_def ws_text_def)
  show ?thesis
    using pw nt tok w(2) by (simp add: get_uri_type_def)
qed

text \<open>
  The network returns every URI handed over to the dial plan, which splits further or calls
  the members of a range. The result are the ranges called.
\<close>

definition out_uri :: "fork_out \<Rightarrow> string" where
  "out_uri x = (case x of Request_Uri u \<Rightarrow> u | Branch u \<Rightarrow> u)"

definition out_user :: "fork_out \<Rightarrow> string option" where
  "out_user x = (case parse_uri (out_uri x) of Inl _ \<Rightarrow> None | Inr r \<Rightarrow> Some (text_of (out_uri x) (u_user r)))"

fun fork_calls :: "fork_cfg \<Rightarrow> ws_env \<Rightarrow> string \<Rightarrow> nat \<Rightarrow> string \<Rightarrow> (int \<times> int) list option" where
  "fork_calls cfg e token 0 user = None"
| "fork_calls cfg e token (Suc fuel) user =
     do {
       r \<leftarrow> get_uri_type e user token 255 32;
       if wr_type r \<noteq> FGRP then None
       else
         do {
           d \<leftarrow> dialplan_fgrp cfg 1000 (Some 0) (wr_ws r);
           (case d of
              Not_Routed \<Rightarrow> None
            | Call_Members a b \<Rightarrow> Some [(a, b)]
            | Split s \<Rightarrow>
                map_option concat
                  (those (map (\<lambda>x. Option.bind (out_user x) (fork_calls cfg e token fuel)) (fk_out s))))
         }
     }"

lemma out_uri_outs [simp]: "map out_uri (outs b ts) = ts"
  by (cases ts) (simp_all add: outs_def out_uri_def comp_def)

lemma those_map:
  "(\<And>p. p \<in> set ps \<Longrightarrow> \<exists>l. F p = Some l \<and> Q p l) \<Longrightarrow> \<exists>ls. those (map F ps) = Some ls \<and> list_all2 Q ps ls"
proof (induction ps)
  case (Cons p ps)
  then obtain l ls where "F p = Some l" "Q p l" "those (map F ps) = Some ls" "list_all2 Q ps ls" by fastforce
  then show ?case by (intro exI [of _ "l # ls"]) simp
qed simp

lemma fgrp_plain:
  assumes "fork_names cfg" "0 \<le> x" "x < 2 ^ 31" "0 \<le> y" "y < 2 ^ 31"
  shows "list_all Parse_Uri.plain (fgrp_text cfg x y 0)"
proof -
  have d: "list_all digit ds \<Longrightarrow> list_all Parse_Uri.plain ds" for ds
    by (auto simp: list_all_iff Parse_Uri.plain_def)
  show ?thesis
    using assms(1) d int_text_nonneg(1) [OF assms(2,3)] int_text_nonneg(1) [OF assms(4,5)]
    by (simp add: fgrp_text_def fork_names_def) (simp add: Parse_Uri.plain_def)
qed

lemma fork_uri_returns:
  assumes "fork_names cfg" "0 \<le> x" "x < 2 ^ 31" "0 \<le> y" "y < 2 ^ 31"
    and "out_uri f = forked_uri cfg (snprintf_s 127 (fgrp_text cfg x y 0))"
  shows "out_user f = Some (fgrp_text cfg x y 0)"
proof -
  let ?u = "fgrp_text cfg x y 0"
  have lu: "length ?u \<le> 88"
    using assms(1) int_text_length [OF assms(2,3)] int_text_length [OF assms(4,5)] by (simp add: fgrp_text_def fork_names_def)
  have lp: "length (dec_text (port_no cfg)) \<le> 5" using assms(1) dec_text_length [of "port_no cfg" 5] by (simp add: fork_names_def)
  have "length (own_ip cfg) \<le> 15" using assms(1) by (simp add: fork_names_def)
  with lu lp have uri: "out_uri f = ''sip:'' @ ?u @ ''@'' @ own_ip cfg @ '':'' @ dec_text (port_no cfg)"
    using assms(6) by (simp add: forked_uri_def snprintf_s_def)
  have "?u \<noteq> []" by (simp add: fgrp_text_def)
  from parse_user_host_port [OF this fgrp_plain [OF assms(1-5)], of "own_ip cfg" "dec_text (port_no cfg)"]
  obtain r where "parse_uri (out_uri f) = Inr r" "text_of (out_uri f) (u_user r) = ?u"
    using assms(1) dec_text_value [of "port_no cfg"] unfolding uri by (auto simp: fork_names_def)
  then show ?thesis by (simp add: out_user_def)
qed

lemma dialplan_range:
  assumes "ws_parts w ''fgrp'' (int_text x) (int_text y) (fk_site cfg) (fk_token cfg)"
    and "0 \<le> x" "x < 2 ^ 31" "0 \<le> y" "y < 2 ^ 31" "0 < max_fork cfg"
  shows "dialplan_fgrp cfg fuel groups w =
    (if y - x \<ge> int (max_fork cfg) then
       map_option Split (generate_forkgroup cfg fuel x y (cdiv (y - x) (int (max_fork cfg))) False 0 128
         \<lparr>fk_uri = [], fk_append = 0, fk_out = [], fk_count = groups\<rparr>)
     else Some (Call_Members x y))"
  using assms int_text_nonneg [OF assms(2,3)] int_text_nonneg [OF assms(4,5)]
  by (simp add: dialplan_fgrp_def ws_parts_def cdiv_def Let_def)



end
