(* ===== verification/Ip_Addr.thy ===== *)
theory Ip_Addr
  imports Ut
begin

section \<open>Addresses and networks: ip_addr.h, ip_addr.c, resolve.h\<close>

text \<open>
  An address is its family and its bytes in network order; a network is an address and a
  mask. \<open>ip_addr2a\<close> prints an address, \<open>str2ip\<close> and \<open>str2ip6\<close> scan one, \<open>mk_net_bitlen\<close>
  makes the network of the addresses that agree with a given one on their first bits, and
  \<open>matchnet\<close> tests whether an address is in a network. The 16-bit groups of an IPv6 address
  are numbers here; the code converts each with \<open>htons\<close> when its group ends.
\<close>

datatype af = AF_INET | AF_INET6

record ip_addr =
  ip_af :: af
  ip_bytes :: "u8 list"

definition ip_len :: "ip_addr \<Rightarrow> nat" where
  "ip_len ip = length (ip_bytes ip)"

definition ip_ok :: "ip_addr \<Rightarrow> bool" where
  "ip_ok ip \<longleftrightarrow> ip_len ip = (case ip_af ip of AF_INET \<Rightarrow> 4 | AF_INET6 \<Rightarrow> 16)"

subsection \<open>Printing\<close>

definition dec_byte :: "u8 \<Rightarrow> string" where
  "dec_byte x =
     (let n = unat x; a = n div 100; c = n mod 10; b = n mod 100 div 10
      in if a \<noteq> 0 then [char_of (a + 48), char_of (b + 48), char_of (c + 48)]
         else if b \<noteq> 0 then [char_of (b + 48), char_of (c + 48)]
         else [char_of (c + 48)])"

definition HEXDIG :: "nat \<Rightarrow> char" where
  "HEXDIG x = (if x \<ge> 10 then char_of (x - 10 + 65) else char_of (x + 48))"

definition hex_group :: "u16 \<Rightarrow> string" where
  "hex_group w =
     (let n = unat w; a = n div 4096; b = n div 256 mod 16; c = n div 16 mod 16; d = n mod 16
      in if a \<noteq> 0 then [HEXDIG a, HEXDIG b, HEXDIG c, HEXDIG d]
         else if b \<noteq> 0 then [HEXDIG b, HEXDIG c, HEXDIG d]
         else if c \<noteq> 0 then [HEXDIG c, HEXDIG d]
         else [HEXDIG d])"

text \<open>\<open>ntohs (addr16[r])\<close>\<close>

definition addr16 :: "u8 list \<Rightarrow> nat \<Rightarrow> u16" where
  "addr16 bs r = of_nat (256 * unat (bs ! (2 * r)) + unat (bs ! (2 * r + 1)))"

definition ip_addr2a :: "ip_addr \<Rightarrow> string" where
  "ip_addr2a ip =
     (case ip_af ip of
        AF_INET6 \<Rightarrow>
          concat (map (\<lambda>r. hex_group (addr16 (ip_bytes ip) r) @ '':'') [0..<7]) @ hex_group (addr16 (ip_bytes ip) 7)
      | AF_INET \<Rightarrow>
          concat (map (\<lambda>r. dec_byte (ip_bytes ip ! r) @ ''.'') [0..<3]) @ dec_byte (ip_bytes ip ! 3))"

subsection \<open>Scanning\<close>

fun str2ip_loop :: "string \<Rightarrow> nat \<Rightarrow> u8 list \<Rightarrow> (nat \<times> u8 list) option" where
  "str2ip_loop [] i addr = Some (i, addr)"
| "str2ip_loop (c # cs) i addr =
     (if c = CHR ''.'' then (if i + 1 > 3 then None else str2ip_loop cs (i + 1) addr)
      else if digit c then str2ip_loop cs i (addr[i := addr ! i * 10 + of_char c - 48])
      else None)"

definition str2ip :: "string \<Rightarrow> ip_addr option" where
  "str2ip s =
     (case str2ip_loop s 0 [0, 0, 0, 0] of
        None \<Rightarrow> None
      | Some (i, addr) \<Rightarrow> if i < 3 then None else Some \<lparr>ip_af = AF_INET, ip_bytes = addr\<rparr>)"

text \<open>
  The local variables of \<open>str2ip6\<close>; \<open>at_end\<close> is whether \<open>addr\<close> points to \<open>addr_end\<close>.
\<close>

record ip6_state =
  i6 :: nat
  idx1 :: nat
  no_colons :: nat
  double_colon :: bool
  addr_start :: "u16 list"
  addr_end :: "u16 list"
  at_end :: bool

definition HEX2I :: "char \<Rightarrow> nat option" where
  "HEX2I c = hex_digit_val c"

text \<open>An index outside the eight groups is \<open>None\<close> inside \<open>Some\<close>.\<close>

definition group_digit :: "nat \<Rightarrow> ip6_state \<Rightarrow> ip6_state option" where
  "group_digit hex s =
     (if i6 s \<ge> 8 then None
      else if at_end s then
        Some (s\<lparr>addr_end := (addr_end s)[i6 s := addr_end s ! i6 s * 16 + of_nat hex], double_colon := False\<rparr>)
      else
        Some (s\<lparr>addr_start := (addr_start s)[i6 s := addr_start s ! i6 s * 16 + of_nat hex], double_colon := False\<rparr>))"

text \<open>\<open>Inl True\<close> is an access outside the arrays, \<open>Inl False\<close> the result 0.\<close>

definition colon6 :: "ip6_state \<Rightarrow> bool + ip6_state" where
  "colon6 s =
     (let s = s\<lparr>no_colons := no_colons s + 1\<rparr>
      in if no_colons s > 7 then Inl False
         else if double_colon s then
           (let s = s\<lparr>idx1 := i6 s, i6 := 0\<rparr>
            in if at_end s then Inl False else Inr (s\<lparr>at_end := True\<rparr>))
         else if i6 s \<ge> 8 then Inl True
         else Inr (s\<lparr>double_colon := True, i6 := i6 s + 1\<rparr>))"

fun str2ip6_loop :: "string \<Rightarrow> ip6_state \<Rightarrow> bool + ip6_state" where
  "str2ip6_loop [] s = Inr s"
| "str2ip6_loop (c # cs) s =
     (if c = CHR '':'' then
        (case colon6 s of Inl e \<Rightarrow> Inl e | Inr s \<Rightarrow> str2ip6_loop cs s)
      else
        case HEX2I c of
          None \<Rightarrow> Inl False
        | Some hex \<Rightarrow>
            (case group_digit hex s of None \<Rightarrow> Inl True | Some s \<Rightarrow> str2ip6_loop cs s))"

definition group_bytes :: "u16 list \<Rightarrow> u8 list" where
  "group_bytes ws = concat (map (\<lambda>w. [of_nat (unat w div 256), of_nat (unat w mod 256)]) ws)"

text \<open>
  The code after the loop: with a double colon inside, the \<open>i\<close> groups after it are copied to
  the end of the address, which starts at \<open>idx1 + rest\<close>.
\<close>

definition str2ip6_end :: "ip6_state \<Rightarrow> bool + ip_addr option" where
  "str2ip6_end s =
     (if \<not> double_colon s \<and> i6 s \<ge> 8 then Inl True
      else
        let i = (if \<not> double_colon s then i6 s + 1 else i6 s)
        in if at_end s then
             (if i > 8 then Inl True
              else Inr (Some \<lparr>ip_af = AF_INET6,
                     ip_bytes = group_bytes (take (8 - i) (addr_start s) @ take i (addr_end s))\<rparr>))
           else if no_colons s < 7 then Inr None
           else Inr (Some \<lparr>ip_af = AF_INET6, ip_bytes = group_bytes (addr_start s)\<rparr>))"

definition ip6_init :: ip6_state where
  "ip6_init = \<lparr>i6 = 0, idx1 = 0, no_colons = 0, double_colon = False, addr_start = replicate 8 0,
     addr_end = replicate 8 0, at_end = False\<rparr>"

definition str2ip6 :: "string \<Rightarrow> bool + ip_addr option" where
  "str2ip6 st =
     (if st \<noteq> [] \<and> hd st = CHR ''['' \<and> last st \<noteq> CHR '']'' then Inr None
      else
        let s = (if st \<noteq> [] \<and> hd st = CHR ''['' then butlast (tl st) else st)
        in case str2ip6_loop s ip6_init of
             Inl True \<Rightarrow> Inl True
           | Inl False \<Rightarrow> Inr None
           | Inr z \<Rightarrow> str2ip6_end z)"

subsection \<open>Networks\<close>

record net =
  net_ip :: ip_addr
  net_mask :: ip_addr

definition mk_net :: "ip_addr \<Rightarrow> ip_addr \<Rightarrow> net option" where
  "mk_net ip m =
     (if ip_af ip \<noteq> ip_af m \<or> ip_len ip \<noteq> ip_len m then None
      else Some \<lparr>net_ip = ip\<lparr>ip_bytes := map2 (AND) (ip_bytes ip) (ip_bytes m)\<rparr>, net_mask = m\<rparr>)"

definition mask_byte :: "nat \<Rightarrow> nat \<Rightarrow> u8" where
  "mask_byte bitlen r =
     (if r < bitlen div 8 then 255
      else if r = bitlen div 8 \<and> bitlen mod 8 \<noteq> 0 then NOT (push_bit (8 - bitlen mod 8) 1 - 1)
      else 0)"

definition mk_net_bitlen :: "ip_addr \<Rightarrow> nat \<Rightarrow> net option" where
  "mk_net_bitlen ip bitlen =
     (if bitlen > ip_len ip * 8 then None
      else mk_net ip \<lparr>ip_af = ip_af ip, ip_bytes = map (mask_byte bitlen) [0..<ip_len ip]\<rparr>)"

text \<open>The comparison by 32-bit words is one by bytes.\<close>

definition matchnet :: "ip_addr \<Rightarrow> net \<Rightarrow> int" where
  "matchnet ip n =
     (if ip_af ip = ip_af (net_ip n) then
        (if \<forall>r \<in> set [0..<ip_len ip]. ip_bytes ip ! r AND ip_bytes (net_mask n) ! r = ip_bytes (net_ip n) ! r
         then 1 else 0)
      else -1)"

definition ip_addr_cmp :: "ip_addr \<Rightarrow> ip_addr \<Rightarrow> bool" where
  "ip_addr_cmp ip1 ip2 \<longleftrightarrow> ip_af ip1 = ip_af ip2 \<and> take (ip_len ip1) (ip_bytes ip2) = ip_bytes ip1"


subsection \<open>Scanning a printed address\<close>

lemma str2ip_loop_digits:
  assumes "list_all digit ds" "i < length addr"
  shows "str2ip_loop (ds @ cs) i addr = str2ip_loop cs i (addr[i := of_nat (dec_val (unat (addr ! i)) ds)])"
  using assms
proof (induction ds arbitrary: addr)
  case (Cons d ds)
  have "of_char d = (of_nat (dig d + 48) :: u8)" using Cons.prems(1) of_nat_of_char [of d, where 'a = u8] by (simp add: dig_def)
  then have d: "addr ! i * 10 + of_char d - 48 = of_nat (10 * unat (addr ! i) + dig d)" by simp
  have v: "of_nat (dec_val (unat (of_nat n :: u8)) ds) = (of_nat (dec_val n ds) :: u8)" for n
    by (subst (1 2) dec_val_shift) simp
  have "d \<noteq> CHR ''.''" using Cons.prems(1) by auto
  with Cons.prems Cons.IH [of "addr[i := addr ! i * 10 + of_char d - 48]"] show ?case
    by (simp add: d v del: of_nat_add of_nat_mult)
qed simp

lemma str2ip_dotted:
  assumes "list_all digit a" "list_all digit b" "list_all digit c" "list_all digit d"
  shows "str2ip (a @ ''.'' @ b @ ''.'' @ c @ ''.'' @ d) = Some \<lparr>ip_af = AF_INET,
    ip_bytes = [of_nat (dec_val 0 a), of_nat (dec_val 0 b), of_nat (dec_val 0 c), of_nat (dec_val 0 d)]\<rparr>"
  using str2ip_loop_digits [OF assms(4), of 3 _ "[]"] assms(1-3)
  by (simp add: str2ip_def str2ip_loop_digits numeral_3_eq_3)

lemma decimal_digits:
  assumes "a < 10" "b < 10" "c < 10"
  defines "ds \<equiv> if a \<noteq> 0 then [dig_char a, dig_char b, dig_char c] else if b \<noteq> 0 then [dig_char b, dig_char c] else [dig_char c]"
  shows "list_all digit ds \<and> dec_val 0 ds = 100 * a + 10 * b + c"
  using assms(1-3) dig_char by (simp add: ds_def)

lemma dec_byte_value: "list_all digit (dec_byte x) \<and> dec_val 0 (dec_byte x) = unat x"
proof -
  define n where "n = unat x"
  have "n < 256" using unsigned_less [of x] by (simp add: n_def)
  then have "n div 100 < 10" "n mod 100 div 10 < 10" "n mod 10 < 10" by linarith+
  note d = decimal_digits [OF this]
  have "100 * (n div 100) + 10 * (n mod 100 div 10) + n mod 10 = n"
    using mod_mult2_eq [of n 10 10] div_mult_mod_eq [of n 100] by simp
  with d show ?thesis unfolding dec_byte_def Let_def n_def [symmetric] dig_char_def [symmetric] by simp
qed

lemma HEX2I_HEXDIG:
  assumes "x < 16"
  shows "HEX2I (HEXDIG x) = Some x \<and> HEXDIG x \<noteq> CHR '':'' \<and> HEXDIG x \<noteq> CHR ''[''"
proof -
  have n: "of_char (HEXDIG x) = (if x \<ge> 10 then x + 55 else x + 48)" using assms by (simp add: HEXDIG_def)
  then have "HEX2I (HEXDIG x) = Some x" using assms by (simp add: HEX2I_def hex_digit_val_def)
  moreover from n assms have "of_char (HEXDIG x) \<noteq> (58 :: nat)" "of_char (HEXDIG x) \<noteq> (91 :: nat)" by auto
  ultimately show ?thesis by auto
qed

lemma hex_step:
  assumes "x < 16" "i6 s < 8" "\<not> at_end s"
  shows "str2ip6_loop (HEXDIG x # cs) s = str2ip6_loop cs
    (s\<lparr>addr_start := (addr_start s)[i6 s := addr_start s ! i6 s * 16 + of_nat x], double_colon := False\<rparr>)"
  using HEX2I_HEXDIG [OF assms(1)] assms(2,3) by (simp add: group_digit_def)

lemma hex_digits:
  fixes a b c d :: nat
  assumes "a < 16" "b < 16" "c < 16" "d < 16"
    and "i6 s < 8" "\<not> at_end s" "length (addr_start s) = 8" "addr_start s ! i6 s = 0"
  defines "ds \<equiv> if a \<noteq> 0 then [HEXDIG a, HEXDIG b, HEXDIG c, HEXDIG d] else if b \<noteq> 0 then [HEXDIG b, HEXDIG c, HEXDIG d]
    else if c \<noteq> 0 then [HEXDIG c, HEXDIG d] else [HEXDIG d]"
  shows "str2ip6_loop (ds @ cs) s = str2ip6_loop cs
    (s\<lparr>addr_start := (addr_start s)[i6 s := ((of_nat a * 16 + of_nat b) * 16 + of_nat c) * 16 + of_nat d],
       double_colon := False\<rparr>)"
  using assms(1-8) by (simp add: ds_def hex_step del: str2ip6_loop.simps)

lemma hex_group_scanned:
  assumes "i6 s < 8" "\<not> at_end s" "length (addr_start s) = 8" "addr_start s ! i6 s = 0"
  shows "str2ip6_loop (hex_group w @ cs) s =
    str2ip6_loop cs (s\<lparr>addr_start := (addr_start s)[i6 s := w], double_colon := False\<rparr>)"
proof -
  define n where "n = unat w"
  have "n < 65536" using unsigned_less [of w] by (simp add: n_def)
  then have d: "n div 4096 < 16" "n div 256 mod 16 < 16" "n div 16 mod 16 < 16" "n mod 16 < 16" by auto
  have "n = ((n div 4096 * 16 + n div 256 mod 16) * 16 + n div 16 mod 16) * 16 + n mod 16"
    using div_mult2_eq [of n 16 16] div_mult2_eq [of n 256 16] div_mult_mod_eq [of "n div 256" 16]
      div_mult_mod_eq [of "n div 16" 16] div_mult_mod_eq [of n 16] by simp
  then have "of_nat n = (of_nat (((n div 4096 * 16 + n div 256 mod 16) * 16 + n div 16 mod 16) * 16 + n mod 16) :: u16)"
    by (rule arg_cong)
  then have v: "w = ((of_nat (n div 4096) * 16 + of_nat (n div 256 mod 16)) * 16 + of_nat (n div 16 mod 16)) * 16 + of_nat (n mod 16)"
    by (simp add: n_def)
  show ?thesis
    using hex_digits [OF d assms, of cs] unfolding hex_group_def Let_def n_def [symmetric] v [symmetric] .
qed

lemma list4: "length xs = 4 \<Longrightarrow> xs = [xs ! 0, xs ! 1, xs ! 2, xs ! 3]"
  by (auto simp: list_eq_iff_nth_eq less_Suc_eq numeral_eq_Suc)

lemma colon6_next:
  assumes "no_colons s < 7" "i6 s < 8" "\<not> double_colon s"
  shows "str2ip6_loop (CHR '':'' # cs) s =
    str2ip6_loop cs (s\<lparr>no_colons := no_colons s + 1, double_colon := True, i6 := i6 s + 1\<rparr>)"
  using assms by (simp add: colon6_def)

lemma groups_scanned:
  assumes "no_colons s = i6 s" "\<not> at_end s" "length (addr_start s) = 8" "drop (i6 s) (addr_start s) = replicate (8 - i6 s) 0"
    and "i6 s + length ws \<le> 7"
  shows "str2ip6_loop (concat (map (\<lambda>w. hex_group w @ '':'') ws) @ cs) s =
    str2ip6_loop cs (s\<lparr>addr_start := take (i6 s) (addr_start s) @ ws @ replicate (8 - i6 s - length ws) 0,
      no_colons := i6 s + length ws, i6 := i6 s + length ws, double_colon := (ws \<noteq> [] \<or> double_colon s)\<rparr>)"
  using assms
proof (induction ws arbitrary: s)
  case Nil
  have "take (i6 s) (addr_start s) @ replicate (8 - i6 s) 0 = addr_start s"
    using Nil.prems(4) append_take_drop_id by metis
  with Nil.prems(1) show ?case by (cases s) simp
next
  case (Cons w ws)
  let ?i = "i6 s"
  let ?s = "s\<lparr>addr_start := (addr_start s)[?i := w], no_colons := ?i + 1, double_colon := True, i6 := ?i + 1\<rparr>"
  have i: "?i < 8" "?i < 7" using Cons.prems(5) by auto
  have z: "addr_start s ! ?i = 0"
    using arg_cong [OF Cons.prems(4), of "\<lambda>l. l ! 0"] Cons.prems(3) i by simp
  have t: "take (Suc ?i) ((addr_start s)[?i := w]) = take ?i (addr_start s) @ [w]"
    using Cons.prems(3) i by (simp add: take_Suc_conv_app_nth)
  have d: "drop (Suc ?i) ((addr_start s)[?i := w]) = replicate (8 - Suc ?i) 0"
    using arg_cong [OF Cons.prems(4), of "drop 1"] by simp
  let ?rest = "concat (map (\<lambda>w. hex_group w @ '':'') ws) @ cs"
  have "str2ip6_loop (concat (map (\<lambda>w. hex_group w @ '':'') (w # ws)) @ cs) s = str2ip6_loop (hex_group w @ CHR '':'' # ?rest) s"
    by simp
  also have "\<dots> = str2ip6_loop (CHR '':'' # ?rest) (s\<lparr>addr_start := (addr_start s)[?i := w], double_colon := False\<rparr>)"
    using Cons.prems(2,3) i z by (intro hex_group_scanned) auto
  also have "\<dots> = str2ip6_loop ?rest ?s"
    using Cons.prems(1) i by (subst colon6_next) auto
  also have "\<dots> = str2ip6_loop cs (?s\<lparr>addr_start := take (i6 ?s) (addr_start ?s) @ ws @ replicate (8 - i6 ?s - length ws) 0,
      no_colons := i6 ?s + length ws, i6 := i6 ?s + length ws, double_colon := (ws \<noteq> [] \<or> double_colon ?s)\<rparr>)"
    using Cons.prems d by (intro Cons.IH) auto
  finally show ?case using t by simp
qed

lemma addr16_bytes: "of_nat (unat (addr16 bs r) div 256) = bs ! (2 * r)" "of_nat (unat (addr16 bs r) mod 256) = bs ! (2 * r + 1)"
proof -
  let ?h = "unat (bs ! (2 * r))" and ?l = "unat (bs ! (2 * r + 1))"
  have "?h < 256" "?l < 256" using unsigned_less [of "bs ! (2 * r)"] unsigned_less [of "bs ! (2 * r + 1)"] by simp_all
  moreover have "unat (of_nat k :: u16) = k" if "k < 65536" for k using that by (simp add: unat_of_nat)
  ultimately have "unat (addr16 bs r) = 256 * ?h + ?l" "(256 * ?h + ?l) div 256 = ?h" "(256 * ?h + ?l) mod 256 = ?l"
    by (simp_all only: addr16_def) simp_all
  then show "of_nat (unat (addr16 bs r) div 256) = bs ! (2 * r)" "of_nat (unat (addr16 bs r) mod 256) = bs ! (2 * r + 1)"
    by simp_all
qed

lemma group_bytes_addr16: "length bs = 2 * n \<Longrightarrow> group_bytes (map (addr16 bs) [0..<n]) = bs"
proof (induction n arbitrary: bs)
  case (Suc n)
  then have b: "bs = take (2 * n) bs @ [bs ! (2 * n), bs ! (2 * n + 1)]"
    using take_Suc_conv_app_nth [of "2 * n" bs] take_Suc_conv_app_nth [of "Suc (2 * n)" bs] by simp
  have "map (addr16 bs) [0..<n] = map (addr16 (take (2 * n) bs)) [0..<n]"
    by (simp add: addr16_def)
  have "group_bytes (map (addr16 bs) [0..<Suc n]) = group_bytes (map (addr16 bs) [0..<n]) @ [bs ! (2 * n), bs ! (2 * n + 1)]"
    using addr16_bytes [of bs n] by (simp add: group_bytes_def)
  also have "group_bytes (map (addr16 bs) [0..<n]) = take (2 * n) bs"
    unfolding \<open>map (addr16 bs) [0..<n] = _\<close> using Suc.IH [of "take (2 * n) bs"] Suc.prems by simp
  finally show ?case using b by simp
qed (simp add: group_bytes_def)

lemma hex_group_head: "hex_group w \<noteq> [] \<and> hd (hex_group w) \<noteq> CHR ''[''"
proof -
  define n where "n = unat w"
  have "n < 65536" using unsigned_less [of w] by (simp add: n_def)
  then have "n div 4096 < 16" "n div 256 mod 16 < 16" "n div 16 mod 16 < 16" "n mod 16 < 16" by auto
  from this [THEN HEX2I_HEXDIG] show ?thesis unfolding hex_group_def Let_def n_def [symmetric] by auto
qed

text \<open>C19: Scanning a printed address gives it back, in both families.\<close>

theorem ip_text_round_trip:
  assumes "ip_ok ip"
  shows "(if ip_af ip = AF_INET then Inr (str2ip (ip_addr2a ip)) else str2ip6 (ip_addr2a ip)) = Inr (Some ip)"
proof (cases "ip_af ip")
  case AF_INET
  let ?b = "ip_bytes ip"
  have "?b = [?b ! 0, ?b ! 1, ?b ! 2, ?b ! 3]" using assms AF_INET by (intro list4) (simp add: ip_ok_def ip_len_def)
  moreover have "ip_addr2a ip = dec_byte (?b ! 0) @ ''.'' @ dec_byte (?b ! 1) @ ''.'' @ dec_byte (?b ! 2) @ ''.'' @ dec_byte (?b ! 3)"
    by (simp add: ip_addr2a_def AF_INET numeral_3_eq_3 numeral_2_eq_2)
  ultimately show ?thesis
    using str2ip_dotted dec_byte_value AF_INET by (cases ip) simp
next
  case AF_INET6
  let ?w = "addr16 (ip_bytes ip)"
  let ?ws = "map ?w [0..<7]"
  let ?s = "ip6_init\<lparr>addr_start := ?ws @ [0], no_colons := 7, i6 := 7, double_colon := True\<rparr>"
  have t: "ip_addr2a ip = concat (map (\<lambda>w. hex_group w @ '':'') ?ws) @ hex_group (?w 7) @ []"
    by (simp add: ip_addr2a_def AF_INET6 o_def)
  have nb: "hd (ip_addr2a ip) \<noteq> CHR ''[''"
    using hex_group_head [of "?w 0"] by (simp add: t upt_rec)
  have "str2ip6_loop (ip_addr2a ip) ip6_init = str2ip6_loop (hex_group (?w 7) @ []) ?s"
    unfolding t by (subst groups_scanned) (simp_all add: ip6_init_def)
  also have "\<dots> = Inr (?s\<lparr>addr_start := (?ws @ [0])[7 := ?w 7], double_colon := False\<rparr>)"
    by (subst hex_group_scanned) (simp_all add: ip6_init_def nth_append)
  finally have l: "str2ip6_loop (ip_addr2a ip) ip6_init = Inr (?s\<lparr>addr_start := map ?w [0..<8], double_colon := False\<rparr>)"
    by (simp add: list_update_append upt_Suc_append [of 0 7, simplified])
  have "group_bytes (map ?w [0..<8]) = ip_bytes ip"
    using assms AF_INET6 by (intro group_bytes_addr16) (simp add: ip_ok_def ip_len_def)
  with l nb show ?thesis using AF_INET6 by (cases ip) (simp add: str2ip6_def str2ip6_end_def ip6_init_def)
qed

theorem ip_text_round_trip_witness:
  "str2ip (ip_addr2a \<lparr>ip_af = AF_INET, ip_bytes = [10, 0, 7, 255]\<rparr>) = Some \<lparr>ip_af = AF_INET, ip_bytes = [10, 0, 7, 255]\<rparr>"
  using ip_text_round_trip [of "\<lparr>ip_af = AF_INET, ip_bytes = [10, 0, 7, 255]\<rparr>"] by (simp add: ip_ok_def ip_len_def)

text \<open>
  The scanner of IPv4 addresses keeps each number modulo 256: a number above 255 is
  accepted and names another address, and an empty number is accepted as zero.
\<close>

theorem str2ip_wraps:
  assumes "list_all digit a" "list_all digit b" "list_all digit c" "list_all digit d"
  shows "\<exists>ip. str2ip (a @ ''.'' @ b @ ''.'' @ c @ ''.'' @ d) = Some ip \<and> ip_ok ip \<and>
    map unat (ip_bytes ip) = map (\<lambda>x. dec_val 0 x mod 256) [a, b, c, d]"
  using str2ip_dotted [OF assms] by (auto simp: ip_ok_def ip_len_def unat_of_nat)

theorem str2ip_wraps_witness:
  "\<exists>ip. str2ip ''10.0..300'' = Some ip \<and> map unat (ip_bytes ip) = [10, 0, 0, 44]"
proof -
  have d: "list_all digit ''10''" "list_all digit ''0''" "list_all digit []" "list_all digit ''300''" by code_simp+
  show ?thesis using str2ip_wraps [OF d] by (auto simp: dig_def)
qed

definition ip6_inv :: "ip6_state \<Rightarrow> bool" where
  "ip6_inv s \<longleftrightarrow> i6 s + idx1 s \<le> no_colons s \<and> no_colons s \<le> 7"

lemma ip6_step_inv:
  assumes "ip6_inv s"
  shows "\<exists>s'. group_digit x s = Some s' \<and> ip6_inv s'" "colon6 s = Inl False \<or> (\<exists>s'. colon6 s = Inr s' \<and> ip6_inv s')"
  using assms by (auto simp: ip6_inv_def group_digit_def colon6_def Let_def)

lemma ip6_loop_inv: "ip6_inv s \<Longrightarrow> str2ip6_loop cs s = Inl False \<or> (\<exists>s'. str2ip6_loop cs s = Inr s' \<and> ip6_inv s')"
proof (induction cs arbitrary: s)
  case (Cons c cs)
  show ?case
  proof (cases "c = CHR '':''")
    case True
    then show ?thesis using ip6_step_inv(2) [OF Cons.prems] Cons.IH by fastforce
  next
    case False
    show ?thesis
    proof (cases "HEX2I c")
      case (Some x)
      then show ?thesis using False ip6_step_inv(1) [OF Cons.prems, of x] Cons.IH by fastforce
    qed (use False in simp)
  qed
qed simp

text \<open>No string makes the scanner of IPv6 addresses leave its arrays.\<close>

theorem str2ip6_inside_arrays: "str2ip6 st \<noteq> Inl True"
proof -
  have "ip6_inv ip6_init" by (simp add: ip6_inv_def ip6_init_def)
  then have "str2ip6_loop cs ip6_init = Inl False \<or> (\<exists>s'. str2ip6_loop cs ip6_init = Inr s' \<and> ip6_inv s')" for cs
    by (rule ip6_loop_inv)
  moreover have "str2ip6_end s \<noteq> Inl True" if "ip6_inv s" for s
    using that by (auto simp: str2ip6_end_def ip6_inv_def Let_def)
  ultimately have "\<And>cs. (case str2ip6_loop cs ip6_init of Inl True \<Rightarrow> Inl True | Inl False \<Rightarrow> Inr None | Inr z \<Rightarrow> str2ip6_end z) \<noteq> Inl True"
    by (metis (no_types, lifting) bool.simps(4) old.sum.simps(5,6) sum.distinct(1))
  then show ?thesis by (simp add: str2ip6_def Let_def)
qed

subsection \<open>Networks\<close>

text \<open>Bit \<open>k\<close> of an address, the most significant one of the first byte being bit 0.\<close>

definition ip_bit :: "ip_addr \<Rightarrow> nat \<Rightarrow> bool" where
  "ip_bit ip k \<longleftrightarrow> bit (ip_bytes ip ! (k div 8)) (7 - k mod 8)"

lemma bit_mask_byte: "bit (mask_byte k r) b \<longleftrightarrow> b < 8 \<and> 8 * r + (7 - b) < k"
proof -
  have k: "k = 8 * (k div 8) + k mod 8" "k mod 8 < 8" by simp_all
  consider "r < k div 8" | "r = k div 8" | "k div 8 < r" by linarith
  then show ?thesis
  proof cases
    case 1
    have "mask_byte k r = mask 8" using 1 by (simp add: mask_byte_def mask_eq_exp_minus_1)
    moreover have "8 * r + 8 \<le> k" using 1 k by linarith
    ultimately show ?thesis by (auto simp: bit_mask_iff)
  next
    case 2
    have "mask_byte k r = NOT (mask (8 - k mod 8))"
      using 2 by (simp add: mask_byte_def mask_eq_exp_minus_1 push_bit_eq_mult)
    moreover have "8 * r + (7 - b) < k \<longleftrightarrow> 7 - b < k mod 8" using 2 k by linarith
    ultimately show ?thesis by (auto simp: bit_not_iff bit_mask_iff)
  next
    case 3
    then have "k \<le> 8 * r" using k by linarith
    with 3 show ?thesis by (auto simp: mask_byte_def)
  qed
qed

lemma masked_byte_eq:
  fixes x y :: u8
  shows "x AND mask_byte k r = y AND mask_byte k r \<longleftrightarrow> (\<forall>j. j div 8 = r \<longrightarrow> j < k \<longrightarrow> bit x (7 - j mod 8) = bit y (7 - j mod 8))"
proof -
  have "x AND mask_byte k r = y AND mask_byte k r \<longleftrightarrow> (\<forall>b<8. 8 * r + (7 - b) < k \<longrightarrow> bit x b = bit y b)"
    by (auto simp: bit_eq_iff bit_and_iff bit_mask_byte)
  also have "\<dots> \<longleftrightarrow> (\<forall>j. j div 8 = r \<longrightarrow> j < k \<longrightarrow> bit x (7 - j mod 8) = bit y (7 - j mod 8))"
  proof
    assume a: "\<forall>b<8. 8 * r + (7 - b) < k \<longrightarrow> bit x b = bit y b"
    show "\<forall>j. j div 8 = r \<longrightarrow> j < k \<longrightarrow> bit x (7 - j mod 8) = bit y (7 - j mod 8)"
    proof (intro allI impI)
      fix j
      assume "j div 8 = r" "j < k"
      moreover from this have "8 * r + (7 - (7 - j mod 8)) = j" using div_mult_mod_eq [of j 8] by simp
      ultimately show "bit x (7 - j mod 8) = bit y (7 - j mod 8)" using a by simp
    qed
  next
    assume a: "\<forall>j. j div 8 = r \<longrightarrow> j < k \<longrightarrow> bit x (7 - j mod 8) = bit y (7 - j mod 8)"
    show "\<forall>b<8. 8 * r + (7 - b) < k \<longrightarrow> bit x b = bit y b"
    proof (intro allI impI)
      fix b :: nat
      assume b: "b < 8" "8 * r + (7 - b) < k"
      have "(8 * r + (7 - b)) mod 8 = 7 - b" by (simp only: mod_mult_self4) simp
      then have "(8 * r + (7 - b)) div 8 = r" "7 - (8 * r + (7 - b)) mod 8 = b" using b(1) by simp_all
      then show "bit x b = bit y b" using a b(2) by metis
    qed
  qed
  finally show ?thesis .
qed

text \<open>
  C20: An address matches the network made from an address and a number of bits exactly when
  it agrees with that address on these bits.
\<close>

theorem matchnet_prefix:
  assumes "ip_ok ip" "ip_ok base" "ip_af ip = ip_af base" "k \<le> 8 * ip_len base"
  shows "\<exists>n. mk_net_bitlen base k = Some n \<and> (matchnet ip n = 1 \<longleftrightarrow> (\<forall>j<k. ip_bit ip j = ip_bit base j))"
proof -
  let ?l = "ip_len base"
  let ?m = "map (mask_byte k) [0..<?l]"
  let ?n = "\<lparr>net_ip = base\<lparr>ip_bytes := map2 (AND) (ip_bytes base) ?m\<rparr>, net_mask = \<lparr>ip_af = ip_af base, ip_bytes = ?m\<rparr>\<rparr>"
  have l: "ip_len ip = ?l" using assms(1-3) by (simp add: ip_ok_def)
  have len: "length (ip_bytes base) = ?l" by (simp add: ip_len_def)
  have r: "?m ! r = mask_byte k r" "map2 (AND) (ip_bytes base) ?m ! r = ip_bytes base ! r AND mask_byte k r" if "r < ?l" for r
    using that len by simp_all
  have "matchnet ip ?n = 1 \<longleftrightarrow> (\<forall>r\<in>{0..<?l}. ip_bytes ip ! r AND ?m ! r = map2 (AND) (ip_bytes base) ?m ! r)"
    using assms(3) l by (simp only: matchnet_def) simp
  also have "\<dots> \<longleftrightarrow> (\<forall>r<?l. ip_bytes ip ! r AND mask_byte k r = ip_bytes base ! r AND mask_byte k r)"
    unfolding Ball_def atLeastLessThan_iff by (simp add: r cong: imp_cong del: nth_map)
  also have "\<dots> \<longleftrightarrow> (\<forall>r<?l. \<forall>j. j div 8 = r \<longrightarrow> j < k \<longrightarrow> ip_bit ip j = ip_bit base j)"
    unfolding masked_byte_eq ip_bit_def by (metis (no_types, lifting))
  also have "\<dots> \<longleftrightarrow> (\<forall>j<k. ip_bit ip j = ip_bit base j)"
  proof -
    have "j div 8 < ?l" if "j < k" for j using that assms(4) by (intro less_mult_imp_div_less) simp
    then show ?thesis by blast
  qed
  moreover have "ip_len \<lparr>ip_af = ip_af base, ip_bytes = ?m\<rparr> = ?l" by (simp add: ip_len_def)
  ultimately show ?thesis using assms(4) by (simp add: mk_net_bitlen_def mk_net_def mult.commute)
qed

theorem matchnet_prefix_witness:
  "\<exists>n. mk_net_bitlen \<lparr>ip_af = AF_INET, ip_bytes = [10, 0, 0, 1]\<rparr> 12 = Some n \<and>
    matchnet \<lparr>ip_af = AF_INET, ip_bytes = [10, 15, 7, 7]\<rparr> n = 1"
proof -
  have "\<forall>j<12. ip_bit \<lparr>ip_af = AF_INET, ip_bytes = [10, 15, 7, 7]\<rparr> j = ip_bit \<lparr>ip_af = AF_INET, ip_bytes = [10, 0, 0, 1]\<rparr> j"
    by code_simp
  then show ?thesis
    using matchnet_prefix [of "\<lparr>ip_af = AF_INET, ip_bytes = [10, 15, 7, 7]\<rparr>" "\<lparr>ip_af = AF_INET, ip_bytes = [10, 0, 0, 1]\<rparr>" 12]
    by (simp add: ip_ok_def ip_len_def)
qed

end
