(* ===== verification/Script.thy ===== *)
theory Script
  imports Parse_Uri Dset Ip_Addr
begin

section \<open>The routing script: route_struct.h, route.c, action.c, flags.c, proxy.c\<close>

text \<open>
  A routing script is a table of action lists. The parser of the configuration builds it,
  \<open>fix_rls\<close> checks and prepares it at start (host names become proxies, regular expressions
  are compiled, parameters of modules are fixed), and \<open>run_actions\<close> runs a list on a
  message. A tagged union of the C (\<open>p1_type\<close> with \<open>p1\<close>, \<open>subtype\<close> with \<open>r\<close>) is a constructor of
  \<open>param\<close>; reading one with a type its tag does not have is \<open>Crash Misread\<close>. The script is
  built with TCP and without TLS, as the Makefile does.

  Not in the repository and so parameters (\<open>senv\<close>): the resolver, regular expressions,
  sockets and the functions of modules loaded at run time. The result of parsing the From
  and To header fields, \<open>forward_request\<close> and the test whether a host is this server, which
  reads a table fixed at start, are parameters too.
\<close>

subsection \<open>Data\<close>

datatype operand =
    METHOD_O | URI_O | FROM_URI_O | TO_URI_O | SRCIP_O | SRCPORT_O | DSTIP_O | DSTPORT_O
  | PROTO_O | AF_O | MSGLEN_O | DEFAULT_O | ACTION_O | NUMBER_O

datatype oper =
    AND_OP | OR_OP | NOT_OP | EQUAL_OP | MATCH_OP | GT_OP | LT_OP | GTE_OP | LTE_OP | DIFF_OP | NO_OP

datatype atype =
    FORWARD_T | SEND_T | DROP_T | LOG_T | ERROR_T | ROUTE_T | EXEC_T | SET_HOST_T | SET_HOSTPORT_T
  | SET_USER_T | SET_USERPASS_T | SET_PORT_T | SET_URI_T | IF_T | MODULE_T | SETFLAG_T | RESETFLAG_T
  | ISFLAGSET_T | LEN_GT_T | PREFIX_T | STRIP_T | STRIP_TAIL_T | APPEND_BRANCH_T | REVERT_URI_T
  | FORWARD_TCP_T | FORWARD_UDP_T | FORWARD_TLS_T | SEND_TCP_T | FORCE_RPORT_T | SET_ADV_ADDR_T
  | SET_ADV_PORT_T | FORCE_TCP_ALIAS_T | LOAD_AVP_T | AVP_TO_URI_T | FORCE_SEND_SOCKET_T

record socket_id =
  sid_name :: string
  sid_proto :: int
  sid_port :: int

text \<open>
  An action list is the list of the actions linked by \<open>next\<close>, the null pointer being \<open>[]\<close>.
  A compiled regular expression is named by its text, a proxy by its position in the list of
  proxies, a function of a module and a fixed parameter by numbers.
\<close>

datatype expr = Null_Expr | Exp oper expr expr | Elem oper operand param
  and param =
    NOSUBTYPE | STRING_ST "string option" | NET_ST net | NUMBER_ST int | IP_ST ip_addr | RE_ST string
  | PROXY_ST nat | EXPR_ST expr | ACTIONS_ST "action list" | CMDF_ST nat | MODFIXUP_ST nat
  | URIHOST_ST | URIPORT_ST | MYSELF_ST | STR_ST string | SOCKID_ST socket_id | SOCKETINFO_ST nat
  and action = Action atype param param param

record hostent =
  h_name :: string
  h_aliases :: "string list"
  h_addrtype :: af
  h_addr_list :: "u8 list list"

record proxy_l =
  px_name :: string
  px_port :: nat
  px_proto :: sip_protos
  px_host :: hostent
  addr_idx :: nat
  px_ok :: bool
  px_tx :: nat
  tx_bytes :: nat
  px_errors :: nat

text \<open>What the interpreter reads and writes of a message.\<close>

record sip_msg =
  sm_rq :: request
  sm_method :: string
  sm_from :: "string option"
  sm_to :: "string option"
  src_ip :: ip_addr
  dst_ip :: ip_addr
  src_port :: int
  dst_port :: int
  sm_proto :: sip_protos
  sm_len :: int
  via_port :: int
  tcp_id :: int
  parsed_uri :: "sip_uri option"
  sm_flags :: u32
  force_rport :: bool
  set_global_address :: "string option"
  set_global_port :: "string option"
  force_send_socket :: "nat option"

text \<open>
  The state of the interpreter: the message and its branches, the proxies, the static
  counters \<open>rec_lev\<close> of \<open>run_actions\<close> and \<open>eval_expr\<close>, and the messages logged at level
  \<open>L_CRIT\<close>, all of which begin with BUG.
\<close>

record sst =
  msg :: sip_msg
  dst_set :: dset
  proxies :: "proxy_l list"
  act_lev :: nat
  expr_lev :: nat
  crit :: "string list"

record senv =
  resolvehost :: "string \<Rightarrow> hostent option"
  rev_resolvehost :: "ip_addr \<Rightarrow> hostent option"
  sip_resolvehost :: "string \<Rightarrow> nat \<Rightarrow> sip_protos \<Rightarrow> (hostent \<times> nat) option"
  regcomp_ok :: "string \<Rightarrow> bool"
  regexec :: "string \<Rightarrow> string \<Rightarrow> bool"
  check_self :: "string \<Rightarrow> nat \<Rightarrow> bool"
  find_si :: "ip_addr \<Rightarrow> socket_id \<Rightarrow> nat option"
  cmd_fixup :: "nat \<Rightarrow> (nat \<times> (param \<Rightarrow> nat \<Rightarrow> int \<times> nat)) option"
  cmd_function :: "nat \<Rightarrow> param \<Rightarrow> param \<Rightarrow> sip_msg \<times> dset \<Rightarrow> int \<times> sip_msg \<times> dset"
  forward_request :: "proxy_l \<Rightarrow> sip_protos \<Rightarrow> sip_msg \<times> dset \<Rightarrow> int \<times> (sip_msg \<times> dset) \<times> proxy_l"
  send_to :: "sip_protos \<Rightarrow> u8 list \<Rightarrow> nat \<Rightarrow> sip_msg \<Rightarrow> int"
  tcpconn_add_alias :: "int \<Rightarrow> int \<Rightarrow> int"
  onbreak :: "sip_msg \<times> dset \<Rightarrow> sip_msg \<times> dset"
  pkg_malloc :: "sst \<Rightarrow> bool"

datatype crash = Misread | Null_Deref | Overrun | Bad_Route

datatype sres = Done int sst | Crash crash | Timeout

abbreviation (input) RT_NO :: nat where "RT_NO \<equiv> 31"
abbreviation (input) MAX_REC_LEV :: nat where "MAX_REC_LEV \<equiv> 100"
abbreviation (input) ROUTE_MAX_REC_LEV :: nat where "ROUTE_MAX_REC_LEV \<equiv> 100"
abbreviation (input) MAX_FLAG :: nat where "MAX_FLAG \<equiv> 31"
abbreviation (input) SIP_PORT :: nat where "SIP_PORT \<equiv> 5060"
abbreviation (input) E_UNSPEC :: int where "E_UNSPEC \<equiv> -1"
abbreviation (input) E_OUT_OF_MEM :: int where "E_OUT_OF_MEM \<equiv> -2"
abbreviation (input) E_BAD_RE :: int where "E_BAD_RE \<equiv> -3"
abbreviation (input) E_BUG :: int where "E_BUG \<equiv> -5"
abbreviation (input) E_CFG :: int where "E_CFG \<equiv> -6"
abbreviation (input) E_BAD_ADDRESS :: int where "E_BAD_ADDRESS \<equiv> -478"
abbreviation (input) E_BAD_PROTO :: int where "E_BAD_PROTO \<equiv> -480"
abbreviation (input) EXPR_DROP :: int where "EXPR_DROP \<equiv> -127"

definition log_crit :: "string \<Rightarrow> sst \<Rightarrow> sst" where
  "log_crit t s = s\<lparr>crit := crit s @ [t]\<rparr>"

definition bug :: "int \<Rightarrow> string \<Rightarrow> sst \<Rightarrow> sres" where
  "bug ret t s = Done ret (log_crit t s)"

definition append_action :: "action list \<Rightarrow> action list \<Rightarrow> action list" where
  "append_action a b = a @ b"

definition push :: "action list \<Rightarrow> action list \<Rightarrow> action list" where
  "push a head = head @ a"

subsection \<open>Flags\<close>

definition flag_of :: "int \<Rightarrow> u32" where
  "flag_of n = word_of_int n"

definition flag_in_range :: "u32 \<Rightarrow> bool" where
  "flag_in_range f \<longleftrightarrow> \<not> f > of_nat MAX_FLAG \<and> f \<noteq> 0"

definition setflag :: "sip_msg \<Rightarrow> u32 \<Rightarrow> sip_msg" where
  "setflag m f = m\<lparr>sm_flags := sm_flags m OR push_bit (unat f) 1\<rparr>"

definition resetflag :: "sip_msg \<Rightarrow> u32 \<Rightarrow> sip_msg" where
  "resetflag m f = m\<lparr>sm_flags := sm_flags m AND NOT (push_bit (unat f) 1)\<rparr>"

definition isflagset :: "sip_msg \<Rightarrow> u32 \<Rightarrow> int" where
  "isflagset m f = (if sm_flags m AND push_bit (unat f) 1 \<noteq> 0 then 1 else -1)"

subsection \<open>Proxies\<close>

definition find_proxy :: "proxy_l list \<Rightarrow> string \<Rightarrow> nat \<Rightarrow> sip_protos \<Rightarrow> nat option" where
  "find_proxy ps name port proto =
     map_option fst
       (find (\<lambda>(i, t). length (px_name t) = length name \<and> (proto = PROTO_NONE \<or> px_proto t = proto) \<and>
            strlower (px_name t) = strlower name \<and> px_port t = port) (rev (enumerate 0 ps)))"

definition mk_proxy :: "senv \<Rightarrow> string \<Rightarrow> nat \<Rightarrow> sip_protos \<Rightarrow> proxy_l option" where
  "mk_proxy e name port proto =
     (case sip_resolvehost e name port proto of
        None \<Rightarrow> None
      | Some (he, p) \<Rightarrow>
          Some \<lparr>px_name = name, px_port = p, px_proto = proto, px_host = he, addr_idx = 0, px_ok = True,
            px_tx = 0, tx_bytes = 0, px_errors = 0\<rparr>)"

text \<open>
  The new proxy is put at the head of the list in the C; the position of a proxy must not
  change here, so it is appended and \<open>find_proxy\<close> searches from the end.
\<close>

definition add_proxy :: "senv \<Rightarrow> string \<Rightarrow> nat \<Rightarrow> sip_protos \<Rightarrow> proxy_l list \<Rightarrow> (nat \<times> proxy_l list) option" where
  "add_proxy e name port proto ps =
     (case find_proxy ps name port proto of
        Some i \<Rightarrow> Some (i, ps)
      | None \<Rightarrow>
          (case mk_proxy e name port proto of
             None \<Rightarrow> None
           | Some p \<Rightarrow> Some (length ps, ps @ [p])))"

subsection \<open>Preparing a script: fix_rls\<close>

text \<open>
  \<open>Inl\<close> is a negative result, which stops the start of the server. A null string or a
  parameter with the wrong tag, on which the C would crash at start, is \<open>Inl E_BUG\<close> too.
\<close>

definition number_of :: "param \<Rightarrow> int option" where
  "number_of p = (case p of NUMBER_ST n \<Rightarrow> Some n | NOSUBTYPE \<Rightarrow> Some 0 | _ \<Rightarrow> None)"

definition fix_host :: "senv \<Rightarrow> param \<Rightarrow> param \<Rightarrow> proxy_l list \<Rightarrow> int + param \<times> proxy_l list" where
  "fix_host e p1 p2 ps =
     (let proxy = (\<lambda>name. case number_of p2 of
            None \<Rightarrow> Inl E_BUG
          | Some n \<Rightarrow>
              (case add_proxy e name (nat (n mod 65536)) PROTO_NONE ps of
                 None \<Rightarrow> Inl E_BAD_ADDRESS
               | Some (i, ps) \<Rightarrow> Inr (PROXY_ST i, ps)))
      in case p1 of
           IP_ST ip \<Rightarrow> proxy (ip_addr2a ip)
         | STRING_ST (Some s) \<Rightarrow> proxy s
         | URIHOST_ST \<Rightarrow> Inr (p1, ps)
         | _ \<Rightarrow> Inl E_BUG)"

definition fix_module :: "senv \<Rightarrow> param \<Rightarrow> param \<Rightarrow> param \<Rightarrow> int + param \<times> param" where
  "fix_module e p1 p2 p3 =
     (case p1 of
        CMDF_ST f \<Rightarrow>
          (case cmd_fixup e f of
             None \<Rightarrow> Inr (p2, p3)
           | Some (param_no, fixup) \<Rightarrow>
               (let (r2, d2) = fixup p2 1; (r3, d3) = fixup p3 2
                in if param_no > 0 \<and> r2 < 0 then Inl r2
                   else if param_no > 1 \<and> r3 < 0 then Inl r3
                   else Inr (if param_no > 0 then MODFIXUP_ST d2 else p2, if param_no > 1 then MODFIXUP_ST d3 else p3)))
      | _ \<Rightarrow> Inr (p2, p3))"

definition fix_socket :: "senv \<Rightarrow> param \<Rightarrow> int + param" where
  "fix_socket e p1 =
     (case p1 of
        SOCKID_ST sid \<Rightarrow>
          (case resolvehost e (sid_name sid) of
             None \<Rightarrow> Inl E_BAD_ADDRESS
           | Some he \<Rightarrow>
               (case h_addr_list he of
                  [] \<Rightarrow> Inl E_BUG
                | a # _ \<Rightarrow>
                    (case find_si e \<lparr>ip_af = h_addrtype he, ip_bytes = a\<rparr> sid of
                       None \<Rightarrow> Inl E_BAD_ADDRESS
                     | Some si \<Rightarrow> Inr (SOCKETINFO_ST si))))
      | _ \<Rightarrow> Inl E_BUG)"

definition fix_match :: "senv \<Rightarrow> oper \<Rightarrow> param \<Rightarrow> int + param" where
  "fix_match e op p =
     (if op = MATCH_OP then
        (case p of
           STRING_ST (Some t) \<Rightarrow> if regcomp_ok e t then Inr (RE_ST t) else Inl E_BAD_RE
         | RE_ST t \<Rightarrow> Inr p
         | _ \<Rightarrow> Inl E_BUG)
      else Inr p)"

definition is_block :: "param \<Rightarrow> bool" where
  "is_block p = (case p of ACTIONS_ST _ \<Rightarrow> True | NOSUBTYPE \<Rightarrow> True | _ \<Rightarrow> False)"

fun fix_expr :: "senv \<Rightarrow> expr \<Rightarrow> proxy_l list \<Rightarrow> int + expr \<times> proxy_l list"
  and fix_list :: "senv \<Rightarrow> action list \<Rightarrow> proxy_l list \<Rightarrow> int + action list \<times> proxy_l list"
  and fix_action :: "senv \<Rightarrow> action \<Rightarrow> proxy_l list \<Rightarrow> int + action \<times> proxy_l list"
where
  "fix_expr e Null_Expr ps = Inl E_BUG"
| "fix_expr e (Exp op l r) ps =
     (if op = AND_OP \<or> op = OR_OP then
        (case fix_expr e l ps of
           Inl err \<Rightarrow> Inl err
         | Inr (l, ps) \<Rightarrow> (case fix_expr e r ps of Inl err \<Rightarrow> Inl err | Inr (r, ps) \<Rightarrow> Inr (Exp op l r, ps)))
      else if op = NOT_OP then
        (case fix_expr e l ps of Inl err \<Rightarrow> Inl err | Inr (l, ps) \<Rightarrow> Inr (Exp op l r, ps))
      else Inl E_BUG)"
| "fix_expr e (Elem op opd p) ps =
     (if opd = ACTION_O \<and> op \<noteq> MATCH_OP then
        (case p of
           ACTIONS_ST as \<Rightarrow>
             if as = [] then Inl E_BUG
             else (case fix_list e as ps of Inl err \<Rightarrow> Inl err | Inr (as, ps) \<Rightarrow> Inr (Elem op opd (ACTIONS_ST as), ps))
         | _ \<Rightarrow> Inl E_BUG)
      else if opd = ACTION_O then Inl E_BUG
      else (case fix_match e op p of Inl err \<Rightarrow> Inl err | Inr p \<Rightarrow> Inr (Elem op opd p, ps)))"
| "fix_list e [] ps = Inr ([], ps)"
| "fix_list e (a # as) ps =
     (case fix_action e a ps of
        Inl err \<Rightarrow> Inl err
      | Inr (a, ps) \<Rightarrow> (case fix_list e as ps of Inl err \<Rightarrow> Inl err | Inr (as, ps) \<Rightarrow> Inr (a # as, ps)))"
| "fix_action e (Action t p1 p2 p3) ps =
     (if t \<in> {FORWARD_T, FORWARD_TLS_T, FORWARD_TCP_T, FORWARD_UDP_T, SEND_T, SEND_TCP_T} then
        (case fix_host e p1 p2 ps of Inl err \<Rightarrow> Inl err | Inr (p1, ps) \<Rightarrow> Inr (Action t p1 p2 p3, ps))
      else if t = IF_T then
        (case p1 of
           EXPR_ST ex \<Rightarrow>
             if \<not> is_block p2 \<or> \<not> is_block p3 then Inl E_BUG
             else
               (case (if ex = Null_Expr then Inr (ex, ps) else fix_expr e ex ps) of
                  Inl err \<Rightarrow> Inl err
                | Inr (ex, ps) \<Rightarrow>
                    (case (case p2 of
                             ACTIONS_ST as \<Rightarrow> (case fix_list e as ps of Inl err \<Rightarrow> Inl err | Inr (as, ps) \<Rightarrow> Inr (ACTIONS_ST as, ps))
                           | _ \<Rightarrow> Inr (p2, ps)) of
                       Inl err \<Rightarrow> Inl err
                     | Inr (p2, ps) \<Rightarrow>
                         (case (case p3 of
                                  ACTIONS_ST as \<Rightarrow> (case fix_list e as ps of Inl err \<Rightarrow> Inl err | Inr (as, ps) \<Rightarrow> Inr (ACTIONS_ST as, ps))
                                | _ \<Rightarrow> Inr (p3, ps)) of
                            Inl err \<Rightarrow> Inl err
                          | Inr (p3, ps) \<Rightarrow> Inr (Action t (EXPR_ST ex) p2 p3, ps))))
         | _ \<Rightarrow> Inl E_BUG)
      else if t = MODULE_T then
        (case fix_module e p1 p2 p3 of Inl err \<Rightarrow> Inl err | Inr (p2, p3) \<Rightarrow> Inr (Action t p1 p2 p3, ps))
      else if t = FORCE_SEND_SOCKET_T then
        (case fix_socket e p1 of Inl err \<Rightarrow> Inl err | Inr p1 \<Rightarrow> Inr (Action t p1 p2 p3, ps))
      else Inr (Action t p1 p2 p3, ps))"

definition fix_actions :: "senv \<Rightarrow> action list \<Rightarrow> proxy_l list \<Rightarrow> int + action list \<times> proxy_l list" where
  "fix_actions e a ps = (if a = [] then Inl E_BUG else fix_list e a ps)"

definition add_actions :: "senv \<Rightarrow> action list \<Rightarrow> action list \<Rightarrow> proxy_l list \<Rightarrow> int + action list \<times> proxy_l list" where
  "add_actions e a head ps =
     (case fix_actions e a ps of Inl err \<Rightarrow> Inl err | Inr (a, ps) \<Rightarrow> Inr (push a head, ps))"

fun fix_tables :: "senv \<Rightarrow> action list list \<Rightarrow> proxy_l list \<Rightarrow> int + action list list \<times> proxy_l list" where
  "fix_tables e [] ps = Inr ([], ps)"
| "fix_tables e (t # ts) ps =
     (case (if t = [] then Inr (t, ps) else fix_actions e t ps) of
        Inl err \<Rightarrow> Inl err
      | Inr (t, ps) \<Rightarrow> (case fix_tables e ts ps of Inl err \<Rightarrow> Inl err | Inr (ts, ps) \<Rightarrow> Inr (t # ts, ps)))"

text \<open>The tables of routes, of reply routes and of failure routes.\<close>

definition fix_rls ::
  "senv \<Rightarrow> action list list \<Rightarrow> action list list \<Rightarrow> action list list \<Rightarrow> proxy_l list \<Rightarrow>
   int + (action list list \<times> action list list \<times> action list list) \<times> proxy_l list" where
  "fix_rls e rlist onreply_rlist failure_rlist ps =
     (case fix_tables e rlist ps of
        Inl err \<Rightarrow> Inl err
      | Inr (rlist, ps) \<Rightarrow>
          (case fix_tables e onreply_rlist ps of
             Inl err \<Rightarrow> Inl err
           | Inr (onreply_rlist, ps) \<Rightarrow>
               (case fix_tables e failure_rlist ps of
                  Inl err \<Rightarrow> Inl err
                | Inr (failure_rlist, ps) \<Rightarrow> Inr ((rlist, onreply_rlist, failure_rlist), ps))))"

subsection \<open>Evaluating an expression\<close>

text \<open>
  The result of a comparison with what it logs; \<open>None\<close> is a null pointer read.
\<close>

type_synonym cmp = "(int \<times> string list) option"

definition of_bool01 :: "bool \<Rightarrow> cmp" where
  "of_bool01 b = Some (if b then 1 else 0, [])"

definition comp_no :: "int \<Rightarrow> param \<Rightarrow> oper \<Rightarrow> cmp" where
  "comp_no port p op =
     (case p of
        NUMBER_ST n \<Rightarrow>
          (case op of
             EQUAL_OP \<Rightarrow> of_bool01 (port = n)
           | DIFF_OP \<Rightarrow> of_bool01 (port \<noteq> n)
           | GT_OP \<Rightarrow> of_bool01 (port > n)
           | LT_OP \<Rightarrow> of_bool01 (port < n)
           | GTE_OP \<Rightarrow> of_bool01 (port \<ge> n)
           | LTE_OP \<Rightarrow> of_bool01 (port \<le> n)
           | _ \<Rightarrow> Some (E_BUG, [''comp_no: unknown operator'']))
      | _ \<Rightarrow> Some (E_BUG, [''comp_no: number expected'']))"

text \<open>\<open>strncasecmp (s, p, len) == 0\<close> for a string of \<open>len\<close> characters and a terminated one.\<close>

fun strncase_eq :: "string \<Rightarrow> string \<Rightarrow> bool" where
  "strncase_eq [] p = True"
| "strncase_eq (c # s) [] = (c = CHR 0x00)"
| "strncase_eq (c # s) (d # p) = (tolower c = tolower d \<and> strncase_eq s p)"

text \<open>
  \<open>comp_strstr\<close> and \<open>comp_str\<close> differ in the comparison; both take it from the caller here.
\<close>

definition comp_text :: "senv \<Rightarrow> (string \<Rightarrow> string \<Rightarrow> bool) \<Rightarrow> string \<Rightarrow> param \<Rightarrow> oper \<Rightarrow> cmp" where
  "comp_text e eq s p op =
     (case op of
        EQUAL_OP \<Rightarrow>
          (case p of
             STRING_ST None \<Rightarrow> None
           | STRING_ST (Some t) \<Rightarrow> of_bool01 (eq s t)
           | _ \<Rightarrow> Some (-1, [''comp_str: string expected'']))
      | DIFF_OP \<Rightarrow>
          (case p of
             STRING_ST None \<Rightarrow> None
           | STRING_ST (Some t) \<Rightarrow> of_bool01 (\<not> eq s t)
           | _ \<Rightarrow> Some (-1, [''comp_str: string expected'']))
      | MATCH_OP \<Rightarrow>
          (case p of
             RE_ST r \<Rightarrow> of_bool01 (regexec e r (takeWhile (\<lambda>c. c \<noteq> CHR 0x00) s))
           | _ \<Rightarrow> Some (-1, [''comp_str: RE expected'']))
      | _ \<Rightarrow> Some (-1, [''comp_str: unknown op'']))"

definition comp_strstr :: "senv \<Rightarrow> string \<Rightarrow> param \<Rightarrow> oper \<Rightarrow> cmp" where
  "comp_strstr e = comp_text e strncase_eq"

definition comp_str :: "senv \<Rightarrow> string \<Rightarrow> param \<Rightarrow> oper \<Rightarrow> cmp" where
  "comp_str e = comp_text e (\<lambda>s t. strlower s = strlower t)"

definition check_self_op :: "senv \<Rightarrow> oper \<Rightarrow> string \<Rightarrow> nat \<Rightarrow> cmp" where
  "check_self_op e op host p =
     (case op of
        EQUAL_OP \<Rightarrow> of_bool01 (check_self e host p)
      | DIFF_OP \<Rightarrow> of_bool01 (\<not> check_self e host p)
      | _ \<Rightarrow> Some (-1, [''check_self_op: invalid operator'']))"

text \<open>One more comparison after those whose result and log are given.\<close>

definition or_else :: "cmp \<Rightarrow> cmp \<Rightarrow> cmp" where
  "or_else a b =
     (case a of
        None \<Rightarrow> None
      | Some (r, l) \<Rightarrow> if r = 1 then a else (case b of None \<Rightarrow> None | Some (r', l') \<Rightarrow> Some (r', l @ l')))"

fun comp_any :: "senv \<Rightarrow> cmp \<Rightarrow> string list \<Rightarrow> param \<Rightarrow> oper \<Rightarrow> cmp" where
  "comp_any e a [] p op = a"
| "comp_any e a (h # hs) p op = comp_any e (or_else a (comp_str e h p op)) hs p op"

text \<open>
  \<open>comp_ip\<close> for \<open>==\<close> and \<open>=~\<close> with a name: the printed address, then the addresses the name
  resolves to, then the names the address resolves to.
\<close>

definition comp_ip_name :: "senv \<Rightarrow> ip_addr \<Rightarrow> param \<Rightarrow> oper \<Rightarrow> cmp" where
  "comp_ip_name e ip p op =
     or_else (comp_str e (ip_addr2a ip) p op)
       (if (case p of
              STRING_ST (Some name) \<Rightarrow>
                (case resolvehost e name of
                   None \<Rightarrow> False
                 | Some he \<Rightarrow> h_addrtype he = ip_af ip \<and> (\<exists>h \<in> set (h_addr_list he). take (ip_len ip) h = ip_bytes ip))
            | _ \<Rightarrow> False)
        then Some (1, [])
        else
          case rev_resolvehost e ip of
            None \<Rightarrow> Some (0, [])
          | Some he \<Rightarrow> comp_any e (comp_str e (h_name he) p op) (h_aliases he) p op)"

definition comp_ip :: "senv \<Rightarrow> ip_addr \<Rightarrow> param \<Rightarrow> oper \<Rightarrow> cmp" where
  "comp_ip e ip p op =
     (let error_op = Some (-1, [''comp_ip: invalid operator''])
      in case p of
           NET_ST n \<Rightarrow>
             (case op of
                EQUAL_OP \<Rightarrow> of_bool01 (matchnet ip n = 1)
              | DIFF_OP \<Rightarrow> of_bool01 (matchnet ip n \<noteq> 1)
              | _ \<Rightarrow> error_op)
         | MYSELF_ST \<Rightarrow> check_self_op e op (ip_addr2a ip) 0
         | STRING_ST _ \<Rightarrow>
             (case op of
                EQUAL_OP \<Rightarrow> comp_ip_name e ip p op
              | MATCH_OP \<Rightarrow> comp_ip_name e ip p op
              | DIFF_OP \<Rightarrow>
                  map_option (\<lambda>(r, l). (if r \<ge> 0 then (if r = 0 then 1 else 0) else r, l)) (comp_ip_name e ip p EQUAL_OP)
              | _ \<Rightarrow> error_op)
         | RE_ST _ \<Rightarrow>
             (case op of
                EQUAL_OP \<Rightarrow> comp_ip_name e ip p op
              | MATCH_OP \<Rightarrow> comp_ip_name e ip p op
              | DIFF_OP \<Rightarrow>
                  map_option (\<lambda>(r, l). (if r \<ge> 0 then (if r = 0 then 1 else 0) else r, l)) (comp_ip_name e ip p EQUAL_OP)
              | _ \<Rightarrow> error_op)
         | _ \<Rightarrow> Some (-1, [''comp_ip: invalid type for src_ip or dst_ip'']))"

definition cmp_result :: "sst \<Rightarrow> cmp \<Rightarrow> sres" where
  "cmp_result s c = (case c of None \<Rightarrow> Crash Null_Deref | Some (r, l) \<Rightarrow> Done r (s\<lparr>crit := crit s @ l\<rparr>))"

text \<open>\<open>parse_sip_msg_uri\<close> keeps its result in the message.\<close>

definition parse_sip_msg_uri :: "sip_msg \<Rightarrow> int \<times> sip_msg" where
  "parse_sip_msg_uri m =
     (if parsed_uri m \<noteq> None then (1, m)
      else
        case parse_uri (get_request_uri (sm_rq m)) of
          Inl _ \<Rightarrow> (-1, m\<lparr>parsed_uri := None\<rparr>)
        | Inr u \<Rightarrow> (1, m\<lparr>parsed_uri := Some u\<rparr>))"

definition uri_port :: "sip_uri \<Rightarrow> nat" where
  "uri_port u = (if u_port_no u \<noteq> 0 then unat (u_port_no u) else SIP_PORT)"

definition eval_uri :: "senv \<Rightarrow> oper \<Rightarrow> param \<Rightarrow> sst \<Rightarrow> sres" where
  "eval_uri e op p s =
     (case p of
        MYSELF_ST \<Rightarrow>
          (let (r, m) = parse_sip_msg_uri (msg s); s = s\<lparr>msg := m\<rparr>
           in if r < 0 then Done (-1) s
              else
                case parsed_uri m of
                  None \<Rightarrow> Crash Misread
                | Some u \<Rightarrow> cmp_result s (check_self_op e op (text_of (get_request_uri (sm_rq m)) (u_host u)) (uri_port u)))
      | _ \<Rightarrow> cmp_result s (comp_strstr e (get_request_uri (sm_rq (msg s))) p op))"

text \<open>The URI of the From or To header field, \<open>None\<close> when the field is bad or missing.\<close>

definition eval_hdr_uri :: "senv \<Rightarrow> string option \<Rightarrow> oper \<Rightarrow> param \<Rightarrow> sst \<Rightarrow> sres" where
  "eval_hdr_uri e hdr op p s =
     (case hdr of
        None \<Rightarrow> Done (-1) s
      | Some uri \<Rightarrow>
          (case p of
             MYSELF_ST \<Rightarrow>
               (case parse_uri uri of
                  Inl _ \<Rightarrow> Done (-1) s
                | Inr u \<Rightarrow> cmp_result s (check_self_op e op (text_of uri (u_host u)) (uri_port u)))
           | _ \<Rightarrow> cmp_result s (comp_strstr e uri p op)))"

fun proto_no :: "sip_protos \<Rightarrow> int" where
  "proto_no PROTO_NONE = 0"
| "proto_no PROTO_UDP = 1"
| "proto_no PROTO_TCP = 2"
| "proto_no PROTO_TLS = 3"
| "proto_no PROTO_SCTP = 4"

fun af_no :: "af \<Rightarrow> int" where
  "af_no AF_INET = 2"
| "af_no AF_INET6 = 10"

text \<open>The operands other than \<open>ACTION_O\<close>.\<close>

definition eval_simple :: "senv \<Rightarrow> oper \<Rightarrow> operand \<Rightarrow> param \<Rightarrow> sst \<Rightarrow> sres" where
  "eval_simple e op opd p s =
     (let m = msg s
      in case opd of
           METHOD_O \<Rightarrow> cmp_result s (comp_strstr e (sm_method m) p op)
         | URI_O \<Rightarrow> eval_uri e op p s
         | FROM_URI_O \<Rightarrow> eval_hdr_uri e (sm_from m) op p s
         | TO_URI_O \<Rightarrow> eval_hdr_uri e (sm_to m) op p s
         | SRCIP_O \<Rightarrow> cmp_result s (comp_ip e (src_ip m) p op)
         | DSTIP_O \<Rightarrow> cmp_result s (comp_ip e (dst_ip m) p op)
         | NUMBER_O \<Rightarrow> (case p of NUMBER_ST n \<Rightarrow> Done (if n = 0 then 0 else 1) s | _ \<Rightarrow> Crash Misread)
         | SRCPORT_O \<Rightarrow> cmp_result s (comp_no (src_port m) p op)
         | DSTPORT_O \<Rightarrow> cmp_result s (comp_no (dst_port m) p op)
         | PROTO_O \<Rightarrow> cmp_result s (comp_no (proto_no (sm_proto m)) p op)
         | AF_O \<Rightarrow> cmp_result s (comp_no (af_no (ip_af (src_ip m))) p op)
         | MSGLEN_O \<Rightarrow> cmp_result s (comp_no (sm_len m) p op)
         | _ \<Rightarrow> bug E_BUG ''eval_elem: invalid operand'' s)"

subsection \<open>Rewriting the Request-URI\<close>

text \<open>
  The new URI is built in a buffer of \<open>MAX_URI_SIZE\<close> bytes; \<open>put\<close> is one of the pieces, copied
  after a check of its length, \<open>None\<close> the jump to \<open>error_uri\<close>.
\<close>

definition put :: "string \<Rightarrow> string option \<Rightarrow> string option" where
  "put t b =
     (case b of
        None \<Rightarrow> None
      | Some crt \<Rightarrow> if length crt + length t > MAX_URI_SIZE then None else Some (crt @ t))"

text \<open>\<open>tmp\<close> with a separator before it, when the pointer is not null.\<close>

definition put_opt :: "char \<Rightarrow> string option \<Rightarrow> string option \<Rightarrow> string option" where
  "put_opt c t b = (case t of None \<Rightarrow> b | Some t \<Rightarrow> put (c # t) b)"

definition ptr_text :: "string \<Rightarrow> span \<Rightarrow> string option" where
  "ptr_text buf x = (if sp x = None then None else Some (text_of buf x))"

text \<open>The user part that \<open>strip\<close> and \<open>strip_tail\<close> leave.\<close>

definition strip_user :: "int \<Rightarrow> string \<Rightarrow> string" where
  "strip_user n u = (if n \<ge> int (length u) then [] else drop (nat n) u)"

definition strip_tail_user :: "int \<Rightarrow> string \<Rightarrow> string" where
  "strip_tail_user n u = (if n \<ge> int (length u) then [] else take (length u - nat n) u)"

text \<open>
  The code from \<open>begin copying\<close> on. \<open>arg\<close> is the string argument, \<open>num\<close> the number; the result
  is the text written before the terminating null.
\<close>

definition build_uri :: "atype \<Rightarrow> string option \<Rightarrow> int \<Rightarrow> string \<Rightarrow> sip_uri \<Rightarrow> string option" where
  "build_uri t arg num old uri =
     (let str = (case arg of None \<Rightarrow> [] | Some x \<Rightarrow> x); user = text_of old (u_user uri);
          b = put ''sip:'' (Some []);
          b = (if t = PREFIX_T then put str b else b);
          u = (case t of
                 SET_USER_T \<Rightarrow> str
               | SET_USERPASS_T \<Rightarrow> str
               | STRIP_T \<Rightarrow> strip_user num user
               | STRIP_TAIL_T \<Rightarrow> strip_tail_user num user
               | _ \<Rightarrow> user);
          b = (if u \<noteq> [] then put u b else b);
          has_user = (t = PREFIX_T \<or> u \<noteq> []);
          pass = (if t = SET_USERPASS_T then None else ptr_text old (u_passwd uri));
          b = put_opt (CHR '':'') pass b;
          b = (if has_user \<or> pass \<noteq> None then put ''@'' b else b);
          b = (case (if t = SET_HOST_T \<or> t = SET_HOSTPORT_T then arg else ptr_text old (u_host uri)) of
                 None \<Rightarrow> b
               | Some h \<Rightarrow> put h b);
          b = put_opt (CHR '':'')
                (if t = SET_HOSTPORT_T then None else if t = SET_PORT_T then arg else ptr_text old (u_port uri)) b;
          b = put_opt (CHR '';'') (ptr_text old (u_params uri)) b;
          b = put_opt (CHR ''?'') (ptr_text old (u_headers uri)) b
      in b)"

definition is_strip :: "atype \<Rightarrow> bool" where
  "is_strip t \<longleftrightarrow> t = STRIP_T \<or> t = STRIP_TAIL_T"

text \<open>A null string is read except as a host or a port.\<close>

definition needs_string :: "atype \<Rightarrow> bool" where
  "needs_string t \<longleftrightarrow> t \<in> {SET_USER_T, SET_USERPASS_T, SET_URI_T, PREFIX_T}"

definition set_new_uri :: "string option \<Rightarrow> sip_msg \<Rightarrow> sip_msg" where
  "set_new_uri u m = m\<lparr>sm_rq := (sm_rq m)\<lparr>new_uri := u\<rparr>, parsed_uri := None\<rparr>"

definition rewrite_action :: "senv \<Rightarrow> atype \<Rightarrow> param \<Rightarrow> sst \<Rightarrow> sres" where
  "rewrite_action e t p1 s =
     (case (if is_strip t then (case p1 of NUMBER_ST n \<Rightarrow> Some (None, n) | _ \<Rightarrow> None)
            else (case p1 of STRING_ST x \<Rightarrow> Some (x, 0) | _ \<Rightarrow> None)) of
        None \<Rightarrow> bug E_BUG ''do_action: bad set*() type'' s
      | Some (arg, num) \<Rightarrow>
          if needs_string t \<and> arg = None then Crash Null_Deref
          else if t = SET_URI_T then
            (if pkg_malloc e s then Done 1 (s\<lparr>msg := set_new_uri arg (msg s)\<rparr>)
             else Done E_OUT_OF_MEM (s\<lparr>msg := set_new_uri None (msg s)\<rparr>))
          else
            let old = get_request_uri (sm_rq (msg s))
            in case parse_uri old of
                 Inl _ \<Rightarrow> Done E_UNSPEC s
               | Inr uri \<Rightarrow>
                   if \<not> pkg_malloc e s then Done E_OUT_OF_MEM s
                   else if is_strip t \<and> num < 0 then Crash Overrun
                   else
                     case build_uri t arg num old uri of
                       None \<Rightarrow> Done E_UNSPEC s
                     | Some new \<Rightarrow>
                         if length new \<ge> MAX_URI_SIZE then Crash Overrun
                         else Done 1 (s\<lparr>msg := set_new_uri (Some new) (msg s)\<rparr>))"

subsection \<open>Forwarding and sending\<close>

definition set_proxy :: "nat \<Rightarrow> proxy_l \<Rightarrow> sst \<Rightarrow> sst" where
  "set_proxy i p s = s\<lparr>proxies := (proxies s)[i := p]\<rparr>"

definition set_md :: "sip_msg \<times> dset \<Rightarrow> sst \<Rightarrow> sst" where
  "set_md md s = s\<lparr>msg := fst md, dst_set := snd md\<rparr>"

text \<open>The protocol that the action asks for.\<close>

definition forward_proto :: "atype \<Rightarrow> sip_protos" where
  "forward_proto t = (if t = FORWARD_UDP_T then PROTO_UDP else if t = FORWARD_TCP_T then PROTO_TCP else PROTO_NONE)"

definition forward_port :: "param \<Rightarrow> sip_uri \<Rightarrow> nat option" where
  "forward_port p2 u =
     (case p2 of URIPORT_ST \<Rightarrow> Some (unat (u_port_no u)) | NUMBER_ST n \<Rightarrow> Some (nat (n mod 65536)) | _ \<Rightarrow> None)"

definition uri_proto :: "sip_protos \<Rightarrow> sip_uri \<Rightarrow> sip_protos option" where
  "uri_proto proto u =
     (if proto \<noteq> PROTO_NONE then Some proto
      else case u_proto u of
        PROTO_NONE \<Rightarrow> Some PROTO_UDP | PROTO_UDP \<Rightarrow> Some PROTO_UDP | PROTO_TCP \<Rightarrow> Some PROTO_TCP | _ \<Rightarrow> None)"

definition forward_uri :: "senv \<Rightarrow> sip_protos \<Rightarrow> param \<Rightarrow> sst \<Rightarrow> sres" where
  "forward_uri e proto p2 s =
     (let (r, s) =
        (case dst_uri (sm_rq (msg s)) of
           Some d \<Rightarrow> if d = [] then (case parse_sip_msg_uri (msg s) of (r, m) \<Rightarrow>
                 (case (if r < 0 then None else parsed_uri m) of None \<Rightarrow> None | Some u \<Rightarrow> Some (get_request_uri (sm_rq m), u), s\<lparr>msg := m\<rparr>))
               else ((case parse_uri d of Inl _ \<Rightarrow> None | Inr u \<Rightarrow> Some (d, u)), s)
         | None \<Rightarrow> (case parse_sip_msg_uri (msg s) of (r, m) \<Rightarrow>
                 (case (if r < 0 then None else parsed_uri m) of None \<Rightarrow> None | Some u \<Rightarrow> Some (get_request_uri (sm_rq m), u), s\<lparr>msg := m\<rparr>)))
      in case r of
           None \<Rightarrow> Done (-1) s
         | Some (text, u) \<Rightarrow>
             (case forward_port p2 u of
                None \<Rightarrow> bug E_UNSPEC ''do_action bad forward 2nd param type'' s
              | Some port \<Rightarrow>
                  (case uri_proto proto u of
                     None \<Rightarrow> Done E_BAD_PROTO s
                   | Some proto \<Rightarrow>
                       (case mk_proxy e (text_of text (u_host u)) port proto of
                          None \<Rightarrow> Done E_BAD_ADDRESS s
                        | Some p \<Rightarrow>
                            (case forward_request e p proto (msg s, dst_set s) of
                               (ret, md, _) \<Rightarrow> Done (if ret \<ge> 0 then 1 else ret) (set_md md s))))))"

definition forward_action :: "senv \<Rightarrow> atype \<Rightarrow> param \<Rightarrow> param \<Rightarrow> sst \<Rightarrow> sres" where
  "forward_action e t p1 p2 s =
     (case p1 of
        URIHOST_ST \<Rightarrow> forward_uri e (forward_proto t) p2 s
      | PROXY_ST i \<Rightarrow>
          (case p2 of
             NUMBER_ST _ \<Rightarrow>
               if i \<ge> length (proxies s) then Crash Misread
               else
                 let proto = (if forward_proto t = PROTO_NONE then sm_proto (msg s) else forward_proto t)
                 in case forward_request e (proxies s ! i) proto (msg s, dst_set s) of
                      (ret, md, p) \<Rightarrow> Done (if ret \<ge> 0 then 1 else ret) (set_proxy i p (set_md md s))
           | _ \<Rightarrow> bug E_BUG ''do_action: bad forward() types'' s)
      | _ \<Rightarrow> bug E_BUG ''do_action: bad forward() types'' s)"

text \<open>A proxy that failed is tried at its next address.\<close>

definition next_addr :: "proxy_l \<Rightarrow> proxy_l" where
  "next_addr p =
     (if px_ok p then p
      else p\<lparr>addr_idx := (if addr_idx p + 1 < length (h_addr_list (px_host p)) then addr_idx p + 1 else 0), px_ok := True\<rparr>)"

definition send_action :: "senv \<Rightarrow> atype \<Rightarrow> param \<Rightarrow> param \<Rightarrow> sst \<Rightarrow> sres" where
  "send_action e t p1 p2 s =
     (case (p1, p2) of
        (PROXY_ST i, NUMBER_ST _) \<Rightarrow>
          if \<not> pkg_malloc e s then Done E_OUT_OF_MEM s
          else if i \<ge> length (proxies s) then Crash Misread
          else
            let p = next_addr (proxies s ! i)
            in if addr_idx p \<ge> length (h_addr_list (px_host p)) then Crash Null_Deref
               else
                 let p = p\<lparr>px_tx := px_tx p + 1, tx_bytes := tx_bytes p + nat (sm_len (msg s))\<rparr>;
                     ret = send_to e (if t = SEND_T then PROTO_UDP else PROTO_TCP) (h_addr_list (px_host p) ! addr_idx p)
                             (if px_port p \<noteq> 0 then px_port p else SIP_PORT) (msg s)
                 in if ret < 0 then Done ret (set_proxy i (p\<lparr>px_errors := px_errors p + 1, px_ok := False\<rparr>) s)
                    else Done 1 (set_proxy i p s)
      | _ \<Rightarrow> bug E_BUG ''do_action: bad send() types'' s)"

subsection \<open>The other actions\<close>

definition flag_action :: "atype \<Rightarrow> param \<Rightarrow> sst \<Rightarrow> sres" where
  "flag_action t p1 s =
     (case p1 of
        NUMBER_ST n \<Rightarrow>
          (let f = flag_of n; m = msg s
           in if \<not> flag_in_range f then Done E_CFG s
              else if t = SETFLAG_T then Done 1 (s\<lparr>msg := setflag m f\<rparr>)
              else if t = RESETFLAG_T then Done 1 (s\<lparr>msg := resetflag m f\<rparr>)
              else Done (isflagset m f) s)
      | _ \<Rightarrow> bug E_BUG ''do_action: bad flag type'' s)"

definition append_branch_action :: "param \<Rightarrow> param \<Rightarrow> sst \<Rightarrow> sres" where
  "append_branch_action p1 p2 s =
     (case p1 of
        STRING_ST x \<Rightarrow>
          (case number_of p2 of
             None \<Rightarrow> Crash Misread
           | Some q \<Rightarrow>
               (case append_branch (sm_rq (msg s)) x [] q (dst_set s) of
                  None \<Rightarrow> Crash Overrun
                | Some (ret, d) \<Rightarrow> Done ret (s\<lparr>dst_set := d\<rparr>)))
      | _ \<Rightarrow> bug E_BUG ''do_action: bad append_branch_t'' s)"

definition alias_action :: "senv \<Rightarrow> param \<Rightarrow> sst \<Rightarrow> sres" where
  "alias_action e p1 s =
     (if sm_proto (msg s) = PROTO_TCP then
        (case (case p1 of NOSUBTYPE \<Rightarrow> Some (via_port (msg s)) | NUMBER_ST n \<Rightarrow> Some n | _ \<Rightarrow> None) of
           None \<Rightarrow> bug E_BUG ''do_action: bad force_tcp_alias port type'' s
         | Some port \<Rightarrow> Done (if tcpconn_add_alias e (tcp_id (msg s)) (port mod 65536) \<noteq> 0 then E_UNSPEC else 1) s)
      else Done 1 s)"

text \<open>Every action but \<open>ROUTE_T\<close> and \<open>IF_T\<close>.\<close>

definition simple_action :: "senv \<Rightarrow> action \<Rightarrow> sst \<Rightarrow> sres" where
  "simple_action e a s =
     (case a of Action t p1 p2 p3 \<Rightarrow>
        (case t of
           DROP_T \<Rightarrow> Done 0 s
         | FORWARD_T \<Rightarrow> forward_action e t p1 p2 s
         | FORWARD_TCP_T \<Rightarrow> forward_action e t p1 p2 s
         | FORWARD_UDP_T \<Rightarrow> forward_action e t p1 p2 s
         | SEND_T \<Rightarrow> send_action e t p1 p2 s
         | SEND_TCP_T \<Rightarrow> send_action e t p1 p2 s
         | LOG_T \<Rightarrow> (case (p1, p2) of (NUMBER_ST _, STRING_ST _) \<Rightarrow> Done 1 s | _ \<Rightarrow> bug E_BUG ''do_action: bad log() types'' s)
         | APPEND_BRANCH_T \<Rightarrow> append_branch_action p1 p2 s
         | LEN_GT_T \<Rightarrow> (case p1 of NUMBER_ST n \<Rightarrow> Done (if sm_len (msg s) \<ge> n then 1 else -1) s | _ \<Rightarrow> bug E_BUG ''do_action: bad len_gt type'' s)
         | SETFLAG_T \<Rightarrow> flag_action t p1 s
         | RESETFLAG_T \<Rightarrow> flag_action t p1 s
         | ISFLAGSET_T \<Rightarrow> flag_action t p1 s
         | ERROR_T \<Rightarrow> (case (p1, p2) of (STRING_ST _, STRING_ST _) \<Rightarrow> Done 1 s | _ \<Rightarrow> bug E_BUG ''do_action: bad error() types'' s)
         | EXEC_T \<Rightarrow> (case p1 of STRING_ST _ \<Rightarrow> Done 1 s | _ \<Rightarrow> bug E_BUG ''do_action: bad exec() type'' s)
         | REVERT_URI_T \<Rightarrow>
             Done 1 (if new_uri (sm_rq (msg s)) \<noteq> None then s\<lparr>msg := set_new_uri None (msg s)\<rparr> else s)
         | SET_HOST_T \<Rightarrow> rewrite_action e t p1 s
         | SET_HOSTPORT_T \<Rightarrow> rewrite_action e t p1 s
         | SET_USER_T \<Rightarrow> rewrite_action e t p1 s
         | SET_USERPASS_T \<Rightarrow> rewrite_action e t p1 s
         | SET_PORT_T \<Rightarrow> rewrite_action e t p1 s
         | SET_URI_T \<Rightarrow> rewrite_action e t p1 s
         | PREFIX_T \<Rightarrow> rewrite_action e t p1 s
         | STRIP_T \<Rightarrow> rewrite_action e t p1 s
         | STRIP_TAIL_T \<Rightarrow> rewrite_action e t p1 s
         | MODULE_T \<Rightarrow>
             (case p1 of
                CMDF_ST f \<Rightarrow> (case cmd_function e f p2 p3 (msg s, dst_set s) of (ret, md) \<Rightarrow> Done ret (set_md md s))
              | _ \<Rightarrow> bug E_BUG ''do_action: bad module call'' s)
         | FORCE_RPORT_T \<Rightarrow> Done 1 (s\<lparr>msg := (msg s)\<lparr>force_rport := True\<rparr>\<rparr>)
         | SET_ADV_ADDR_T \<Rightarrow>
             (case p1 of STR_ST x \<Rightarrow> Done 1 (s\<lparr>msg := (msg s)\<lparr>set_global_address := Some x\<rparr>\<rparr>)
              | _ \<Rightarrow> bug E_BUG ''do_action: bad set_advertised_address() type'' s)
         | SET_ADV_PORT_T \<Rightarrow>
             (case p1 of STR_ST x \<Rightarrow> Done 1 (s\<lparr>msg := (msg s)\<lparr>set_global_port := Some x\<rparr>\<rparr>)
              | _ \<Rightarrow> bug E_BUG ''do_action: bad set_advertised_port() type'' s)
         | FORCE_TCP_ALIAS_T \<Rightarrow> alias_action e p1 s
         | FORCE_SEND_SOCKET_T \<Rightarrow>
             (case p1 of SOCKETINFO_ST i \<Rightarrow> Done 1 (s\<lparr>msg := (msg s)\<lparr>force_send_socket := Some i\<rparr>\<rparr>)
              | _ \<Rightarrow> bug E_BUG ''do_action: bad force_send_socket argument type'' s)
         | _ \<Rightarrow> bug E_BUG ''do_action: unknown type'' s))"

end
