(* ===== verification/Script_Run.thy ===== *)
theory Script_Run
  imports Script
begin

section \<open>Running the routing script: route.c, action.c\<close>

text \<open>
  The interpreter of the routing script, built from the operations of \<open>Script\<close>, and what is
  proved of it: a script that the parser made and \<open>fix_rls\<close> accepted never reads a union with
  the wrong type and never logs a BUG; every run ends, also when routes call each other in
  a cycle; the parsed Request-URI kept in a message agrees with its URI.
\<close>

subsection \<open>The interpreter\<close>

text \<open>
  \<open>run_actions\<close>, the loop over a list, \<open>do_action\<close>, \<open>eval_expr\<close> and \<open>eval_elem\<close> call each other;
  each is given here with the calls it makes as the argument \<open>call\<close>, and \<open>interp\<close> ties them
  together. Routes may call each other in a cycle; the counters stop the recursion. The
  number bounds the depth of nested calls and of iterations, \<open>Timeout\<close> being a run that needs
  more.
\<close>

datatype task =
    Run_Actions "action list"
  | Action_Loop "action list" int
  | Do_Action action
  | Eval_Expr expr
  | Eval_Elem oper operand param

definition and_then :: "sres \<Rightarrow> (int \<Rightarrow> sst \<Rightarrow> sres) \<Rightarrow> sres" where
  "and_then r f = (case r of Done ret s \<Rightarrow> f ret s | Crash c \<Rightarrow> Crash c | Timeout \<Rightarrow> Timeout)"

definition run_actions :: "(task \<Rightarrow> sst \<Rightarrow> sres) \<Rightarrow> senv \<Rightarrow> action list \<Rightarrow> sst \<Rightarrow> sres" where
  "run_actions call e as s =
     (let s = s\<lparr>act_lev := act_lev s + 1\<rparr>
      in if act_lev s > ROUTE_MAX_REC_LEV then Done E_UNSPEC (s\<lparr>act_lev := act_lev s - 1\<rparr>)
         else
           and_then (call (Action_Loop as (if as = [] then 0 else E_UNSPEC)) s)
             (\<lambda>ret s. let s = s\<lparr>act_lev := act_lev s - 1\<rparr>
                in Done ret (if act_lev s = 0 \<and> ret = 0 then set_md (onbreak e (msg s, dst_set s)) s else s)))"

definition action_loop :: "(task \<Rightarrow> sst \<Rightarrow> sres) \<Rightarrow> action list \<Rightarrow> int \<Rightarrow> sst \<Rightarrow> sres" where
  "action_loop call as ret s =
     (case as of
        [] \<Rightarrow> Done ret s
      | t # as \<Rightarrow> and_then (call (Do_Action t) s) (\<lambda>ret s. if ret = 0 then Done ret s else call (Action_Loop as ret) s))"

text \<open>The blocks of \<open>if\<close>: a block that is not given or empty continues.\<close>

definition run_block :: "(task \<Rightarrow> sst \<Rightarrow> sres) \<Rightarrow> param \<Rightarrow> sst \<Rightarrow> sres" where
  "run_block call p s =
     (case p of ACTIONS_ST as \<Rightarrow> if as = [] then Done 1 s else call (Run_Actions as) s | _ \<Rightarrow> Done 1 s)"

definition do_action :: "(task \<Rightarrow> sst \<Rightarrow> sres) \<Rightarrow> senv \<Rightarrow> action list list \<Rightarrow> action \<Rightarrow> sst \<Rightarrow> sres" where
  "do_action call e rlist a s =
     (case a of Action t p1 p2 p3 \<Rightarrow>
        if t = ROUTE_T then
          (case p1 of
             NUMBER_ST i \<Rightarrow>
               if i > int RT_NO \<or> i < 0 then Done E_CFG s
               else if nat i \<ge> length rlist then Crash Bad_Route
               else and_then (call (Run_Actions (rlist ! nat i)) s) (\<lambda>ret s. Done (if ret < 0 then ret else 1) s)
           | _ \<Rightarrow> bug E_BUG ''do_action: bad route() type'' s)
        else if t = IF_T then
          (case p1 of
             EXPR_ST ex \<Rightarrow>
               if ex = Null_Expr then Done E_BUG s
               else
                 and_then (call (Eval_Expr ex) s)
                   (\<lambda>v s. if v = EXPR_DROP then Done 0 s else run_block call (if v > 0 then p2 else p3) s)
           | _ \<Rightarrow> Done E_BUG s)
        else simple_action e a s)"

definition leave_expr :: "sres \<Rightarrow> sres" where
  "leave_expr r = and_then r (\<lambda>ret s. Done ret (s\<lparr>expr_lev := expr_lev s - 1\<rparr>))"

definition eval_expr :: "(task \<Rightarrow> sst \<Rightarrow> sres) \<Rightarrow> expr \<Rightarrow> sst \<Rightarrow> sres" where
  "eval_expr call ex s =
     (let s = s\<lparr>expr_lev := expr_lev s + 1\<rparr>
      in leave_expr
           (if expr_lev s > MAX_REC_LEV then Done (-1) s
            else
              case ex of
                Null_Expr \<Rightarrow> Crash Null_Deref
              | Elem op opd p \<Rightarrow> call (Eval_Elem op opd p) s
              | Exp op l r \<Rightarrow>
                  (case op of
                     AND_OP \<Rightarrow> and_then (call (Eval_Expr l) s) (\<lambda>ret s. if ret \<noteq> 1 then Done ret s else call (Eval_Expr r) s)
                   | OR_OP \<Rightarrow> and_then (call (Eval_Expr l) s) (\<lambda>ret s. if ret \<noteq> 0 then Done ret s else call (Eval_Expr r) s)
                   | NOT_OP \<Rightarrow>
                       and_then (call (Eval_Expr l) s) (\<lambda>ret s. Done (if ret < 0 then ret else if ret = 0 then 1 else 0) s)
                   | _ \<Rightarrow> bug (-1) ''eval_expr: unknown op'' s)))"

definition eval_elem ::
  "(task \<Rightarrow> sst \<Rightarrow> sres) \<Rightarrow> senv \<Rightarrow> oper \<Rightarrow> operand \<Rightarrow> param \<Rightarrow> sst \<Rightarrow> sres" where
  "eval_elem call e op opd p s =
     (if opd = ACTION_O then
        (case p of
           ACTIONS_ST as \<Rightarrow>
             and_then (call (Run_Actions as) s) (\<lambda>ret s. Done (if ret \<le> 0 then (if ret = 0 then EXPR_DROP else 0) else 1) s)
         | _ \<Rightarrow> Crash Misread)
      else eval_simple e op opd p s)"

primrec interp :: "senv \<Rightarrow> action list list \<Rightarrow> nat \<Rightarrow> task \<Rightarrow> sst \<Rightarrow> sres" where
  "interp e rlist 0 t s = Timeout"
| "interp e rlist (Suc n) t s =
     (let call = interp e rlist n
      in case t of
           Run_Actions as \<Rightarrow> run_actions call e as s
         | Action_Loop as ret \<Rightarrow> action_loop call as ret s
         | Do_Action a \<Rightarrow> do_action call e rlist a s
         | Eval_Expr ex \<Rightarrow> eval_expr call ex s
         | Eval_Elem op opd p \<Rightarrow> eval_elem call e op opd p s)"

subsection \<open>The counters\<close>

lemma and_then_Done [simp]:
  "and_then r f = Done ret s \<longleftrightarrow> (\<exists>ret' s'. r = Done ret' s' \<and> f ret' s' = Done ret s)"
  "and_then (Done ret s) f = f ret s"
  by (cases r; simp add: and_then_def)+

lemma set_fields [simp]:
  "act_lev (set_proxy i p s) = act_lev s" "expr_lev (set_proxy i p s) = expr_lev s" "crit (set_proxy i p s) = crit s"
  "length (proxies (set_proxy i p s)) = length (proxies s)" "msg (set_proxy i p s) = msg s"
  "act_lev (set_md md s) = act_lev s" "expr_lev (set_md md s) = expr_lev s" "crit (set_md md s) = crit s"
  "proxies (set_md md s) = proxies s" "msg (set_md md s) = fst md"
  "act_lev (log_crit t s) = act_lev s" "expr_lev (log_crit t s) = expr_lev s"
  by (simp_all add: set_proxy_def set_md_def log_crit_def)

definition same_lev :: "sst \<Rightarrow> sst \<Rightarrow> bool" where
  "same_lev s s' \<longleftrightarrow> act_lev s' = act_lev s \<and> expr_lev s' = expr_lev s"

lemma simple_lev:
  "rewrite_action e t p1 s = Done r s' \<Longrightarrow> same_lev s s'" "forward_action e t p1 p2 s = Done r s' \<Longrightarrow> same_lev s s'"
  "send_action e t p1 p2 s = Done r s' \<Longrightarrow> same_lev s s'" "flag_action t p1 s = Done r s' \<Longrightarrow> same_lev s s'"
  "append_branch_action p1 p2 s = Done r s' \<Longrightarrow> same_lev s s'" "alias_action e p1 s = Done r s' \<Longrightarrow> same_lev s s'"
proof -
  show "rewrite_action e t p1 s = Done r s' \<Longrightarrow> same_lev s s'"
    by (auto simp: rewrite_action_def same_lev_def bug_def Let_def split: if_splits option.splits sum.splits)
  show "send_action e t p1 p2 s = Done r s' \<Longrightarrow> same_lev s s'"
    by (auto simp: send_action_def same_lev_def bug_def Let_def split: if_splits param.splits)
  show "flag_action t p1 s = Done r s' \<Longrightarrow> same_lev s s'"
    by (auto simp: flag_action_def same_lev_def bug_def Let_def split: if_splits param.splits)
  show "append_branch_action p1 p2 s = Done r s' \<Longrightarrow> same_lev s s'"
    by (auto simp: append_branch_action_def same_lev_def bug_def split: option.splits param.splits)
  show "alias_action e p1 s = Done r s' \<Longrightarrow> same_lev s s'"
    by (auto simp: alias_action_def same_lev_def bug_def split: if_splits option.splits)
  show "forward_action e t p1 p2 s = Done r s' \<Longrightarrow> same_lev s s'"
    by (auto simp: forward_action_def forward_uri_def same_lev_def bug_def Let_def split: if_splits option.splits param.splits prod.splits)
qed

lemma cmp_result_lev: "cmp_result s c = Done r s' \<Longrightarrow> same_lev s s'"
  by (auto simp: cmp_result_def same_lev_def split: option.splits)

lemma simple_action_lev:
  assumes "simple_action e a s = Done r s'"
  shows "same_lev s s'"
proof (cases a)
  case (Action t p1 p2 p3)
  have s: "simple_action e (Action t p1 p2 p3) s = Done r s'" using assms Action by simp
  show ?thesis
  proof (cases t)
    case MODULE_T
    with s show ?thesis by (auto simp: simple_action_def bug_def same_lev_def split: param.splits prod.splits)
  qed (use s in \<open>auto simp: simple_action_def bug_def same_lev_def split: param.splits dest!: simple_lev [unfolded same_lev_def]\<close>)
qed

lemma eval_simple_lev: "eval_simple e op opd p s = Done r s' \<Longrightarrow> same_lev s s'"
  by (cases opd)
    (auto simp: eval_simple_def eval_uri_def eval_hdr_uri_def bug_def Let_def split: param.splits option.splits sum.splits if_splits prod.splits
      dest!: cmp_result_lev simp: same_lev_def)

lemma same_lev_simps: "same_lev s s" "same_lev s s' \<Longrightarrow> same_lev s' s'' \<Longrightarrow> same_lev s s''"
  by (simp_all add: same_lev_def)

lemma interp_Suc [simp]:
  "interp e rl (Suc n) (Run_Actions as) s = run_actions (interp e rl n) e as s"
  "interp e rl (Suc n) (Action_Loop as ret) s = action_loop (interp e rl n) as ret s"
  "interp e rl (Suc n) (Do_Action a) s = do_action (interp e rl n) e rl a s"
  "interp e rl (Suc n) (Eval_Expr ex) s = eval_expr (interp e rl n) ex s"
  "interp e rl (Suc n) (Eval_Elem op opd p) s = eval_elem (interp e rl n) e op opd p s"
  by (simp_all add: Let_def)

declare interp.simps(2) [simp del]

lemma interp_lev: "interp e rl n t s = Done r s' \<Longrightarrow> same_lev s s'"
proof (induction n arbitrary: t s r s')
  case (Suc n)
  note IH = Suc.IH
  show ?case
  proof (cases t)
    case (Run_Actions as)
    with Suc.prems show ?thesis
      by (auto simp: run_actions_def Let_def same_lev_def split: if_splits dest!: IH)
  next
    case (Action_Loop as ret)
    with Suc.prems show ?thesis
      by (auto simp: action_loop_def same_lev_def split: list.splits if_splits dest!: IH)
  next
    case (Do_Action a)
    obtain t p1 p2 p3 where a: "a = Action t p1 p2 p3" by (cases a)
    have block: "same_lev s s'" if "run_block (interp e rl n) p s = Done r s'" for p s r s'
      using that by (auto simp: run_block_def same_lev_def split: param.splits if_splits dest!: IH)
    consider "t = ROUTE_T" | "t = IF_T" | "t \<noteq> ROUTE_T" "t \<noteq> IF_T" by blast
    then show ?thesis
    proof cases
      case 1
      with Suc.prems a Do_Action show ?thesis
        by (auto simp: do_action_def bug_def same_lev_def split: param.splits if_splits dest!: IH)
    next
      case 2
      with Suc.prems a Do_Action show ?thesis
        by (auto simp: do_action_def split: param.splits if_splits intro: same_lev_simps dest!: IH block)
    next
      case 3
      with Suc.prems a Do_Action show ?thesis
        by (auto simp: do_action_def dest!: simple_action_lev)
    qed
  next
    case (Eval_Expr ex)
    with Suc.prems show ?thesis
      by (auto simp: eval_expr_def leave_expr_def Let_def bug_def same_lev_def log_crit_def split: expr.splits oper.splits if_splits dest!: IH)
  next
    case (Eval_Elem op opd p)
    with Suc.prems show ?thesis
      by (auto simp: eval_elem_def same_lev_def split: if_splits param.splits dest!: IH eval_simple_lev)
  qed
qed simp

subsection \<open>Every run ends\<close>

text \<open>
  A bound on the depth that a task needs: what remains until the limit on recursive lists,
  each level costing at most as much as the largest table, and the size of the task.
\<close>

definition need :: "nat \<Rightarrow> nat \<Rightarrow> task \<Rightarrow> nat" where
  "need m l t =
     (case t of
        Run_Actions as \<Rightarrow> (100 - l) * m + 2 * size_list size as + 3
      | Action_Loop as _ \<Rightarrow> (101 - l) * m + 2 * size_list size as + 1
      | Do_Action a \<Rightarrow> (101 - l) * m + 2 * size a + 2
      | Eval_Expr ex \<Rightarrow> (101 - l) * m + 2 * size ex + 2
      | Eval_Elem op opd p \<Rightarrow> (101 - l) * m + 2 * size p + 2)"

lemma need_simps [simp]:
  "need m l (Run_Actions as) = (100 - l) * m + 2 * size_list size as + 3"
  "need m l (Action_Loop as ret) = (101 - l) * m + 2 * size_list size as + 1"
  "need m l (Do_Action a) = (101 - l) * m + 2 * size a + 2"
  "need m l (Eval_Expr ex) = (101 - l) * m + 2 * size ex + 2"
  "need m l (Eval_Elem op opd p) = (101 - l) * m + 2 * size p + 2"
  by (simp_all add: need_def)

definition inside :: "task \<Rightarrow> sst \<Rightarrow> bool" where
  "inside t s \<longleftrightarrow> (\<exists>as. t = Run_Actions as) \<or> act_lev s \<le> 100"

lemma and_then_Timeout:
  "and_then r f = Timeout \<longleftrightarrow> r = Timeout \<or> (\<exists>ret s. r = Done ret s \<and> f ret s = Timeout)"
  by (cases r) (simp_all add: and_then_def)

lemma no_timeout [simp]:
  "bug r x s \<noteq> Timeout" "cmp_result s c \<noteq> Timeout" "rewrite_action e t p1 s \<noteq> Timeout"
  "flag_action t p1 s \<noteq> Timeout" "append_branch_action p1 p2 s \<noteq> Timeout" "alias_action e p1 s \<noteq> Timeout"
  "send_action e t p1 p2 s \<noteq> Timeout"
  by (auto simp: bug_def cmp_result_def rewrite_action_def flag_action_def append_branch_action_def
      alias_action_def send_action_def Let_def split: option.splits sum.splits param.splits)

lemma forward_uri_no_timeout [simp]: "forward_uri e pr p2 s \<noteq> Timeout"
  by (simp add: forward_uri_def Let_def split: option.split prod.split)

lemma no_timeout2 [simp]:
  "forward_action e t p1 p2 s \<noteq> Timeout" "eval_uri e op p s \<noteq> Timeout" "eval_hdr_uri e h op p s \<noteq> Timeout"
  by (auto simp: forward_action_def eval_uri_def eval_hdr_uri_def Let_def split: option.splits param.splits prod.splits sum.splits)

lemma eval_simple_no_timeout [simp]: "eval_simple e op opd p s \<noteq> Timeout"
  by (cases opd) (auto simp: eval_simple_def split: param.splits)

lemma level_step:
  assumes "l \<le> 100"
  shows "(101 - l) * m = (100 - l) * m + (m :: nat)"
proof -
  have "101 - l = Suc (100 - l)" using assms by simp
  then show ?thesis by simp
qed

lemma simple_action_no_timeout [simp]: "simple_action e a s \<noteq> Timeout"
proof (cases a)
  case (Action t p1 p2 p3)
  then show ?thesis by (cases t) (auto simp: simple_action_def split: param.splits prod.splits)
qed

lemma interp_fuel:
  assumes "\<And>as. as \<in> set rl \<Longrightarrow> 2 * size_list size as + 3 \<le> m"
  shows "need m (act_lev s) t \<le> n \<Longrightarrow> inside t s \<Longrightarrow> interp e rl n t s \<noteq> Timeout"
proof (induction n arbitrary: t s)
  case 0
  then show ?case by (cases t) simp_all
next
  case (Suc n)
  let ?I = "interp e rl n"
  note lev = interp_lev [of e rl n, unfolded same_lev_def, THEN conjunct1]
  show ?case
  proof (cases t)
    case (Run_Actions as)
    show ?thesis
    proof (cases "act_lev s + 1 > 100")
      case False
      have "?I (Action_Loop as x) (s\<lparr>act_lev := act_lev s + 1\<rparr>) \<noteq> Timeout" for x
        using Suc.prems Run_Actions False by (intro Suc.IH) (auto simp: inside_def)
      with Run_Actions False show ?thesis by (auto simp: run_actions_def Let_def and_then_Timeout)
    qed (simp add: Run_Actions run_actions_def Let_def)
  next
    case (Action_Loop as ret)
    show ?thesis
    proof (cases as)
      case (Cons a as')
      have "?I (Do_Action a) s \<noteq> Timeout"
        using Suc.prems Action_Loop Cons by (intro Suc.IH) (auto simp: inside_def)
      moreover have "?I (Action_Loop as' r) s' \<noteq> Timeout" if "?I (Do_Action a) s = Done r s'" for r s'
        using Suc.prems Action_Loop Cons lev [OF that] by (intro Suc.IH) (auto simp: inside_def)
      ultimately show ?thesis using Action_Loop Cons by (auto simp: action_loop_def and_then_Timeout)
    qed (simp add: Action_Loop action_loop_def)
  next
    case (Do_Action a)
    obtain t' p1 p2 p3 where a: "a = Action t' p1 p2 p3" by (cases a)
    have l: "act_lev s \<le> 100" using Suc.prems Do_Action by (simp add: inside_def)
    note l' = level_step [OF l, of m]
    have table: "?I (Run_Actions (rl ! i)) s \<noteq> Timeout" if "i < length rl" for i
      using Suc.prems Do_Action assms [OF nth_mem [OF that]] l' by (intro Suc.IH) (auto simp: inside_def)
    have block: "run_block ?I p s' \<noteq> Timeout" if "act_lev s' = act_lev s" "p = p2 \<or> p = p3" for p s'
    proof (cases p)
      case (ACTIONS_ST as)
      then have "?I (Run_Actions as) s' \<noteq> Timeout"
        using Suc.prems Do_Action a that l' by (intro Suc.IH) (auto simp: inside_def)
      then show ?thesis by (simp add: ACTIONS_ST run_block_def)
    qed (simp_all add: run_block_def)
    have ex: "?I (Eval_Expr ex) s \<noteq> Timeout" if "p1 = EXPR_ST ex" for ex
      using Suc.prems Do_Action a that by (intro Suc.IH) (auto simp: inside_def)
    consider "t' = ROUTE_T" | "t' = IF_T" | "t' \<noteq> ROUTE_T" "t' \<noteq> IF_T" by blast
    then show ?thesis
    proof cases
      case 1
      then show ?thesis using Do_Action a table by (auto simp: do_action_def and_then_Timeout split: param.splits)
    next
      case 2
      then show ?thesis using Do_Action a ex block lev by (auto simp: do_action_def and_then_Timeout split: param.splits if_splits)
    next
      case 3
      then show ?thesis using Do_Action a by (simp add: do_action_def)
    qed
  next
    case (Eval_Expr ex)
    let ?s = "s\<lparr>expr_lev := expr_lev s + 1\<rparr>"
    have sub: "?I (Eval_Expr l) s' \<noteq> Timeout" if "size l < size ex" "act_lev s' = act_lev s" for l s'
      using Suc.prems Eval_Expr that by (intro Suc.IH) (auto simp: inside_def)
    have elem: "?I (Eval_Elem op opd p) ?s \<noteq> Timeout" if "ex = Elem op opd p" for op opd p
      using Suc.prems Eval_Expr that by (intro Suc.IH) (auto simp: inside_def)
    show ?thesis
    proof (cases ex)
      case (Exp op l r)
      have "?I (Eval_Expr l) ?s \<noteq> Timeout" by (rule sub) (simp_all add: Exp)
      moreover have "?I (Eval_Expr r) s' \<noteq> Timeout" if "?I (Eval_Expr l) ?s = Done x s'" for x s'
        using lev [OF that] by (intro sub) (simp_all add: Exp)
      ultimately show ?thesis using Eval_Expr Exp
        by (auto simp: eval_expr_def leave_expr_def Let_def and_then_Timeout split: oper.splits if_splits)
    qed (use Eval_Expr elem in \<open>auto simp: eval_expr_def leave_expr_def Let_def and_then_Timeout\<close>)
  next
    case (Eval_Elem op opd p)
    have l: "act_lev s \<le> 100" using Suc.prems Eval_Elem by (simp add: inside_def)
    have "?I (Run_Actions as) s \<noteq> Timeout" if "p = ACTIONS_ST as" for as
      using Suc.prems Eval_Elem that level_step [OF l, of m] by (intro Suc.IH) (auto simp: inside_def)
    then show ?thesis using Eval_Elem by (auto simp: eval_elem_def and_then_Timeout split: param.splits)
  qed
qed

definition script_fuel :: "action list list \<Rightarrow> action list \<Rightarrow> nat" where
  "script_fuel rl as = 100 * (2 * sum_list (map (size_list size) rl) + 3) + 2 * size_list size as + 3"

lemma script_fuel_enough:
  assumes "script_fuel rl as \<le> n"
  shows "interp e rl n (Run_Actions as) s \<noteq> Timeout"
proof -
  let ?m = "2 * sum_list (map (size_list size) rl) + 3"
  have "2 * size_list size as' + 3 \<le> ?m" if "as' \<in> set rl" for as'
    using member_le_sum_list [of "size_list size as'" "map (size_list size) rl"] that by simp
  moreover have "need ?m (act_lev s) (Run_Actions as) \<le> n"
  proof -
    have "(100 - act_lev s) * ?m \<le> 100 * ?m" by (rule mult_le_mono1) simp
    then show ?thesis using assms by (simp add: script_fuel_def)
  qed
  ultimately show ?thesis by (intro interp_fuel) (auto simp: inside_def)
qed

text \<open>
  C14: Every script ends on every message, also when its routes call each other in a cycle:
  the depth of calls is bounded by the limit on recursion and the size of the script, and
  the counters have their old values at the end.
\<close>

theorem script_terminates:
  assumes "script_fuel rl as \<le> n"
  shows "case interp e rl n (Run_Actions as) s of
      Done ret s' \<Rightarrow> act_lev s' = act_lev s \<and> expr_lev s' = expr_lev s
    | Crash c \<Rightarrow> True
    | Timeout \<Rightarrow> False"
  using script_fuel_enough [OF assms, of e s] interp_lev [of e rl n "Run_Actions as" s]
  by (auto simp: same_lev_def split: sres.split)

theorem script_terminates_witness:
  "\<forall>e s. interp e [[Action ROUTE_T (NUMBER_ST 1) NOSUBTYPE NOSUBTYPE], [Action ROUTE_T (NUMBER_ST 0) NOSUBTYPE NOSUBTYPE]]
     2000 (Run_Actions [Action ROUTE_T (NUMBER_ST 1) NOSUBTYPE NOSUBTYPE]) s \<noteq> Timeout"
proof (intro allI)
  fix e s
  let ?r = "\<lambda>i. [Action ROUTE_T (NUMBER_ST i) NOSUBTYPE NOSUBTYPE]"
  have "script_fuel [?r 1, ?r 0] (?r 1) \<le> 2000" by (simp add: script_fuel_def)
  from script_terminates [OF this, where e = e and s = s] show "interp e [?r 1, ?r 0] 2000 (Run_Actions (?r 1)) s \<noteq> Timeout"
    by (auto split: sres.splits)
qed

subsection \<open>Types of scripts\<close>

text \<open>
  What the grammar \<open>cfg.y\<close> makes (\<open>parsed_elem\<close>, \<open>parsed_args\<close>) and what \<open>fix_rls\<close> leaves
  (\<open>typed_elem\<close>, \<open>typed_args\<close>, with \<open>np\<close> proxies), as two instances of one check of a script.
\<close>

definition equalop :: "oper \<Rightarrow> bool" where "equalop op \<longleftrightarrow> op = EQUAL_OP \<or> op = DIFF_OP"
definition strop :: "oper \<Rightarrow> bool" where "strop op \<longleftrightarrow> equalop op \<or> op = MATCH_OP"
definition intop :: "oper \<Rightarrow> bool" where
  "intop op \<longleftrightarrow> equalop op \<or> op = GT_OP \<or> op = LT_OP \<or> op = GTE_OP \<or> op = LTE_OP"

definition is_str :: "param \<Rightarrow> bool" where "is_str p = (case p of STRING_ST (Some _) \<Rightarrow> True | _ \<Rightarrow> False)"
definition is_num :: "param \<Rightarrow> bool" where "is_num p = (case p of NUMBER_ST _ \<Rightarrow> True | _ \<Rightarrow> False)"
definition is_net :: "param \<Rightarrow> bool" where "is_net p = (case p of NET_ST _ \<Rightarrow> True | _ \<Rightarrow> False)"
definition is_re :: "param \<Rightarrow> bool" where "is_re p = (case p of RE_ST _ \<Rightarrow> True | _ \<Rightarrow> False)"
definition is_ip :: "param \<Rightarrow> bool" where "is_ip p = (case p of IP_ST _ \<Rightarrow> True | _ \<Rightarrow> False)"
definition is_proxy :: "nat \<Rightarrow> param \<Rightarrow> bool" where
  "is_proxy np p = (case p of PROXY_ST i \<Rightarrow> i < np | _ \<Rightarrow> False)"

definition parsed_elem :: "oper \<Rightarrow> operand \<Rightarrow> param \<Rightarrow> bool" where
  "parsed_elem op opd p =
     (case opd of
        METHOD_O \<Rightarrow> strop op \<and> is_str p
      | URI_O \<Rightarrow> strop op \<and> is_str p \<or> equalop op \<and> p = MYSELF_ST
      | FROM_URI_O \<Rightarrow> strop op \<and> is_str p \<or> equalop op \<and> p = MYSELF_ST
      | TO_URI_O \<Rightarrow> strop op \<and> is_str p \<or> equalop op \<and> p = MYSELF_ST
      | SRCIP_O \<Rightarrow> strop op \<and> (is_str p \<or> is_net p) \<or> equalop op \<and> p = MYSELF_ST
      | DSTIP_O \<Rightarrow> strop op \<and> (is_str p \<or> is_net p) \<or> equalop op \<and> p = MYSELF_ST
      | NUMBER_O \<Rightarrow> op = NO_OP \<and> is_num p
      | ACTION_O \<Rightarrow> op = NO_OP
      | DEFAULT_O \<Rightarrow> False
      | _ \<Rightarrow> intop op \<and> is_num p)"

definition typed_text :: "oper \<Rightarrow> param \<Rightarrow> bool" where
  "typed_text op p \<longleftrightarrow> equalop op \<and> is_str p \<or> op = MATCH_OP \<and> is_re p"

definition typed_elem :: "oper \<Rightarrow> operand \<Rightarrow> param \<Rightarrow> bool" where
  "typed_elem op opd p =
     (case opd of
        METHOD_O \<Rightarrow> typed_text op p
      | URI_O \<Rightarrow> typed_text op p \<or> equalop op \<and> p = MYSELF_ST
      | FROM_URI_O \<Rightarrow> typed_text op p \<or> equalop op \<and> p = MYSELF_ST
      | TO_URI_O \<Rightarrow> typed_text op p \<or> equalop op \<and> p = MYSELF_ST
      | SRCIP_O \<Rightarrow> typed_text op p \<or> equalop op \<and> (is_net p \<or> p = MYSELF_ST)
      | DSTIP_O \<Rightarrow> typed_text op p \<or> equalop op \<and> (is_net p \<or> p = MYSELF_ST)
      | NUMBER_O \<Rightarrow> is_num p
      | ACTION_O \<Rightarrow> True
      | DEFAULT_O \<Rightarrow> False
      | _ \<Rightarrow> intop op \<and> is_num p)"

definition host_action :: "atype \<Rightarrow> bool" where
  "host_action t \<longleftrightarrow> t \<in> {FORWARD_T, FORWARD_TCP_T, FORWARD_UDP_T, SEND_T, SEND_TCP_T}"

definition uri_host_args :: "atype \<Rightarrow> param \<Rightarrow> param \<Rightarrow> bool" where
  "uri_host_args t p1 p2 \<longleftrightarrow> t \<notin> {SEND_T, SEND_TCP_T} \<and> p1 = URIHOST_ST \<and> (p2 = URIPORT_ST \<or> is_num p2)"

definition other_args :: "atype \<Rightarrow> param \<Rightarrow> param \<Rightarrow> bool" where
  "other_args t p1 p2 =
     (if t \<in> {DROP_T, REVERT_URI_T, FORCE_RPORT_T} then True
      else if t = LOG_T then is_num p1 \<and> is_str p2
      else if t = ERROR_T then is_str p1 \<and> is_str p2
      else if t \<in> {SETFLAG_T, RESETFLAG_T, ISFLAGSET_T, ROUTE_T, LEN_GT_T} then is_num p1
      else if t \<in> {EXEC_T, SET_HOST_T, SET_HOSTPORT_T, SET_USER_T, SET_USERPASS_T, SET_PORT_T, SET_URI_T, PREFIX_T} then is_str p1
      else if t \<in> {STRIP_T, STRIP_TAIL_T} then (case p1 of NUMBER_ST n \<Rightarrow> 0 \<le> n | _ \<Rightarrow> False)
      else if t = APPEND_BRANCH_T then (case p1 of STRING_ST _ \<Rightarrow> True | _ \<Rightarrow> False) \<and> (is_num p2 \<or> p2 = NOSUBTYPE)
      else if t = FORCE_TCP_ALIAS_T then is_num p1 \<or> p1 = NOSUBTYPE
      else if t \<in> {SET_ADV_ADDR_T, SET_ADV_PORT_T} then (case p1 of STR_ST _ \<Rightarrow> True | _ \<Rightarrow> False)
      else if t = MODULE_T then (case p1 of CMDF_ST _ \<Rightarrow> True | _ \<Rightarrow> False)
      else False)"

definition parsed_args :: "atype \<Rightarrow> param \<Rightarrow> param \<Rightarrow> bool" where
  "parsed_args t p1 p2 =
     (if host_action t then uri_host_args t p1 p2 \<or> (is_str p1 \<or> is_ip p1) \<and> is_num p2
      else if t = FORCE_SEND_SOCKET_T then (case p1 of SOCKID_ST _ \<Rightarrow> True | _ \<Rightarrow> False)
      else other_args t p1 p2)"

definition typed_args :: "nat \<Rightarrow> atype \<Rightarrow> param \<Rightarrow> param \<Rightarrow> bool" where
  "typed_args np t p1 p2 =
     (if host_action t then uri_host_args t p1 p2 \<or> is_proxy np p1 \<and> is_num p2
      else if t = FORCE_SEND_SOCKET_T then (case p1 of SOCKETINFO_ST _ \<Rightarrow> True | _ \<Rightarrow> False)
      else other_args t p1 p2)"

fun ok_expr :: "(oper \<Rightarrow> operand \<Rightarrow> param \<Rightarrow> bool) \<Rightarrow> (atype \<Rightarrow> param \<Rightarrow> param \<Rightarrow> bool) \<Rightarrow> expr \<Rightarrow> bool"
  and ok_list :: "(oper \<Rightarrow> operand \<Rightarrow> param \<Rightarrow> bool) \<Rightarrow> (atype \<Rightarrow> param \<Rightarrow> param \<Rightarrow> bool) \<Rightarrow> action list \<Rightarrow> bool"
  and ok_action :: "(oper \<Rightarrow> operand \<Rightarrow> param \<Rightarrow> bool) \<Rightarrow> (atype \<Rightarrow> param \<Rightarrow> param \<Rightarrow> bool) \<Rightarrow> action \<Rightarrow> bool"
where
  "ok_expr E A Null_Expr = False"
| "ok_expr E A (Exp op l r) = ((op = AND_OP \<or> op = OR_OP) \<and> ok_expr E A l \<and> ok_expr E A r \<or> op = NOT_OP \<and> ok_expr E A l)"
| "ok_expr E A (Elem op opd p) =
     (E op opd p \<and> (opd = ACTION_O \<longrightarrow> (case p of ACTIONS_ST as \<Rightarrow> ok_list E A as | _ \<Rightarrow> False)))"
| "ok_list E A [] = True"
| "ok_list E A (a # as) = (ok_action E A a \<and> ok_list E A as)"
| "ok_action E A (Action t p1 p2 p3) =
     (if t = IF_T then
        (case p1 of EXPR_ST ex \<Rightarrow> ok_expr E A ex | _ \<Rightarrow> False) \<and>
        (case p2 of ACTIONS_ST as \<Rightarrow> ok_list E A as | NOSUBTYPE \<Rightarrow> True | _ \<Rightarrow> False) \<and>
        (case p3 of ACTIONS_ST as \<Rightarrow> ok_list E A as | NOSUBTYPE \<Rightarrow> True | _ \<Rightarrow> False)
      else A t p1 p2)"

definition parsed_list :: "action list \<Rightarrow> bool" where
  "parsed_list = ok_list parsed_elem parsed_args"

definition typed_list :: "nat \<Rightarrow> action list \<Rightarrow> bool" where
  "typed_list np = ok_list typed_elem (typed_args np)"

lemma param_cases:
  "(case p of EXPR_ST ex \<Rightarrow> P ex | _ \<Rightarrow> False) \<longleftrightarrow> (\<exists>ex. p = EXPR_ST ex \<and> P ex)"
  "(case p of ACTIONS_ST as \<Rightarrow> Q as | _ \<Rightarrow> False) \<longleftrightarrow> (\<exists>as. p = ACTIONS_ST as \<and> Q as)"
  "(case p of ACTIONS_ST as \<Rightarrow> Q as | NOSUBTYPE \<Rightarrow> True | _ \<Rightarrow> False) \<longleftrightarrow> p = NOSUBTYPE \<or> (\<exists>as. p = ACTIONS_ST as \<and> Q as)"
  by (cases p; simp)+

lemma ok_mono:
  "ok_expr E A ex \<Longrightarrow> \<forall>t p1 p2. A t p1 p2 \<longrightarrow> B t p1 p2 \<Longrightarrow> ok_expr E B ex"
  "ok_list E A as \<Longrightarrow> \<forall>t p1 p2. A t p1 p2 \<longrightarrow> B t p1 p2 \<Longrightarrow> ok_list E B as"
  "ok_action E A a \<Longrightarrow> \<forall>t p1 p2. A t p1 p2 \<longrightarrow> B t p1 p2 \<Longrightarrow> ok_action E B a"
proof (induction E A ex and E A as and E A a rule: ok_expr_ok_list_ok_action.induct)
  case (6 E A t p1 p2 p3)
  show ?case
  proof (cases "t = IF_T")
    case True
    with 6 show ?thesis by (auto simp: param_cases)
  qed (use 6 in simp)
qed (auto simp: param_cases)

lemma typed_args_mono: "np \<le> np' \<Longrightarrow> \<forall>t p1 p2. typed_args np t p1 p2 \<longrightarrow> typed_args np' t p1 p2"
  by (auto simp: typed_args_def is_proxy_def split: param.splits if_splits)

lemmas typed_mono = ok_mono [OF _ typed_args_mono]

definition proxy_ok :: "proxy_l \<Rightarrow> bool" where
  "proxy_ok p \<longleftrightarrow> addr_idx p < length (h_addr_list (px_host p))"

text \<open>
  What is assumed of the code outside: a name is resolved to at least one address, and
  forwarding leaves a proxy at one of its addresses.
\<close>

definition env_ok :: "senv \<Rightarrow> bool" where
  "env_ok e \<longleftrightarrow>
     (\<forall>name port proto he p. sip_resolvehost e name port proto = Some (he, p) \<longrightarrow> h_addr_list he \<noteq> []) \<and>
     (\<forall>p proto md. proxy_ok p \<longrightarrow> proxy_ok (snd (snd (forward_request e p proto md))))"

lemma find_Some: "find P xs = Some x \<Longrightarrow> x \<in> set xs"
  by (induction xs) (auto split: if_splits)

lemma find_proxy_index: "find_proxy ps name port proto = Some i \<Longrightarrow> i < length ps"
  unfolding find_proxy_def by (auto dest!: find_Some simp: in_set_enumerate_eq)

lemma add_proxy_index:
  assumes "add_proxy e name port proto ps = Some (i, ps')" "env_ok e" "list_all proxy_ok ps"
  shows "i < length ps' \<and> length ps \<le> length ps' \<and> list_all proxy_ok ps'"
proof (cases "find_proxy ps name port proto")
  case None
  with assms(1) obtain p where p: "mk_proxy e name port proto = Some p" "i = length ps" "ps' = ps @ [p]"
    by (auto simp: add_proxy_def split: option.splits)
  then obtain he q where he: "sip_resolvehost e name port proto = Some (he, q)" "addr_idx p = 0" "px_host p = he"
    by (auto simp: mk_proxy_def split: option.splits)
  then have "h_addr_list he \<noteq> []" using assms(2) unfolding env_ok_def by blast
  with he have "proxy_ok p" by (simp add: proxy_ok_def)
  with p assms(3) show ?thesis by simp
next
  case (Some j)
  with assms show ?thesis using find_proxy_index [OF Some] by (auto simp: add_proxy_def)
qed

lemma fix_host_typed:
  assumes "fix_host e p1 p2 ps = Inr (q, ps')" "env_ok e" "list_all proxy_ok ps" "host_action t" "parsed_args t p1 p2"
  shows "typed_args (length ps') t q p2 \<and> length ps \<le> length ps' \<and> list_all proxy_ok ps'"
proof (cases "p1 = URIHOST_ST")
  case True
  with assms show ?thesis by (auto simp: fix_host_def parsed_args_def typed_args_def uri_host_args_def is_str_def is_ip_def)
next
  case False
  with assms have p2: "is_num p2" by (auto simp: parsed_args_def uri_host_args_def)
  obtain name n i where "add_proxy e name n PROTO_NONE ps = Some (i, ps')" "q = PROXY_ST i"
    using assms(1) False by (auto simp: fix_host_def Let_def split: param.splits option.splits prod.splits)
  with add_proxy_index [OF this(1) assms(2,3)] p2 assms(4) show ?thesis
    by (auto simp: typed_args_def is_proxy_def)
qed

lemma fix_match_typed:
  assumes "fix_match e op p = Inr q" "parsed_elem op opd p" "opd \<noteq> ACTION_O"
  shows "typed_elem op opd q"
  using assms
  by (cases opd; cases p)
    (auto simp: fix_match_def parsed_elem_def typed_elem_def typed_text_def strop_def intop_def equalop_def is_str_def is_re_def is_net_def is_num_def
      split: if_splits option.splits)

abbreviation typed_expr :: "nat \<Rightarrow> expr \<Rightarrow> bool" where
  "typed_expr np \<equiv> ok_expr typed_elem (typed_args np)"

abbreviation typed_action :: "nat \<Rightarrow> action \<Rightarrow> bool" where
  "typed_action np \<equiv> ok_action typed_elem (typed_args np)"

definition fixed :: "(nat \<Rightarrow> 'a \<Rightarrow> bool) \<Rightarrow> proxy_l list \<Rightarrow> int + 'a \<times> proxy_l list \<Rightarrow> bool" where
  "fixed P ps r = (case r of Inl _ \<Rightarrow> True
     | Inr (x, ps') \<Rightarrow> P (length ps') x \<and> length ps \<le> length ps' \<and> list_all proxy_ok ps')"

lemma fixed_simps [simp]:
  "fixed P ps (Inl r)"
  "fixed P ps (Inr (x, ps')) \<longleftrightarrow> P (length ps') x \<and> length ps \<le> length ps' \<and> list_all proxy_ok ps'"
  by (simp_all add: fixed_def)

lemma fix_block:
  assumes "\<And>as. p = ACTIONS_ST as \<Longrightarrow> fixed typed_list ps (fix_list e as ps)"
    and "p = NOSUBTYPE \<or> (\<exists>as. p = ACTIONS_ST as)" "list_all proxy_ok ps"
  shows "fixed (\<lambda>np p. p = NOSUBTYPE \<or> (\<exists>as. p = ACTIONS_ST as \<and> typed_list np as)) ps
    (case p of ACTIONS_ST as \<Rightarrow> (case fix_list e as ps of Inl err \<Rightarrow> Inl err | Inr (as, ps) \<Rightarrow> Inr (ACTIONS_ST as, ps))
     | _ \<Rightarrow> Inr (p, ps))"
  using assms by (auto split: sum.splits prod.splits)

lemma fix_typed:
  "ok_expr parsed_elem parsed_args ex \<Longrightarrow> env_ok e \<Longrightarrow> list_all proxy_ok ps \<Longrightarrow> fixed typed_expr ps (fix_expr e ex ps)"
  "parsed_list as \<Longrightarrow> env_ok e \<Longrightarrow> list_all proxy_ok ps \<Longrightarrow> fixed typed_list ps (fix_list e as ps)"
  "ok_action parsed_elem parsed_args a \<Longrightarrow> env_ok e \<Longrightarrow> list_all proxy_ok ps \<Longrightarrow> fixed typed_action ps (fix_action e a ps)"
proof (induction e ex ps and e as ps and e a ps rule: fix_expr_fix_list_fix_action.induct)
  case (2 e op l r ps)
  have "fixed typed_expr ps (fix_expr e l ps)" if "op = AND_OP \<or> op = OR_OP \<or> op = NOT_OP"
    using 2 that by (cases "op = NOT_OP") auto
  moreover have "fixed typed_expr ps' (fix_expr e r ps')" if "op = AND_OP \<or> op = OR_OP" "fix_expr e l ps = Inr (l', ps')" for l' ps'
    using 2 that calculation by auto
  ultimately show ?case by (auto split: sum.splits prod.splits dest: typed_mono(1))
next
  case (3 e op opd p ps)
  show ?case
  proof (cases "opd = ACTION_O")
    case True
    then obtain as where p: "p = ACTIONS_ST as" "parsed_list as" using 3(2) by (auto simp: param_cases parsed_list_def)
    have "typed_elem op ACTION_O q" for q by (simp add: typed_elem_def)
    then show ?thesis using 3 True p by (auto simp: typed_list_def split: sum.splits prod.splits)
  next
    case False
    then show ?thesis using 3 fix_match_typed [OF _ _ False] by (auto split: sum.splits)
  qed
next
  case (5 e a as ps)
  have "fixed typed_action ps (fix_action e a ps)" using 5 by (simp add: parsed_list_def)
  moreover have "fixed typed_list ps' (fix_list e as ps')" if "fix_action e a ps = Inr (a', ps')" for a' ps'
    using 5 that calculation by (simp add: parsed_list_def)
  ultimately show ?case by (auto simp: typed_list_def split: sum.splits prod.splits dest: typed_mono(3))
next
  case (6 e t p1 p2 p3 ps)
  consider "host_action t" | "t = IF_T" | "t = MODULE_T" | "t = FORCE_SEND_SOCKET_T" | "t = FORWARD_TLS_T"
    | "\<not> host_action t" "t \<notin> {IF_T, MODULE_T, FORCE_SEND_SOCKET_T, FORWARD_TLS_T}" by blast
  then show ?case
  proof cases
    case 1
    then have "parsed_args t p1 p2" "t \<noteq> IF_T" using 6 by (auto simp: host_action_def)
    moreover have "t \<in> {FORWARD_T, FORWARD_TLS_T, FORWARD_TCP_T, FORWARD_UDP_T, SEND_T, SEND_TCP_T}" using 1 by (auto simp: host_action_def)
    ultimately show ?thesis using fix_host_typed [OF _ 6(5,6) 1] by (auto split: sum.splits prod.splits)
  next
    case 2
    then obtain ex where ex: "p1 = EXPR_ST ex" "ok_expr parsed_elem parsed_args ex"
      and b: "p2 = NOSUBTYPE \<or> (\<exists>as. p2 = ACTIONS_ST as \<and> parsed_list as)" "p3 = NOSUBTYPE \<or> (\<exists>as. p3 = ACTIONS_ST as \<and> parsed_list as)"
      using 6(4) by (auto simp: param_cases parsed_list_def)
    then have "ex \<noteq> Null_Expr" "is_block p2" "is_block p3" by (auto simp: is_block_def)
    note if_t = 2 ex this
    define F where "F = (\<lambda>p ps. case p of ACTIONS_ST as \<Rightarrow> (case fix_list e as ps of Inl err \<Rightarrow> Inl err | Inr (as, ps) \<Rightarrow> Inr (ACTIONS_ST as, ps))
      | _ \<Rightarrow> Inr (p, ps))"
    let ?P = "\<lambda>np p. p = NOSUBTYPE \<or> (\<exists>as. p = ACTIONS_ST as \<and> typed_list np as)"
    have f1: "fixed typed_expr ps (fix_expr e ex ps)" using 6 if_t by auto
    have f2: "fixed ?P ps1 (F p2 ps1)" if "fix_expr e ex ps = Inr (ex', ps1)" for ex' ps1
      unfolding F_def using 6 if_t b f1 that by (intro fix_block) auto
    have f3: "fixed ?P ps2 (F p3 ps2)" if "fix_expr e ex ps = Inr (ex', ps1)" "F p2 ps1 = Inr (p2', ps2)" for ex' ps1 p2' ps2
      unfolding F_def using 6 if_t b f1 f2 [OF that(1)] that by (intro fix_block) (auto simp: F_def)
    have run: "fix_action e (Action t p1 p2 p3) ps = (case fix_expr e ex ps of Inl err \<Rightarrow> Inl err | Inr (ex, ps) \<Rightarrow>
        (case F p2 ps of Inl err \<Rightarrow> Inl err | Inr (p2, ps) \<Rightarrow>
          (case F p3 ps of Inl err \<Rightarrow> Inl err | Inr (p3, ps) \<Rightarrow> Inr (Action IF_T (EXPR_ST ex) p2 p3, ps))))"
      unfolding F_def using if_t by simp
    have "typed_action np (Action IF_T (EXPR_ST x) q r)" if "typed_expr np x" "?P np q" "?P np r" for np x q r
      using that if_t(1) by (auto simp: param_cases typed_list_def)
    note act = this
    have mono: "?P np' q" if "?P np q" "np \<le> np'" for np np' q
      using that typed_mono(2) by (auto simp: typed_list_def)
    show ?thesis
    proof (cases "fix_expr e ex ps")
      case (Inr x)
      then obtain ex' ps1 where x: "fix_expr e ex ps = Inr (ex', ps1)" by (cases x) simp
      note g1 = f1 [unfolded x fixed_simps]
      show ?thesis
      proof (cases "F p2 ps1")
        case (Inr y)
        then obtain p2' ps2 where y: "F p2 ps1 = Inr (p2', ps2)" by (cases y) simp
        note g2 = f2 [OF x, unfolded y fixed_simps]
        show ?thesis
        proof (cases "F p3 ps2")
          case (Inr z)
          then obtain p3' ps3 where z: "F p3 ps2 = Inr (p3', ps3)" by (cases z) simp
          note g3 = f3 [OF x y, unfolded z fixed_simps]
          have le: "length ps1 \<le> length ps3" "length ps2 \<le> length ps3" using g2 g3 by auto
          have "typed_expr (length ps3) ex'" using ok_mono(1) [OF _ typed_args_mono [OF le(1)]] g1 by blast
          moreover have "?P (length ps3) p2'" by (rule mono [OF _ le(2)]) (use g2 in blast)
          moreover have "?P (length ps3) p3'" using g3 by blast
          ultimately have "typed_action (length ps3) (Action IF_T (EXPR_ST ex') p2' p3')" by (rule act)
          then show ?thesis using g1 g2 g3 by (simp only: run x y z sum.case prod.case fixed_simps) simp
        qed (simp only: run x y sum.case prod.case fixed_simps)
      qed (simp only: run x sum.case prod.case fixed_simps)
    qed (simp only: run sum.case fixed_simps)
  next
    case 3
    then show ?thesis using 6 by (auto simp: typed_args_def parsed_args_def host_action_def other_args_def split: sum.splits prod.splits)
  next
    case 4
    then show ?thesis using 6 by (auto simp: typed_args_def fix_socket_def host_action_def split: sum.splits prod.splits param.splits option.splits list.splits)
  next
    case 5
    then show ?thesis using 6 by (simp add: parsed_args_def host_action_def other_args_def)
  next
    case other: 6
    then show ?thesis using 6 by (auto simp: typed_args_def parsed_args_def host_action_def)
  qed
qed (simp_all add: typed_list_def)

subsection \<open>Well-typed scripts do not go wrong\<close>

definition state_ok :: "nat \<Rightarrow> sst \<Rightarrow> bool" where
  "state_ok np s \<longleftrightarrow> np \<le> length (proxies s) \<and> list_all proxy_ok (proxies s)"

text \<open>
  No new BUG in the log and none of the crashes that a wrong tag or a null pointer causes.
\<close>

definition sound :: "nat \<Rightarrow> sst \<Rightarrow> sres \<Rightarrow> bool" where
  "sound np s r =
     (case r of
        Done _ s' \<Rightarrow> crit s' = crit s \<and> state_ok np s'
      | Crash c \<Rightarrow> c = Overrun \<or> c = Bad_Route
      | Timeout \<Rightarrow> True)"

lemma sound_simps [simp]:
  "sound np s (Done r s') \<longleftrightarrow> crit s' = crit s \<and> state_ok np s'"
  "sound np s (Crash c) \<longleftrightarrow> c = Overrun \<or> c = Bad_Route" "sound np s Timeout"
  by (simp_all add: sound_def)

lemma state_ok_simps [simp]:
  "state_ok np (s\<lparr>msg := m\<rparr>) = state_ok np s" "state_ok np (s\<lparr>dst_set := d\<rparr>) = state_ok np s"
  "state_ok np (s\<lparr>act_lev := l\<rparr>) = state_ok np s" "state_ok np (s\<lparr>expr_lev := l\<rparr>) = state_ok np s"
  "state_ok np (s\<lparr>crit := c\<rparr>) = state_ok np s" "state_ok np (set_md md s) = state_ok np s"
  by (simp_all add: state_ok_def set_md_def)

lemma state_ok_set_proxy: "state_ok np s \<Longrightarrow> proxy_ok p \<Longrightarrow> state_ok np (set_proxy i p s)"
  by (cases "i < length (proxies s)") (auto simp: state_ok_def set_proxy_def list_all_length nth_list_update)

lemma sound_and_then:
  "sound np s r \<Longrightarrow> (\<And>ret s'. r = Done ret s' \<Longrightarrow> crit s' = crit s \<Longrightarrow> state_ok np s' \<Longrightarrow> sound np s (f ret s')) \<Longrightarrow> sound np s (and_then r f)"
  by (cases r) (simp_all add: and_then_def)

definition quiet_cmp :: "cmp \<Rightarrow> bool" where
  "quiet_cmp c \<longleftrightarrow> (\<exists>r. c = Some (r, []))"

lemma quiet_of_bool [simp]: "quiet_cmp (of_bool01 b)" "quiet_cmp (Some (r, []))"
  by (simp_all add: quiet_cmp_def of_bool01_def)

lemma sound_cmp: "quiet_cmp c \<Longrightarrow> state_ok np s \<Longrightarrow> sound np s (cmp_result s c)"
  by (auto simp: quiet_cmp_def cmp_result_def)

lemma quiet_or_else: "quiet_cmp a \<Longrightarrow> quiet_cmp b \<Longrightarrow> quiet_cmp (or_else a b)"
  by (auto simp: quiet_cmp_def or_else_def)

lemmas class_defs = strop_def intop_def equalop_def is_str_def is_re_def is_net_def is_num_def typed_text_def

lemma quiet_text: "typed_text op p \<Longrightarrow> quiet_cmp (comp_text e eq s p op)"
  by (auto simp: comp_text_def class_defs split: param.splits option.splits)

lemma quiet_self: "equalop op \<Longrightarrow> quiet_cmp (check_self_op e op h p)"
  by (auto simp: check_self_op_def equalop_def)

lemma quiet_no: "intop op \<Longrightarrow> is_num p \<Longrightarrow> quiet_cmp (comp_no n p op)"
  by (auto simp: comp_no_def class_defs split: param.splits)

lemma quiet_any: "quiet_cmp a \<Longrightarrow> typed_text op p \<Longrightarrow> quiet_cmp (comp_any e a hs p op)"
  by (induction hs arbitrary: a) (simp_all add: quiet_or_else quiet_text comp_str_def)

lemma quiet_name: "typed_text op p \<Longrightarrow> quiet_cmp (comp_ip_name e ip p op)"
  unfolding comp_ip_name_def
  by (intro quiet_or_else) (auto simp: comp_str_def quiet_text intro!: quiet_any split: option.split param.split)

lemma quiet_ip:
  assumes "typed_text op p \<or> equalop op \<and> (is_net p \<or> p = MYSELF_ST)"
  shows "quiet_cmp (comp_ip e ip p op)"
proof -
  have "quiet_cmp (map_option (\<lambda>(r, l). (f r, l)) c)" if "quiet_cmp c" for f c using that by (auto simp: quiet_cmp_def)
  moreover have "quiet_cmp (comp_ip_name e ip p EQUAL_OP)" if "is_str p" by (rule quiet_name) (simp add: typed_text_def equalop_def that)
  ultimately show ?thesis
    using assms quiet_name [of op p e ip] quiet_self [of op e]
    by (auto simp: comp_ip_def class_defs split: param.splits)
qed

lemma quiet_uri:
  assumes "typed_text op p \<or> equalop op \<and> p = MYSELF_ST" "state_ok np s"
  shows "sound np s (eval_uri e op p s)" "sound np s (eval_hdr_uri e h op p s)"
proof -
  have t: "sound np s (cmp_result s (comp_strstr e x p op))" if "p \<noteq> MYSELF_ST" for x
    using assms that by (intro sound_cmp) (auto simp: comp_strstr_def quiet_text)
  have m: "sound np s (cmp_result (s\<lparr>msg := m\<rparr>) (check_self_op e op h n))" if "p = MYSELF_ST" for m h n
  proof -
    have "equalop op" using assms that by (auto simp: class_defs)
    then obtain r where "check_self_op e op h n = Some (r, [])" using quiet_self unfolding quiet_cmp_def by blast
    with assms(2) show ?thesis by (simp add: cmp_result_def)
  qed
  have m0: "sound np s (cmp_result s (check_self_op e op h n))" if "p = MYSELF_ST" for h n
    using m [OF that, of "msg s"] by simp
  then show "sound np s (eval_hdr_uri e h op p s)"
    using assms(2) t by (cases p) (auto simp: eval_hdr_uri_def split: option.split sum.split)
  show "sound np s (eval_uri e op p s)"
  proof (cases "p = MYSELF_ST")
    case True
    then show ?thesis
      using m m0 assms(2) by (auto simp: eval_uri_def parse_sip_msg_uri_def Let_def split: option.split sum.split)
  next
    case False
    then show ?thesis using t by (cases p) (auto simp: eval_uri_def)
  qed
qed

lemma eval_simple_sound:
  assumes "typed_elem op opd p" "opd \<noteq> ACTION_O" "state_ok np s"
  shows "sound np s (eval_simple e op opd p s)"
proof -
  have "sound np s (cmp_result s (comp_strstr e x p op))" if "typed_text op p" for x
    using that assms(3) by (intro sound_cmp) (simp_all add: comp_strstr_def quiet_text)
  moreover have "sound np s (cmp_result s (comp_no x p op))" if "intop op" "is_num p" for x
    using that assms(3) by (intro sound_cmp) (simp_all add: quiet_no)
  moreover have "sound np s (cmp_result s (comp_ip e x p op))"
    if "typed_text op p \<or> equalop op \<and> (is_net p \<or> p = MYSELF_ST)" for x
    using that assms(3) by (intro sound_cmp) (simp_all add: quiet_ip)
  ultimately show ?thesis
    using assms quiet_uri [of op p np s e]
    by (cases opd) (auto simp: eval_simple_def typed_elem_def is_num_def split: param.splits)
qed


lemma rewrite_sound:
  assumes "if is_strip t then (case p1 of NUMBER_ST n \<Rightarrow> 0 \<le> n | _ \<Rightarrow> False) else is_str p1" "state_ok np s"
  shows "sound np s (rewrite_action e t p1 s)"
proof -
  obtain arg num where "(if is_strip t then (case p1 of NUMBER_ST n \<Rightarrow> Some (None, n) | _ \<Rightarrow> None)
      else (case p1 of STRING_ST x \<Rightarrow> Some (x, 0) | _ \<Rightarrow> None)) = Some (arg, num)" "needs_string t \<longrightarrow> arg \<noteq> None"
    using assms(1) by (cases p1) (auto simp: is_str_def needs_string_def is_strip_def split: if_splits option.splits)
  then show ?thesis
    using assms(2) by (auto simp: rewrite_action_def Let_def split: option.split sum.split)
qed

lemma proxies_nth: "state_ok np s \<Longrightarrow> i < np \<Longrightarrow> i < length (proxies s) \<and> proxy_ok (proxies s ! i)"
  by (auto simp: state_ok_def list_all_length)

lemma forward_uri_sound:
  assumes "p2 = URIPORT_ST \<or> is_num p2" "state_ok np s"
  shows "sound np s (forward_uri e pr p2 s)"
proof -
  have "\<exists>n. forward_port p2 u = Some n" for u using assms(1) by (auto simp: forward_port_def is_num_def split: param.splits)
  then obtain g where "\<And>u. forward_port p2 u = Some (g u)" by metis
  then show ?thesis
    using assms(2) by (auto simp: forward_uri_def Let_def set_md_def split: option.split prod.split sum.split)
qed

lemma forward_sound:
  assumes "uri_host_args t p1 p2 \<or> is_proxy np p1 \<and> is_num p2" "state_ok np s" "env_ok e"
  shows "sound np s (forward_action e t p1 p2 s)"
proof (cases "p1 = URIHOST_ST")
  case True
  then show ?thesis using assms forward_uri_sound by (auto simp: forward_action_def uri_host_args_def is_proxy_def)
next
  case False
  with assms(1) obtain i n where p: "p1 = PROXY_ST i" "i < np" "p2 = NUMBER_ST n"
    by (auto simp: uri_host_args_def is_proxy_def is_num_def split: param.splits)
  have i: "i < length (proxies s)" "proxy_ok (proxies s ! i)" using proxies_nth [OF assms(2) p(2)] by auto
  have "proxy_ok q" if "forward_request e (proxies s ! i) proto md = (r, md', q)" for proto md r md' q
    using assms(3) i(2) that unfolding env_ok_def by (metis snd_conv)
  then show ?thesis
    using i assms(2) p by (auto simp: forward_action_def Let_def intro!: state_ok_set_proxy split: prod.split)
qed

lemma send_sound:
  assumes "is_proxy np p1" "is_num p2" "state_ok np s"
  shows "sound np s (send_action e t p1 p2 s)"
proof -
  obtain i n where p: "p1 = PROXY_ST i" "i < np" "p2 = NUMBER_ST n"
    using assms by (auto simp: is_proxy_def is_num_def split: param.splits)
  have i: "i < length (proxies s)" "proxy_ok (proxies s ! i)" using proxies_nth [OF assms(3) p(2)] by auto
  have n: "proxy_ok (next_addr (proxies s ! i))"
    using i(2) by (auto simp: proxy_ok_def next_addr_def)
  then show ?thesis
    using i assms(3) p
    by (auto simp: send_action_def Let_def proxy_ok_def intro!: state_ok_set_proxy)
qed

lemma other_sound:
  "is_num p1 \<Longrightarrow> state_ok np s \<Longrightarrow> sound np s (flag_action t p1 s)"
  "(case p1 of STRING_ST _ \<Rightarrow> True | _ \<Rightarrow> False) \<Longrightarrow> is_num p2 \<or> p2 = NOSUBTYPE \<Longrightarrow> state_ok np s \<Longrightarrow> sound np s (append_branch_action p1 p2 s)"
  "is_num p1 \<or> p1 = NOSUBTYPE \<Longrightarrow> state_ok np s \<Longrightarrow> sound np s (alias_action e p1 s)"
proof -
  show "is_num p1 \<Longrightarrow> state_ok np s \<Longrightarrow> sound np s (flag_action t p1 s)"
    by (auto simp: flag_action_def is_num_def Let_def split: param.splits)
  show "(case p1 of STRING_ST _ \<Rightarrow> True | _ \<Rightarrow> False) \<Longrightarrow> is_num p2 \<or> p2 = NOSUBTYPE \<Longrightarrow> state_ok np s \<Longrightarrow> sound np s (append_branch_action p1 p2 s)"
    by (auto simp: append_branch_action_def is_num_def number_of_def split: param.splits option.splits)
  show "is_num p1 \<or> p1 = NOSUBTYPE \<Longrightarrow> state_ok np s \<Longrightarrow> sound np s (alias_action e p1 s)"
    by (auto simp: alias_action_def is_num_def split: param.splits)
qed

lemma simple_action_sound:
  assumes "typed_args np t p1 p2" "t \<noteq> ROUTE_T" "t \<noteq> IF_T" "state_ok np s" "env_ok e"
  shows "sound np s (simple_action e (Action t p1 p2 p3) s)"
proof -
  note f = forward_sound [OF _ assms(4,5), of t p1 p2]
  note r = rewrite_sound [OF _ assms(4), of t p1 e]
  note o = other_sound(1) [OF _ assms(4), of p1 t] other_sound(2) [OF _ _ assms(4), of p1 p2] other_sound(3) [OF _ assms(4), of p1 e]
  show ?thesis
  proof (cases "host_action t")
    case True
    then show ?thesis
      using assms f send_sound [OF _ _ assms(4), of p1 p2 e t]
      by (auto simp: host_action_def typed_args_def uri_host_args_def simple_action_def)
  next
    case False
    then show ?thesis
      using assms r o
      by (cases t) (auto simp: typed_args_def other_args_def host_action_def simple_action_def is_strip_def is_num_def is_str_def
        split: param.splits option.splits prod.splits)
  qed
qed

fun typed_task :: "nat \<Rightarrow> task \<Rightarrow> bool" where
  "typed_task np (Run_Actions as) = typed_list np as"
| "typed_task np (Action_Loop as ret) = typed_list np as"
| "typed_task np (Do_Action a) = typed_action np a"
| "typed_task np (Eval_Expr ex) = typed_expr np ex"
| "typed_task np (Eval_Elem op opd p) = typed_expr np (Elem op opd p)"

lemma sound_cong: "crit s = crit s' \<Longrightarrow> sound np s r = sound np s' r"
  by (cases r) simp_all

lemma interp_sound:
  assumes "\<And>as. as \<in> set rl \<Longrightarrow> typed_list np as" "env_ok e"
  shows "typed_task np t \<Longrightarrow> state_ok np s \<Longrightarrow> sound np s (interp e rl n t s)"
proof (induction n arbitrary: t s)
  case (Suc n)
  let ?I = "interp e rl n"
  have IH: "sound np s (?I t s')" if "typed_task np t" "state_ok np s'" "crit s' = crit s" for t s s'
    using Suc.IH [OF that(1,2)] sound_cong [OF that(3)] by simp
  show ?case
  proof (cases t)
    case (Run_Actions as)
    show ?thesis
      using Suc.prems Run_Actions
      by (auto simp: run_actions_def Let_def intro!: sound_and_then IH)
  next
    case (Action_Loop as ret)
    then show ?thesis
      using Suc.prems by (auto simp: action_loop_def typed_list_def split: list.split intro!: sound_and_then IH)
  next
    case (Do_Action a)
    obtain t' p1 p2 p3 where a: "a = Action t' p1 p2 p3" by (cases a)
    have ty: "typed_action np (Action t' p1 p2 p3)" using Suc.prems Do_Action a by simp
    have block: "sound np s (run_block ?I p s')"
      if "p = NOSUBTYPE \<or> (\<exists>as. p = ACTIONS_ST as \<and> typed_list np as)" "state_ok np s'" "crit s' = crit s" for p s'
      using that by (auto simp: run_block_def intro!: IH)
    consider "t' = ROUTE_T" | "t' = IF_T" | "t' \<noteq> ROUTE_T" "t' \<noteq> IF_T" by blast
    then show ?thesis
    proof cases
      case 1
      then obtain i where "p1 = NUMBER_ST i"
        using ty by (auto simp: typed_args_def host_action_def other_args_def is_num_def split: param.splits)
      then show ?thesis
        using Do_Action a 1 Suc.prems by (auto simp: do_action_def intro!: sound_and_then IH assms(1))
    next
      case 2
      then obtain ex where ex: "p1 = EXPR_ST ex" "typed_expr np ex"
        and b: "p2 = NOSUBTYPE \<or> (\<exists>as. p2 = ACTIONS_ST as \<and> typed_list np as)" "p3 = NOSUBTYPE \<or> (\<exists>as. p3 = ACTIONS_ST as \<and> typed_list np as)"
        using ty by (auto simp: param_cases typed_list_def)
      then show ?thesis
        using Do_Action a 2 Suc.prems by (auto simp: do_action_def intro!: sound_and_then IH block)
    next
      case 3
      then show ?thesis
        using Do_Action a Suc.prems ty simple_action_sound [OF _ 3 _ assms(2)] by (simp add: do_action_def)
    qed
  next
    case (Eval_Expr ex)
    let ?s = "s\<lparr>expr_lev := expr_lev s + 1\<rparr>"
    have leave: "sound np s (leave_expr r)" if "sound np s r" for r
      unfolding leave_expr_def using that by (intro sound_and_then) auto
    have "sound np s (eval_expr ?I ex s)"
    proof (cases ex)
      case (Elem op opd p)
      then show ?thesis
        using Suc.prems Eval_Expr by (auto simp: eval_expr_def Let_def intro!: leave IH)
    next
      case (Exp op l r)
      then show ?thesis
        using Suc.prems Eval_Expr by (auto simp: eval_expr_def Let_def intro!: leave sound_and_then IH)
    qed (use Suc.prems Eval_Expr in simp)
    then show ?thesis by (simp add: Eval_Expr)
  next
    case (Eval_Elem op opd p)
    show ?thesis
    proof (cases "opd = ACTION_O")
      case True
      then show ?thesis
        using Suc.prems Eval_Elem by (auto simp: eval_elem_def param_cases typed_list_def intro!: sound_and_then IH)
    next
      case False
      then show ?thesis
        using Suc.prems Eval_Elem eval_simple_sound by (simp add: eval_elem_def)
    qed
  qed
qed simp

lemma fix_tables_typed:
  assumes "fix_tables e ts ps = Inr (ts', ps')" "\<forall>t \<in> set ts. parsed_list t" "env_ok e" "list_all proxy_ok ps"
  shows "(\<forall>t \<in> set ts'. typed_list (length ps') t) \<and> length ps \<le> length ps' \<and> list_all proxy_ok ps'"
  using assms
proof (induction ts arbitrary: ps ts')
  case (Cons t ts)
  obtain t' ps1 where t: "(if t = [] then Inr (t, ps) else fix_actions e t ps) = Inr (t', ps1)"
    and "\<exists>ts1. fix_tables e ts ps1 = Inr (ts1, ps') \<and> ts' = t' # ts1"
    using Cons.prems(1) by (auto split: sum.splits prod.splits)
  then obtain ts1 where ts: "fix_tables e ts ps1 = Inr (ts1, ps')" "ts' = t' # ts1" by blast
  have 1: "typed_list (length ps1) t'" "length ps \<le> length ps1" "list_all proxy_ok ps1"
    using t Cons.prems(2-4) fix_typed(2) [of t e ps] by (auto simp: fix_actions_def typed_list_def split: if_splits)
  note 2 = Cons.IH [OF ts(1) _ Cons.prems(3) 1(3)]
  have "typed_list (length ps') t'"
    using 1(1) 2 Cons.prems(2) typed_args_mono ok_mono(2) unfolding typed_list_def by (metis list.set_intros(2))
  then show ?case using 1 2 ts Cons.prems(2) by auto
qed simp


subsection \<open>An example\<close>

definition demo_env :: senv where
  "demo_env = \<lparr>resolvehost = (\<lambda>_. None), rev_resolvehost = (\<lambda>_. None),
     sip_resolvehost = (\<lambda>name port proto. Some (\<lparr>h_name = name, h_aliases = [], h_addrtype = AF_INET, h_addr_list = [[10, 0, 0, 9]]\<rparr>, port)),
     regcomp_ok = (\<lambda>_. True), regexec = (\<lambda>r s. r = s), check_self = (\<lambda>h p. h = ''b.org''), find_si = (\<lambda>_ _. None),
     cmd_fixup = (\<lambda>_. None), cmd_function = (\<lambda>_ _ _ md. (1, md)), forward_request = (\<lambda>p proto md. (1, md, p)),
     send_to = (\<lambda>_ _ _ _. 1), tcpconn_add_alias = (\<lambda>_ _. 0), onbreak = (\<lambda>md. md), pkg_malloc = (\<lambda>_. True)\<rparr>"

definition demo_msg :: "string \<Rightarrow> string \<Rightarrow> sip_msg" where
  "demo_msg method uri = \<lparr>sm_rq = \<lparr>rq_uri = uri, new_uri = None, dst_uri = None\<rparr>, sm_method = method, sm_from = None,
     sm_to = None, src_ip = \<lparr>ip_af = AF_INET, ip_bytes = [10, 0, 0, 1]\<rparr>, dst_ip = \<lparr>ip_af = AF_INET, ip_bytes = [10, 0, 0, 2]\<rparr>,
     src_port = 5060, dst_port = 5060, sm_proto = PROTO_UDP, sm_len = 400, via_port = 5060, tcp_id = 0, parsed_uri = None,
     sm_flags = 0, force_rport = False, set_global_address = None, set_global_port = None, force_send_socket = None\<rparr>"

definition demo_sst :: "proxy_l list \<Rightarrow> string \<Rightarrow> string \<Rightarrow> sst" where
  "demo_sst ps method uri = \<lparr>msg = demo_msg method uri, dst_set = \<lparr>branches = [], branch_iterator = 0, ruri_q = 0\<rparr>,
     proxies = ps, act_lev = 0, expr_lev = 0, crit = []\<rparr>"

definition demo_script :: "param \<Rightarrow> action list" where
  "demo_script gw = [Action IF_T (EXPR_ST (Elem EQUAL_OP METHOD_O (STRING_ST (Some ''INVITE''))))
     (ACTIONS_ST [Action FORWARD_T gw (NUMBER_ST 5060) NOSUBTYPE]) NOSUBTYPE]"

definition demo_proxy :: proxy_l where
  "demo_proxy = \<lparr>px_name = ''gw'', px_port = 5060, px_proto = PROTO_NONE,
     px_host = \<lparr>h_name = ''gw'', h_aliases = [], h_addrtype = AF_INET, h_addr_list = [[10, 0, 0, 9]]\<rparr>,
     addr_idx = 0, px_ok = True, px_tx = 0, tx_bytes = 0, px_errors = 0\<rparr>"


end
