(* ===== verification/Script_Rewrite.thy ===== *)
theory Script_Rewrite
  imports Script_Run
begin

section \<open>What the routing script computes: conditions and rewriting\<close>

text \<open>
  The meaning of conditions and of the actions that rewrite the Request-URI.
\<close>

subsection \<open>Conditions\<close>

fun expr_holds :: "(oper \<Rightarrow> operand \<Rightarrow> param \<Rightarrow> bool) \<Rightarrow> expr \<Rightarrow> bool" where
  "expr_holds b Null_Expr = False"
| "expr_holds b (Elem op opd p) = b op opd p"
| "expr_holds b (Exp op l r) =
     (if op = AND_OP then expr_holds b l \<and> expr_holds b r
      else if op = OR_OP then expr_holds b l \<or> expr_holds b r
      else \<not> expr_holds b l)"

fun expr_depth :: "expr \<Rightarrow> nat" where
  "expr_depth (Exp op l r) = Suc (if op = NOT_OP then expr_depth l else max (expr_depth l) (expr_depth r))"
| "expr_depth _ = 1"

text \<open>
  An expression over tests that give true or false, the same at every depth, and change
  nothing.
\<close>

fun plain_expr :: "senv \<Rightarrow> (oper \<Rightarrow> operand \<Rightarrow> param \<Rightarrow> bool) \<Rightarrow> sst \<Rightarrow> expr \<Rightarrow> bool" where
  "plain_expr e b s Null_Expr = False"
| "plain_expr e b s (Elem op opd p) =
     (opd \<noteq> ACTION_O \<and> (\<forall>l. eval_simple e op opd p (s\<lparr>expr_lev := l\<rparr>) = Done (if b op opd p then 1 else 0) (s\<lparr>expr_lev := l\<rparr>)))"
| "plain_expr e b s (Exp op l r) =
     (if op = NOT_OP then plain_expr e b s l
      else (op = AND_OP \<or> op = OR_OP) \<and> plain_expr e b s l \<and> plain_expr e b s r)"

lemma expr_depth_pos: "expr_depth ex \<ge> 1"
  by (cases ex) simp_all

lemma eval_plain:
  assumes "plain_expr e b s ex" "l + expr_depth ex \<le> 100" "expr_depth ex + 1 \<le> n"
  shows "interp e rl n (Eval_Expr ex) (s\<lparr>expr_lev := l\<rparr>) = Done (if expr_holds b ex then 1 else 0) (s\<lparr>expr_lev := l\<rparr>)"
  using assms
proof (induction ex arbitrary: l n rule: expr_depth.induct)
  case (1 op x y)
  obtain m where n: "n = Suc m" using "1.prems"(3) by (cases n) auto
  have x: "interp e rl m (Eval_Expr x) (s\<lparr>expr_lev := l + 1\<rparr>) = Done (if expr_holds b x then 1 else 0) (s\<lparr>expr_lev := l + 1\<rparr>)"
    using 1 n by (cases "op = NOT_OP") (auto simp: Suc_le_eq)
  have y: "interp e rl m (Eval_Expr y) (s\<lparr>expr_lev := l + 1\<rparr>) = Done (if expr_holds b y then 1 else 0) (s\<lparr>expr_lev := l + 1\<rparr>)"
    if "op \<noteq> NOT_OP"
    using 1 n that by (auto simp: Suc_le_eq)
  have l: "\<not> l + 1 > 100" using "1.prems"(2) by simp
  have "op = AND_OP \<or> op = OR_OP \<or> op = NOT_OP" using "1.prems"(1) by (auto split: if_splits)
  then show ?case
    using x y l n by (elim disjE) (simp_all add: eval_expr_def leave_expr_def Let_def)
qed (auto simp: eval_expr_def leave_expr_def eval_elem_def Let_def Suc_le_eq numeral_2_eq_2 gr0_conv_Suc dest!: less_imp_Suc_add)

text \<open>
  C17: A condition means what its operators say, as long as it is nested at most 100 deep:
  the optimised evaluation from left to right gives true exactly when the formula holds, and
  leaves the state as it was.
\<close>

theorem conditions_boolean:
  assumes "plain_expr e b s ex" "expr_lev s + expr_depth ex \<le> 100" "expr_depth ex + 1 \<le> n"
  shows "interp e rl n (Eval_Expr ex) s = Done (if expr_holds b ex then 1 else 0) s"
  using eval_plain [OF assms, of rl] by simp

theorem conditions_boolean_witness:
  "\<forall>rl. interp demo_env rl 5 (Eval_Expr (Exp AND_OP (Elem EQUAL_OP METHOD_O (STRING_ST (Some ''INVITE'')))
     (Exp NOT_OP (Elem GT_OP MSGLEN_O (NUMBER_ST 500)) Null_Expr))) (demo_sst [] ''INVITE'' ''sip:b@b.org'') =
   Done 1 (demo_sst [] ''INVITE'' ''sip:b@b.org'')"
proof -
  let ?b = "\<lambda>op opd p. opd = METHOD_O"
  have "plain_expr demo_env ?b (demo_sst [] ''INVITE'' ''sip:b@b.org'')
    (Exp AND_OP (Elem EQUAL_OP METHOD_O (STRING_ST (Some ''INVITE''))) (Exp NOT_OP (Elem GT_OP MSGLEN_O (NUMBER_ST 500)) Null_Expr))"
    by (simp add: eval_simple_def comp_strstr_def comp_text_def comp_no_def of_bool01_def cmp_result_def demo_sst_def demo_msg_def)
  from conditions_boolean [OF this, of 5] show ?thesis by (simp add: demo_sst_def)
qed

lemma strncase_prefix:
  assumes "CHR 0x00 \<notin> set s"
  shows "strncase_eq s t \<longleftrightarrow> (\<exists>r. strlower t = strlower s @ r)"
  using assms
proof (induction s t rule: strncase_eq.induct)
  case (3 c s d p)
  then show ?case by (auto simp: strlower_def)
qed (auto simp: strlower_def)

text \<open>
  A comparison with \<open>==\<close> compares only as many characters as the message has: the method, or
  a URI, equals the string of the script as soon as it is a prefix of it.
\<close>

theorem comparison_by_prefix:
  assumes "CHR 0x00 \<notin> set (sm_method (msg s))"
  shows "eval_simple e EQUAL_OP METHOD_O (STRING_ST (Some t)) s =
    Done (if \<exists>r. strlower t = strlower (sm_method (msg s)) @ r then 1 else 0) s"
  using strncase_prefix [OF assms, of t]
  by (auto simp: eval_simple_def comp_strstr_def comp_text_def of_bool01_def cmp_result_def)

theorem comparison_by_prefix_witness:
  "eval_simple demo_env EQUAL_OP METHOD_O (STRING_ST (Some ''INVITE'')) (demo_sst [] ''inv'' ''sip:b@b.org'') =
    Done 1 (demo_sst [] ''inv'' ''sip:b@b.org'')"
proof -
  have "strlower ''INVITE'' = strlower ''inv'' @ ''ite''" by code_simp
  then show ?thesis
    using comparison_by_prefix [of "demo_sst [] ''inv'' ''sip:b@b.org''" demo_env "''INVITE''"]
    by (auto simp: demo_sst_def demo_msg_def)
qed

text \<open>
  \<open>route\<close> accepts the number of tables itself, one more than the last table, and reads past
  the end of the array.
\<close>

theorem route_past_table:
  assumes "length rl = RT_NO"
  shows "do_action call e rl (Action ROUTE_T (NUMBER_ST (int RT_NO)) p2 p3) s = Crash Bad_Route"
    "do_action call e rl (Action ROUTE_T (NUMBER_ST (int RT_NO + 1)) p2 p3) s = Done E_CFG s"
  using assms by (simp_all add: do_action_def)

theorem route_past_table_witness:
  "\<forall>e s. do_action (interp e (replicate 31 []) 9) e (replicate 31 []) (Action ROUTE_T (NUMBER_ST 31) NOSUBTYPE NOSUBTYPE) s = Crash Bad_Route"
  using route_past_table(1) [of "replicate 31 []"] by simp

subsection \<open>Rewriting\<close>

text \<open>The text of the new URI, without the bound of the buffer.\<close>

definition opt_text :: "char \<Rightarrow> string option \<Rightarrow> string" where
  "opt_text c t = (case t of None \<Rightarrow> [] | Some t \<Rightarrow> c # t)"

definition new_user :: "atype \<Rightarrow> string \<Rightarrow> int \<Rightarrow> string \<Rightarrow> string" where
  "new_user t x n user =
     (if t = PREFIX_T then x @ user
      else if t = SET_USER_T \<or> t = SET_USERPASS_T then x
      else if t = STRIP_T then strip_user n user
      else if t = STRIP_TAIL_T then strip_tail_user n user
      else user)"

definition rewritten :: "atype \<Rightarrow> string option \<Rightarrow> int \<Rightarrow> string \<Rightarrow> sip_uri \<Rightarrow> string" where
  "rewritten t arg num old uri =
     (let x = (case arg of None \<Rightarrow> [] | Some x \<Rightarrow> x);
          user = new_user t x num (text_of old (u_user uri));
          pass = (if t = SET_USERPASS_T then None else ptr_text old (u_passwd uri));
          host = (if t = SET_HOST_T \<or> t = SET_HOSTPORT_T then arg else ptr_text old (u_host uri));
          port = (if t = SET_HOSTPORT_T then None else if t = SET_PORT_T then arg else ptr_text old (u_port uri))
      in ''sip:'' @ user @ opt_text (CHR '':'') pass @ (if t = PREFIX_T \<or> user \<noteq> [] \<or> pass \<noteq> None then ''@'' else []) @
         (case host of None \<Rightarrow> [] | Some h \<Rightarrow> h) @ opt_text (CHR '':'') port @
         opt_text (CHR '';'') (ptr_text old (u_params uri)) @ opt_text (CHR ''?'') (ptr_text old (u_headers uri)))"

definition clip :: "string \<Rightarrow> string option" where
  "clip x = (if length x > MAX_URI_SIZE then None else Some x)"

lemma put_clip [simp]:
  "put t (clip x) = clip (x @ t)" "put_opt c t' (clip x) = clip (x @ opt_text c t')"
  by (auto simp: put_def put_opt_def clip_def opt_text_def split: option.split)

lemma clip_cases:
  "(if P then clip x else clip y) = clip (if P then x else y)"
  "(case h of None \<Rightarrow> clip x | Some h \<Rightarrow> clip (f h)) = clip (case h of None \<Rightarrow> x | Some h \<Rightarrow> f h)"
  "put ''sip:'' (Some []) = clip ''sip:''"
  by (simp_all add: put_def clip_def split: option.split)

lemma build_uri_clip: "build_uri t arg num old uri = clip (rewritten t arg num old uri)"
  unfolding build_uri_def Let_def put_clip clip_cases
  by (rule arg_cong [of _ _ clip], cases t) (simp_all add: rewritten_def new_user_def Let_def split: option.split)

lemma rewrite_action_clip:
  assumes "parse_uri (get_request_uri (sm_rq (msg s))) = Inr uri" "pkg_malloc e s" "t \<noteq> SET_URI_T"
    and "is_strip t \<and> p1 = NUMBER_ST n \<and> 0 \<le> n \<and> x = None \<or> \<not> is_strip t \<and> p1 = STRING_ST x \<and> x \<noteq> None \<and> n = 0"
  shows "rewrite_action e t p1 s =
    (case clip (rewritten t x n (get_request_uri (sm_rq (msg s))) uri) of
       None \<Rightarrow> Done E_UNSPEC s
     | Some new \<Rightarrow> if length new \<ge> MAX_URI_SIZE then Crash Overrun else Done 1 (s\<lparr>msg := set_new_uri (Some new) (msg s)\<rparr>))"
proof -
  have "\<not> (needs_string t \<and> is_strip t)" by (auto simp: needs_string_def is_strip_def)
  then show ?thesis using assms by (auto simp: rewrite_action_def build_uri_clip Let_def)
qed

text \<open>
  C18: A rewriting action either sets the new URI, or fails and leaves the message alone when
  the new URI is longer than the buffer; when it fills the buffer exactly, the code writes the
  terminating null one byte past the end.
\<close>

theorem rewrite_outcome:
  assumes "parse_uri (get_request_uri (sm_rq (msg s))) = Inr uri" "pkg_malloc e s" "t \<noteq> SET_URI_T"
    and "is_strip t \<and> p1 = NUMBER_ST n \<and> 0 \<le> n \<and> x = None \<or> \<not> is_strip t \<and> p1 = STRING_ST x \<and> x \<noteq> None \<and> n = 0"
  defines "new \<equiv> rewritten t x n (get_request_uri (sm_rq (msg s))) uri"
  shows "rewrite_action e t p1 s =
    (if length new > MAX_URI_SIZE then Done E_UNSPEC s
     else if length new = MAX_URI_SIZE then Crash Overrun
     else Done 1 (s\<lparr>msg := set_new_uri (Some new) (msg s)\<rparr>))"
  using rewrite_action_clip [OF assms(1-4)] by (auto simp: new_def clip_def)

theorem rewrite_outcome_witness:
  "rewrite_action demo_env SET_HOST_T (STRING_ST (Some (replicate 1018 CHR ''h''))) (demo_sst [] ''INVITE'' ''sip:b@b.org'') = Crash Overrun"
proof -
  let ?s = "demo_sst [] ''INVITE'' ''sip:b@b.org''" and ?h = "replicate 1018 CHR ''h''"
  have u: "get_request_uri (sm_rq (msg ?s)) = ''sip:b@b.org''" by (simp add: demo_sst_def demo_msg_def get_request_uri_def)
  have "case parse_uri ''sip:b@b.org'' of Inl _ \<Rightarrow> False | Inr uri \<Rightarrow> text_of ''sip:b@b.org'' (u_user uri) = ''b'' \<and> sp (u_passwd uri) = None \<and>
      sp (u_port uri) = None \<and> sp (u_params uri) = None \<and> sp (u_headers uri) = None"
    by code_simp
  then obtain uri where p: "parse_uri ''sip:b@b.org'' = Inr uri" "text_of ''sip:b@b.org'' (u_user uri) = ''b''" "sp (u_passwd uri) = None"
      "sp (u_port uri) = None" "sp (u_params uri) = None" "sp (u_headers uri) = None"
    by (auto split: sum.splits)
  have "length (rewritten SET_HOST_T (Some ?h) 0 ''sip:b@b.org'' uri) = 1024"
    using p by (simp add: rewritten_def new_user_def ptr_text_def opt_text_def)
  then show ?thesis
    using rewrite_outcome [of ?s uri demo_env SET_HOST_T "STRING_ST (Some ?h)" 0 "Some ?h"] p(1) u
    by (simp add: is_strip_def demo_env_def)
qed

text \<open>The parts of a URI after an action.\<close>

definition new_host :: "atype \<Rightarrow> string \<Rightarrow> string \<Rightarrow> string" where
  "new_host t x host = (if t = SET_HOST_T then x else host)"

definition new_port :: "atype \<Rightarrow> string \<Rightarrow> string \<Rightarrow> string" where
  "new_port t x port = (if t = SET_PORT_T then x else port)"

lemma text_of_null_ptr: "ptr_text buf null_span = None"
  by (simp add: ptr_text_def)

lemma text_of_ptr: "text_of buf x \<noteq> [] \<Longrightarrow> ptr_text buf x = Some (text_of buf x)"
  by (cases "sp x") (simp_all add: ptr_text_def text_of_def)

lemma new_user_plain:
  assumes "list_all plain x" "list_all plain user"
  shows "list_all plain (new_user t x n user)"
proof -
  have "list_all plain (take k user)" "list_all plain (drop k user)" for k
    using assms(2) by (auto simp: list_all_iff dest: in_set_takeD in_set_dropD)
  then show ?thesis using assms by (auto simp: new_user_def strip_user_def strip_tail_user_def)
qed



subsection \<open>The parsed URI in a message\<close>

text \<open>The URI that \<open>parse_sip_msg_uri\<close> keeps is that of the current Request-URI.\<close>

definition cache_ok :: "sip_msg \<Rightarrow> bool" where
  "cache_ok m \<longleftrightarrow> (\<forall>u. parsed_uri m = Some u \<longrightarrow> parse_uri (get_request_uri (sm_rq m)) = Inr u)"

definition env_keeps :: "(sip_msg \<Rightarrow> bool) \<Rightarrow> senv \<Rightarrow> bool" where
  "env_keeps Q e \<longleftrightarrow>
     (\<forall>f p2 p3 md. Q (fst md) \<longrightarrow> Q (fst (snd (cmd_function e f p2 p3 md)))) \<and>
     (\<forall>p proto md. Q (fst md) \<longrightarrow> Q (fst (fst (snd (forward_request e p proto md))))) \<and>
     (\<forall>md. Q (fst md) \<longrightarrow> Q (fst (onbreak e md)))"

lemma interp_keeps:
  assumes "\<And>a s r s'. simple_action e a s = Done r s' \<Longrightarrow> Q (msg s) \<Longrightarrow> Q (msg s')"
    and "\<And>op opd p s r s'. eval_simple e op opd p s = Done r s' \<Longrightarrow> Q (msg s) \<Longrightarrow> Q (msg s')"
    and "\<And>md. Q (fst md) \<Longrightarrow> Q (fst (onbreak e md))"
  shows "interp e rl n t s = Done r s' \<Longrightarrow> Q (msg s) \<Longrightarrow> Q (msg s')"
proof (induction n arbitrary: t s r s')
  case (Suc n)
  let ?I = "interp e rl n"
  note IH = Suc.IH
  have block: "Q (msg s')" if "run_block ?I p s = Done r s'" "Q (msg s)" for p s r s'
    using that by (auto simp: run_block_def split: param.splits if_splits dest!: IH)
  show ?case
  proof (cases t)
    case (Run_Actions as)
    with Suc.prems show ?thesis
      by (auto simp: run_actions_def Let_def split: if_splits dest!: IH intro!: assms(3))
  next
    case (Action_Loop as ret)
    with Suc.prems show ?thesis
      by (auto simp: action_loop_def split: list.splits if_splits dest!: IH)
  next
    case (Do_Action a)
    obtain t p1 p2 p3 where a: "a = Action t p1 p2 p3" by (cases a)
    consider "t = ROUTE_T" | "t = IF_T" | "t \<noteq> ROUTE_T" "t \<noteq> IF_T" by blast
    then show ?thesis
    proof cases
      case 1
      with Suc.prems a Do_Action show ?thesis
        by (auto simp: do_action_def bug_def log_crit_def split: param.splits if_splits dest!: IH)
    next
      case 2
      with Suc.prems a Do_Action show ?thesis
        by (auto simp: do_action_def split: param.splits if_splits dest!: IH block)
    next
      case 3
      with Suc.prems a Do_Action show ?thesis
        by (auto simp: do_action_def dest!: assms(1))
    qed
  next
    case (Eval_Expr ex)
    with Suc.prems show ?thesis
      by (auto simp: eval_expr_def leave_expr_def Let_def bug_def log_crit_def split: expr.splits oper.splits if_splits dest!: IH)
  next
    case (Eval_Elem op opd p)
    with Suc.prems show ?thesis
      by (auto simp: eval_elem_def split: if_splits param.splits dest!: IH assms(2))
  qed
qed simp

lemma cache_ok_simps [simp]:
  "cache_ok (set_new_uri u m)" "cache_ok (setflag m f) = cache_ok m" "cache_ok (resetflag m f) = cache_ok m"
  "cache_ok (m\<lparr>force_rport := b\<rparr>) = cache_ok m" "cache_ok (m\<lparr>set_global_address := a\<rparr>) = cache_ok m"
  "cache_ok (m\<lparr>set_global_port := a\<rparr>) = cache_ok m" "cache_ok (m\<lparr>force_send_socket := i\<rparr>) = cache_ok m"
  by (simp_all add: cache_ok_def set_new_uri_def setflag_def resetflag_def)

lemma cache_ok_parse: "parse_sip_msg_uri m = (r, m') \<Longrightarrow> cache_ok m \<Longrightarrow> cache_ok m'"
  by (auto simp: parse_sip_msg_uri_def cache_ok_def split: if_splits sum.splits)

lemma env_keepsD:
  assumes "env_keeps Q e"
  shows "cmd_function e f p2 p3 md = (r, md') \<Longrightarrow> Q (fst md) \<Longrightarrow> Q (fst md')"
    "forward_request e p proto md = (r, md', p') \<Longrightarrow> Q (fst md) \<Longrightarrow> Q (fst md')" "Q (fst md) \<Longrightarrow> Q (fst (onbreak e md))"
  using assms unfolding env_keeps_def by (metis fst_conv snd_conv)+

lemma forward_cache:
  assumes "env_keeps cache_ok e" "cache_ok (msg s)"
  shows "forward_action e t p1 p2 s = Done r s' \<Longrightarrow> cache_ok (msg s')"
proof -
  have fw: "cache_ok m'" if "forward_request e p pr (m, d) = (r, (m', d'), p')" "cache_ok m" for p pr m d r m' d' p'
    using env_keepsD(2) [OF assms(1) that(1)] that(2) by simp
  have uri: "cache_ok (msg s')" if "forward_uri e pr p2 s = Done r s'" for pr
    using that assms(2)
    by (auto simp: forward_uri_def bug_def log_crit_def Let_def split: if_splits option.splits prod.splits sum.splits
        dest: cache_ok_parse elim: fw [OF _ cache_ok_parse] fw)
  assume "forward_action e t p1 p2 s = Done r s'"
  then show ?thesis
    using assms(2) uri
    by (auto simp: forward_action_def bug_def log_crit_def Let_def split: if_splits param.splits prod.splits
        dest: env_keepsD(2) [OF assms(1)])
qed

lemma simple_action_cache:
  assumes "simple_action e a s = Done r s'" "cache_ok (msg s)" "env_keeps cache_ok e"
  shows "cache_ok (msg s')"
proof (cases a)
  case (Action t p1 p2 p3)
  have rw: "cache_ok (msg s')" if "rewrite_action e t p1 s = Done r s'"
    using that assms(2) by (auto simp: rewrite_action_def bug_def log_crit_def Let_def split: if_splits option.splits sum.splits)
  have sd: "cache_ok (msg s')" if "send_action e t p1 p2 s = Done r s'"
    using that assms(2) by (auto simp: send_action_def bug_def log_crit_def Let_def split: if_splits param.splits)
  have fl: "cache_ok (msg s')" if "flag_action t p1 s = Done r s'"
    using that assms(2) by (auto simp: flag_action_def bug_def log_crit_def Let_def split: if_splits param.splits)
  have ap: "cache_ok (msg s')" if "append_branch_action p1 p2 s = Done r s'"
    using that assms(2) by (auto simp: append_branch_action_def bug_def log_crit_def split: param.splits option.splits)
  have al: "cache_ok (msg s')" if "alias_action e p1 s = Done r s'"
    using that assms(2) by (auto simp: alias_action_def bug_def log_crit_def split: if_splits option.splits)
  note fw = forward_cache [OF assms(3,2)]
  have s: "simple_action e (Action t p1 p2 p3) s = Done r s'" using assms(1) Action by simp
  show ?thesis
  proof (cases "t = MODULE_T")
    case True
    with s assms(2) show ?thesis
      by (auto simp: simple_action_def bug_def log_crit_def split: param.splits prod.splits dest: env_keepsD(1) [OF assms(3)])
  next
    case False
    then show ?thesis using s assms(2)
      by (cases t) (auto simp: simple_action_def bug_def log_crit_def split: param.splits if_splits intro: rw sd fl ap al fw)
  qed
qed

lemma eval_simple_cache:
  assumes "eval_simple e op opd p s = Done r s'" "cache_ok (msg s)"
  shows "cache_ok (msg s')"
proof -
  have c: "msg s' = msg s0" if "cmp_result s0 c = Done r s'" for c s0
    using that by (auto simp: cmp_result_def split: option.splits)
  have "cache_ok (msg s')" if "eval_uri e op p s = Done r s'"
    using that assms(2) cache_ok_parse c
    by (auto simp: eval_uri_def Let_def split: param.splits prod.splits if_splits option.splits)
  moreover have "msg s' = msg s" if "eval_hdr_uri e h op p s = Done r s'" for h
    using that c by (auto simp: eval_hdr_uri_def split: param.splits option.splits sum.splits)
  ultimately show ?thesis
    using assms c by (cases opd) (auto simp: eval_simple_def bug_def log_crit_def split: param.splits)
qed



end
