(* ===== verification/Tm_Reply.thy ===== *)
theory Tm_Reply
  imports Prelude
begin

section \<open>Replies in a transaction: modules/tm/t_reply.c, t_cancel.c, t_fwd.c, timer.c\<close>

text \<open>
  A transaction has one server side (\<open>uas\<close>, upstream) and one client side for each branch
  (\<open>uac\<close>, downstream). A reply on a branch is relayed upstream at once, or stored until all
  branches have a final reply, when the best is picked; a failure route may first add branches
  or answer itself. This theory models that decision, the replies the server makes itself, the
  cancelling of branches and which timers are left running.

  A field of the type \<open>retr_buf\<close> is given by what the code asks of it: whether its buffer is
  set, and whether its timers are set. What was sent upstream and which branches were sent a
  CANCEL is recorded. The reply lock makes each handler atomic up to \<open>UNLOCK_REPLIES\<close>; the
  sending of CANCELs comes after it, so a handler returns the bitmaps of the branches it has
  still to cancel. Whether an allocation succeeds is a parameter (\<open>mem\<close>), and so is what the
  failure callbacks and the failure route do (\<open>handler\<close>).
\<close>

subsection \<open>Data\<close>

datatype rps = RPS_ERROR | RPS_PUSHED_AFTER_COMPLETION | RPS_DISCARDED | RPS_STORE | RPS_COMPLETED | RPS_PROVISIONAL

record sip_reply =
  REPLY_STATUS :: int
  to_tag :: "string option"

text \<open>A message or the mark of a reply made up by the server.\<close>

datatype reply_msg = FAKED_REPLY | Received sip_reply

datatype cancel_buffer = No_Buffer | BUSY_BUFFER | Cancel_Sent

record ua_client =
  req_buffer :: bool
  uac_udp :: bool
  uac_fr :: bool
  uac_retr :: bool
  local_cancel :: cancel_buffer
  uac_reply :: "reply_msg option"
  last_received :: int

record totag_elem =
  tag :: string
  acked :: bool

record cell =
  is_invite :: bool
  is_local :: bool
  is_cancel :: bool
  noisy_flag :: bool
  uac :: "ua_client list"
  uas_status :: int
  uas_udp :: bool
  uas_fr :: bool
  uas_retr :: bool
  uas_buffer :: "(int \<times> int) option"
  relaied_reply_branch :: int
  fwded_totags :: "totag_elem list"
  on_negative :: nat
  on_failure_cb :: bool
  on_failure_ro_cb :: bool
  response_out_cb :: bool
  wait_tl :: bool
  sent_up :: "(int \<times> int) list"
  cancelled :: "nat list"

text \<open>Parameters of the module and the outcome of the allocations.\<close>

record tm_cfg =
  cancel_retransmission_flag :: bool
  restart_fr_on_each_reply :: bool
  noisy_ctimer :: bool

record mem =
  clone_ok :: bool
  tag_ok :: bool
  build_ok :: bool
  resize_ok :: bool
  err_build_ok :: bool
  err_resize_ok :: bool
  junk :: u32

abbreviation (input) MAX_BRANCHES :: nat where "MAX_BRANCHES \<equiv> 30"

definition nr_of_outgoings :: "cell \<Rightarrow> nat" where
  "nr_of_outgoings t = length (uac t)"

definition set_uac :: "nat \<Rightarrow> (ua_client \<Rightarrow> ua_client) \<Rightarrow> cell \<Rightarrow> cell" where
  "set_uac b f t = t\<lparr>uac := (uac t)[b := f (uac t ! b)]\<rparr>"

definition set_last :: "nat \<Rightarrow> int \<Rightarrow> cell \<Rightarrow> cell" where
  "set_last b code = set_uac b (\<lambda>u. u\<lparr>last_received := code\<rparr>)"

subsection \<open>Timers\<close>

definition put_on_wait :: "cell \<Rightarrow> cell" where
  "put_on_wait t = t\<lparr>wait_tl := True\<rparr>"

definition start_retr_uas :: "bool \<Rightarrow> cell \<Rightarrow> cell" where
  "start_retr_uas retr t = t\<lparr>uas_retr := uas_retr t \<or> retr, uas_fr := True\<rparr>"

definition start_retr :: "ua_client \<Rightarrow> ua_client" where
  "start_retr u = u\<lparr>uac_retr := uac_retr u \<or> uac_udp u, uac_fr := True\<rparr>"

definition set_final_timer :: "cell \<Rightarrow> cell" where
  "set_final_timer t =
     (if \<not> is_local t \<and> is_invite t \<and> uas_status t \<ge> 300 then start_retr_uas (uas_udp t) t
      else if \<not> is_local t \<and> is_invite t \<and> relaied_reply_branch t = -2 \<and> uas_status t \<ge> 200 then start_retr_uas True t
      else put_on_wait t)"

definition reset_timers :: "ua_client \<Rightarrow> ua_client" where
  "reset_timers u = u\<lparr>uac_retr := False, uac_fr := False\<rparr>"

definition cleanup_uac_timers :: "cell \<Rightarrow> cell" where
  "cleanup_uac_timers t = t\<lparr>uac := map reset_timers (uac t)\<rparr>"

definition t_release_transaction :: "cell \<Rightarrow> cell" where
  "t_release_transaction t = put_on_wait (cleanup_uac_timers (t\<lparr>uas_fr := False, uas_retr := False\<rparr>))"

subsection \<open>Cancelling branches\<close>

definition should_cancel_branch :: "tm_cfg \<Rightarrow> ua_client \<Rightarrow> bool" where
  "should_cancel_branch c u \<longleftrightarrow>
     (cancel_retransmission_flag c \<or> last_received u \<ge> 100) \<and> last_received u < 200 \<and> local_cancel u = No_Buffer"

definition mark_cancel :: "tm_cfg \<Rightarrow> ua_client \<Rightarrow> ua_client" where
  "mark_cancel c u = (if should_cancel_branch c u then u\<lparr>local_cancel := BUSY_BUFFER\<rparr> else u)"

fun which_loop :: "tm_cfg \<Rightarrow> ua_client list \<Rightarrow> nat \<Rightarrow> u32 \<Rightarrow> u32" where
  "which_loop c [] i bm = bm"
| "which_loop c (u # us) i bm = which_loop c us (Suc i) (if should_cancel_branch c u then bm OR push_bit i 1 else bm)"

definition which_cancel :: "tm_cfg \<Rightarrow> cell \<Rightarrow> u32 \<Rightarrow> u32 \<times> cell" where
  "which_cancel c t bm = (which_loop c (uac t) 0 bm, t\<lparr>uac := map (mark_cancel c) (uac t)\<rparr>)"

definition cancel_branch :: "nat \<Rightarrow> cell \<Rightarrow> cell" where
  "cancel_branch b t =
     (if last_received (uac t ! b) < 100 then t
      else (set_uac b (\<lambda>u. u\<lparr>local_cancel := Cancel_Sent\<rparr>) t)\<lparr>cancelled := cancelled t @ [b]\<rparr>)"

fun cancel_loop :: "nat \<Rightarrow> nat \<Rightarrow> u32 \<Rightarrow> cell \<Rightarrow> cell" where
  "cancel_loop 0 i bm t = t"
| "cancel_loop (Suc n) i bm t = cancel_loop n (Suc i) bm (if bm AND push_bit i 1 \<noteq> 0 then cancel_branch i t else t)"

definition cancel_uacs :: "u32 \<Rightarrow> cell \<Rightarrow> cell" where
  "cancel_uacs bm t = cancel_loop (nr_of_outgoings t) 0 bm t"

subsection \<open>Replies made by the server\<close>

text \<open>
  \<open>_reply_light\<close>; \<open>bok\<close> is whether the text could be built (\<open>buf\<close>), \<open>rok\<close> whether the block for
  it could be resized, \<open>jk\<close> the value of \<open>cancel_bitmap\<close>, which is not initialised when there is
  no text.
\<close>

definition reply_error :: "u32 \<Rightarrow> cell \<Rightarrow> int \<times> cell" where
  "reply_error bm t =
     (let t = cleanup_uac_timers t; t = (if is_invite t then cancel_uacs bm t else t)
      in (-1, put_on_wait t))"

definition reply_light :: "tm_cfg \<Rightarrow> bool \<Rightarrow> bool \<Rightarrow> u32 \<Rightarrow> int \<Rightarrow> cell \<Rightarrow> int \<times> cell" where
  "reply_light c bok rok jk code t =
     (let (bm, t) = (if is_invite t then which_cancel c t (if bok then 0 else jk) else (0, t))
      in if \<not> bok then reply_error bm t
         else if uas_status t \<ge> 200 then reply_error bm t
         else if \<not> rok then reply_error bm (t\<lparr>uas_status := code, uas_buffer := None\<rparr>)
         else
           let t = t\<lparr>uas_status := code, uas_buffer := Some (code, -2), relaied_reply_branch := -2\<rparr>;
               t = (if code \<ge> 200 then
                      let t = (if is_cancel t \<and> cancel_retransmission_flag c then t else cleanup_uac_timers t);
                          t = (if is_invite t then cancel_uacs bm t else t)
                      in set_final_timer t
                    else t)
           in (1, t\<lparr>sent_up := sent_up t @ [(code, -2)]\<rparr>))"

subsection \<open>Forwarding: add_uac and t_forward_nonack\<close>

text \<open>
  A branch to add: whether resolving, the socket and printing succeed, and whether its
  transport is UDP. The result of \<open>t_forward_nonack\<close> does not depend on the number of
  branches that could be sent unless there is none; \<open>send_ok\<close> is whether sending succeeds.
\<close>

record branch_spec =
  add_ok :: bool
  over_udp :: bool
  send_ok :: bool

definition new_uac :: "branch_spec \<Rightarrow> ua_client" where
  "new_uac s = \<lparr>req_buffer = True, uac_udp = over_udp s, uac_fr = False, uac_retr = False, local_cancel = No_Buffer,
     uac_reply = None, last_received = 0\<rparr>"

definition add_uac :: "branch_spec \<Rightarrow> cell \<Rightarrow> cell" where
  "add_uac s t = (if nr_of_outgoings t = MAX_BRANCHES \<or> \<not> add_ok s then t else t\<lparr>uac := uac t @ [new_uac s]\<rparr>)"

definition t_forward_nonack :: "branch_spec list \<Rightarrow> cell \<Rightarrow> cell" where
  "t_forward_nonack ss t =
     (let n = nr_of_outgoings t; t = fold add_uac ss t
      in t\<lparr>uac := take n (uac t) @ map start_retr (drop n (uac t))\<rparr>)"

subsection \<open>Failure handlers\<close>

datatype fop = F_Reply int bool bool u32 | F_Forward "branch_spec list" | F_On_Negative nat

record handler =
  fake_ok :: bool
  cb_ops :: "fop list"
  route_ops :: "fop list"

definition run_fop :: "tm_cfg \<Rightarrow> fop \<Rightarrow> cell \<Rightarrow> cell" where
  "run_fop c f t =
     (case f of
        F_Reply code bok rok jk \<Rightarrow> snd (reply_light c bok rok jk code t)
      | F_Forward ss \<Rightarrow> t_forward_nonack ss t
      | F_On_Negative n \<Rightarrow> t\<lparr>on_negative := n\<rparr>)"

definition run_failure_handlers :: "tm_cfg \<Rightarrow> handler \<Rightarrow> cell \<Rightarrow> cell" where
  "run_failure_handlers c h t =
     (if is_local t then t
      else if \<not> on_failure_cb t \<and> on_negative t = 0 then t
      else if \<not> fake_ok h then t
      else
        let t = (if on_failure_cb t then fold (run_fop c) (cb_ops h) t else t)
        in if on_negative t \<noteq> 0 then fold (run_fop c) (route_ops h) (t\<lparr>on_negative := 0\<rparr>) else t)"

subsection \<open>What becomes of a reply\<close>

text \<open>\<open>t_pick_branch\<close>: the branch and the code; -2 if a branch is unfinished.\<close>

fun pick_loop :: "nat \<Rightarrow> int \<Rightarrow> ua_client list \<Rightarrow> nat \<Rightarrow> int \<Rightarrow> int \<Rightarrow> int \<times> int" where
  "pick_loop inc code [] b lowest_b lowest_s = (lowest_b, lowest_s)"
| "pick_loop inc code (u # us) b lowest_b lowest_s =
     (if b = inc then
        (if code < lowest_s then pick_loop inc code us (Suc b) (int b) code
         else pick_loop inc code us (Suc b) lowest_b lowest_s)
      else if \<not> req_buffer u then pick_loop inc code us (Suc b) lowest_b lowest_s
      else if last_received u < 200 then (-2, lowest_s)
      else if last_received u < lowest_s then pick_loop inc code us (Suc b) (int b) (last_received u)
      else pick_loop inc code us (Suc b) lowest_b lowest_s)"

definition t_pick_branch :: "nat \<Rightarrow> int \<Rightarrow> cell \<Rightarrow> int \<times> int" where
  "t_pick_branch inc code t = pick_loop inc code (uac t) 0 (-1) 999"

definition inv_through :: "cell \<Rightarrow> int \<Rightarrow> bool" where
  "inv_through t code \<longleftrightarrow> code \<ge> 200 \<and> code \<le> 302 \<and> is_invite t"

record verdict =
  v_status :: rps
  should_store :: bool
  should_relay :: int

definition discard :: verdict where
  "discard = \<lparr>v_status = RPS_DISCARDED, should_store = False, should_relay = -1\<rparr>"

definition t_should_relay_response ::
  "tm_cfg \<Rightarrow> handler \<Rightarrow> cell \<Rightarrow> int \<Rightarrow> nat \<Rightarrow> u32 \<Rightarrow> verdict \<times> u32 \<times> cell" where
  "t_should_relay_response c h t code b bm =
     (if uas_status t \<ge> 200 then
        (if inv_through t code
         then (\<lparr>v_status = RPS_PUSHED_AFTER_COMPLETION, should_store = False, should_relay = int b\<rparr>, bm, set_last b code t)
         else (discard, bm, t))
      else if last_received (uac t ! b) \<ge> 200 \<and> \<not> (inv_through t code \<and> last_received (uac t ! b) \<le> 302)
      then (discard, bm, t)
      else if code > 302 then
        let t = set_last b code t; (picked_branch, picked_code) = t_pick_branch b code t
        in if picked_branch = -2
           then (\<lparr>v_status = RPS_STORE, should_store = True, should_relay = -1\<rparr>, bm, t)
           else if picked_branch = -1 then (discard, bm, t)
           else
             let branch_cnt = nr_of_outgoings t;
                 t = (if on_failure_cb t \<or> on_failure_ro_cb t \<or> on_negative t \<noteq> 0 then run_failure_handlers c h t else t)
             in if uas_status t \<ge> 200
                then (\<lparr>v_status = RPS_COMPLETED, should_store = False, should_relay = -1\<rparr>, bm, t)
                else if branch_cnt < nr_of_outgoings t
                then (\<lparr>v_status = RPS_STORE, should_store = True, should_relay = -1\<rparr>, bm, t)
                else (\<lparr>v_status = RPS_COMPLETED, should_store = False, should_relay = picked_branch\<rparr>, bm, t)
      else if code \<ge> 100 then
        let t = set_last b code t; relay = (if code = 100 then -1 else int b)
        in if code \<ge> 200 then
             (case which_cancel c t bm of (bm, t) \<Rightarrow>
                (\<lparr>v_status = RPS_COMPLETED, should_store = False, should_relay = relay\<rparr>, bm, t))
           else (\<lparr>v_status = RPS_PROVISIONAL, should_store = False, should_relay = relay\<rparr>, bm, t)
      else (discard, bm, t))"

subsection \<open>Relaying upstream\<close>

definition store_reply :: "bool \<Rightarrow> nat \<Rightarrow> reply_msg \<Rightarrow> cell \<Rightarrow> bool \<times> cell" where
  "store_reply ok b p t =
     (let r = (if p = FAKED_REPLY \<or> ok then Some p else None)
      in (r \<noteq> None, set_uac b (\<lambda>u. u\<lparr>uac_reply := r\<rparr>) t))"

definition update_totag_set :: "bool \<Rightarrow> reply_msg \<Rightarrow> cell \<Rightarrow> cell" where
  "update_totag_set ok p t =
     (case p of
        FAKED_REPLY \<Rightarrow> t
      | Received r \<Rightarrow>
          (case to_tag r of
             None \<Rightarrow> t
           | Some x \<Rightarrow>
               if list_ex (\<lambda>e. tag e = x) (fwded_totags t) \<or> \<not> ok then t
               else t\<lparr>fwded_totags := \<lparr>tag = x, acked = False\<rparr> # fwded_totags t\<rparr>))"

text \<open>Whether an ACK is the first for its tag, so that callbacks run; the element is then marked.\<close>

fun mark_acked :: "string \<Rightarrow> totag_elem list \<Rightarrow> bool \<times> totag_elem list" where
  "mark_acked x [] = (True, [])"
| "mark_acked x (e # es) =
     (if tag e = x then (\<not> acked e, e\<lparr>acked := True\<rparr> # es)
      else case mark_acked x es of (r, es) \<Rightarrow> (r, e # es))"

definition unmatched_totag :: "string option \<Rightarrow> cell \<Rightarrow> bool \<times> cell" where
  "unmatched_totag ack t =
     (case ack of
        None \<Rightarrow> (True, t)
      | Some x \<Rightarrow> (case mark_acked x (fwded_totags t) of (r, es) \<Rightarrow> (r, t\<lparr>fwded_totags := es\<rparr>)))"

definition relayed_code :: "cell \<Rightarrow> nat \<Rightarrow> int \<Rightarrow> nat \<Rightarrow> reply_msg \<Rightarrow> int" where
  "relayed_code t b code relay p =
     (case p of
        FAKED_REPLY \<Rightarrow> if relay = b then code else last_received (uac t ! relay)
      | Received r \<Rightarrow> REPLY_STATUS r)"

definition is_2xx :: "cell \<Rightarrow> reply_msg \<Rightarrow> int \<Rightarrow> bool" where
  "is_2xx t p code \<longleftrightarrow> is_invite t \<and> p \<noteq> FAKED_REPLY \<and> 200 \<le> code \<and> code < 300 \<and> response_out_cb t"

definition relay_failed :: "tm_cfg \<Rightarrow> mem \<Rightarrow> u32 \<Rightarrow> cell \<Rightarrow> rps \<times> u32 \<times> cell" where
  "relay_failed c m bm t = (RPS_ERROR, bm, snd (reply_light c (err_build_ok m) (err_resize_ok m) (junk m) 500 t))"

definition final_if_completed :: "rps \<Rightarrow> cell \<Rightarrow> cell" where
  "final_if_completed st t = (if st = RPS_COMPLETED then set_final_timer t else t)"

text \<open>\<open>None\<close> is the use of a null pointer as the stored reply of the branch picked.\<close>

definition relay_reply ::
  "tm_cfg \<Rightarrow> handler \<Rightarrow> mem \<Rightarrow> cell \<Rightarrow> reply_msg \<Rightarrow> nat \<Rightarrow> int \<Rightarrow> u32 \<Rightarrow> (rps \<times> u32 \<times> cell) option" where
  "relay_reply c h m t p b code bm =
     (let (v, bm, t) = t_should_relay_response c h t code b bm;
          (stored, t) = (if should_store v then store_reply (clone_ok m) b p t else (True, t))
      in if \<not> stored then Some (relay_failed c m bm t)
         else if should_relay v < 0 then Some (v_status v, bm, final_if_completed (v_status v) t)
         else
           let relay = nat (should_relay v)
           in case (if relay = b then Some p else uac_reply (uac t ! relay)) of
                None \<Rightarrow> None
              | Some q \<Rightarrow>
                  (let rc = relayed_code t b code relay q
                   in if \<not> build_ok m then Some (relay_failed c m bm t)
                      else if \<not> resize_ok m then Some (relay_failed c m bm (t\<lparr>uas_buffer := None\<rparr>))
                      else
                        let t = t\<lparr>uas_buffer := Some (rc, int relay), uas_status := rc, relaied_reply_branch := int relay\<rparr>;
                            t = (if is_2xx t q rc then update_totag_set (tag_ok m) q t else t);
                            t = final_if_completed (v_status v) t
                        in Some (v_status v, bm, t\<lparr>sent_up := sent_up t @ [(rc, int relay)]\<rparr>)))"

text \<open>A transaction of the server itself: nothing is sent, the winning code is kept.\<close>

definition local_failed :: "tm_cfg \<Rightarrow> u32 \<Rightarrow> cell \<Rightarrow> rps \<times> u32 \<times> cell" where
  "local_failed c bm t = (case which_cancel c t bm of (bm, t) \<Rightarrow> (RPS_ERROR, bm, put_on_wait (cleanup_uac_timers t)))"

definition local_reply ::
  "tm_cfg \<Rightarrow> handler \<Rightarrow> mem \<Rightarrow> cell \<Rightarrow> reply_msg \<Rightarrow> nat \<Rightarrow> int \<Rightarrow> (rps \<times> u32 \<times> cell) option" where
  "local_reply c h m t p b code =
     (let (v, bm, t) = t_should_relay_response c h t code b 0;
          (stored, t) = (if should_store v then store_reply (clone_ok m) b p t else (True, t))
      in if \<not> stored then Some (local_failed c bm t)
         else if should_relay v < 0 then Some (v_status v, bm, t)
         else
           let winner = nat (should_relay v)
           in case (if winner = b then Some p else uac_reply (uac t ! winner)) of
                None \<Rightarrow> None
              | Some q \<Rightarrow>
                  (let wc = relayed_code t b code winner q; t = t\<lparr>uas_status := wc\<rparr>;
                       t = (if is_2xx t q wc then update_totag_set (tag_ok m) q t else t)
                   in Some (v_status v, bm, t)))"

subsection \<open>The handlers\<close>

definition stop_timers :: "int \<Rightarrow> ua_client \<Rightarrow> ua_client" where
  "stop_timers code u = u\<lparr>uac_retr := False, uac_fr := uac_fr u \<and> code < 200\<rparr>"

definition restart_timers :: "cell \<Rightarrow> ua_client \<Rightarrow> ua_client" where
  "restart_timers t u = (if is_invite t then u\<lparr>uac_fr := True\<rparr> else u\<lparr>uac_retr := True\<rparr>)"

definition reply_received ::
  "tm_cfg \<Rightarrow> handler \<Rightarrow> mem \<Rightarrow> nat \<Rightarrow> sip_reply \<Rightarrow> cell \<Rightarrow> (u32 list \<times> cell) option" where
  "reply_received c h m b r t =
     (let code = REPLY_STATUS r; last = last_received (uac t ! b); t = set_uac b (stop_timers code) t
      in case (if is_local t then local_reply c h m t (Received r) b code
               else relay_reply c h m t (Received r) b code 0) of
           None \<Rightarrow> None
         | Some (st, bm, t) \<Rightarrow>
             if st = RPS_ERROR then Some (if is_invite t then [bm] else [], t)
             else
               let t = (if st = RPS_COMPLETED then cleanup_uac_timers t else t);
                   t = (if st = RPS_COMPLETED \<and> is_local t then put_on_wait t else t);
                   t = (if code < 200 \<and> (last = 0 \<or> restart_fr_on_each_reply c) then set_uac b (restart_timers t) t else t)
               in Some (if st = RPS_COMPLETED \<and> is_invite t then [bm] else [], t))"

definition fake_reply :: "tm_cfg \<Rightarrow> handler \<Rightarrow> mem \<Rightarrow> nat \<Rightarrow> int \<Rightarrow> cell \<Rightarrow> (u32 list \<times> cell) option" where
  "fake_reply c h m b code t =
     (let do_cancel = is_invite t \<and> should_cancel_branch c (uac t ! b);
          t = (if is_invite t then set_uac b (mark_cancel c) t else t);
          mine = (if do_cancel then push_bit b 1 else 0)
      in case (if is_local t then local_reply c h m t FAKED_REPLY b code
               else relay_reply c h m t FAKED_REPLY b code mine) of
           None \<Rightarrow> None
         | Some (st, bm, t) \<Rightarrow>
             let t = (if st = RPS_COMPLETED \<and> is_local t then put_on_wait t else t)
             in Some ((if st = RPS_ERROR \<and> is_invite t then [bm] else []) @ (if do_cancel then [mine] else []), t))"

text \<open>The request timer of a branch fires; a retransmission on a branch fails.\<close>

definition silent :: "tm_cfg \<Rightarrow> nat \<Rightarrow> cell \<Rightarrow> bool" where
  "silent c b t \<longleftrightarrow>
     \<not> is_local t \<and> is_invite t \<and> nr_of_outgoings t = 1 \<and> on_negative t = 0 \<and> \<not> on_failure_cb t \<and> \<not> on_failure_ro_cb t \<and>
     last_received (uac t ! b) > 0 \<and> \<not> noisy_ctimer c \<and> noisy_flag t"

definition final_response_handler :: "tm_cfg \<Rightarrow> handler \<Rightarrow> mem \<Rightarrow> nat \<Rightarrow> cell \<Rightarrow> (u32 list \<times> cell) option" where
  "final_response_handler c h m b t =
     (let t = set_uac b reset_timers t
      in if silent c b t then Some ([], put_on_wait t) else fake_reply c h m b 408 t)"

definition retransmission_failed :: "tm_cfg \<Rightarrow> handler \<Rightarrow> mem \<Rightarrow> nat \<Rightarrow> cell \<Rightarrow> (u32 list \<times> cell) option" where
  "retransmission_failed c h m b t = fake_reply c h m b 503 (set_uac b reset_timers t)"

definition response_timer :: "cell \<Rightarrow> cell" where
  "response_timer t = put_on_wait (t\<lparr>uas_fr := False, uas_retr := False\<rparr>)"

text \<open>
  A CANCEL from upstream. \<open>pok\<close> is whether the CANCEL for a branch could be printed; a branch
  without any reply is answered 487 by the server. The bitmap given to \<open>relay_reply\<close> is not
  initialised.
\<close>

fun e2e_loop :: "tm_cfg \<Rightarrow> (nat \<Rightarrow> handler) \<Rightarrow> (nat \<Rightarrow> mem) \<Rightarrow> (nat \<Rightarrow> bool) \<Rightarrow> u32 \<Rightarrow> nat list \<Rightarrow> cell \<Rightarrow>
    (u32 list \<times> cell) option" where
  "e2e_loop c hs ms pok bm [] t = Some ([], t)"
| "e2e_loop c hs ms pok bm (i # is) t =
     (if bm AND push_bit i 1 \<noteq> 0 \<and> pok i then e2e_loop c hs ms pok bm is (t\<lparr>cancelled := cancelled t @ [i]\<rparr>)
      else if last_received (uac t ! i) < 100 then
        (case relay_reply c (hs i) (ms i) (set_uac i reset_timers t) FAKED_REPLY i 487 (junk (ms i)) of
           None \<Rightarrow> None
         | Some (st, jk, t) \<Rightarrow>
             (case e2e_loop c hs ms pok bm is t of
                None \<Rightarrow> None
              | Some (bs, t) \<Rightarrow> Some ((if st = RPS_ERROR \<and> is_invite t then [jk] else []) @ bs, t)))
      else e2e_loop c hs ms pok bm is t)"

definition e2e_cancel ::
  "tm_cfg \<Rightarrow> (nat \<Rightarrow> handler) \<Rightarrow> (nat \<Rightarrow> mem) \<Rightarrow> (nat \<Rightarrow> bool) \<Rightarrow> cell \<Rightarrow> (u32 list \<times> cell) option" where
  "e2e_cancel c hs ms pok t =
     (case which_cancel c (t\<lparr>on_negative := 0\<rparr>) 0 of
        (bm, t) \<Rightarrow> e2e_loop c hs ms pok bm [0..<nr_of_outgoings t] t)"

subsection \<open>Histories of a transaction\<close>

datatype event =
    Reply nat sip_reply handler mem
  | Fr_Hit nat handler mem
  | Retr_Failed nat handler mem
  | Response_Hit
  | T_Reply int bool bool u32
  | Release
  | Invite_Cancelled "nat \<Rightarrow> handler" "nat \<Rightarrow> mem" "nat \<Rightarrow> bool"

fun enabled :: "event \<Rightarrow> cell \<Rightarrow> bool" where
  "enabled (Reply b r h m) t \<longleftrightarrow> b < nr_of_outgoings t"
| "enabled (Fr_Hit b h m) t \<longleftrightarrow> b < nr_of_outgoings t \<and> uac_fr (uac t ! b)"
| "enabled (Retr_Failed b h m) t \<longleftrightarrow> b < nr_of_outgoings t \<and> uac_retr (uac t ! b)"
| "enabled Response_Hit t \<longleftrightarrow> uas_fr t"
| "enabled (T_Reply code bok rok jk) t \<longleftrightarrow> \<not> is_local t"
| "enabled Release t \<longleftrightarrow> True"
| "enabled (Invite_Cancelled hs ms pok) t \<longleftrightarrow> is_invite t \<and> \<not> is_local t"

fun handle :: "tm_cfg \<Rightarrow> event \<Rightarrow> cell \<Rightarrow> (u32 list \<times> cell) option" where
  "handle c (Reply b r h m) t = reply_received c h m b r t"
| "handle c (Fr_Hit b h m) t = final_response_handler c h m b t"
| "handle c (Retr_Failed b h m) t = retransmission_failed c h m b t"
| "handle c Response_Hit t = Some ([], response_timer t)"
| "handle c (T_Reply code bok rok jk) t = Some ([], snd (reply_light c bok rok jk code t))"
| "handle c Release t = Some ([], t_release_transaction t)"
| "handle c (Invite_Cancelled hs ms pok) t = e2e_cancel c hs ms pok t"

text \<open>A process that has left the lock sends its CANCELs at any later time.\<close>

inductive step :: "tm_cfg \<Rightarrow> (event \<Rightarrow> bool) \<Rightarrow> cell \<times> u32 list \<Rightarrow> cell \<times> u32 list \<Rightarrow> bool" for c ok where
  handled: "enabled ev t \<Longrightarrow> ok ev \<Longrightarrow> handle c ev t = Some (bs, t') \<Longrightarrow> step c ok (t, ps) (t', ps @ bs)"
| cancels: "step c ok (t, ps @ bm # qs) (cancel_uacs bm t, ps @ qs)"

inductive_cases stepE: "step c ok (t, ps) s'"

inductive reach :: "tm_cfg \<Rightarrow> (event \<Rightarrow> bool) \<Rightarrow> cell \<Rightarrow> cell \<times> u32 list \<Rightarrow> bool" for c ok t0 where
  start: "reach c ok t0 (t0, [])"
| more: "reach c ok t0 s \<Longrightarrow> step c ok s s' \<Longrightarrow> reach c ok t0 s'"

text \<open>A new transaction after \<open>t_forward_nonack\<close>.\<close>

definition new_cell :: "bool \<Rightarrow> bool \<Rightarrow> bool \<Rightarrow> cell" where
  "new_cell invite loc udp =
     \<lparr>is_invite = invite, is_local = loc, is_cancel = False, noisy_flag = False, uac = [], uas_status = 0, uas_udp = udp,
      uas_fr = False, uas_retr = False, uas_buffer = None, relaied_reply_branch = -1, fwded_totags = [], on_negative = 0,
      on_failure_cb = False, on_failure_ro_cb = False, response_out_cb = False, wait_tl = False, sent_up = [], cancelled = []\<rparr>"

definition forwarded :: "cell \<Rightarrow> bool" where
  "forwarded t \<longleftrightarrow>
     (\<exists>t0 ss. uac t0 = [] \<and> uas_status t0 < 200 \<and> sent_up t0 = [] \<and> cancelled t0 = [] \<and> t = t_forward_nonack ss t0 \<and> uac t \<noteq> [])"

end
