(* ===== verification/Tm_History.thy ===== *)
theory Tm_History
  imports Tm_Reply
begin

section \<open>Histories of a transaction\<close>

text \<open>
  What holds in every state that a transaction reaches by replies, timers, CANCELs and replies
  of the script, whatever the failure handlers do: the best reply is relayed, only one final
  reply is sent but for successes of an INVITE, no success is lost, no null pointer is used,
  a timer is always left running, and no branch is sent two CANCELs. The operations of the
  server itself are summed up by \<open>passes\<close>, the cases of a received reply by \<open>verdict_cases\<close>.
\<close>

subsection \<open>What operations of the server keep\<close>

definition same_core :: "ua_client \<Rightarrow> ua_client \<Rightarrow> bool" where
  "same_core u u' \<longleftrightarrow> last_received u' = last_received u \<and> uac_reply u' = uac_reply u \<and> req_buffer u' = req_buffer u"

text \<open>No client side is touched but for its timers and its mark for cancelling; branches may be added.\<close>

definition keeps :: "cell \<Rightarrow> cell \<Rightarrow> bool" where
  "keeps t t' \<longleftrightarrow>
     length (uac t) \<le> length (uac t') \<and> (\<forall>i<length (uac t). same_core (uac t ! i) (uac t' ! i)) \<and>
     (\<forall>i. length (uac t) \<le> i \<and> i < length (uac t') \<longrightarrow> last_received (uac t' ! i) = 0) \<and>
     (length (uac t) \<le> 30 \<longrightarrow> length (uac t') \<le> 30) \<and> is_invite t' = is_invite t \<and> is_local t' = is_local t"

text \<open>Once a final reply was sent nothing else is sent by these operations.\<close>

definition sent_ok :: "bool \<Rightarrow> (int \<times> int) list \<Rightarrow> bool" where
  "sent_ok invite xs \<longleftrightarrow>
     (case dropWhile (\<lambda>x. fst x < 200) xs of
        [] \<Rightarrow> True
      | first # rest \<Rightarrow> \<forall>x\<in>set rest. invite \<and> 200 \<le> fst x \<and> fst x \<le> 302)"

definition sent_inv :: "cell \<Rightarrow> bool" where
  "sent_inv t \<longleftrightarrow> (uas_status t < 200 \<longrightarrow> (\<forall>x\<in>set (sent_up t). fst x < 200)) \<and> sent_ok (is_invite t) (sent_up t)"

definition ended :: "cell \<Rightarrow> bool" where
  "ended t \<longleftrightarrow> wait_tl t \<or> uas_fr t"

definition armed :: "cell \<Rightarrow> bool" where
  "armed t \<longleftrightarrow> ended t \<or> uas_status t < 200 \<and> (\<forall>u\<in>set (uac t). last_received u < 200 \<longrightarrow> uac_fr u)"

definition passes :: "cell \<Rightarrow> cell \<Rightarrow> bool" where
  "passes t t' \<longleftrightarrow>
     keeps t t' \<and> (uas_status t \<ge> 200 \<longrightarrow> uas_status t' = uas_status t) \<and> (armed t \<longrightarrow> armed t') \<and> (ended t \<longrightarrow> ended t') \<and>
     (sent_inv t \<longrightarrow> sent_inv t')"

lemma same_core_refl [simp]: "same_core u u"
  by (simp add: same_core_def)

lemma same_core_updates [simp]:
  "same_core u (reset_timers u)" "same_core u (mark_cancel c u)" "same_core u (start_retr u)"
  "same_core u (stop_timers n u)" "same_core u (restart_timers t u)" "same_core u (u\<lparr>local_cancel := x\<rparr>)"
  by (simp_all add: same_core_def reset_timers_def mark_cancel_def start_retr_def stop_timers_def restart_timers_def)

lemma kept_refl [simp]: "keeps t t"
  by (simp add: keeps_def)

lemma kept_trans:
  assumes "keeps t t'" "keeps t' t''"
  shows "keeps t t''"
proof -
  have "last_received (uac t'' ! i) = 0" if "length (uac t) \<le> i" "i < length (uac t'')" for i
    using assms that by (cases "i < length (uac t')") (simp_all add: keeps_def same_core_def)
  then show ?thesis using assms by (simp add: keeps_def same_core_def)
qed

lemma keeps_uac:
  assumes "length (uac t') = length (uac t)" "\<And>i. i < length (uac t) \<Longrightarrow> same_core (uac t ! i) (uac t' ! i)"
    and "is_invite t' = is_invite t" "is_local t' = is_local t"
  shows "keeps t t'"
  using assms by (simp add: keeps_def)

lemma passes_refl [simp]: "passes t t"
  by (simp add: passes_def)

lemma passes_trans: "passes t t' \<Longrightarrow> passes t' t'' \<Longrightarrow> passes t t''"
  unfolding passes_def by (auto intro: kept_trans)

lemma passes_fold:
  assumes "\<And>x t. x \<in> set xs \<Longrightarrow> passes t (f x t)"
  shows "passes t (fold f xs t)"
  using assms by (induction xs arbitrary: t) (auto intro: passes_trans)

lemma length_set_uac [simp]: "length (uac (set_uac b f t)) = length (uac t)"
  by (simp add: set_uac_def)

lemma set_uac_nth: "i < length (uac t) \<Longrightarrow> uac (set_uac b f t) ! i = (if i = b then f (uac t ! i) else uac t ! i)"
  by (auto simp: set_uac_def nth_list_update)

lemma set_uac_fields [simp]:
  "is_invite (set_uac b f t) = is_invite t" "is_local (set_uac b f t) = is_local t" "uas_status (set_uac b f t) = uas_status t"
  "wait_tl (set_uac b f t) = wait_tl t" "uas_fr (set_uac b f t) = uas_fr t" "sent_up (set_uac b f t) = sent_up t"
  "cancelled (set_uac b f t) = cancelled t" "on_negative (set_uac b f t) = on_negative t"
  "on_failure_cb (set_uac b f t) = on_failure_cb t" "on_failure_ro_cb (set_uac b f t) = on_failure_ro_cb t"
  by (simp_all add: set_uac_def)

lemma set_uac_same:
  assumes "\<And>u. same_core u (f u)" shows "keeps t (set_uac b f t)"
  using assms by (intro keeps_uac) (auto simp: set_uac_nth)

text \<open>Changes that leave the status, what was sent and, where a timer is needed, the timers.\<close>

lemma passes_uac:
  assumes "keeps t t'" "uas_status t' = uas_status t" "wait_tl t \<longrightarrow> wait_tl t'" "uas_fr t \<longrightarrow> uas_fr t'" "sent_up t' = sent_up t"
    and "ended t' \<or> (\<forall>i<length (uac t'). last_received (uac t' ! i) < 200 \<longrightarrow>
      uac_fr (uac t' ! i) \<or> i < length (uac t) \<and> \<not> uac_fr (uac t ! i) \<and> last_received (uac t ! i) < 200)"
  shows "passes t t'"
proof -
  have "armed t'" if "armed t"
  proof (cases "ended t'")
    case False
    then have "\<not> ended t" using assms(3,4) by (auto simp: ended_def)
    with that have "uas_status t < 200" "\<forall>u\<in>set (uac t). last_received u < 200 \<longrightarrow> uac_fr u"
      by (simp_all add: armed_def)
    moreover have "uac_fr u" if "u \<in> set (uac t')" "last_received u < 200" for u
    proof -
      from that(1) obtain i where "i < length (uac t')" "u = uac t' ! i" by (auto simp: in_set_conv_nth)
      with calculation(2) assms(6) False that(2) show ?thesis using nth_mem by blast
    qed
    ultimately show ?thesis using assms(2) by (simp add: armed_def)
  qed (simp add: armed_def)
  moreover have "is_invite t' = is_invite t" using assms(1) by (simp add: keeps_def)
  ultimately show ?thesis using assms(1-5) by (auto simp: passes_def sent_inv_def ended_def)
qed

lemma ended_simps [simp]:
  "ended (put_on_wait t)" "ended (start_retr_uas r t)" "ended (set_final_timer t)"
  by (simp_all add: ended_def put_on_wait_def start_retr_uas_def set_final_timer_def)

lemma final_fields [simp]:
  "uac (set_final_timer t) = uac t" "is_invite (set_final_timer t) = is_invite t" "is_local (set_final_timer t) = is_local t"
  "uas_status (set_final_timer t) = uas_status t" "sent_up (set_final_timer t) = sent_up t"
  "cancelled (set_final_timer t) = cancelled t" "uac (put_on_wait t) = uac t" "is_invite (put_on_wait t) = is_invite t"
  "is_local (put_on_wait t) = is_local t" "uas_status (put_on_wait t) = uas_status t" "sent_up (put_on_wait t) = sent_up t"
  "cancelled (put_on_wait t) = cancelled t" "wait_tl (put_on_wait t)"
  by (simp_all add: set_final_timer_def start_retr_uas_def put_on_wait_def)

lemma cleanup_fields [simp]:
  "uac (cleanup_uac_timers t) = map reset_timers (uac t)" "is_invite (cleanup_uac_timers t) = is_invite t"
  "is_local (cleanup_uac_timers t) = is_local t" "uas_status (cleanup_uac_timers t) = uas_status t"
  "sent_up (cleanup_uac_timers t) = sent_up t" "cancelled (cleanup_uac_timers t) = cancelled t"
  "wait_tl (cleanup_uac_timers t) = wait_tl t" "uas_fr (cleanup_uac_timers t) = uas_fr t"
  by (simp_all add: cleanup_uac_timers_def)

lemma which_fields:
  assumes "which_cancel c t bm = (bm', t')"
  shows "uac t' = map (mark_cancel c) (uac t)" "is_invite t' = is_invite t" "is_local t' = is_local t"
    "uas_status t' = uas_status t" "sent_up t' = sent_up t" "cancelled t' = cancelled t" "wait_tl t' = wait_tl t" "uas_fr t' = uas_fr t"
    "bm' = which_loop c (uac t) 0 bm" "t' = t\<lparr>uac := map (mark_cancel c) (uac t)\<rparr>"
  using assms by (auto simp: which_cancel_def)

lemma cancel_branch_fields [simp]:
  "is_invite (cancel_branch b t) = is_invite t" "is_local (cancel_branch b t) = is_local t"
  "uas_status (cancel_branch b t) = uas_status t" "sent_up (cancel_branch b t) = sent_up t"
  "wait_tl (cancel_branch b t) = wait_tl t" "uas_fr (cancel_branch b t) = uas_fr t" "length (uac (cancel_branch b t)) = length (uac t)"
  by (simp_all add: cancel_branch_def)

lemma cancel_branch_uac: "i < length (uac t) \<Longrightarrow>
    uac (cancel_branch b t) ! i = uac t ! i \<or> uac (cancel_branch b t) ! i = (uac t ! i)\<lparr>local_cancel := Cancel_Sent\<rparr>"
  by (auto simp: cancel_branch_def set_uac_nth)

definition quiet :: "cell \<Rightarrow> cell \<Rightarrow> bool" where
  "quiet t t' \<longleftrightarrow>
     is_invite t' = is_invite t \<and> is_local t' = is_local t \<and> uas_status t' = uas_status t \<and> sent_up t' = sent_up t \<and>
     wait_tl t' = wait_tl t \<and> uas_fr t' = uas_fr t \<and> length (uac t') = length (uac t) \<and>
     (\<forall>i<length (uac t). same_core (uac t ! i) (uac t' ! i) \<and> uac_fr (uac t' ! i) = uac_fr (uac t ! i))"

lemma quiet_trans: "quiet t t' \<Longrightarrow> quiet t' t'' \<Longrightarrow> quiet t t''"
  by (simp add: quiet_def same_core_def)

lemma cancel_branch_quiet: "quiet t (cancel_branch b t)"
proof -
  have "same_core (uac t ! i) (uac (cancel_branch b t) ! i) \<and> uac_fr (uac (cancel_branch b t) ! i) = uac_fr (uac t ! i)"
    if "i < length (uac t)" for i
    using cancel_branch_uac [OF that, of b] by (auto simp: same_core_def)
  then show ?thesis by (simp add: quiet_def)
qed

lemma cancel_loop_quiet: "quiet t (cancel_loop n i bm t)"
proof (induction n arbitrary: i t)
  case (Suc n)
  then show ?case using cancel_branch_quiet quiet_trans by simp blast
qed (simp add: quiet_def)

lemma cancel_uacs_quiet: "quiet t (cancel_uacs bm t)"
  by (simp add: cancel_uacs_def cancel_loop_quiet)

lemma which_cancel_quiet: "which_cancel c t bm = (bm', t') \<Longrightarrow> quiet t t'"
  by (clarsimp simp: which_cancel_def quiet_def) (simp add: mark_cancel_def)

lemma quiet_passes: "quiet t t' \<Longrightarrow> passes t t'"
  by (rule passes_uac) (auto simp: quiet_def same_core_def intro: keeps_uac)

lemma quiet_keeps: "quiet t t' \<Longrightarrow> keeps t t'"
  by (rule keeps_uac) (auto simp: quiet_def)

lemma sent_ok_snoc: "\<forall>x\<in>set xs. fst x < 200 \<Longrightarrow> sent_ok invite (xs @ [x])"
  by (simp add: sent_ok_def split: list.split)

lemma passes_ended:
  "keeps t t' \<Longrightarrow> ended t' \<Longrightarrow> uas_status t' = uas_status t \<Longrightarrow> sent_up t' = sent_up t \<Longrightarrow> passes t t'"
  by (simp add: passes_def armed_def sent_inv_def keeps_def)

lemma reply_error_passes:
  assumes "reply_error bm t = (r, t')"
  shows "passes t t' \<and> ended t' \<and> uas_status t' = uas_status t \<and> sent_up t' = sent_up t"
proof -
  have "quiet (cleanup_uac_timers t) (cancel_uacs bm (cleanup_uac_timers t))" by (rule cancel_uacs_quiet)
  moreover obtain t1 where t1: "t' = put_on_wait t1" "t1 = cleanup_uac_timers t \<or> t1 = cancel_uacs bm (cleanup_uac_timers t)"
    using assms by (auto simp: reply_error_def Let_def split: if_splits)
  ultimately have q: "quiet (cleanup_uac_timers t) t1" by (auto simp: quiet_def)
  have "keeps t t'"
    using q t1(1) by (intro keeps_uac) (auto simp: quiet_def same_core_def reset_timers_def)
  moreover have "ended t'" "uas_status t' = uas_status t" "sent_up t' = sent_up t" using q t1(1) by (simp_all add: quiet_def)
  ultimately show ?thesis by (simp add: passes_ended)
qed

lemma reply_light_passes:
  assumes "reply_light c bok rok jk code t = (r, t')"
  shows "passes t t'"
proof -
  obtain bm t1 where w: "(if is_invite t then which_cancel c t (if bok then 0 else jk) else (0, t)) = (bm, t1)"
    by (metis surj_pair)
  then have q: "quiet t t1" using which_cancel_quiet by (auto split: if_splits simp: quiet_def)
  show ?thesis
  proof (cases "\<not> bok \<or> uas_status t1 \<ge> 200")
    case True
    then have "reply_error bm t1 = (r, t')"
      using assms w by (auto simp: reply_light_def split: if_splits)
    then show ?thesis using reply_error_passes quiet_passes [OF q] passes_trans by blast
  next
    case pending: False
    show ?thesis
    proof (cases rok)
      case False
      let ?t = "t1\<lparr>uas_status := code, uas_buffer := None\<rparr>"
      have e: "reply_error bm ?t = (r, t')"
        using assms w pending False by (auto simp: reply_light_def split: if_splits)
      note p = reply_error_passes [OF e]
      have "keeps t ?t" using quiet_keeps [OF q] by (simp add: keeps_def)
      moreover have "sent_inv t \<longrightarrow> sent_inv t'"
        using p q pending by (auto simp: sent_inv_def quiet_def passes_def keeps_def)
      ultimately show ?thesis
        using p q pending kept_trans [of t ?t t'] by (auto simp: passes_def armed_def quiet_def)
    next
      case True
      let ?t = "t1\<lparr>uas_status := code, uas_buffer := Some (code, -2), relaied_reply_branch := -2\<rparr>"
      define clean where "clean = (if is_cancel ?t \<and> cancel_retransmission_flag c then ?t else cleanup_uac_timers ?t)"
      let ?f = "if code \<ge> 200 then set_final_timer (if is_invite clean then cancel_uacs bm clean else clean) else ?t"
      have t': "t' = ?f\<lparr>sent_up := sent_up ?f @ [(code, -2)]\<rparr>"
        using assms w pending True unfolding clean_def by (auto simp: reply_light_def Let_def split: if_splits)
      have "keeps ?t (cleanup_uac_timers ?t)" by (rule keeps_uac) auto
      then have cl: "keeps ?t clean" "uas_status clean = code" "sent_up clean = sent_up t1" by (simp_all add: clean_def)
      have f: "keeps clean ?f \<and> uas_status ?f = code \<and> sent_up ?f = sent_up t \<and> ended ?f" if c: "code \<ge> 200"
      proof -
        have "quiet clean (cancel_uacs bm clean)" by (rule cancel_uacs_quiet)
        moreover have "quiet clean clean" by (simp add: quiet_def)
        ultimately obtain t2 where t2: "?f = set_final_timer t2" "quiet clean t2"
          using c by (cases "is_invite clean") auto
        have "uas_status t2 = code" "sent_up t2 = sent_up t" using t2(2) q cl(2,3) by (simp_all add: quiet_def)
        moreover have "keeps clean (set_final_timer t2)" using quiet_keeps [OF t2(2)] by (simp add: keeps_def)
        ultimately show ?thesis unfolding t2(1) by simp
      qed
      show ?thesis
      proof (cases "code \<ge> 200")
        case True
        have "keeps t ?t" using quiet_keeps [OF q] by (simp add: keeps_def)
        then have "keeps t ?f" using cl(1) f [OF True] kept_trans by blast
        then have "keeps t t'" unfolding t' by (simp add: keeps_def)
        moreover have "uas_status t' = code" "sent_up t' = sent_up t @ [(code, -2)]" "ended t'"
          using f [OF True] unfolding t' by (simp_all add: ended_def)
        ultimately show ?thesis
          using pending q True by (simp add: passes_def sent_inv_def quiet_def armed_def sent_ok_snoc keeps_def)
      next
        case False
        then have t'': "t' = ?t\<lparr>sent_up := sent_up ?t @ [(code, -2)]\<rparr>" by (simp add: t')
        have "passes t1 t'"
          using pending False unfolding t''
          by (simp add: passes_def keeps_def armed_def ended_def sent_inv_def sent_ok_snoc)
        with quiet_passes [OF q] show ?thesis by (rule passes_trans)
      qed
    qed
  qed
qed

lemma add_uacs:
  "\<exists>us. fold add_uac ss t = t\<lparr>uac := uac t @ map new_uac us\<rparr> \<and> (length (uac t) \<le> 30 \<longrightarrow> length (uac t) + length us \<le> 30)"
proof (induction ss arbitrary: t)
  case Nil
  have "t = t\<lparr>uac := uac t @ map new_uac []\<rparr>" by simp
  then show ?case by (metis add_cancel_left_right fold_simps(1) list.size(3))
next
  case (Cons s ss)
  obtain us where us: "fold add_uac ss (add_uac s t) = (add_uac s t)\<lparr>uac := uac (add_uac s t) @ map new_uac us\<rparr>"
    "length (uac (add_uac s t)) \<le> 30 \<longrightarrow> length (uac (add_uac s t)) + length us \<le> 30"
    using Cons.IH by blast
  show ?case
  proof (cases "nr_of_outgoings t = MAX_BRANCHES \<or> \<not> add_ok s")
    case True
    then have "add_uac s t = t" by (simp add: add_uac_def)
    then show ?thesis using us by auto
  next
    case False
    then have "add_uac s t = t\<lparr>uac := uac t @ [new_uac s]\<rparr>" by (simp add: add_uac_def)
    then show ?thesis
      using us False by (intro exI [of _ "s # us"]) (auto simp: nr_of_outgoings_def)
  qed
qed

lemma forward_adds:
  obtains us where "t_forward_nonack ss t = t\<lparr>uac := uac t @ map (start_retr \<circ> new_uac) us\<rparr>"
    "length (uac t) \<le> 30 \<longrightarrow> length (uac t) + length us \<le> 30"
proof -
  obtain us where us: "fold add_uac ss t = t\<lparr>uac := uac t @ map new_uac us\<rparr>"
    "length (uac t) \<le> 30 \<longrightarrow> length (uac t) + length us \<le> 30"
    using add_uacs by blast
  then show thesis using that [of us] by (simp add: t_forward_nonack_def nr_of_outgoings_def Let_def)
qed

lemma new_uac_started [simp]:
  "last_received (start_retr (new_uac s)) = 0" "uac_fr (start_retr (new_uac s))" "uac_reply (start_retr (new_uac s)) = None"
  "local_cancel (start_retr (new_uac s)) = No_Buffer"
  by (simp_all add: start_retr_def new_uac_def)

lemma forward_passes: "passes t (t_forward_nonack ss t)"
proof (rule forward_adds [of ss t])
  fix us
  assume e: "t_forward_nonack ss t = t\<lparr>uac := uac t @ map (start_retr \<circ> new_uac) us\<rparr>"
    and n: "length (uac t) \<le> 30 \<longrightarrow> length (uac t) + length us \<le> 30"
  have "keeps t (t_forward_nonack ss t)" unfolding e keeps_def using n by (auto simp: nth_append)
  then show ?thesis unfolding e by (auto simp: passes_def armed_def ended_def sent_inv_def)
qed

lemma run_fop_passes: "passes t (run_fop c f t)"
proof (cases f)
  case (F_Reply code bok rok jk)
  obtain r t' where "reply_light c bok rok jk code t = (r, t')" by fastforce
  then show ?thesis using F_Reply reply_light_passes by (simp add: run_fop_def)
next
  case (F_On_Negative n)
  then show ?thesis by (simp add: run_fop_def passes_def keeps_def armed_def ended_def sent_inv_def)
qed (simp add: run_fop_def forward_passes)

lemma handlers_passes: "passes t (run_failure_handlers c h t)"
proof -
  have f: "passes t (fold (run_fop c) fs t)" for t fs by (rule passes_fold) (rule run_fop_passes)
  have n: "passes t (t\<lparr>on_negative := 0\<rparr>)" for t by (simp add: passes_def keeps_def armed_def ended_def sent_inv_def)
  define t1 where "t1 = (if on_failure_cb t then fold (run_fop c) (cb_ops h) t else t)"
  have "passes t t1" by (simp add: t1_def f)
  moreover have "passes t1 (fold (run_fop c) (route_ops h) (t1\<lparr>on_negative := 0\<rparr>))"
    using n f passes_trans by blast
  ultimately have "passes t (if on_negative t1 \<noteq> 0 then fold (run_fop c) (route_ops h) (t1\<lparr>on_negative := 0\<rparr>) else t1)"
    using passes_trans by auto
  then show ?thesis unfolding run_failure_handlers_def Let_def t1_def [symmetric] by simp
qed


subsection \<open>The branch picked\<close>

definition code_of :: "nat \<Rightarrow> int \<Rightarrow> nat \<Rightarrow> ua_client \<Rightarrow> int" where
  "code_of inc code j u = (if j = inc then code else last_received u)"

definition counts :: "nat \<Rightarrow> nat \<Rightarrow> ua_client \<Rightarrow> bool" where
  "counts inc j u \<longleftrightarrow> j = inc \<or> req_buffer u"

lemma less_Suc_cases: "(\<forall>i<Suc n. P i) \<longleftrightarrow> P 0 \<and> (\<forall>i<n. P (Suc i))" "(\<exists>i<Suc n. P i) \<longleftrightarrow> P 0 \<or> (\<exists>i<n. P (Suc i))"
  by (auto simp: less_Suc_eq_0_disj)

lemma pick_loop_spec:
  assumes "pick_loop inc code us k lb ls = (pb, pc)" "lb \<ge> -1"
  shows "pb = -2 \<and> (\<exists>i<length us. k + i \<noteq> inc \<and> req_buffer (us ! i) \<and> last_received (us ! i) < 200) \<or>
    (\<forall>i<length us. counts inc (k + i) (us ! i) \<longrightarrow> pc \<le> code_of inc code (k + i) (us ! i) \<and> (k + i \<noteq> inc \<longrightarrow> last_received (us ! i) \<ge> 200)) \<and>
    pc \<le> ls \<and>
    (pb = lb \<and> pc = ls \<or>
     (\<exists>i<length us. pb = int (k + i) \<and> pc < ls \<and> counts inc (k + i) (us ! i) \<and> pc = code_of inc code (k + i) (us ! i)))"
  using assms
proof (induction us arbitrary: k lb ls)
  case (Cons u us)
  have IH: "lb' \<ge> -1 \<Longrightarrow> pick_loop inc code us (Suc k) lb' ls' = (pb, pc) \<Longrightarrow> pb = -2 \<and> (\<exists>i<length us. Suc k + i \<noteq> inc \<and> req_buffer (us ! i) \<and> last_received (us ! i) < 200) \<or>
    (\<forall>i<length us. counts inc (Suc k + i) (us ! i) \<longrightarrow> pc \<le> code_of inc code (Suc k + i) (us ! i) \<and> (Suc k + i \<noteq> inc \<longrightarrow> last_received (us ! i) \<ge> 200)) \<and>
    pc \<le> ls' \<and>
    (pb = lb' \<and> pc = ls' \<or>
     (\<exists>i<length us. pb = int (Suc k + i) \<and> pc < ls' \<and> counts inc (Suc k + i) (us ! i) \<and> pc = code_of inc code (Suc k + i) (us ! i)))" for lb' ls'
    using Cons.IH by blast
  consider (skip) "pick_loop inc code us (Suc k) lb ls = (pb, pc)" "counts inc k u \<longrightarrow> ls \<le> code_of inc code k u \<and> (k \<noteq> inc \<longrightarrow> last_received u \<ge> 200)"
    | (pending) "pb = -2" "k \<noteq> inc" "req_buffer u" "last_received u < 200"
    | (taken) "pick_loop inc code us (Suc k) (int k) (code_of inc code k u) = (pb, pc)" "code_of inc code k u < ls" "counts inc k u" "k \<noteq> inc \<longrightarrow> last_received u \<ge> 200"
    using Cons.prems(1) by (auto simp: counts_def code_of_def split: if_splits)
  then show ?case
  proof cases
    case skip
    from IH [OF Cons.prems(2) this(1)] skip(2) show ?thesis
      unfolding list.size nth_Cons_Suc less_Suc_cases add_Suc_right add_Suc add_0_right One_nat_def nth_Cons_0
      by (elim disjE conjE) auto
  next
    case taken
    have "-1 \<le> int k" by simp
    from IH [OF this taken(1)] taken(2-4) show ?thesis
      unfolding list.size nth_Cons_Suc less_Suc_cases add_Suc_right add_Suc add_0_right One_nat_def nth_Cons_0
      by (elim disjE conjE) auto
  qed (auto intro!: exI [of _ 0])
qed simp

lemma t_pick_branch_spec:
  assumes "t_pick_branch b code t = (pb, pc)"
  shows "pb = -2 \<and> (\<exists>i<length (uac t). i \<noteq> b \<and> last_received (uac t ! i) < 200) \<or>
    (\<forall>i<length (uac t). counts b i (uac t ! i) \<longrightarrow> pc \<le> code_of b code i (uac t ! i) \<and> (i \<noteq> b \<longrightarrow> last_received (uac t ! i) \<ge> 200)) \<and>
    (pb = -1 \<and> pc = 999 \<or>
     (\<exists>i<length (uac t). pb = int i \<and> pc < 999 \<and> counts b i (uac t ! i) \<and> pc = code_of b code i (uac t ! i)))"
  using pick_loop_spec [of b code "uac t" 0 "-1" 999 pb pc] assms unfolding t_pick_branch_def by auto

subsection \<open>The cases of a reply\<close>

lemma verdict_cases:
  assumes "t_should_relay_response c h t code b bm = (v, bm', t1)"
  obtains
    (discarded) "t1 = t" "v = discard" "bm' = bm"
      "uas_status t \<ge> 200 \<and> \<not> inv_through t code \<or> last_received (uac t ! b) \<ge> 200 \<or> code < 100"
  | (unpicked) "uas_status t < 200" "last_received (uac t ! b) < 200" "code > 302" "t1 = set_last b code t" "v = discard" "bm' = bm"
      "t_pick_branch b code t1 = (-1, 999)"
  | (pushed) "uas_status t \<ge> 200" "inv_through t code" "v_status v = RPS_PUSHED_AFTER_COMPLETION" "\<not> should_store v" "should_relay v = int b"
      "bm' = bm" "t1 = set_last b code t"
  | (waiting) pc where "uas_status t < 200" "last_received (uac t ! b) < 200" "code > 302" "t1 = set_last b code t" "v_status v = RPS_STORE"
      "should_store v" "should_relay v = -1" "bm' = bm" "t_pick_branch b code t1 = (-2, pc)"
  | (answered) "uas_status t < 200" "last_received (uac t ! b) < 200" "code > 302" "passes (set_last b code t) t1" "uas_status t1 \<ge> 200"
      "v_status v = RPS_COMPLETED" "\<not> should_store v" "should_relay v = -1" "bm' = bm"
  | (branched) "uas_status t < 200" "last_received (uac t ! b) < 200" "code > 302" "passes (set_last b code t) t1" "uas_status t1 < 200"
      "v_status v = RPS_STORE" "should_store v" "should_relay v = -1" "bm' = bm" "length (uac t) < length (uac t1)"
  | (picked) pb pc where "uas_status t < 200" "last_received (uac t ! b) < 200" "code > 302" "passes (set_last b code t) t1" "uas_status t1 < 200"
      "v_status v = RPS_COMPLETED" "\<not> should_store v" "should_relay v = pb" "bm' = bm" "length (uac t1) = length (uac t)"
      "t_pick_branch b code (set_last b code t) = (pb, pc)" "pb \<noteq> -1" "pb \<noteq> -2"
  | (success) "uas_status t < 200" "200 \<le> code" "code \<le> 302" "last_received (uac t ! b) < 200 \<or> is_invite t \<and> last_received (uac t ! b) \<le> 302"
      "v_status v = RPS_COMPLETED" "\<not> should_store v" "should_relay v = int b" "which_cancel c (set_last b code t) bm = (bm', t1)"
  | (provisional) "uas_status t < 200" "100 \<le> code" "code < 200" "last_received (uac t ! b) < 200" "v_status v = RPS_PROVISIONAL"
      "\<not> should_store v" "should_relay v = (if code = 100 then -1 else int b)" "bm' = bm" "t1 = set_last b code t"
proof -
  let ?t = "set_last b code t"
  have s: "uas_status ?t = uas_status t" "length (uac ?t) = length (uac t)" by (simp_all add: set_last_def)
  consider (a) "uas_status t \<ge> 200" | (b) "uas_status t < 200" "last_received (uac t ! b) \<ge> 200 \<and> \<not> (inv_through t code \<and> last_received (uac t ! b) \<le> 302)"
    | (c) "uas_status t < 200" "\<not> (last_received (uac t ! b) \<ge> 200 \<and> \<not> (inv_through t code \<and> last_received (uac t ! b) \<le> 302))" "code > 302"
    | (d) "uas_status t < 200" "\<not> (last_received (uac t ! b) \<ge> 200 \<and> \<not> (inv_through t code \<and> last_received (uac t ! b) \<le> 302))" "code \<le> 302"
    by linarith
  then show thesis
  proof cases
    case a
    then show ?thesis using assms discarded pushed by (auto simp: t_should_relay_response_def split: if_splits)
  next
    case b
    then show ?thesis using assms discarded by (auto simp: t_should_relay_response_def)
  next
    case c
    then have last: "last_received (uac t ! b) < 200" by (auto simp: inv_through_def)
    obtain pb pc where pk: "t_pick_branch b code ?t = (pb, pc)" by fastforce
    let ?h = "if on_failure_cb ?t \<or> on_failure_ro_cb ?t \<or> on_negative ?t \<noteq> 0 then run_failure_handlers c h ?t else ?t"
    have h: "passes ?t ?h" using handlers_passes by simp
    have r: "(v, bm', t1) =
      (if pb = -2 then (\<lparr>v_status = RPS_STORE, should_store = True, should_relay = -1\<rparr>, bm, ?t)
       else if pb = -1 then (discard, bm, ?t)
       else if uas_status ?h \<ge> 200 then (\<lparr>v_status = RPS_COMPLETED, should_store = False, should_relay = -1\<rparr>, bm, ?h)
       else if nr_of_outgoings ?t < nr_of_outgoings ?h then (\<lparr>v_status = RPS_STORE, should_store = True, should_relay = -1\<rparr>, bm, ?h)
       else (\<lparr>v_status = RPS_COMPLETED, should_store = False, should_relay = pb\<rparr>, bm, ?h))"
      using assms c last unfolding t_should_relay_response_def Let_def pk prod.case by simp
    have len: "length (uac t) \<le> length (uac ?h)" using h s(2) by (simp add: passes_def keeps_def)
    show ?thesis
    proof (cases "pb = -2 \<or> pb = -1")
      case True
      moreover have "pb = -1 \<Longrightarrow> pc = 999" using t_pick_branch_spec [OF pk] by auto
      ultimately show ?thesis using r pk c(1,3) last waiting unpicked by auto
    next
      case False
      then show ?thesis
        using r pk c(1,3) last h len s answered branched picked by (auto simp: nr_of_outgoings_def split: if_splits)
    qed
  next
    case d
    then have o: "last_received (uac t ! b) < 200 \<or> inv_through t code \<and> last_received (uac t ! b) \<le> 302" by linarith
    consider "code \<ge> 200" | "100 \<le> code" "code < 200" | "code < 100" by linarith
    then show ?thesis
    proof cases
      case 1
      obtain bm2 t2 where w: "which_cancel c ?t bm = (bm2, t2)" by fastforce
      have "(v, bm', t1) = (\<lparr>v_status = RPS_COMPLETED, should_store = False, should_relay = int b\<rparr>, bm2, t2)"
        using assms d(1,3) o 1 w by (auto simp: t_should_relay_response_def Let_def)
      then show ?thesis using success d(1,3) o 1 w by (auto simp: inv_through_def)
    next
      case 2
      then show ?thesis using assms d(1,3) o provisional by (auto simp: t_should_relay_response_def inv_through_def Let_def)
    next
      case 3
      then show ?thesis using assms d(1,3) o discarded by (auto simp: t_should_relay_response_def inv_through_def Let_def)
    qed
  qed
qed

subsection \<open>The invariants\<close>

text \<open>A final reply is stored, with its code, as long as no final reply was sent.\<close>

definition stored_as :: "ua_client \<Rightarrow> bool" where
  "stored_as u \<longleftrightarrow> (\<exists>q. uac_reply u = Some q \<and> (\<forall>r. q = Received r \<longrightarrow> REPLY_STATUS r = last_received u))"

definition stored_but :: "nat set \<Rightarrow> cell \<Rightarrow> bool" where
  "stored_but B t \<longleftrightarrow>
     (uas_status t < 200 \<longrightarrow>
      (\<forall>i<length (uac t). i \<notin> B \<longrightarrow> 200 \<le> last_received (uac t ! i) \<longrightarrow> last_received (uac t ! i) < 999 \<longrightarrow> stored_as (uac t ! i)))"

text \<open>While no final reply was sent and the end is not scheduled, a branch is open, and every open one has its timer.\<close>

definition lively :: "cell \<Rightarrow> bool" where
  "lively t \<longleftrightarrow> ended t \<or> armed t \<and> (\<exists>u\<in>set (uac t). last_received u < 200)"

text \<open>The same while a reply with the given code is processed on a branch.\<close>

definition lively_but :: "nat \<Rightarrow> int \<Rightarrow> cell \<Rightarrow> bool" where
  "lively_but b code t \<longleftrightarrow>
     ended t \<or> uas_status t < 200 \<and>
       (\<forall>i<length (uac t). last_received (uac t ! i) < 200 \<longrightarrow> uac_fr (uac t ! i) \<or> i = b \<and> code \<ge> 200) \<and>
       (\<exists>u\<in>set (uac t). last_received u < 200)"

definition msg_code :: "reply_msg \<Rightarrow> int \<Rightarrow> bool" where
  "msg_code p code \<longleftrightarrow> (\<forall>r. p = Received r \<longrightarrow> REPLY_STATUS r = code)"

lemma ball_set_nth: "(\<forall>u\<in>set xs. P u) \<longleftrightarrow> (\<forall>i<length xs. P (xs ! i))" "(\<exists>u\<in>set xs. P u) \<longleftrightarrow> (\<exists>i<length xs. P (xs ! i))"
  by (metis in_set_conv_nth)+

lemma passesD:
  assumes "passes t t'"
  shows "keeps t t'" "uas_status t' < 200 \<Longrightarrow> uas_status t < 200" "armed t \<Longrightarrow> armed t'" "ended t \<Longrightarrow> ended t'"
    "sent_inv t \<Longrightarrow> sent_inv t'" "length (uac t) \<le> length (uac t')" "is_invite t' = is_invite t" "is_local t' = is_local t"
    "length (uac t) \<le> 30 \<longrightarrow> length (uac t') \<le> 30"
  using assms by (auto simp: passes_def keeps_def)

lemma keeps_nth:
  "keeps t t' \<Longrightarrow> i < length (uac t) \<Longrightarrow> last_received (uac t' ! i) = last_received (uac t ! i) \<and> uac_reply (uac t' ! i) = uac_reply (uac t ! i)"
  by (simp add: keeps_def same_core_def)

lemma stored_passes: 
  assumes "passes t t'" "stored_but B t" 
  shows "stored_but B t'"
  unfolding stored_but_def
proof (intro impI allI)
  fix i
  assume a: "uas_status t' < 200" "i < length (uac t')" "i \<notin> B" "200 \<le> last_received (uac t' ! i)" "last_received (uac t' ! i) < 999"
  have k: "keeps t t'" by (rule passesD [OF assms(1)])
  have "i < length (uac t)"
  proof (rule ccontr)
    assume "\<not> i < length (uac t)"
    then have "last_received (uac t' ! i) = 0" using k a(2) by (simp add: keeps_def)
    then show False using a(4) by simp
  qed
  moreover from this have "stored_as (uac t ! i)"
    using assms(2) passesD(2) [OF assms(1) a(1)] a(3-5) keeps_nth [OF k] by (simp add: stored_but_def)
  ultimately show "stored_as (uac t' ! i)" using keeps_nth [OF k] by (simp add: stored_as_def)
qed

lemma set_last_simps [simp]:
  "length (uac (set_last b code t)) = length (uac t)" "is_invite (set_last b code t) = is_invite t"
  "is_local (set_last b code t) = is_local t" "uas_status (set_last b code t) = uas_status t"
  "sent_up (set_last b code t) = sent_up t" "ended (set_last b code t) = ended t" "cancelled (set_last b code t) = cancelled t"
  by (simp_all add: set_last_def ended_def)

lemma set_last_nth: "i < length (uac t) \<Longrightarrow>
    uac (set_last b code t) ! i = (if i = b then (uac t ! i)\<lparr>last_received := code\<rparr> else uac t ! i)"
  by (simp add: set_last_def set_uac_nth)

lemma stored_set_last: "stored_but {} t \<Longrightarrow> stored_but {b} (set_last b code t)"
  by (simp add: stored_but_def set_last_nth)

lemma sent_set_last [simp]: "sent_inv (set_last b code t) = sent_inv t"
  by (simp add: sent_inv_def)

lemma armed_nth: "armed t \<longleftrightarrow> ended t \<or> uas_status t < 200 \<and> (\<forall>i<length (uac t). last_received (uac t ! i) < 200 \<longrightarrow> uac_fr (uac t ! i))"
  by (simp add: armed_def ball_set_nth)

lemma lively_but_armed:
  assumes "lively_but b code t" "code \<ge> 200 \<or> last_received (uac t ! b) < 200"
  shows "armed (set_last b code t)"
  using assms by (auto simp: lively_but_def armed_nth set_last_nth)

lemma lively_but_lively:
  assumes "lively_but b code t" "last_received (uac t ! b) \<ge> 200 \<or> code < 200"
  shows "lively t"
  using assms by (auto simp: lively_but_def lively_def armed_nth)

lemma reply_light_final:
  assumes "bok" "code \<ge> 200" "reply_light c bok rok jk code t = (r, t')"
  shows "uas_status t' \<ge> 200"
proof -
  obtain bm t1 where w: "(if is_invite t then which_cancel c t (if bok then 0 else jk) else (0, t)) = (bm, t1)"
    by (metis surj_pair)
  show ?thesis
  proof (cases "uas_status t1 \<ge> 200 \<or> \<not> rok")
    case True
    then have "reply_error bm t1 = (r, t') \<and> uas_status t1 \<ge> 200 \<or> reply_error bm (t1\<lparr>uas_status := code, uas_buffer := None\<rparr>) = (r, t')"
      using assms(1,3) w by (auto simp: reply_light_def split: if_splits)
    then show ?thesis using reply_error_passes assms(2) by fastforce
  next
    case False
    let ?t = "t1\<lparr>uas_status := code, uas_buffer := Some (code, -2), relaied_reply_branch := -2\<rparr>"
    obtain t2 where "t' = (set_final_timer t2)\<lparr>sent_up := sent_up (set_final_timer t2) @ [(code, -2)]\<rparr>" 
      "uas_status t2 = code"
    proof -
      define clean where "clean = (if is_cancel ?t \<and> cancel_retransmission_flag c then ?t else cleanup_uac_timers ?t)"
      have s: "uas_status clean = code" by (simp add: clean_def)
      then have "uas_status (cancel_uacs bm clean) = code" using cancel_uacs_quiet [of clean bm] by (simp add: quiet_def)
      moreover have "t' = (let f = set_final_timer (if is_invite clean then cancel_uacs bm clean else clean) in f\<lparr>sent_up := sent_up f @ [(code, -2)]\<rparr>)"
        using assms w False unfolding clean_def by (auto simp: reply_light_def Let_def split: if_splits)
      ultimately show thesis using that s by (auto simp: Let_def split: if_splits)
    qed
    then show ?thesis using assms(2) by simp
  qed
qed

lemma reply_light_ended:
  assumes "code \<ge> 200" "reply_light c bok rok jk code t = (r, t')"
  shows "ended t'"
proof -
  obtain bm t1 where w: "(if is_invite t then which_cancel c t (if bok then 0 else jk) else (0, t)) = (bm, t1)"
    by (metis surj_pair)
  consider t2 where "reply_error bm t2 = (r, t')" | t2 xs where "t' = (set_final_timer t2)\<lparr>sent_up := xs\<rparr>"
    using assms w by (auto simp: reply_light_def Let_def split: if_splits)
  then show ?thesis
  proof cases
    case 1
    then show ?thesis using reply_error_passes by blast
  next
    case 2
    have "ended (set_final_timer t2)" by simp
    then show ?thesis unfolding 2 by (simp add: ended_def)
  qed
qed


subsection \<open>Relaying a reply keeps them\<close>

definition keep_reply :: "bool \<Rightarrow> nat \<Rightarrow> reply_msg \<Rightarrow> cell \<Rightarrow> cell" where
  "keep_reply store b p t = (if store then set_uac b (\<lambda>u. u\<lparr>uac_reply := Some p\<rparr>) t else t)"

lemma totag_fields [simp]:
  "uac (update_totag_set ok q t) = uac t" "is_invite (update_totag_set ok q t) = is_invite t"
  "is_local (update_totag_set ok q t) = is_local t" "uas_status (update_totag_set ok q t) = uas_status t"
  "wait_tl (update_totag_set ok q t) = wait_tl t" "uas_fr (update_totag_set ok q t) = uas_fr t"
  "sent_up (update_totag_set ok q t) = sent_up t" "cancelled (update_totag_set ok q t) = cancelled t"
  by (simp_all add: update_totag_set_def split: reply_msg.split option.split)

lemma final_if_fields [simp]:
  "uac (final_if_completed st t) = uac t" "is_invite (final_if_completed st t) = is_invite t"
  "is_local (final_if_completed st t) = is_local t" "uas_status (final_if_completed st t) = uas_status t"
  "sent_up (final_if_completed st t) = sent_up t" "cancelled (final_if_completed st t) = cancelled t"
  "ended t \<Longrightarrow> ended (final_if_completed st t)" "ended (final_if_completed RPS_COMPLETED t)"
  by (simp_all add: final_if_completed_def)

lemma relay_cases:
  assumes "relay_reply c h m t p b code bm = Some (st, bm', t')" "t_should_relay_response c h t code b bm = (v, bm1, t1)"
  obtains
    (failed) t2 where "st = RPS_ERROR" "bm' = bm1" "t' = snd (reply_light c (err_build_ok m) (err_resize_ok m) (junk m) 500 t2)"
      "t2 = set_uac b (\<lambda>u. u\<lparr>uac_reply := None\<rparr>) t1 \<or> t2 = t1 \<or> t2 = t1\<lparr>uas_buffer := None\<rparr>"
      "\<not> (clone_ok m \<and> build_ok m \<and> resize_ok m)"
  | (kept) "should_relay v < 0" "st = v_status v" "bm' = bm1" "t' = final_if_completed st (keep_reply (should_store v) b p t1)"
  | (relayed) r q where "0 \<le> should_relay v" "should_relay v = int r" "st = v_status v" "bm' = bm1"
      "(if r = b then Some p else uac_reply (uac t1 ! r)) = Some q"
      "uac t' = uac t1" "is_invite t' = is_invite t1" "is_local t' = is_local t1" "cancelled t' = cancelled t1"
      "uas_status t' = relayed_code t1 b code r q" "sent_up t' = sent_up t1 @ [(relayed_code t1 b code r q, int r)]"
      "ended t1 \<or> st = RPS_COMPLETED \<Longrightarrow> ended t'"
proof -
  have ns: "should_store v \<Longrightarrow> should_relay v = -1" using assms(2) by (elim verdict_cases) (auto simp: discard_def)
  let ?t2 = "keep_reply (should_store v) b p t1"
  obtain ok t2 where st2: "(if should_store v then store_reply (clone_ok m) b p t1 else (True, t1)) = (ok, t2)"
    by (metis surj_pair)
  have sr: "ok \<and> t2 = ?t2 \<or> \<not> ok \<and> \<not> clone_ok m \<and> t2 = set_uac b (\<lambda>u. u\<lparr>uac_reply := None\<rparr>) t1"
    using st2 by (auto simp: store_reply_def keep_reply_def split: if_splits)
  note r = assms(1) [unfolded relay_reply_def Let_def assms(2) prod.case st2]
  show thesis
  proof (cases ok)
    case False
    with r sr failed show ?thesis by (auto simp: relay_failed_def)
  next
    case ok: True
    show ?thesis
    proof (cases "should_relay v < 0")
      case True
      with r ok sr kept show ?thesis by auto
    next
      case False
      then have "\<not> should_store v" using ns by auto
      then have t2: "t2 = t1" using ok sr by (simp add: keep_reply_def)
      let ?r = "nat (should_relay v)"
      obtain q where q: "(if ?r = b then Some p else uac_reply (uac t1 ! ?r)) = Some q"
        using r ok False t2 by (cases "if ?r = b then Some p else uac_reply (uac t1 ! ?r)") auto
      have nn: "0 \<le> should_relay v" "should_relay v = int ?r" using False by simp_all
      show ?thesis
      proof (cases "build_ok m \<and> resize_ok m")
        case False
        with r ok \<open>\<not> should_relay v < 0\<close> t2 q failed show ?thesis by (auto simp: relay_failed_def split: if_splits)
      next
        case True
        let ?rc = "relayed_code t1 b code ?r q"
        let ?t3 = "t1\<lparr>uas_buffer := Some (?rc, int ?r), uas_status := ?rc, relaied_reply_branch := int ?r\<rparr>"
        define t4 where "t4 = (if is_2xx ?t3 q ?rc then update_totag_set (tag_ok m) q ?t3 else ?t3)"
        have f4: "uac t4 = uac t1" "is_invite t4 = is_invite t1" "is_local t4 = is_local t1" "cancelled t4 = cancelled t1"
          "uas_status t4 = ?rc" "sent_up t4 = sent_up t1" "ended t4 = ended t1"
          by (simp_all add: t4_def ended_def)
        have res: "st = v_status v" "bm' = bm1" "t' = (final_if_completed (v_status v) t4)\<lparr>sent_up := sent_up t4 @ [(?rc, int ?r)]\<rparr>"
          using r ok \<open>\<not> should_relay v < 0\<close> t2 q True unfolding t4_def by auto
        show ?thesis
        proof (rule relayed [of ?r q])
          assume e: "ended t1 \<or> st = RPS_COMPLETED"
          then have "ended (final_if_completed (v_status v) t4)" using res(1) f4(7) by auto
          then show "ended t'" unfolding res(3) by (simp add: ended_def)
        qed (use res f4 in \<open>simp_all add: nn(1) q\<close>)
      qed
    qed
  qed
qed


definition tinv :: "cell \<Rightarrow> bool" where
  "tinv t \<longleftrightarrow> sent_inv t \<and> stored_but {} t \<and> lively t"

text \<open>What a result of the relay functions satisfies; \<open>done\<close> is whether the end is scheduled later.\<close>

lemma final_reply_light:
  assumes "sent_inv t" "bok" "reply_light c bok rok jk 500 t = (r, t')"
  shows "tinv t' \<and> ended t' \<and> is_invite t' = is_invite t \<and> is_local t' = is_local t \<and> length (uac t) \<le> length (uac t') \<and> (length (uac t) \<le> 30 \<longrightarrow> length (uac t') \<le> 30) \<and> uas_status t' \<ge> 200"
proof -
  have p: "passes t t'" by (rule reply_light_passes [OF assms(3)])
  have "uas_status t' \<ge> 200" using reply_light_final [OF assms(2) _ assms(3)] by simp
  moreover have "ended t'" using reply_light_ended [OF _ assms(3)] by simp
  ultimately show ?thesis using passesD(5-9) [OF p] assms(1) by (simp add: tinv_def stored_but_def lively_def)
qed

lemma keep_reply_fields [simp]:
  "length (uac (keep_reply s b p t)) = length (uac t)" "is_invite (keep_reply s b p t) = is_invite t"
  "is_local (keep_reply s b p t) = is_local t" "uas_status (keep_reply s b p t) = uas_status t"
  "sent_up (keep_reply s b p t) = sent_up t" "ended (keep_reply s b p t) = ended t" "cancelled (keep_reply s b p t) = cancelled t"
  by (simp_all add: keep_reply_def ended_def)

lemma keep_reply_nth: "i < length (uac t) \<Longrightarrow> uac (keep_reply s b p t) ! i =
    (if s \<and> i = b then (uac t ! i)\<lparr>uac_reply := Some p\<rparr> else uac t ! i)"
  by (simp add: keep_reply_def set_uac_nth)

lemma stored_keep:
  assumes "stored_but {b} t" "b < length (uac t)" "msg_code p (last_received (uac t ! b))"
  shows "stored_but {} (keep_reply True b p t)"
  using assms by (auto simp: stored_but_def keep_reply_nth stored_as_def msg_code_def)

lemma lively_keep: "lively (keep_reply s b p t) = lively t"
proof -
  have "last_received (uac (keep_reply s b p t) ! i) = last_received (uac t ! i) \<and> uac_fr (uac (keep_reply s b p t) ! i) = uac_fr (uac t ! i)"
    if "i < length (uac t)" for i
    using that by (simp add: keep_reply_nth)
  then show ?thesis unfolding lively_def armed_nth ball_set_nth by auto
qed

lemma sent_keep [simp]: "sent_inv (keep_reply s b p t) = sent_inv t"
  by (simp add: sent_inv_def)

lemma lively_more:
  assumes "armed t" "i < length (uac t)" "last_received (uac t ! i) < 200"
  shows "lively t"
  using assms nth_mem by (auto simp: lively_def)

lemma sent_ok_push:
  assumes "sent_ok True xs" "200 \<le> code" "code \<le> 302"
  shows "sent_ok True (xs @ [(code, r)])"
proof (cases "\<forall>x\<in>set xs. fst x < 200")
  case True
  then show ?thesis by (rule sent_ok_snoc)
next
  case False
  then obtain x where x: "x \<in> set xs" "\<not> fst x < 200" by blast
  have "dropWhile (\<lambda>x. fst x < 200) (xs @ [(code, r)]) = dropWhile (\<lambda>x. fst x < 200) xs @ [(code, r)]"
    by (rule dropWhile_append1 [of x]) (use x in simp_all)
  moreover obtain y ys where "dropWhile (\<lambda>x. fst x < 200) xs = y # ys"
    using x by (cases "dropWhile (\<lambda>x. fst x < 200) xs") (auto simp: dropWhile_eq_Nil_conv)
  ultimately show ?thesis using assms by (auto simp: sent_ok_def)
qed

lemma sent_relayed:
  assumes "sent_inv t1" "uas_status t1 \<ge> 200 \<longrightarrow> is_invite t1 \<and> 200 \<le> rc \<and> rc \<le> 302"
    and "is_invite t' = is_invite t1" "uas_status t' = rc" "sent_up t' = sent_up t1 @ [(rc, r)]"
  shows "sent_inv t'"
proof (cases "uas_status t1 < 200")
  case True
  then show ?thesis using assms sent_ok_snoc [of "sent_up t1" _ "(rc, r)"] by (auto simp: sent_inv_def)
next
  case False
  then have "is_invite t1" "200 \<le> rc" "rc \<le> 302" using assms(2) by simp_all
  moreover have "sent_ok True (sent_up t1)" using assms(1) \<open>is_invite t1\<close> by (simp add: sent_inv_def)
  ultimately show ?thesis using assms(3-5) sent_ok_push by (simp add: sent_inv_def)
qed


lemma relayed_b: "msg_code p code \<Longrightarrow> relayed_code t b code b p = code"
  by (auto simp: relayed_code_def msg_code_def split: reply_msg.split)

lemma relayed_stored:
  assumes "stored_as (uac t ! i)" "i \<noteq> b"
  shows "\<exists>q. uac_reply (uac t ! i) = Some q \<and> relayed_code t b code i q = last_received (uac t ! i)"
  using assms by (auto simp: stored_as_def relayed_code_def split: reply_msg.split)

text \<open>The branch picked has a stored reply, and what is relayed is the lowest code.\<close>

lemma picked_reply:
  assumes "stored_but {} t" "uas_status t1 < 200" "passes (set_last b code t) t1" "b < length (uac t)"
    and "t_pick_branch b code (set_last b code t) = (pb, pc)" "pb \<noteq> -1" "pb \<noteq> -2" "msg_code p code"
  obtains r q where "pb = int r" "r < length (uac t)" "(if r = b then Some p else uac_reply (uac t1 ! r)) = Some q"
    "relayed_code t1 b code r q = pc" "pc = code_of b code r (uac t ! r)" "counts b r (uac t ! r)" "pc < 999"
    "\<forall>i<length (uac t). counts b i (uac t ! i) \<longrightarrow> pc \<le> code_of b code i (uac t ! i) \<and> (i \<noteq> b \<longrightarrow> last_received (uac t ! i) \<ge> 200)"
proof -
  have same: "counts b i (uac (set_last b code t) ! i) = counts b i (uac t ! i)" 
    "code_of b code i (uac (set_last b code t) ! i) = code_of b code i (uac t ! i)"
    "i \<noteq> b \<Longrightarrow> uac (set_last b code t) ! i = uac t ! i"
    if "i < length (uac t)" for i
    using that by (simp_all add: set_last_nth counts_def code_of_def)
  from t_pick_branch_spec [OF assms(5)] assms(6,7) same obtain r where
    all: "\<forall>i<length (uac t). counts b i (uac t ! i) \<longrightarrow> pc \<le> code_of b code i (uac t ! i) \<and> (i \<noteq> b \<longrightarrow> last_received (uac t ! i) \<ge> 200)" and
    r: "pb = int r" "r < length (uac t)" "pc < 999" "counts b r (uac t ! r)" "pc = code_of b code r (uac t ! r)"
    by fastforce
  show thesis
  proof (cases "r = b")
    case True
    then show ?thesis using that [of b p] r all relayed_b [OF assms(8)] by (simp add: code_of_def)
  next
    case False
    have k: "keeps (set_last b code t) t1" by (rule passesD(1) [OF assms(3)])
    have "stored_but {b} t1" by (rule stored_passes [OF assms(3) stored_set_last [OF assms(1)]])
    moreover have l: "last_received (uac t1 ! r) = pc" "200 \<le> pc" "r < length (uac t1)"
      using keeps_nth [OF k, of r] r False all same(3) k by (auto simp: code_of_def keeps_def)
    ultimately have "stored_as (uac t1 ! r)" using assms(2) r(3) False by (simp add: stored_but_def)
    then obtain q where "uac_reply (uac t1 ! r) = Some q" "relayed_code t1 b code r q = pc"
      using relayed_stored [OF _ False] l(1) by blast
    then show ?thesis using that [of r q] r all False by simp
  qed
qed



text \<open>The state in which the relay functions are called.\<close>

definition ready :: "cell \<Rightarrow> nat \<Rightarrow> reply_msg \<Rightarrow> int \<Rightarrow> bool" where
  "ready t b p code \<longleftrightarrow>
     sent_inv t \<and> stored_but {} t \<and> lively_but b code t \<and> b < length (uac t) \<and> msg_code p code \<and> code < 999"

lemma readyD:
  assumes "ready t b p code"
  shows "sent_inv t" "stored_but {} t" "lively_but b code t" "b < length (uac t)" "msg_code p code" "code < 999"
    "sent_inv (set_last b code t)" "stored_but {b} (set_last b code t)" "last_received (uac (set_last b code t) ! b) = code"
    "code \<ge> 200 \<or> last_received (uac t ! b) < 200 \<Longrightarrow> armed (set_last b code t)"
  using assms stored_set_last [of t b code] lively_but_armed [of b code t] by (simp_all add: ready_def set_last_nth)

lemma verdict_base:
  assumes "ready t b p code" "t_should_relay_response c h t code b bm = (v, bm1, t1)"
  shows "sent_inv t1 \<and> is_invite t1 = is_invite t \<and> is_local t1 = is_local t \<and> length (uac t) \<le> length (uac t1) \<and> (length (uac t) \<le> 30 \<longrightarrow> length (uac t1) \<le> 30)"
  using assms(2)
proof (cases rule: verdict_cases)
  case success
  then have "passes (set_last b code t) t1" using quiet_passes which_cancel_quiet by blast
  then show ?thesis using passesD(5-9) readyD(7) [OF assms(1)] by fastforce
qed (use readyD(1,7) [OF assms(1)] passesD(5-9) in fastforce)+

lemma verdict_kept:
  assumes "ready t b p code" "t_should_relay_response c h t code b bm = (v, bm1, t1)" "should_relay v < 0"
  shows "tinv (keep_reply (should_store v) b p t1) \<or> v_status v = RPS_COMPLETED \<and> uas_status t1 \<ge> 200"
proof -
  note r = readyD [OF assms(1)]
  let ?l = "set_last b code t"
  from assms(2) show ?thesis
  proof (cases rule: verdict_cases)
    case discarded
    then show ?thesis
      using r(1,2) lively_but_lively [OF r(3)] r(3) by (auto simp: keep_reply_def discard_def tinv_def lively_def lively_but_def)
  next
    case unpicked
    then show ?thesis using t_pick_branch_spec [OF unpicked(7)] r(4,6) by (auto simp: counts_def code_of_def)
  next
    case (waiting pc)
    from t_pick_branch_spec [OF waiting(9)] obtain i where i: "i < length (uac ?l)" "last_received (uac ?l ! i) < 200"
      using waiting(4) r(4) by auto
    have "lively ?l" by (rule lively_more [OF r(10) i]) (use waiting(3) in simp)
    moreover have "stored_but {} (keep_reply True b p ?l)" using stored_keep [OF r(8)] r(4,5,9) by simp
    ultimately show ?thesis using waiting r(7) by (simp add: tinv_def lively_keep)
  next
    case branched
    have i: "last_received (uac t1 ! length (uac t)) = 0" "length (uac t) < length (uac t1)"
      using passesD(1) [OF branched(4)] branched(10) by (simp_all add: keeps_def)
    have "lively t1"
      by (rule lively_more [OF _ i(2)]) (use passesD(3) [OF branched(4)] r(10) branched(3) i(1) in simp_all)
    moreover have "last_received (uac t1 ! b) = code" "b < length (uac t1)"
      using keeps_nth [OF passesD(1) [OF branched(4)], of b] r(4,9) branched(10) by simp_all
    then have "stored_but {} (keep_reply True b p t1)"
      using stored_keep [OF stored_passes [OF branched(4) r(8)]] r(5) by simp
    ultimately show ?thesis using branched verdict_base [OF assms(1,2)] by (simp add: tinv_def lively_keep)
  next
    case (picked pb pc)
    then show ?thesis using t_pick_branch_spec [OF picked(11)] assms(3) by auto
  next
    case provisional
    then have "lively ?l" "stored_but {} ?l" using r(4,8,9,10) by (auto intro: lively_more simp: stored_but_def)
    then show ?thesis using provisional r(7) by (simp add: keep_reply_def tinv_def)
  qed (use assms(3) in simp_all)
qed

text \<open>The message that is relayed exists, and the state allows its code.\<close>

lemma verdict_relayed:
  assumes "ready t b p code" "t_should_relay_response c h t code b bm = (v, bm1, t1)" "0 \<le> should_relay v"
  obtains r q where "should_relay v = int r" "r < length (uac t)" "(if r = b then Some p else uac_reply (uac t1 ! r)) = Some q"
    "uas_status t1 \<ge> 200 \<longrightarrow> is_invite t1 \<and> ended t1 \<and> 200 \<le> relayed_code t1 b code r q \<and> relayed_code t1 b code r q \<le> 302"
    "relayed_code t1 b code r q < 200 \<longrightarrow> stored_but {} t1 \<and> lively t1"
    "relayed_code t1 b code r q \<ge> 200 \<longrightarrow> ended t1 \<or> v_status v = RPS_COMPLETED"
proof -
  note r = readyD [OF assms(1)]
  from assms(2) show ?thesis
  proof (cases rule: verdict_cases)
    case pushed
    moreover have "ended t1" using pushed(1,7) r(3) by (auto simp: lively_but_def)
    ultimately show ?thesis using that [of b p] relayed_b [OF r(5)] r(4) by (auto simp: inv_through_def)
  next
    case (picked pb pc)
    from picked_reply [OF r(2) picked(5,4) r(4) picked(11-13) r(5)] obtain r' q where
      r': "pb = int r'" "r' < length (uac t)" "(if r' = b then Some p else uac_reply (uac t1 ! r')) = Some q" "relayed_code t1 b code r' q = pc"
        "pc = code_of b code r' (uac t ! r')" "counts b r' (uac t ! r')"
        "\<forall>i<length (uac t). counts b i (uac t ! i) \<longrightarrow> pc \<le> code_of b code i (uac t ! i) \<and> (i \<noteq> b \<longrightarrow> last_received (uac t ! i) \<ge> 200)"
      by metis
    have "pc \<ge> 200" using r'(2,5-7) picked(3) by (auto simp: code_of_def)
    then show ?thesis using that [of r' q] r'(1-4) picked by simp
  next
    case success
    moreover have "uas_status t1 = uas_status t" using which_fields(4) [OF success(8)] by simp
    ultimately show ?thesis using that [of b p] relayed_b [OF r(5)] r(4) by simp
  next
    case provisional
    moreover have "lively t1" "stored_but {} t1"
      using r(4,8,9,10) provisional by (auto intro: lively_more simp: stored_but_def)
    ultimately show ?thesis using that [of b p] relayed_b [OF r(5)] r(4) assms(3) by (simp split: if_splits)
  qed (use assms(3) in \<open>simp_all add: discard_def\<close>)
qed

lemma tinv_relayed:
  assumes "sent_inv t'" "uas_status t' < 200 \<longrightarrow> stored_but {} t1 \<and> lively t1" "uas_status t' \<ge> 200 \<longrightarrow> ended t'"
    "uac t' = uac t1" "ended t1 \<longrightarrow> ended t'" "uas_status t' < 200 \<longrightarrow> uas_status t1 < 200"
  shows "tinv t'"
  using assms unfolding tinv_def lively_def armed_nth stored_but_def by (auto simp: leI) 

lemma relay_reply_inv:
  assumes "ready t b p code" "err_build_ok m" "relay_reply c h m t p b code bm = Some (st, bm', t')"
  shows "tinv t' \<and> (st = RPS_COMPLETED \<longrightarrow> ended t') \<and> is_invite t' = is_invite t \<and> is_local t' = is_local t \<and> length (uac t) \<le> length (uac t') \<and> (length (uac t) \<le> 30 \<longrightarrow> length (uac t') \<le> 30)"
proof -
  obtain v bm1 t1 where v: "t_should_relay_response c h t code b bm = (v, bm1, t1)"
    by (metis surj_pair)
  note base = verdict_base [OF assms(1) v]
  from assms(3) v show ?thesis
  proof (cases rule: relay_cases)
    case (failed t2)
    have "sent_inv t2" "is_invite t2 = is_invite t" "is_local t2 = is_local t" "length (uac t) \<le> length (uac t2)"
      "length (uac t) \<le> 30 \<longrightarrow> length (uac t2) \<le> 30"
      using failed(4) base by (auto simp: sent_inv_def)
    moreover obtain r t3 where "reply_light c (err_build_ok m) (err_resize_ok m) (junk m) 500 t2 = (r, t3)" by fastforce
    ultimately show ?thesis using final_reply_light assms(2) failed(1,3) by fastforce
  next
    case kept
    note k = verdict_kept [OF assms(1) v kept(1)]
    show ?thesis
    proof (cases "st = RPS_COMPLETED")
      case True
      then have "stored_but {} t'" using k kept(2,4) by (auto simp: tinv_def stored_but_def)
      then show ?thesis using True base kept(4) by (auto simp: tinv_def lively_def sent_inv_def)
    next
      case False
      then have "t' = keep_reply (should_store v) b p t1" using kept(4) by (simp add: final_if_completed_def)
      then show ?thesis using k kept(2) False base by auto
    qed
  next
    case (relayed r q)
    from verdict_relayed [OF assms(1) v relayed(1)] obtain r' q' where
      r': "should_relay v = int r'" "(if r' = b then Some p else uac_reply (uac t1 ! r')) = Some q'" and
      rc: "uas_status t1 \<ge> 200 \<longrightarrow> is_invite t1 \<and> ended t1 \<and> 200 \<le> relayed_code t1 b code r' q' \<and> relayed_code t1 b code r' q' \<le> 302"
        "relayed_code t1 b code r' q' < 200 \<longrightarrow> stored_but {} t1 \<and> lively t1"
        "relayed_code t1 b code r' q' \<ge> 200 \<longrightarrow> ended t1 \<or> v_status v = RPS_COMPLETED"
      by metis
    then have eq: "r' = r" "q' = q" using relayed(2,5) by auto
    have "sent_inv t'"
      by (rule sent_relayed [OF _ _ relayed(7) _ relayed(11)]) (use base rc(1) relayed(10) eq in auto)
    then have "tinv t'"
      by (rule tinv_relayed [where ?t1.0 = t1]) (use rc relayed(3,6,10,12) eq in auto)
    then show ?thesis using base relayed(3,6-8,12) by simp
  qed
qed

lemma relay_reply_total:
  assumes "ready t b p code"
  shows "relay_reply c h m t p b code bm \<noteq> None"
proof -
  obtain v bm1 t1 where v: "t_should_relay_response c h t code b bm = (v, bm1, t1)"
    by (metis surj_pair)
  have ns: "should_store v \<Longrightarrow> should_relay v = -1" using v by (elim verdict_cases) (auto simp: discard_def)
  show ?thesis
  proof (cases "should_relay v < 0")
    case True
    then show ?thesis unfolding relay_reply_def Let_def v prod.case by (auto simp: relay_failed_def split: prod.split)
  next
    case False
    then obtain r q where "should_relay v = int r" "(if r = b then Some p else uac_reply (uac t1 ! r)) = Some q"
      using verdict_relayed [OF assms v] by (metis not_le)
    then show ?thesis
      using ns False unfolding relay_reply_def Let_def v prod.case by (auto simp: relay_failed_def split: prod.split)
  qed
qed

subsection \<open>The handlers keep them\<close>

lemma tinv_passes:
  assumes "passes t t'" "tinv t"
  shows "tinv t'"
proof -
  have "lively t'"
  proof (cases "ended t")
    case False
    then obtain i where i: "i < length (uac t)" "last_received (uac t ! i) < 200" "armed t"
      using assms(2) by (auto simp: tinv_def lively_def ball_set_nth)
    then have "last_received (uac t' ! i) < 200" "i < length (uac t')"
      using keeps_nth [OF passesD(1) [OF assms(1)]] passesD(6) [OF assms(1)] by auto
    then show ?thesis using lively_more passesD(3) [OF assms(1)] i(3) by blast
  qed (use passesD(4) [OF assms(1)] in \<open>simp add: lively_def\<close>)
  then show ?thesis using assms stored_passes passesD(5) by (auto simp: tinv_def)
qed

lemma local_reply_inv:
  assumes "ready t b p code" "clone_ok m" "local_reply c h m t p b code = Some (st, bm', t')"
  shows "sent_inv t' \<and> stored_but {} t' \<and> (lively t' \<or> st = RPS_COMPLETED) \<and> st \<noteq> RPS_ERROR \<and>
    is_invite t' = is_invite t \<and> is_local t' = is_local t \<and> length (uac t) \<le> length (uac t') \<and> (length (uac t) \<le> 30 \<longrightarrow> length (uac t') \<le> 30)"
proof -
  obtain v bm1 t1 where v: "t_should_relay_response c h t code b 0 = (v, bm1, t1)"
    by (metis surj_pair)
  note base = verdict_base [OF assms(1) v]
  have ns: "should_store v \<Longrightarrow> should_relay v = -1" "v_status v \<noteq> RPS_ERROR" using v by (elim verdict_cases; auto simp: discard_def)+
  have st: "(if should_store v then store_reply (clone_ok m) b p t1 else (True, t1)) = (True, keep_reply (should_store v) b p t1)"
    using assms(2) by (simp add: store_reply_def keep_reply_def)
  note r = assms(3) [unfolded local_reply_def Let_def v prod.case st]
  show ?thesis
  proof (cases "should_relay v < 0")
    case True
    then have "st = v_status v" "t' = keep_reply (should_store v) b p t1" using r by auto
    then show ?thesis using verdict_kept [OF assms(1) v True] base ns(2) by (auto simp: tinv_def stored_but_def)
  next
    case False
    then obtain w q where w: "should_relay v = int w" "(if w = b then Some p else uac_reply (uac t1 ! w)) = Some q" and
      rc: "uas_status t1 \<ge> 200 \<longrightarrow> is_invite t1 \<and> ended t1 \<and> 200 \<le> relayed_code t1 b code w q \<and> relayed_code t1 b code w q \<le> 302"
        "relayed_code t1 b code w q < 200 \<longrightarrow> stored_but {} t1 \<and> lively t1"
        "relayed_code t1 b code w q \<ge> 200 \<longrightarrow> ended t1 \<or> v_status v = RPS_COMPLETED"
      using verdict_relayed [OF assms(1) v] by (metis not_le)
    let ?t = "t1\<lparr>uas_status := relayed_code t1 b code w q\<rparr>"
    have res: "st = v_status v" "t' = ?t \<or> t' = update_totag_set (tag_ok m) q ?t"
      using r False w ns(1) by (auto simp: keep_reply_def split: if_splits)
    then have f: "uac t' = uac t1" "is_invite t' = is_invite t1" "is_local t' = is_local t1" "sent_up t' = sent_up t1"
      "uas_status t' = relayed_code t1 b code w q" "ended t' = ended t1"
      by (auto simp: ended_def)
    have "sent_inv t'" using base rc(1) f by (auto simp: sent_inv_def)
    moreover have "stored_but {} t'" using rc(1,2) f by (auto simp: stored_but_def leI)
    moreover have "lively t' \<or> st = RPS_COMPLETED"
      using rc f res(1) unfolding lively_def armed_def by (auto simp: leI)
    ultimately show ?thesis using base f ns(2) res(1) by simp
  qed
qed

lemma local_reply_total:
  assumes "ready t b p code"
  shows "local_reply c h m t p b code \<noteq> None"
proof -
  obtain v bm1 t1 where v: "t_should_relay_response c h t code b 0 = (v, bm1, t1)"
    by (metis surj_pair)
  have ns: "should_store v \<Longrightarrow> should_relay v = -1" using v by (elim verdict_cases) (auto simp: discard_def)
  show ?thesis
  proof (cases "should_relay v < 0")
    case True
    then show ?thesis unfolding local_reply_def Let_def v prod.case by (auto simp: local_failed_def split: prod.split)
  next
    case False
    then obtain r q where "should_relay v = int r" "(if r = b then Some p else uac_reply (uac t1 ! r)) = Some q"
      using verdict_relayed [OF assms v] by (metis not_le)
    then show ?thesis
      using ns False unfolding local_reply_def Let_def v prod.case by (auto simp: local_failed_def split: prod.split)
  qed
qed

text \<open>The timers of a branch are stopped before its reply is processed.\<close>

lemma ready_stop:
  assumes "tinv t" "b < length (uac t)" "msg_code p code" "code < 999" "f = reset_timers \<and> code \<ge> 200 \<or> f = stop_timers code"
  shows "ready (set_uac b f t) b p code"
proof -
  have same: "same_core u (f u)" for u using assms(5) by auto
  have k: "keeps t (set_uac b f t)" by (rule set_uac_same) (rule same)
  have nth: "last_received (uac (set_uac b f t) ! i) = last_received (uac t ! i) \<and>
      uac_reply (uac (set_uac b f t) ! i) = uac_reply (uac t ! i) \<and>
      (uac_fr (uac t ! i) \<longrightarrow> uac_fr (uac (set_uac b f t) ! i) \<or> i = b \<and> code \<ge> 200)" if "i < length (uac t)" for i
    using that same [of "uac t ! i"] assms(5) by (auto simp: set_uac_nth same_core_def stop_timers_def reset_timers_def)
  have "stored_but {} (set_uac b f t)" using assms(1) nth by (simp add: tinv_def stored_but_def stored_as_def)
  moreover have "lively_but b code (set_uac b f t)"
    using assms(1) nth unfolding tinv_def lively_def lively_but_def armed_nth ball_set_nth by (auto simp: ended_def)
  ultimately show ?thesis using assms by (simp add: ready_def tinv_def sent_inv_def)
qed

lemma ready_quiet:
  assumes "ready t b p code" "quiet t t'"
  shows "ready t' b p code"
  using assms unfolding ready_def quiet_def sent_inv_def stored_but_def stored_as_def lively_but_def ended_def ball_set_nth same_core_def
  by (simp cong: conj_cong)

lemma tinv_put_on_wait: "sent_inv t \<Longrightarrow> stored_but {} t \<Longrightarrow> tinv (put_on_wait t)"
  by (simp add: tinv_def sent_inv_def stored_but_def lively_def)

lemma tinv_cleanup: "tinv t \<Longrightarrow> ended t \<Longrightarrow> tinv (cleanup_uac_timers t) \<and> ended (cleanup_uac_timers t)"
  by (auto simp: tinv_def sent_inv_def stored_but_def stored_as_def lively_def ended_def reset_timers_def)

lemma tinv_restart: "tinv t \<Longrightarrow> tinv (set_uac b (restart_timers t') t)"
proof (erule tinv_passes [rotated], rule passes_uac)
  show "keeps t (set_uac b (restart_timers t') t)" by (rule set_uac_same) simp
qed (auto simp: set_uac_nth restart_timers_def)

definition mem_ok :: "bool \<Rightarrow> mem \<Rightarrow> bool" where
  "mem_ok loc m \<longleftrightarrow> (if loc then clone_ok m else err_build_ok m)"

definition same_kind :: "cell \<Rightarrow> cell \<Rightarrow> bool" where
  "same_kind t t' \<longleftrightarrow> is_invite t' = is_invite t \<and> is_local t' = is_local t \<and> length (uac t) \<le> length (uac t') \<and> (length (uac t) \<le> 30 \<longrightarrow> length (uac t') \<le> 30)"

lemma reply_received_inv:
  assumes "tinv t" "b < length (uac t)" "REPLY_STATUS r < 999" "mem_ok (is_local t) m" "reply_received c h m b r t = Some (bs, t')"
  shows "tinv t' \<and> same_kind t t'"
proof -
  let ?code = "REPLY_STATUS r" and ?t = "set_uac b (stop_timers (REPLY_STATUS r)) t"
  have ready: "ready ?t b (Received r) ?code"
    by (rule ready_stop) (use assms(1-3) in \<open>simp_all add: msg_code_def\<close>)
  obtain st bm t1 where res: "(if is_local t then local_reply c h m ?t (Received r) b ?code
      else relay_reply c h m ?t (Received r) b ?code 0) = Some (st, bm, t1)"
    using assms(5) unfolding reply_received_def Let_def by (auto split: option.splits)
  have t1: "sent_inv t1 \<and> stored_but {} t1 \<and> same_kind t t1 \<and> (st = RPS_COMPLETED \<and> (is_local t \<or> ended t1) \<or> st \<noteq> RPS_COMPLETED \<and> tinv t1)"
  proof (cases "is_local t")
    case True
    then show ?thesis using local_reply_inv [OF ready, of m c h st bm t1] assms(4) res
      by (auto simp: mem_ok_def tinv_def same_kind_def)
  next
    case False
    then show ?thesis using relay_reply_inv [OF ready, of m c h 0 st bm t1] assms(4) res
      by (auto simp: mem_ok_def tinv_def same_kind_def)
  qed
  define t2 where "t2 = (if st = RPS_COMPLETED then cleanup_uac_timers t1 else t1)"
  define t3 where "t3 = (if st = RPS_COMPLETED \<and> is_local t2 then put_on_wait t2 else t2)"
  have t3: "tinv t3 \<and> same_kind t t3"
  proof (cases "st = RPS_COMPLETED")
    case True
    have "sent_inv t2 \<and> stored_but {} t2" "is_local t2 = is_local t" "ended t2 = ended t1" "same_kind t t2"
      using t1 True by (auto simp: t2_def sent_inv_def stored_but_def stored_as_def ended_def same_kind_def reset_timers_def)
    then show ?thesis
      using t1 True tinv_put_on_wait by (auto simp: t3_def tinv_def lively_def same_kind_def)
  next
    case False
    then show ?thesis using t1 by (simp add: t2_def t3_def)
  qed
  show ?thesis
  proof (cases "st = RPS_ERROR")
    case True
    then show ?thesis using assms(5) res t1 unfolding reply_received_def Let_def by auto
  next
    case False
    then have "t' = t3 \<or> t' = set_uac b (restart_timers t3) t3"
      using assms(5) res unfolding reply_received_def Let_def t2_def t3_def by (auto split: if_splits)
    then show ?thesis using t3 tinv_restart by (auto simp: same_kind_def)
  qed
qed


lemma reply_received_total:
  assumes "ready (set_uac b (stop_timers (REPLY_STATUS r)) t) b (Received r) (REPLY_STATUS r)"
  shows "reply_received c h m b r t \<noteq> None"
proof (cases "is_local t")
  case True
  obtain x where "local_reply c h m (set_uac b (stop_timers (REPLY_STATUS r)) t) (Received r) b (REPLY_STATUS r) = Some x"
    using local_reply_total [OF assms] by blast
  then show ?thesis using True by (cases x) (simp add: reply_received_def Let_def)
next
  case False
  obtain x where "relay_reply c h m (set_uac b (stop_timers (REPLY_STATUS r)) t) (Received r) b (REPLY_STATUS r) 0 = Some x"
    using relay_reply_total [OF assms] by blast
  then show ?thesis using False by (cases x) (simp add: reply_received_def Let_def)
qed

lemma quiet_mark: "quiet t (set_uac b (mark_cancel c) t)"
  by (auto simp: quiet_def set_uac_nth mark_cancel_def)

lemma quiet_kind: "quiet t t' \<Longrightarrow> same_kind t t'"
  by (simp add: quiet_def same_kind_def)

lemma same_kind_simps [simp]: "same_kind t t" "same_kind t (set_uac b f t)" "same_kind t (put_on_wait t)"
  by (simp_all add: same_kind_def)

lemma same_kind_trans: "same_kind t t' \<Longrightarrow> same_kind t' t'' \<Longrightarrow> same_kind t t''"
  by (auto simp: same_kind_def)

lemma fake_reply_inv:
  assumes "ready t b FAKED_REPLY code" "mem_ok (is_local t) m" "fake_reply c h m b code t = Some (bs, t')"
  shows "tinv t' \<and> same_kind t t'"
proof -
  define t1 where "t1 = (if is_invite t then set_uac b (mark_cancel c) t else t)"
  have q: "quiet t t1" using quiet_mark by (auto simp: t1_def quiet_def)
  have ready: "ready t1 b FAKED_REPLY code" by (rule ready_quiet [OF assms(1) q])
  have loc: "is_local t1 = is_local t" using q by (simp add: quiet_def)
  let ?mine = "if is_invite t \<and> should_cancel_branch c (uac t ! b) then push_bit b 1 else 0 :: u32"
  obtain st bm t2 where res: "(if is_local t1 then local_reply c h m t1 FAKED_REPLY b code
      else relay_reply c h m t1 FAKED_REPLY b code ?mine) = Some (st, bm, t2)"
    and t': "t' = (if st = RPS_COMPLETED \<and> is_local t2 then put_on_wait t2 else t2)"
    using assms(3) unfolding fake_reply_def Let_def t1_def by (auto split: option.splits)
  have "tinv t' \<and> same_kind t1 t'"
  proof (cases "is_local t1")
    case True
    then show ?thesis using local_reply_inv [OF ready, of m c h st bm t2] assms(2) res t' loc tinv_put_on_wait
      by (auto simp: mem_ok_def tinv_def same_kind_def)
  next
    case False
    then show ?thesis using relay_reply_inv [OF ready, of m c h ?mine st bm t2] assms(2) res t' loc
      by (auto simp: mem_ok_def same_kind_def)
  qed
  then show ?thesis using quiet_kind [OF q] same_kind_trans by blast
qed

lemma fake_reply_total:
  assumes "ready t b FAKED_REPLY code"
  shows "fake_reply c h m b code t \<noteq> None"
proof -
  let ?t = "if is_invite t then set_uac b (mark_cancel c) t else t"
  have q: "quiet t ?t" using quiet_mark by (auto simp: quiet_def)
  note r = ready_quiet [OF assms q]
  show ?thesis
  proof (cases "is_local ?t")
    case True
    obtain x where "local_reply c h m ?t FAKED_REPLY b code = Some x" using local_reply_total [OF r] by blast
    then show ?thesis using True unfolding fake_reply_def Let_def if_P [OF True] by (cases x) simp
  next
    case False
    obtain x where "relay_reply c h m ?t FAKED_REPLY b code (if is_invite t \<and> should_cancel_branch c (uac t ! b) then push_bit b 1 else 0) = Some x"
      using relay_reply_total [OF r] by blast
    then show ?thesis using False unfolding fake_reply_def Let_def if_not_P [OF False] by (cases x) simp
  qed
qed

lemma tinv_on_negative: "tinv t \<Longrightarrow> tinv (t\<lparr>on_negative := n\<rparr>)" "tinv t \<Longrightarrow> tinv (t\<lparr>cancelled := xs\<rparr>)"
  by (auto simp: tinv_def sent_inv_def stored_but_def lively_def armed_def ended_def)

lemma faked_code: "msg_code FAKED_REPLY code"
  by (simp add: msg_code_def)

lemma e2e_loop_inv:
  assumes "tinv t" "\<forall>i\<in>set is. i < length (uac t)" "\<not> is_local t" "\<forall>i. err_build_ok (ms i)"
  shows "\<exists>bs t'. e2e_loop c hs ms pok bm is t = Some (bs, t') \<and> tinv t' \<and> same_kind t t'"
  using assms
proof (induction "is" arbitrary: t)
  case (Cons i "is")
  let ?sent = "bm AND push_bit i 1 \<noteq> 0 \<and> pok i"
  consider "?sent" | (faked) "\<not> ?sent" "last_received (uac t ! i) < 100" | "\<not> ?sent" "\<not> last_received (uac t ! i) < 100" by blast
  then show ?case
  proof cases
    case 1
    then show ?thesis using Cons.IH [of "t\<lparr>cancelled := cancelled t @ [i]\<rparr>"] Cons.prems tinv_on_negative(2) by (simp add: same_kind_def)
  next
    case faked
    have ready: "ready (set_uac i reset_timers t) i FAKED_REPLY 487"
      by (rule ready_stop) (use Cons.prems faked_code in simp_all)
    obtain st jk t1 where r: "relay_reply c (hs i) (ms i) (set_uac i reset_timers t) FAKED_REPLY i 487 (junk (ms i)) = Some (st, jk, t1)"
      using relay_reply_total [OF ready] by (metis option.exhaust surj_pair)
    have t1: "tinv t1" "same_kind t t1" using relay_reply_inv [OF ready _ r] Cons.prems(4) by (simp_all add: same_kind_def)
    then obtain bs t' where "e2e_loop c hs ms pok bm is t1 = Some (bs, t')" "tinv t'" "same_kind t1 t'"
      using Cons.IH [OF t1(1)] Cons.prems(2-4) by (force simp: same_kind_def)
    then show ?thesis
      using same_kind_trans [OF t1(2)] unfolding e2e_loop.simps if_not_P [OF faked(1)] if_P [OF faked(2)] r by simp
  next
    case 3
    then have "e2e_loop c hs ms pok bm (i # is) t = e2e_loop c hs ms pok bm is t" by auto
    then show ?thesis using Cons.IH [OF Cons.prems(1)] Cons.prems(2-4) by simp
  qed
qed simp

definition event_ok :: "bool \<Rightarrow> event \<Rightarrow> bool" where
  "event_ok loc ev \<longleftrightarrow>
     (case ev of
        Reply b r h m \<Rightarrow> REPLY_STATUS r < 999 \<and> mem_ok loc m
      | Fr_Hit b h m \<Rightarrow> mem_ok loc m
      | Retr_Failed b h m \<Rightarrow> mem_ok loc m
      | Invite_Cancelled hs ms pok \<Rightarrow> \<forall>i. err_build_ok (ms i)
      | _ \<Rightarrow> True)"

lemma handle_inv:
  assumes "tinv t" "enabled ev t" "event_ok (is_local t) ev"
  shows "\<exists>bs t'. handle c ev t = Some (bs, t') \<and> tinv t' \<and> same_kind t t'"
proof (cases ev)
  case (Reply b r h m)
  then have b: "b < length (uac t)" "REPLY_STATUS r < 999" "mem_ok (is_local t) m"
    using assms(2,3) by (simp_all add: nr_of_outgoings_def event_ok_def)
  have ready: "ready (set_uac b (stop_timers (REPLY_STATUS r)) t) b (Received r) (REPLY_STATUS r)"
    by (rule ready_stop) (use assms(1) b in \<open>simp_all add: msg_code_def\<close>)
  have "reply_received c h m b r t \<noteq> None"
    by (rule reply_received_total [OF ready])
  then show ?thesis using reply_received_inv [OF assms(1) b] Reply by fastforce
next
  case (Fr_Hit b h m)
  have ready: "ready (set_uac b reset_timers t) b FAKED_REPLY 408"
    by (rule ready_stop) (use assms faked_code Fr_Hit in \<open>simp_all add: nr_of_outgoings_def\<close>)
  have "tinv (put_on_wait (set_uac b reset_timers t))"
    using ready by (intro tinv_put_on_wait) (simp_all add: ready_def)
  then show ?thesis
    using fake_reply_total [OF ready, of c h m] fake_reply_inv [OF ready, of m c h] assms(3) Fr_Hit
    by (auto simp: final_response_handler_def event_ok_def Let_def same_kind_def split: if_splits)
next
  case (Retr_Failed b h m)
  have ready: "ready (set_uac b reset_timers t) b FAKED_REPLY 503"
    by (rule ready_stop) (use assms faked_code Retr_Failed in \<open>simp_all add: nr_of_outgoings_def\<close>)
  then show ?thesis
    using fake_reply_total [OF ready, of c h m] fake_reply_inv [OF ready, of m c h] assms(3) Retr_Failed
    by (auto simp: retransmission_failed_def event_ok_def same_kind_def)
next
  case Response_Hit
  then show ?thesis using assms(1) by (simp add: response_timer_def tinv_def sent_inv_def stored_but_def lively_def same_kind_def)
next
  case (T_Reply code bok rok jk)
  obtain r t' where l: "reply_light c bok rok jk code t = (r, t')" by fastforce
  note p = reply_light_passes [OF l]
  then show ?thesis using tinv_passes [OF p assms(1)] passesD(6-9) [OF p] T_Reply l by (simp add: same_kind_def)
next
  case Release
  then show ?thesis using assms(1)
    by (simp add: t_release_transaction_def tinv_def sent_inv_def stored_but_def stored_as_def lively_def same_kind_def reset_timers_def
        cleanup_uac_timers_def)
next
  case (Invite_Cancelled hs ms pok)
  obtain bm t1 where w: "which_cancel c (t\<lparr>on_negative := 0\<rparr>) 0 = (bm, t1)" by fastforce
  note q = which_cancel_quiet [OF w]
  have "tinv t1" by (rule tinv_passes [OF quiet_passes [OF q]]) (rule tinv_on_negative [OF assms(1)])
  moreover have "same_kind t t1" using quiet_kind [OF q] by (simp add: same_kind_def)
  moreover have "\<forall>i\<in>set [0..<nr_of_outgoings t1]. i < length (uac t1)" by (simp add: nr_of_outgoings_def)
  ultimately obtain bs t' where "e2e_loop c hs ms pok bm [0..<nr_of_outgoings t1] t1 = Some (bs, t')" "tinv t'" "same_kind t1 t'"
    using e2e_loop_inv [of t1 "[0..<nr_of_outgoings t1]" ms c hs pok bm] assms(2,3) Invite_Cancelled
    by (force simp: event_ok_def same_kind_def)
  then show ?thesis using Invite_Cancelled w \<open>same_kind t t1\<close> same_kind_trans by (auto simp: e2e_cancel_def)
qed

lemma forwarded_tinv:
  assumes "forwarded t"
  shows "tinv t"
proof -
  obtain t0 ss where t0: "uac t0 = []" "uas_status t0 < 200" "sent_up t0 = []" "t = t_forward_nonack ss t0" "uac t \<noteq> []"
    using assms by (auto simp: forwarded_def)
  obtain us where us: "t = t0\<lparr>uac := map (start_retr \<circ> new_uac) us\<rparr>"
    using forward_adds [of ss t0] t0(1,4) by (metis append_Nil)
  have "armed t" using t0(2) by (auto simp: us armed_def)
  moreover have "last_received (hd (uac t)) = 0" "hd (uac t) \<in> set (uac t)" using t0(5) by (auto simp: us hd_map)
  ultimately show ?thesis using t0(3)
    by (auto simp: tinv_def sent_inv_def sent_ok_def lively_def us stored_but_def)
qed

lemma reach_inv:
  assumes "reach c (event_ok (is_local t0)) t0 s" "forwarded t0"
  shows "tinv (fst s) \<and> same_kind t0 (fst s)"
  using assms(1)
proof induction
  case start
  then show ?case using forwarded_tinv [OF assms(2)] by simp
next
  case (more s s')
  from more(2) show ?case
  proof cases
    case (handled ev t bs t' ps)
    then show ?thesis using more(3) handle_inv [of t ev c] same_kind_trans by (auto simp: same_kind_def)
  next
    case (cancels t ps bm qs)
    have "quiet t (cancel_uacs bm t)" by (rule cancel_uacs_quiet)
    then show ?thesis using more(3) cancels tinv_passes [OF quiet_passes] same_kind_trans [OF _ quiet_kind] by auto
  qed
qed

end
