(* ===== verification/Tm_Cancel.thy ===== *)
theory Tm_Cancel
  imports Tm_History
begin

section \<open>CANCELs of a transaction\<close>

text \<open>
  Under the lock a process marks the branches it will cancel (\<open>which_cancel\<close>) and it sends the
  CANCELs later, when other processes may have found branches to cancel of their own. A branch is
  loaded at most once: the CANCELs sent to it and the pending bitmaps that name it are together
  at most one, and none as long as the branch is not marked. That holds through every handler
  whose allocations succeed.
\<close>


subsection \<open>Bitmaps\<close>

lemma test_bit: "(bm AND push_bit i 1 \<noteq> 0) = bit (bm :: u32) i"
  by (simp only: bit_iff_and_push_bit_not_eq_0)

lemma which_loop_bit:
  "k + length us \<le> 32 \<Longrightarrow>
    bit (which_loop c us k bm) i \<longleftrightarrow> bit bm i \<or> (\<exists>j<length us. i = k + j \<and> should_cancel_branch c (us ! j))"
proof (induction us arbitrary: k bm)
  case (Cons u us)
  have "bit (bm OR push_bit k 1) i \<longleftrightarrow> bit bm i \<or> i = k" if "k < 32"
    using that unfolding bit_or_iff bit_push_bit_iff by (auto simp: bit_1_iff)
  moreover have "k < 32" using Cons.prems by simp
  ultimately have "bit (which_loop c (u # us) k bm) i \<longleftrightarrow>
      bit bm i \<or> i = k \<and> should_cancel_branch c u \<or> (\<exists>j<length us. i = Suc k + j \<and> should_cancel_branch c (us ! j))"
    using Cons.IH [of "Suc k"] Cons.prems by auto
  also have "\<dots> \<longleftrightarrow> bit bm i \<or> (\<exists>j<Suc (length us). i = k + j \<and> should_cancel_branch c ((u # us) ! j))"
    unfolding less_Suc_cases by auto
  finally show ?case by simp
qed simp

lemma which_cancel_bit:
  assumes "which_cancel c t bm = (bm', t')" "length (uac t) \<le> 30"
  shows "bit bm' i \<longleftrightarrow> bit bm i \<or> i < length (uac t) \<and> should_cancel_branch c (uac t ! i)"
  using assms which_loop_bit [of 0 "uac t" c bm i] by (auto simp: which_cancel_def)

subsection \<open>Branches with a pending or sent CANCEL\<close>

text \<open>How often a branch has been or is about to be sent a CANCEL; it is marked from then on.\<close>

definition load :: "cell \<Rightarrow> u32 list \<Rightarrow> nat \<Rightarrow> nat" where
  "load t ps b = count_list (cancelled t) b + length (filter (\<lambda>bm. bit bm b) ps)"

definition marked :: "cell \<Rightarrow> nat \<Rightarrow> bool" where
  "marked t b \<longleftrightarrow> b < length (uac t) \<and> local_cancel (uac t ! b) \<noteq> No_Buffer"

definition cinv :: "cell \<Rightarrow> u32 list \<Rightarrow> bool" where
  "cinv t ps \<longleftrightarrow> length (uac t) \<le> 30 \<and> (\<forall>b. load t ps b \<le> (if marked t b then 1 else 0))"

text \<open>Nothing is cancelled and no mark removed.\<close>

definition calm :: "cell \<Rightarrow> cell \<Rightarrow> bool" where
  "calm t t' \<longleftrightarrow> cancelled t' = cancelled t \<and> length (uac t') \<le> 30 \<and> (\<forall>b. marked t b \<longrightarrow> marked t' b)"

lemma cinv_calm:
  assumes "cinv t ps" "calm t t'"
  shows "cinv t' ps"
proof -
  have "load t' ps b \<le> (if marked t' b then 1 else 0)" for b
  proof -
    have "load t' ps b = load t ps b" using assms(2) by (simp add: calm_def load_def)
    moreover have "load t ps b \<le> (if marked t b then 1 else 0)" "marked t b \<longrightarrow> marked t' b"
      using assms by (simp_all add: cinv_def calm_def)
    ultimately show ?thesis by (auto split: if_splits)
  qed
  then show ?thesis using assms(2) by (simp add: cinv_def calm_def)
qed

lemma mark_local [simp]: "local_cancel (mark_cancel c u) = (if should_cancel_branch c u then BUSY_BUFFER else local_cancel u)"
  by (simp add: mark_cancel_def)

lemma calm_same:
  assumes "length (uac t) \<le> 30" "cancelled t' = cancelled t" "length (uac t') = length (uac t)"
    and "\<And>i. i < length (uac t) \<Longrightarrow> local_cancel (uac t' ! i) = local_cancel (uac t ! i)"
  shows "calm t t'"
  using assms by (simp add: calm_def marked_def)

lemma cinv_zero: "cinv t (0 # ps) = cinv t ps"
  by (simp add: cinv_def load_def)

lemma cinv_perm: "cinv t (ps @ bm # qs) = cinv t (bm # ps @ qs)"
  by (simp add: cinv_def load_def)

lemma cinv_drop:
  assumes "cinv t (bm # ps)" shows "cinv t ps"
proof -
  have "load t ps b \<le> load t (bm # ps) b" for b by (simp add: load_def)
  then show ?thesis using assms le_trans unfolding cinv_def by blast
qed

lemma cinv_which:
  assumes "cinv t (bm # ps)" "which_cancel c t bm = (bm', t')"
  shows "cinv t' (bm' # ps)"
proof -
  have n: "length (uac t) \<le> 30" using assms(1) by (simp add: cinv_def)
  note b = which_cancel_bit [OF assms(2) n] and f = which_fields [OF assms(2)]
  have m: "marked t' i \<longleftrightarrow> marked t i \<or> i < length (uac t) \<and> should_cancel_branch c (uac t ! i)" for i
    by (auto simp: marked_def f(1) split: if_splits)
  have "load t' (bm' # ps) i \<le> (if marked t' i then 1 else 0)" for i
  proof (cases "i < length (uac t) \<and> should_cancel_branch c (uac t ! i)")
    case True
    then have "\<not> marked t i" by (auto simp: marked_def should_cancel_branch_def)
    moreover have "load t (bm # ps) i \<le> (if marked t i then 1 else 0)" using assms(1) by (simp add: cinv_def)
    ultimately have "load t (bm # ps) i = 0" by simp
    then show ?thesis using True b m f(6) by (auto simp: load_def split: if_splits)
  next
    case False
    have l: "load t (bm # ps) i \<le> (if marked t i then 1 else 0)" using assms(1) by (simp add: cinv_def)
    have "bit bm' i = bit bm i" using False b [of i] by blast
    then have "load t' (bm' # ps) i = load t (bm # ps) i" using f(6) by (simp add: load_def)
    then show ?thesis using l m [of i] False by simp
  qed
  then show ?thesis using n f(1) by (simp add: cinv_def)
qed

lemma cancel_branch_load:
  assumes "b < length (uac t)"
  shows "marked t i \<longrightarrow> marked (cancel_branch b t) i"
    and "count_list (cancelled (cancel_branch b t)) i \<le> count_list (cancelled t) i + (if i = b then 1 else 0)"
proof -
  have "local_cancel (uac (cancel_branch b t) ! i) = local_cancel (uac t ! i) \<or> local_cancel (uac (cancel_branch b t) ! i) = Cancel_Sent"
    if "i < length (uac t)"
    using cancel_branch_uac [OF that, of b] by auto
  then show "marked t i \<longrightarrow> marked (cancel_branch b t) i" by (auto simp: marked_def)
qed (simp add: cancel_branch_def)

lemma cancel_loop_load:
  assumes "k + n = length (uac t)" "length (uac t) \<le> 30" 
  shows "(marked t i \<longrightarrow> marked (cancel_loop n k bm t) i) \<and> length (uac (cancel_loop n k bm t)) = length (uac t) \<and>
    count_list (cancelled (cancel_loop n k bm t)) i \<le> count_list (cancelled t) i + (if k \<le> i \<and> i < k + n \<and> bit bm i then 1 else 0)"
  using assms
proof (induction n arbitrary: k t)
  case (Suc n)
  let ?t = "if bm AND push_bit k 1 \<noteq> 0 then cancel_branch k t else t"
  have k: "k < length (uac t)" using Suc.prems by simp
  have len: "length (uac ?t) = length (uac t)" by simp
  have "(marked ?t i \<longrightarrow> marked (cancel_loop n (Suc k) bm ?t) i) \<and> length (uac (cancel_loop n (Suc k) bm ?t)) = length (uac ?t) \<and>
    count_list (cancelled (cancel_loop n (Suc k) bm ?t)) i \<le> count_list (cancelled ?t) i + (if Suc k \<le> i \<and> i < Suc k + n \<and> bit bm i then 1 else 0)"
    by (rule Suc.IH) (use Suc.prems len in simp_all)
  moreover have "marked t i \<longrightarrow> marked ?t i"
    "count_list (cancelled ?t) i \<le> count_list (cancelled t) i + (if i = k \<and> bit bm k then 1 else 0)"
    using cancel_branch_load [OF k, of i] unfolding test_bit by (auto split: if_splits)
  ultimately show ?case using len unfolding cancel_loop.simps by (auto split: if_splits)
qed simp

lemma cinv_cancel:
  assumes "cinv t (bm # ps)"
  shows "cinv (cancel_uacs bm t) ps"
proof -
  have n: "length (uac t) \<le> 30" using assms by (simp add: cinv_def)
  have "load (cancel_uacs bm t) ps i \<le> (if marked (cancel_uacs bm t) i then 1 else 0)" for i
  proof -
    have l: "load t (bm # ps) i \<le> (if marked t i then 1 else 0)" using assms by (simp add: cinv_def)
    have c: "(marked t i \<longrightarrow> marked (cancel_uacs bm t) i) \<and>
      count_list (cancelled (cancel_uacs bm t)) i \<le> count_list (cancelled t) i + (if bit bm i then 1 else 0)"
      using cancel_loop_load [of 0 "length (uac t)" t i bm] n by (auto simp: cancel_uacs_def nr_of_outgoings_def split: if_splits)
    have "load (cancel_uacs bm t) ps i \<le> load t (bm # ps) i"
      using c by (auto simp: load_def split: if_splits)
    then show ?thesis using l c by (auto split: if_splits)
  qed
  moreover have "length (uac (cancel_uacs bm t)) \<le> 30" using n cancel_uacs_quiet [of t bm] by (simp add: quiet_def)
  ultimately show ?thesis by (simp add: cinv_def)
qed


text \<open>Operations whose allocations succeed.\<close>

lemma cinv_updates:
  "cinv t ps \<Longrightarrow> cinv (set_last b code t) ps" "cinv t ps \<Longrightarrow> cinv (cleanup_uac_timers t) ps"
  "cinv t ps \<Longrightarrow> cinv (set_final_timer t) ps" "cinv t ps \<Longrightarrow> cinv (put_on_wait t) ps"
  "cinv t ps \<Longrightarrow> cinv (final_if_completed st t) ps" "cinv t ps \<Longrightarrow> cinv (keep_reply s b p t) ps"
  "cinv t ps \<Longrightarrow> cinv (set_uac b reset_timers t) ps" "cinv t ps \<Longrightarrow> cinv (set_uac b (stop_timers code) t) ps"
  "cinv t ps \<Longrightarrow> cinv (set_uac b (restart_timers t') t) ps"
proof -
  show "cinv t ps \<Longrightarrow> cinv (set_last b code t) ps" 
    by (rule cinv_calm, assumption, rule calm_same) (simp_all add: cinv_def set_last_nth)
  show "cinv t ps \<Longrightarrow> cinv (cleanup_uac_timers t) ps"
    by (rule cinv_calm, assumption, rule calm_same) (simp_all add: cinv_def reset_timers_def)
  show "cinv t ps \<Longrightarrow> cinv (keep_reply s b p t) ps"
    by (rule cinv_calm, assumption, rule calm_same) (simp_all add: cinv_def keep_reply_nth)
  show "cinv t ps \<Longrightarrow> cinv (set_uac b reset_timers t) ps"
    by (rule cinv_calm, assumption, rule calm_same) (simp_all add: cinv_def set_uac_nth reset_timers_def)
  show "cinv t ps \<Longrightarrow> cinv (set_uac b (stop_timers code) t) ps"
    by (rule cinv_calm, assumption, rule calm_same) (simp_all add: cinv_def set_uac_nth stop_timers_def)
  show "cinv t ps \<Longrightarrow> cinv (set_uac b (restart_timers t') t) ps"
    by (rule cinv_calm, assumption, rule calm_same) (simp_all add: cinv_def set_uac_nth restart_timers_def)
qed (simp_all add: cinv_def load_def marked_def)

lemma cinv_cong:
  assumes "uac t' = uac t" "cancelled t' = cancelled t"
  shows "cinv t' ps = cinv t ps"
  using assms by (simp add: cinv_def load_def marked_def)

lemma reply_light_cases:
  assumes "reply_light c bok rok jk code t = (r, t')"
    and "(if is_invite t then which_cancel c t (if bok then 0 else jk) else (0, t)) = (bm, t1)"
  obtains
    (refused) "reply_error bm t1 = (r, t')" "\<not> bok \<or> uas_status t1 \<ge> 200"
  | (unstored) "reply_error bm (t1\<lparr>uas_status := code, uas_buffer := None\<rparr>) = (r, t')" "\<not> rok"
  | (sent) t2 clean f where "t2 = t1\<lparr>uas_status := code, uas_buffer := Some (code, -2), relaied_reply_branch := -2\<rparr>"
      "clean = t2 \<or> clean = cleanup_uac_timers t2"
      "f = (if code \<ge> 200 then set_final_timer (if is_invite clean then cancel_uacs bm clean else clean) else t2)"
      "t' = f\<lparr>sent_up := sent_up f @ [(code, -2)]\<rparr>"
proof -
  let ?t2 = "t1\<lparr>uas_status := code, uas_buffer := Some (code, -2), relaied_reply_branch := -2\<rparr>"
  define clean where "clean = (if is_cancel ?t2 \<and> cancel_retransmission_flag c then ?t2 else cleanup_uac_timers ?t2)"
  define f where "f = (if code \<ge> 200 then set_final_timer (if is_invite clean then cancel_uacs bm clean else clean) else ?t2)"
  note d = assms(1) [unfolded reply_light_def Let_def assms(2) prod.case, folded clean_def, folded f_def]
  show thesis
  proof (cases "\<not> bok \<or> uas_status t1 \<ge> 200 \<or> \<not> rok")
    case True
    then show ?thesis using d refused unstored by (auto split: if_splits)
  next
    case False
    then have "t' = f\<lparr>sent_up := sent_up f @ [(code, -2)]\<rparr>" using d by simp
    moreover have "clean = ?t2 \<or> clean = cleanup_uac_timers ?t2" by (simp add: clean_def)
    ultimately show ?thesis using sent f_def by blast
  qed
qed

lemma cinv_reply_error:
  assumes "cinv t (bm # ps)" "reply_error bm t = (r, t')"
  shows "cinv t' ps"
proof -
  have c: "cinv (cleanup_uac_timers t) (bm # ps)" using assms(1) by (rule cinv_updates)
  have "t' = put_on_wait (cancel_uacs bm (cleanup_uac_timers t)) \<or> t' = put_on_wait (cleanup_uac_timers t)"
    using assms(2) by (auto simp: reply_error_def Let_def)
  then show ?thesis using cinv_updates(4) cinv_cancel [OF c] cinv_drop [OF c] by blast
qed

lemma cinv_reply_light:
  assumes "cinv t ps" "reply_light c True rok jk code t = (r, t')"
  shows "cinv t' ps"
proof -
  obtain bm t1 where w: "(if is_invite t then which_cancel c t (if True then 0 else jk) else (0, t)) = (bm, t1)"
    by (metis surj_pair)
  have c1: "cinv t1 (bm # ps)"
    using w assms(1) cinv_which [of t 0 ps c bm t1] by (auto simp: cinv_zero split: if_splits)
  from assms(2) w show ?thesis
  proof (cases rule: reply_light_cases)
    case unstored
    have "cinv (t1\<lparr>uas_status := code, uas_buffer := None\<rparr>) (bm # ps)" by (subst cinv_cong [of _ t1]) (simp_all add: c1)
    then show ?thesis using unstored(1) by (rule cinv_reply_error)
  next
    case (sent t2 clean f)
    have t2: "cinv t2 (bm # ps)" by (subst cinv_cong [of _ t1]) (simp_all add: sent(1) c1)
    then have clean: "cinv clean (bm # ps)" using sent(2) cinv_updates(2) by blast
    then have "cinv (if is_invite clean then cancel_uacs bm clean else clean) ps"
      using cinv_cancel cinv_drop by simp
    then have "cinv f ps" using cinv_drop [OF t2] cinv_updates(3) by (simp add: sent(3))
    then show ?thesis by (subst cinv_cong [of _ f]) (simp_all add: sent(4))
  qed (use cinv_reply_error [OF c1] in blast)
qed

definition fop_ok :: "fop \<Rightarrow> bool" where
  "fop_ok f \<longleftrightarrow> (case f of F_Reply code bok rok jk \<Rightarrow> bok | _ \<Rightarrow> True)"

definition handler_ok :: "handler \<Rightarrow> bool" where
  "handler_ok h \<longleftrightarrow> list_all fop_ok (cb_ops h) \<and> list_all fop_ok (route_ops h)"

lemma cinv_fop:
  assumes "cinv t ps" "fop_ok f"
  shows "cinv (run_fop c f t) ps"
proof (cases f)
  case (F_Reply code bok rok jk)
  obtain r t' where "reply_light c True rok jk code t = (r, t')" by fastforce
  then show ?thesis using cinv_reply_light [OF assms(1)] assms(2) F_Reply by (simp add: run_fop_def fop_ok_def)
next
  case (F_Forward ss)
  obtain us where us: "t_forward_nonack ss t = t\<lparr>uac := uac t @ map (start_retr \<circ> new_uac) us\<rparr>"
    "length (uac t) \<le> 30 \<longrightarrow> length (uac t) + length us \<le> 30"
    using forward_adds by blast
  then have "calm t (t_forward_nonack ss t)" using assms(1) by (auto simp: calm_def marked_def nth_append cinv_def)
  then show ?thesis using cinv_calm [OF assms(1)] F_Forward by (simp add: run_fop_def)
next
  case (F_On_Negative n)
  then show ?thesis using assms(1) by (simp add: run_fop_def cinv_def load_def marked_def)
qed

lemma cinv_fold: "cinv t ps \<Longrightarrow> list_all fop_ok fs \<Longrightarrow> cinv (fold (run_fop c) fs t) ps"
  by (induction fs arbitrary: t) (simp_all add: cinv_fop)

lemma cinv_handlers:
  assumes "cinv t ps" "handler_ok h"
  shows "cinv (run_failure_handlers c h t) ps"
proof -
  define t1 where "t1 = (if on_failure_cb t then fold (run_fop c) (cb_ops h) t else t)"
  have "cinv t1 ps" using assms cinv_fold by (simp add: t1_def handler_ok_def)
  moreover from this have "cinv (fold (run_fop c) (route_ops h) (t1\<lparr>on_negative := 0\<rparr>)) ps"
    using assms(2) by (intro cinv_fold) (simp_all add: handler_ok_def cinv_def load_def marked_def)
  ultimately show ?thesis using assms(1) unfolding run_failure_handlers_def Let_def t1_def [symmetric] by simp
qed

lemma cinv_verdict:
  assumes "handler_ok h" "t_should_relay_response c h t code b bm = (v, bm', t1)"
  shows "cinv t (bm # ps) \<Longrightarrow> cinv t1 (bm' # ps)" and "code > 302 \<Longrightarrow> cinv t qs \<Longrightarrow> cinv t1 qs \<and> bm' = bm"
proof -
  obtain bm2 t2 where w: "which_cancel c (set_last b code t) bm = (bm2, t2)" by fastforce
  have "(bm', t1) \<in> {(bm, t), (bm, set_last b code t), (bm, run_failure_handlers c h (set_last b code t))} \<or>
    code \<le> 302 \<and> (bm', t1) = (bm2, t2)"
    using assms(2) unfolding t_should_relay_response_def Let_def w
    by (auto split: if_splits prod.splits)
  moreover have l: "cinv (set_last b code t) ps" if "cinv t ps" for ps using that by (rule cinv_updates)
  moreover have "cinv (run_failure_handlers c h (set_last b code t)) ps" if "cinv t ps" for ps
    using cinv_handlers [OF l [OF that] assms(1)] .
  moreover have "cinv t2 (bm2 # ps)" if "cinv t (bm # ps)" using cinv_which [OF l [OF that] w] .
  ultimately show "cinv t (bm # ps) \<Longrightarrow> cinv t1 (bm' # ps)" "code > 302 \<Longrightarrow> cinv t qs \<Longrightarrow> cinv t1 qs \<and> bm' = bm" by auto
qed

definition all_ok :: "handler \<Rightarrow> mem \<Rightarrow> bool" where
  "all_ok h m \<longleftrightarrow> handler_ok h \<and> clone_ok m \<and> build_ok m \<and> resize_ok m"

text \<open>Relaying neither sends nor forgets a CANCEL; a code above 302 leaves the bitmap as it is.\<close>

lemma cinv_relay:
  assumes "all_ok h m" "relay_reply c h m t p b code bm = Some (st, bm', t')"
  shows "cinv t (bm # ps) \<Longrightarrow> cinv t' (bm' # ps)" and "code > 302 \<Longrightarrow> cinv t qs \<Longrightarrow> cinv t' qs \<and> bm' = bm"
    and "st \<noteq> RPS_ERROR"
proof -
  obtain v bm1 t1 where v: "t_should_relay_response c h t code b bm = (v, bm1, t1)"
    by (metis surj_pair)
  have ok: "handler_ok h" using assms(1) by (simp add: all_ok_def)
  have vs: "v_status v \<noteq> RPS_ERROR" using v by (elim verdict_cases) (auto simp: discard_def)
  from assms(2) v have r: "bm' = bm1 \<and> st = v_status v \<and> (\<forall>ps. cinv t1 ps \<longrightarrow> cinv t' ps)"
  proof (cases rule: relay_cases)
    case (failed t2)
    then show ?thesis using assms(1) by (simp add: all_ok_def)
  next
    case kept
    then show ?thesis using cinv_updates(5,6) by blast
  next
    case (relayed r q)
    then show ?thesis using cinv_cong [of t' t1] by simp
  qed
  show "cinv t' (bm' # ps)" if "cinv t (bm # ps)" using cinv_verdict(1) [OF ok v that] r by simp
  show "cinv t' qs \<and> bm' = bm" if "code > 302" "cinv t qs" using cinv_verdict(2) [OF ok v that] r by simp
  show "st \<noteq> RPS_ERROR" using r vs by simp
qed

lemma cinv_local:
  assumes "all_ok h m" "local_reply c h m t p b code = Some (st, bm', t')" "cinv t ps"
  shows "cinv t' (bm' # ps)" "st \<noteq> RPS_ERROR"
proof -
  obtain v bm1 t1 where v: "t_should_relay_response c h t code b 0 = (v, bm1, t1)"
    by (metis surj_pair)
  have ok: "handler_ok h" "clone_ok m" using assms(1) by (simp_all add: all_ok_def)
  have vs: "v_status v \<noteq> RPS_ERROR" using v by (elim verdict_cases) (auto simp: discard_def)
  have st: "(if should_store v then store_reply (clone_ok m) b p t1 else (True, t1)) = (True, keep_reply (should_store v) b p t1)"
    using ok(2) by (simp add: store_reply_def keep_reply_def)
  note r = assms(2) [unfolded local_reply_def Let_def v prod.case st]
  have c1: "cinv t1 (bm1 # ps)" by (rule cinv_verdict(1) [OF ok(1) v]) (simp add: cinv_zero assms(3))
  have "bm' = bm1 \<and> st = v_status v \<and> uac t' = uac (keep_reply (should_store v) b p t1) \<and> cancelled t' = cancelled t1"
  proof (cases "should_relay v < 0")
    case True
    then show ?thesis using r by auto
  next
    case False
    then show ?thesis using r by (simp split: if_splits option.splits) auto
  qed
  then show "cinv t' (bm' # ps)" "st \<noteq> RPS_ERROR"
    using cinv_updates(6) [OF c1, of "should_store v" b p] cinv_cong [of t' "keep_reply (should_store v) b p t1"] vs by simp_all
qed

lemma cinv_append: "cinv t (ps @ qs) = cinv t (qs @ ps)"
  by (simp add: cinv_def load_def add.commute)

lemma cinv_reply_received:
  assumes "cinv t ps" "all_ok h m" "reply_received c h m b r t = Some (bs, t')"
  shows "cinv t' (bs @ ps)"
proof -
  let ?code = "REPLY_STATUS r" and ?t = "set_uac b (stop_timers (REPLY_STATUS r)) t"
  obtain st bm t1 where res: "(if is_local t then local_reply c h m ?t (Received r) b ?code
      else relay_reply c h m ?t (Received r) b ?code 0) = Some (st, bm, t1)"
    using assms(3) unfolding reply_received_def Let_def by (auto split: option.splits)
  have t: "cinv ?t ps" using assms(1) by (rule cinv_updates)
  have t1: "cinv t1 (bm # ps) \<and> st \<noteq> RPS_ERROR"
  proof (cases "is_local t")
    case True
    then show ?thesis using cinv_local [OF assms(2) _ t, of c "Received r" b ?code st bm t1] res by simp
  next
    case False
    then have "relay_reply c h m ?t (Received r) b ?code 0 = Some (st, bm, t1)" using res by simp
    from cinv_relay(1,3) [OF assms(2) this] t show ?thesis by (simp add: cinv_zero)
  qed
  define t2 where "t2 = (if st = RPS_COMPLETED then cleanup_uac_timers t1 else t1)"
  define t3 where "t3 = (if st = RPS_COMPLETED \<and> is_local t2 then put_on_wait t2 else t2)"
  have t3: "cinv t3 (bm # ps)" using t1 cinv_updates(2,4) by (simp add: t3_def t2_def)
  have "t' = t3 \<or> t' = set_uac b (restart_timers t3) t3" "bs = [bm] \<or> bs = []"
    using assms(3) res t1 unfolding reply_received_def Let_def t2_def t3_def by (auto split: if_splits)
  moreover from this(1) have "cinv t' (bm # ps)" using cinv_updates(9) [OF t3] t3 by blast
  ultimately show ?thesis using cinv_drop [of t' bm ps] by auto
qed

lemma cinv_mark:
  assumes "cinv t ps" "b < length (uac t)" "should_cancel_branch c (uac t ! b)"
  shows "cinv (set_uac b (mark_cancel c) t) (push_bit b 1 # ps)"
proof -
  let ?t = "set_uac b (mark_cancel c) t"
  have n: "length (uac t) \<le> 30" using assms(1) by (simp add: cinv_def)
  have m: "marked ?t i \<longleftrightarrow> marked t i \<or> i = b" for i
    using assms(2,3) by (auto simp: marked_def set_uac_nth if_distrib [of local_cancel] split: if_splits)
  have bit: "bit (push_bit b 1 :: u32) i \<longleftrightarrow> i = b" for i
    using n assms(2) unfolding bit_push_bit_iff by (auto simp: bit_1_iff)
  have "load ?t (push_bit b 1 # ps) i \<le> (if marked ?t i then 1 else 0)" for i
  proof (cases "i = b")
    case True
    have "\<not> marked t b" using assms(3) by (simp add: marked_def should_cancel_branch_def)
    moreover have "load t ps b \<le> (if marked t b then 1 else 0)" using assms(1) by (simp add: cinv_def)
    ultimately show ?thesis using True m bit by (simp add: load_def del: push_bit_of_1)
  next
    case False
    moreover have "load t ps i \<le> (if marked t i then 1 else 0)" using assms(1) by (simp add: cinv_def)
    ultimately show ?thesis using m bit by (simp add: load_def del: push_bit_of_1)
  qed
  then show ?thesis using n by (simp add: cinv_def)
qed

lemma cinv_fake_reply:
  assumes "cinv t ps" "b < length (uac t)" "code > 302" "all_ok h m" "fake_reply c h m b code t = Some (bs, t')"
  shows "cinv t' (bs @ ps)"
proof -
  define mine :: "u32 list" where "mine = (if is_invite t \<and> should_cancel_branch c (uac t ! b) then [push_bit b 1] else [])"
  define t1 where "t1 = (if is_invite t then set_uac b (mark_cancel c) t else t)"
  let ?bm = "if is_invite t \<and> should_cancel_branch c (uac t ! b) then push_bit b 1 else 0 :: u32"
  have t1: "cinv t1 (mine @ ps)"
  proof (cases "mine = []")
    case True
    then have "t1 = t" by (auto simp: mine_def t1_def set_uac_def mark_cancel_def split: if_splits)
    then show ?thesis using True assms(1) by simp
  next
    case False
    then show ?thesis using cinv_mark [OF assms(1,2), of c] by (simp add: mine_def t1_def del: push_bit_of_1 split: if_splits)
  qed
  obtain st bm t2 where res: "(if is_local t1 then local_reply c h m t1 FAKED_REPLY b code
      else relay_reply c h m t1 FAKED_REPLY b code ?bm) = Some (st, bm, t2)"
    and t': "t' = (if st = RPS_COMPLETED \<and> is_local t2 then put_on_wait t2 else t2)"
    and bs: "bs = (if st = RPS_ERROR \<and> is_invite t2 then [bm] else []) @ mine"
    using assms(5) unfolding fake_reply_def Let_def t1_def mine_def by (auto split: option.splits)
  have "cinv t2 (mine @ ps) \<and> st \<noteq> RPS_ERROR"
  proof (cases "is_local t1")
    case True
    then have "local_reply c h m t1 FAKED_REPLY b code = Some (st, bm, t2)" using res by simp
    from cinv_local [OF assms(4) this t1] show ?thesis using cinv_drop by blast
  next
    case False
    then have "relay_reply c h m t1 FAKED_REPLY b code ?bm = Some (st, bm, t2)" using res by simp
    from cinv_relay(2,3) [OF assms(4) this] assms(3) t1 show ?thesis by blast
  qed
  then show ?thesis using t' bs cinv_updates(4) by simp
qed

lemma cinv_send:
  assumes "cinv t (x # ps)" "bit x i"
  shows "cinv (t\<lparr>cancelled := cancelled t @ [i]\<rparr>) (unset_bit i x # ps)"
proof -
  have "load (t\<lparr>cancelled := cancelled t @ [i]\<rparr>) (unset_bit i x # ps) j = load t (x # ps) j" for j
    using assms(2) by (auto simp: load_def bit_unset_bit_iff)
  then show ?thesis using assms(1) by (simp add: cinv_def marked_def)
qed

lemma cinv_e2e_loop:
  assumes "cinv t (x # ps)" "\<forall>i\<in>set is. bit bm i \<longrightarrow> bit x i" "distinct is" "\<forall>i. all_ok (hs i) (ms i)"
    and "e2e_loop c hs ms pok bm is t = Some (bs, t')"
  shows "cinv t' (bs @ ps)"
  using assms
proof (induction "is" arbitrary: t x bs)
  case Nil
  then show ?case using cinv_drop by simp
next
  case (Cons i "is")
  consider (cancel) "bit bm i \<and> pok i" | (fake) "\<not> (bit bm i \<and> pok i)" "last_received (uac t ! i) < 100"
    | (none) "\<not> (bit bm i \<and> pok i)" "\<not> last_received (uac t ! i) < 100" by blast
  then show ?case
  proof cases
    case cancel
    let ?t = "t\<lparr>cancelled := cancelled t @ [i]\<rparr>"
    have "e2e_loop c hs ms pok bm is ?t = Some (bs, t')" using Cons.prems(5) cancel unfolding e2e_loop.simps test_bit by simp
    moreover have "\<forall>j\<in>set is. bit bm j \<longrightarrow> bit (unset_bit i x) j" using Cons.prems(2,3) by (auto simp: bit_unset_bit_iff)
    moreover have "cinv ?t (unset_bit i x # ps)" by (rule cinv_send) (use Cons.prems(1,2) cancel in simp_all)
    ultimately show ?thesis using Cons.IH [of ?t "unset_bit i x"] Cons.prems(3,4) by simp
  next
    case fake
    have t: "cinv (set_uac i reset_timers t) (x # ps)" using Cons.prems(1) by (rule cinv_updates)
    obtain st jk t1 bs1 where r: "relay_reply c (hs i) (ms i) (set_uac i reset_timers t) FAKED_REPLY i 487 (junk (ms i)) = Some (st, jk, t1)"
      and l: "e2e_loop c hs ms pok bm is t1 = Some (bs1, t')" and bs: "bs = (if st = RPS_ERROR \<and> is_invite t' then [jk] else []) @ bs1"
      using Cons.prems(5) fake unfolding e2e_loop.simps test_bit by (auto split: option.splits)
    note cr = cinv_relay [OF spec [OF Cons.prems(4)] r]
    have "cinv t1 (x # ps)" using cr(2) t by simp
    then have "cinv t' (bs1 @ ps)" using Cons.IH [OF _ _ _ _ l] Cons.prems by simp
    then show ?thesis using bs cr(3) by simp
  next
    case none
    then have "e2e_loop c hs ms pok bm is t = Some (bs, t')" using Cons.prems(5) unfolding e2e_loop.simps test_bit by (auto split: if_splits)
    then show ?thesis using Cons.IH [of t x bs] Cons.prems by simp
  qed
qed

definition event_all_ok :: "event \<Rightarrow> bool" where
  "event_all_ok ev \<longleftrightarrow>
     (case ev of
        Reply b r h m \<Rightarrow> all_ok h m
      | Fr_Hit b h m \<Rightarrow> all_ok h m
      | Retr_Failed b h m \<Rightarrow> all_ok h m
      | T_Reply code bok rok jk \<Rightarrow> bok
      | Invite_Cancelled hs ms pok \<Rightarrow> \<forall>i. all_ok (hs i) (ms i)
      | _ \<Rightarrow> True)"

lemma cinv_handle:
  assumes "cinv t ps" "enabled ev t" "event_all_ok ev" "handle c ev t = Some (bs, t')"
  shows "cinv t' (bs @ ps)"
proof (cases ev)
  case (Reply b r h m)
  then show ?thesis using cinv_reply_received [OF assms(1)] assms(3,4) by (simp add: event_all_ok_def)
next
  case (Fr_Hit b h m)
  have t: "cinv (set_uac b reset_timers t) ps" using assms(1) by (rule cinv_updates)
  have "bs = [] \<and> t' = put_on_wait (set_uac b reset_timers t) \<or> fake_reply c h m b 408 (set_uac b reset_timers t) = Some (bs, t')"
    using assms(4) Fr_Hit by (auto simp: final_response_handler_def Let_def split: if_splits)
  then show ?thesis
  proof (elim disjE)
    assume "fake_reply c h m b 408 (set_uac b reset_timers t) = Some (bs, t')"
    then show ?thesis using cinv_fake_reply [OF t, of b 408 h m c bs t'] assms(2,3) Fr_Hit by (simp add: event_all_ok_def nr_of_outgoings_def)
  qed (use cinv_updates(4) [OF t] in simp)
next
  case (Retr_Failed b h m)
  have t: "cinv (set_uac b reset_timers t) ps" using assms(1) by (rule cinv_updates)
  then show ?thesis
    using cinv_fake_reply [OF t, of b 503 h m c bs t'] assms(2-4) Retr_Failed
    by (simp add: event_all_ok_def nr_of_outgoings_def retransmission_failed_def)
next
  case Response_Hit
  then show ?thesis using assms(1,4) cinv_cong [of t' t] by (auto simp: response_timer_def put_on_wait_def)
next
  case (T_Reply code bok rok jk)
  obtain r t1 where "reply_light c True rok jk code t = (r, t1)" by fastforce
  then show ?thesis using cinv_reply_light [OF assms(1)] assms(3,4) T_Reply by (simp add: event_all_ok_def)
next
  case Release
  have "cinv (t\<lparr>uas_fr := False, uas_retr := False\<rparr>) ps" using assms(1) by (subst cinv_cong [of _ t]) simp_all
  from cinv_updates(4) [OF cinv_updates(2) [OF this]] show ?thesis using assms(4) Release by (simp add: t_release_transaction_def)
next
  case (Invite_Cancelled hs ms pok)
  obtain bm t1 where w: "which_cancel c (t\<lparr>on_negative := 0\<rparr>) 0 = (bm, t1)" by fastforce
  have "cinv (t\<lparr>on_negative := 0\<rparr>) (0 # ps)" using assms(1) cinv_cong [of "t\<lparr>on_negative := 0\<rparr>" t] by (simp add: cinv_zero)
  from cinv_which [OF this w] have "cinv t1 (bm # ps)" .
  moreover have "e2e_loop c hs ms pok bm [0..<nr_of_outgoings t1] t1 = Some (bs, t')"
    using assms(4) Invite_Cancelled w by (simp add: e2e_cancel_def)
  ultimately show ?thesis using cinv_e2e_loop [of t1 bm ps "[0..<nr_of_outgoings t1]" bm hs ms c pok bs t'] assms(3) Invite_Cancelled by (simp add: event_all_ok_def)
qed

lemma cinv_forwarded:
  assumes "forwarded t"
  shows "cinv t []"
proof -
  obtain t0 ss where t0: "uac t0 = []" "cancelled t0 = []" "t = t_forward_nonack ss t0"
    using assms by (auto simp: forwarded_def)
  obtain us where "t = t0\<lparr>uac := map (start_retr \<circ> new_uac) us\<rparr>" "length us \<le> 30"
    using forward_adds [of ss t0] t0(1,3) by (metis add_0 append_Nil list.size(3) zero_le)
  then show ?thesis using t0(2) by (simp add: cinv_def load_def)
qed

lemma cinv_reach:
  assumes "reach c event_all_ok t0 s" "forwarded t0"
  shows "cinv (fst s) (snd s)"
  using assms(1)
proof induction
  case start
  then show ?case using cinv_forwarded [OF assms(2)] by simp
next
  case (more s s')
  from more(2) show ?case
  proof cases
    case (handled ev t bs t' ps)
    then show ?thesis using more(3) cinv_handle [of t ps ev c bs t'] cinv_append [of t' bs ps] by simp
  next
    case (cancels t ps bm qs)
    then show ?thesis using more(3) cinv_cancel [of t bm "ps @ qs"] cinv_perm [of t ps bm qs] by simp
  qed
qed

lemma distinct_counts: "(\<And>x. count_list xs x \<le> 1) \<Longrightarrow> distinct xs"
proof (induction xs)
  case (Cons a xs)
  have "count_list xs x \<le> 1" for x using Cons.prems [of x] by (simp split: if_splits)
  moreover have "count_list xs a = 0" using Cons.prems [of a] by simp
  ultimately show ?case using Cons.IH by (simp add: count_list_0_iff)
qed simp

lemma cancel_loop_sends:
  "bit bm i \<Longrightarrow> last_received (uac t ! i) \<ge> 100 \<Longrightarrow> k + n \<le> length (uac t) \<Longrightarrow>
    i \<in> set (cancelled t) \<or> k \<le> i \<and> i < k + n \<Longrightarrow> i \<in> set (cancelled (cancel_loop n k bm t))"
proof (induction n arbitrary: k t)
  case (Suc n)
  let ?t = "if bm AND push_bit k 1 \<noteq> 0 then cancel_branch k t else t"
  have "last_received (uac (cancel_branch k t) ! i) = last_received (uac t ! i)"
    using Suc.prems(3) by (auto simp: cancel_branch_def set_uac_def nth_list_update)
  then have "last_received (uac ?t ! i) \<ge> 100" using Suc.prems(2) by simp
  moreover have "k + Suc n \<le> length (uac ?t)" using Suc.prems(3) by simp
  moreover have "i \<in> set (cancelled ?t) \<or> Suc k \<le> i \<and> i < Suc k + n"
    using Suc.prems(1,2,4) unfolding test_bit by (cases "i = k") (auto simp: cancel_branch_def)
  ultimately show ?case using Suc.IH [OF Suc.prems(1), of ?t "Suc k"] by simp
qed auto

end
