(* ===== verification/Tm_Relay.thy ===== *)
theory Tm_Relay
  imports Tm_Cancel
begin

section \<open>Properties of a transaction\<close>

text \<open>
  The properties of replies, timers and CANCELs of a transaction, from the invariants of
  \<open>Tm_History\<close> and \<open>Tm_Cancel\<close>, and the sequences of events on which the examples evaluate them.
\<close>

subsection \<open>Sequences of events\<close>

fun run_events :: "tm_cfg \<Rightarrow> event list \<Rightarrow> cell \<times> u32 list \<Rightarrow> (cell \<times> u32 list) option" where
  "run_events c [] s = Some s"
| "run_events c (ev # evs) (t, ps) =
     (if enabled ev t then
        (case handle c ev t of None \<Rightarrow> None | Some (bs, t') \<Rightarrow> run_events c evs (t', ps @ bs))
      else None)"

lemma run_events_from:
  "reach c ok t0 s \<Longrightarrow> list_all ok evs \<Longrightarrow> run_events c evs s = Some s' \<Longrightarrow> reach c ok t0 s'"
proof (induction evs arbitrary: s)
  case (Cons ev evs)
  obtain t ps where s: "s = (t, ps)" by fastforce
  then obtain bs t' where h: "enabled ev t" "handle c ev t = Some (bs, t')" "run_events c evs (t', ps @ bs) = Some s'"
    using Cons.prems(3) by (auto split: if_splits option.splits)
  have "step c ok s (t', ps @ bs)" unfolding s by (rule step.handled [OF h(1) _ h(2)]) (use Cons.prems(2) in simp)
  then show ?case using Cons.IH [OF reach.more [OF Cons.prems(1)]] Cons.prems(2) h(3) by simp
qed simp

lemma run_reach: "list_all ok evs \<Longrightarrow> run_events c evs (t0, []) = Some s \<Longrightarrow> reach c ok t0 s"
  by (rule run_events_from [OF reach.start])

text \<open>An INVITE on two branches, and what is received and available in the examples.\<close>

definition two_branches :: cell where
  "two_branches = t_forward_nonack (replicate 2 \<lparr>add_ok = True, over_udp = True, send_ok = True\<rparr>) (new_cell True False True)"

definition plain_cfg :: tm_cfg where
  "plain_cfg = \<lparr>cancel_retransmission_flag = False, restart_fr_on_each_reply = False, noisy_ctimer = False\<rparr>"

definition no_handler :: handler where
  "no_handler = \<lparr>fake_ok = True, cb_ops = [], route_ops = []\<rparr>"

definition enough :: mem where
  "enough = \<lparr>clone_ok = True, tag_ok = True, build_ok = True, resize_ok = True, err_build_ok = True, err_resize_ok = True, junk = 0\<rparr>"

definition got :: "nat \<Rightarrow> int \<Rightarrow> event" where
  "got b code = Reply b \<lparr>REPLY_STATUS = code, to_tag = None\<rparr> no_handler enough"

definition after :: "event list \<Rightarrow> cell" where
  "after evs = fst (the (run_events plain_cfg evs (two_branches, [])))"

definition pending :: "event list \<Rightarrow> u32 list" where
  "pending evs = snd (the (run_events plain_cfg evs (two_branches, [])))"

lemma two_branches_forwarded: "forwarded two_branches"
  unfolding forwarded_def two_branches_def
  by (intro exI [of _ "new_cell True False True"] exI [of _ "replicate 2 \<lparr>add_ok = True, over_udp = True, send_ok = True\<rparr>"]) code_simp

lemma got_ok [simp]: "event_ok loc (got b code) = (code < 999)" "event_all_ok (got b code)"
  by (simp_all add: event_ok_def got_def mem_ok_def enough_def event_all_ok_def all_ok_def handler_ok_def no_handler_def)

lemma after_reach:
  assumes "run_events plain_cfg evs (two_branches, []) \<noteq> None" "list_all ok evs"
  shows "reach plain_cfg ok two_branches (after evs, pending evs)"
  using assms run_reach [of ok evs plain_cfg two_branches] by (auto simp: after_def pending_def)

text \<open>
  C22: Only one final reply is sent upstream, whatever arrives on the branches, is made by timers,
  by the failure handlers or by a CANCEL, unless the transaction is an INVITE and what follows is
  again a final reply up to 302.\<close>

theorem one_final_reply:
  assumes "reach c (event_ok (is_local t0)) t0 (t, ps)" "forwarded t0"
    and "dropWhile (\<lambda>x. fst x < 200) (sent_up t) = first # rest" "x \<in> set rest"
  shows "is_invite t \<and> 200 \<le> fst x \<and> fst x \<le> 302"
proof -
  have "sent_ok (is_invite t) (sent_up t)" using reach_inv [OF assms(1,2)] by (simp add: tinv_def sent_inv_def)
  then show ?thesis using assms(3,4) by (simp add: sent_ok_def)
qed

lemma one_final_reply_witness:
  "is_invite (after [got 0 200, got 1 302]) \<and> 200 \<le> fst (302 :: int, 1 :: int) \<and> fst (302 :: int, 1 :: int) \<le> 302"
proof (rule one_final_reply [of plain_cfg two_branches _ "pending [got 0 200, got 1 302]" "(200, 0)" "[(302, 1)]"])
  show "reach plain_cfg (event_ok (is_local two_branches)) two_branches (after [got 0 200, got 1 302], pending [got 0 200, got 1 302])"
    by (rule after_reach, code_simp) simp
  show "dropWhile (\<lambda>x. fst x < 200) (sent_up (after [got 0 200, got 1 302])) = [(200, 0), (302, 1)]" by code_simp
qed (simp_all add: two_branches_forwarded)






definition open_elsewhere :: "cell \<Rightarrow> nat \<Rightarrow> bool" where
  "open_elsewhere t b \<longleftrightarrow> (\<exists>i<length (uac t). i \<noteq> b \<and> req_buffer (uac t ! i) \<and> last_received (uac t ! i) < 200)"

lemma pick_pending:
  assumes "t_pick_branch b code (set_last b code t) = (pb, pc)"
  shows "pb = -2 \<longleftrightarrow> open_elsewhere t b"
proof -
  let ?us = "uac (set_last b code t)"
  have s: "req_buffer (?us ! i) = req_buffer (uac t ! i) \<and> last_received (?us ! i) = last_received (uac t ! i)"
    if "i < length (uac t)" "i \<noteq> b" for i
    using that by (simp add: set_last_nth)
  have "pb = -2 \<and> (\<exists>i<length ?us. i \<noteq> b \<and> req_buffer (?us ! i) \<and> last_received (?us ! i) < 200) \<or>
    (\<forall>i<length ?us. counts b i (?us ! i) \<longrightarrow> i \<noteq> b \<longrightarrow> last_received (?us ! i) \<ge> 200) \<and> pb \<noteq> -2"
    using pick_loop_spec [of b code ?us 0 "-1" 999 pb pc] assms unfolding t_pick_branch_def by auto
  then show ?thesis using s by (auto simp: open_elsewhere_def counts_def)
qed

lemma plain_verdict:
  assumes "uas_status t < 200" "last_received (uac t ! b) < 200" "code > 302"
    and "on_negative t = 0" "\<not> on_failure_cb t" "\<not> on_failure_ro_cb t" "t_pick_branch b code (set_last b code t) = (pb, pc)"
  shows "t_should_relay_response c h t code b bm =
    (if pb = -2 then (\<lparr>v_status = RPS_STORE, should_store = True, should_relay = -1\<rparr>, bm, set_last b code t)
     else if pb = -1 then (discard, bm, set_last b code t)
     else (\<lparr>v_status = RPS_COMPLETED, should_store = False, should_relay = pb\<rparr>, bm, set_last b code t))"
proof -
  have "on_negative (set_last b code t) = 0" "\<not> on_failure_cb (set_last b code t)" "\<not> on_failure_ro_cb (set_last b code t)"
    using assms(4-6) by (simp_all add: set_last_def)
  then show ?thesis using assms(1-3,7) unfolding t_should_relay_response_def Let_def by simp
qed

lemma best_relayed:
  assumes "ready t b p code" "uas_status t < 200" "last_received (uac t ! b) < 200" "code > 302"
    and "on_negative t = 0" "\<not> on_failure_cb t" "\<not> on_failure_ro_cb t" "clone_ok m" "build_ok m" "resize_ok m"
    and "relay_reply c h m t p b code bm = Some (st, bm', t')"
  shows "if open_elsewhere t b then st = RPS_STORE \<and> sent_up t' = sent_up t \<and> uac_reply (uac t' ! b) = Some p
    else \<exists>i<length (uac t). counts b i (uac t ! i) \<and>
      (\<forall>j<length (uac t). counts b j (uac t ! j) \<longrightarrow> code_of b code i (uac t ! i) \<le> code_of b code j (uac t ! j)) \<and>
      sent_up t' = sent_up t @ [(code_of b code i (uac t ! i), int i)]"
proof -
  let ?l = "set_last b code t"
  obtain pb pc where pk: "t_pick_branch b code ?l = (pb, pc)" by fastforce
  note v = plain_verdict [OF assms(2-7) pk, of c h bm] and r = readyD [OF assms(1)]
  consider (wait) "pb = -2" | (none) "pb = -1" | (picked) "pb \<noteq> -1" "pb \<noteq> -2" by blast
  then show ?thesis
  proof cases
    case wait
    have "t_should_relay_response c h t code b bm = (\<lparr>v_status = RPS_STORE, should_store = True, should_relay = -1\<rparr>, bm, ?l)"
      using v wait by simp
    from assms(11) this show ?thesis
    proof (cases rule: relay_cases)
      case kept
      then show ?thesis using pick_pending [OF pk] wait r(4) by (simp add: keep_reply_nth)
    qed (use assms(8-10) in simp_all)
  next
    case none
    then show ?thesis using t_pick_branch_spec [OF pk] r(4,6) by (auto simp: counts_def code_of_def)
  next
    case picked
    have "uas_status ?l < 200" using assms(2) by simp
    from picked_reply [OF r(2) this passes_refl r(4) pk picked r(5)] obtain i q where
      i: "pb = int i" "i < length (uac t)" "(if i = b then Some p else uac_reply (uac ?l ! i)) = Some q" "relayed_code ?l b code i q = pc"
        "pc = code_of b code i (uac t ! i)" "counts b i (uac t ! i)"
        "\<forall>j<length (uac t). counts b j (uac t ! j) \<longrightarrow> pc \<le> code_of b code j (uac t ! j) \<and> (j \<noteq> b \<longrightarrow> last_received (uac t ! j) \<ge> 200)"
      by metis
    have "t_should_relay_response c h t code b bm = (\<lparr>v_status = RPS_COMPLETED, should_store = False, should_relay = pb\<rparr>, bm, ?l)"
      using v picked by simp
    from assms(11) this show ?thesis
    proof (cases rule: relay_cases)
      case (relayed i' q')
      then have "i' = i" "q' = q" using i(1,3) by auto
      then have "sent_up t' = sent_up t @ [(code_of b code i (uac t ! i), int i)]" using relayed(11) i(4,5) by simp
      then show ?thesis using pick_pending [OF pk] picked i(2,5-7) by auto
    qed (use assms(8-10) i(1) in simp_all)
  qed
qed

lemma received_relayed:
  assumes "\<not> is_local t" "reply_received c h m b r t = Some (bs, t')" "b < length (uac t)"
  obtains st bm t1 where "relay_reply c h m (set_uac b (stop_timers (REPLY_STATUS r)) t) (Received r) b (REPLY_STATUS r) 0 = Some (st, bm, t1)"
    "sent_up t' = sent_up t1" "length (uac t1) > b \<Longrightarrow> uac_reply (uac t' ! b) = uac_reply (uac t1 ! b)"
    "bs = (if (st = RPS_ERROR \<or> st = RPS_COMPLETED) \<and> is_invite t1 then [bm] else [])"
proof -
  let ?t = "set_uac b (stop_timers (REPLY_STATUS r)) t"
  obtain st bm t1 where res: "relay_reply c h m ?t (Received r) b (REPLY_STATUS r) 0 = Some (st, bm, t1)"
    using assms(1,2) unfolding reply_received_def Let_def by (auto split: option.splits)
  define t2 where "t2 = (if st = RPS_COMPLETED then cleanup_uac_timers t1 else t1)"
  define t3 where "t3 = (if st = RPS_COMPLETED \<and> is_local t2 then put_on_wait t2 else t2)"
  define t4 where "t4 = (if st = RPS_ERROR then t1
     else if REPLY_STATUS r < 200 \<and> (last_received (uac t ! b) = 0 \<or> restart_fr_on_each_reply c) then set_uac b (restart_timers t3) t3 else t3)"
  have bs: "bs = (if (st = RPS_ERROR \<or> st = RPS_COMPLETED) \<and> is_invite t1 then [bm] else [])" and t': "t' = t4"
    using assms(1,2) res unfolding reply_received_def Let_def t4_def t2_def t3_def by (auto split: if_splits)
  have "uac_reply (uac t4 ! b) = uac_reply (uac t1 ! b)" if "b < length (uac t1)"
    using that by (simp add: t4_def t2_def t3_def set_uac_nth restart_timers_def reset_timers_def)
  moreover have "sent_up t4 = sent_up t1" by (simp add: t4_def t2_def t3_def)
  ultimately show thesis using that [OF res] bs t' by simp
qed


lemma stopped_same:
  "i < length (uac t) \<Longrightarrow> last_received (uac (set_uac b (stop_timers code) t) ! i) = last_received (uac t ! i) \<and>
    req_buffer (uac (set_uac b (stop_timers code) t) ! i) = req_buffer (uac t ! i) \<and>
    local_cancel (uac (set_uac b (stop_timers code) t) ! i) = local_cancel (uac t ! i)"
  by (simp add: set_uac_nth stop_timers_def)

lemma stopped_counts:
  assumes "i < length (uac t)"
  shows "counts b i (uac (set_uac b' (stop_timers n) t) ! i) = counts b i (uac t ! i)"
    "code_of b code i (uac (set_uac b' (stop_timers n) t) ! i) = code_of b code i (uac t ! i)"
  using stopped_same [OF assms] by (simp_all add: counts_def code_of_def)








text \<open>
  When the text of a reply of the server cannot be built, the bitmap of the branches to cancel
  has never been set: a branch that its bits happen to name is sent a CANCEL though it has a final
  reply and \<open>which_cancel\<close> would not name it.\<close>

theorem unbuilt_reply_cancels:
  assumes "is_invite t" "i < nr_of_outgoings t" "nr_of_outgoings t \<le> 30" "bit jk i" "last_received (uac t ! i) \<ge> 200"
  shows "\<not> bit (fst (which_cancel c t 0)) i \<and> i \<in> set (cancelled (snd (reply_light c False rok jk code t)))"
proof
  show "\<not> bit (fst (which_cancel c t 0)) i"
    using which_cancel_bit [of c t 0 "fst (which_cancel c t 0)" "snd (which_cancel c t 0)" i] assms(2,3,5)
    by (simp add: nr_of_outgoings_def should_cancel_branch_def)
  obtain bm t1 where w: "which_cancel c t jk = (bm, t1)" by fastforce
  have i: "i < length (uac t)" "length (uac t) \<le> 30" using assms(2,3) by (simp_all add: nr_of_outgoings_def)
  have "bit bm i" using which_cancel_bit [OF w i(2), of i] assms(4) by simp
  moreover have "last_received (uac (cleanup_uac_timers t1) ! i) \<ge> 100" "length (uac (cleanup_uac_timers t1)) = length (uac t)"
    using which_fields(1) [OF w] i(1) assms(5) by (simp_all add: reset_timers_def mark_cancel_def)
  ultimately have "i \<in> set (cancelled (cancel_uacs bm (cleanup_uac_timers t1)))"
    using cancel_loop_sends [of bm i "cleanup_uac_timers t1" 0 "length (uac t)"] i(1) by (simp add: cancel_uacs_def nr_of_outgoings_def)
  then show "i \<in> set (cancelled (snd (reply_light c False rok jk code t)))"
    using assms(1) w which_fields(2) [OF w] by (simp add: reply_light_def reply_error_def)
qed

lemma unbuilt_reply_cancels_witness:
  "let t = (new_cell True False True)\<lparr>uac := [(new_uac \<lparr>add_ok = True, over_udp = True, send_ok = True\<rparr>)\<lparr>last_received := 486\<rparr>]\<rparr>;
       c = \<lparr>cancel_retransmission_flag = False, restart_fr_on_each_reply = False, noisy_ctimer = False\<rparr>
   in \<not> bit (fst (which_cancel c t 0)) 0 \<and> 0 \<in> set (cancelled (snd (reply_light c False True 1 500 t)))"
  unfolding Let_def by (rule unbuilt_reply_cancels) (simp_all add: new_cell_def nr_of_outgoings_def)

end
