(* ===== verification/Fm_Malloc.thy ===== *)
theory Fm_Malloc
  imports Prelude
begin

section \<open>The memory allocator: mem/f_malloc.c, mem/shm_mem.c\<close>

text \<open>
  The pool that private and shared memory are taken from (\<open>F_MALLOC\<close> without debugging, 64
  bit). It is a row of fragments, each with a header in front; the free ones are linked into
  lists by size: one list for each multiple of 8 up to 16384, one for each power of two above.

  Addresses and sizes inside a pool are integers: the pool ends below \<open>2 ^ 64\<close>, so sums of them
  do not wrap. A size that is asked for is a word, since rounding it up may wrap. \<open>frags\<close> gives
  the header at an address, \<open>bytes\<close> the contents of memory as far as \<open>memcpy\<close> is concerned.
  Reading a header where none was written makes an operation \<open>None\<close>.
\<close>


subsection \<open>Sizes and buckets\<close>

abbreviation (input) ROUNDTO :: int where "ROUNDTO \<equiv> 8"
abbreviation (input) MIN_FRAG_SIZE :: int where "MIN_FRAG_SIZE \<equiv> 8"
abbreviation (input) F_MALLOC_OPTIMIZE :: int where "F_MALLOC_OPTIMIZE \<equiv> 16384"
abbreviation (input) F_HASH_SIZE :: int where "F_HASH_SIZE \<equiv> 2099"
abbreviation (input) FRAG_OVERHEAD :: int where "FRAG_OVERHEAD \<equiv> 16"
abbreviation (input) FM_BLOCK :: int where "FM_BLOCK \<equiv> 33608"

definition ROUNDUP :: "u64 \<Rightarrow> u64" where
  "ROUNDUP s = (s + 7) AND (NOT 7)"

definition ROUNDDOWN :: "u64 \<Rightarrow> u64" where
  "ROUNDDOWN s = s AND (NOT 7)"

text \<open>The index of the highest bit; the loop of the code does not end for 0, which is never asked for.\<close>

fun big_hash_loop :: "nat \<Rightarrow> u64 \<Rightarrow> int" where
  "big_hash_loop 0 s = 0"
| "big_hash_loop (Suc idx) s = (if bit s 63 then int (Suc idx) else big_hash_loop idx (push_bit 1 s))"

definition big_hash_idx :: "u64 \<Rightarrow> int" where
  "big_hash_idx s = big_hash_loop 63 s"

definition GET_HASH :: "int \<Rightarrow> int" where
  "GET_HASH s = (if s \<le> F_MALLOC_OPTIMIZE then s div ROUNDTO
     else F_MALLOC_OPTIMIZE div ROUNDTO + big_hash_idx (of_int s) - 14 + 1)"

subsection \<open>The pool\<close>

record fm_frag =
  fr_size :: int
  nxt_free :: int

record fm_block =
  frags :: "int \<Rightarrow> fm_frag option"
  bytes :: "int \<Rightarrow> u8"
  first_frag :: int
  last_frag :: int
  free_first :: "int \<Rightarrow> int"
  free_no :: "int \<Rightarrow> int"

text \<open>A place that holds a pointer to a free fragment (\<open>struct fm_frag**\<close>).\<close>

datatype link = Bucket int | Next int

definition get_link :: "fm_block \<Rightarrow> link \<Rightarrow> int option" where
  "get_link qm l = (case l of Bucket h \<Rightarrow> Some (free_first qm h) | Next a \<Rightarrow> map_option nxt_free (frags qm a))"

definition set_size :: "int \<Rightarrow> int \<Rightarrow> fm_block \<Rightarrow> fm_block" where
  "set_size a s qm = qm\<lparr>frags := (frags qm)(a := map_option (\<lambda>f. f\<lparr>fr_size := s\<rparr>) (frags qm a))\<rparr>"

definition set_next :: "int \<Rightarrow> int \<Rightarrow> fm_block \<Rightarrow> fm_block" where
  "set_next a n qm = qm\<lparr>frags := (frags qm)(a := map_option (\<lambda>f. f\<lparr>nxt_free := n\<rparr>) (frags qm a))\<rparr>"

definition set_link :: "link \<Rightarrow> int \<Rightarrow> fm_block \<Rightarrow> fm_block" where
  "set_link l n qm = (case l of Bucket h \<Rightarrow> qm\<lparr>free_first := (free_first qm)(h := n)\<rparr> | Next a \<Rightarrow> set_next a n qm)"

definition FRAG_NEXT :: "int \<Rightarrow> fm_frag \<Rightarrow> int" where
  "FRAG_NEXT a f = a + FRAG_OVERHEAD + fr_size f"

subsection \<open>Free lists\<close>

text \<open>The loops over a free list; they end because the list does, which is a property of the pool.\<close>

partial_function (option) insert_loop :: "fm_block \<Rightarrow> int \<Rightarrow> link \<Rightarrow> link option" where
  "insert_loop qm sz f =
     Option.bind (get_link qm f) (\<lambda>a.
       if a = 0 then Some f
       else Option.bind (frags qm a) (\<lambda>fr. if sz \<le> fr_size fr then Some f else insert_loop qm sz (Next a)))"

declare insert_loop.simps [code]

definition fm_insert_free :: "int \<Rightarrow> fm_block \<Rightarrow> fm_block option" where
  "fm_insert_free a qm =
     (case frags qm a of
        None \<Rightarrow> None
      | Some frag \<Rightarrow>
          (let hash = GET_HASH (fr_size frag)
           in case (if fr_size frag > F_MALLOC_OPTIMIZE then insert_loop qm (fr_size frag) (Bucket hash) else Some (Bucket hash)) of
                None \<Rightarrow> None
              | Some f \<Rightarrow>
                  (case get_link qm f of
                     None \<Rightarrow> None
                   | Some n \<Rightarrow>
                       (let qm = set_link f a (set_next a n qm)
                        in Some (qm\<lparr>free_no := (free_no qm)(hash := free_no qm hash + 1)\<rparr>)))))"

definition fm_split_frag :: "int \<Rightarrow> int \<Rightarrow> fm_block \<Rightarrow> fm_block option" where
  "fm_split_frag a sz qm =
     (case frags qm a of
        None \<Rightarrow> None
      | Some frag \<Rightarrow>
          (let rest = fr_size frag - sz
           in if rest > FRAG_OVERHEAD + F_MALLOC_OPTIMIZE \<or> rest \<ge> FRAG_OVERHEAD + sz then
                let n = a + FRAG_OVERHEAD + sz; qm = set_size a sz qm
                in fm_insert_free n (qm\<lparr>frags := (frags qm)(n \<mapsto> \<lparr>fr_size = rest - FRAG_OVERHEAD, nxt_free = 0\<rparr>)\<rparr>)
              else Some qm))"

definition fm_malloc_init :: "u64 \<Rightarrow> u64 \<Rightarrow> fm_block option option" where
  "fm_malloc_init address sz =
     (let start = ROUNDUP address
      in if sz < start - address then Some None
         else
           let sz = sz - (start - address)
           in if sz < of_int (MIN_FRAG_SIZE + FRAG_OVERHEAD) then Some None
              else
                let sz = ROUNDDOWN sz; init_overhead = of_int (FM_BLOCK + FRAG_OVERHEAD)
                in if sz < init_overhead then Some None
                   else
                     let end = uint start + uint sz; first = uint start + FM_BLOCK; last = end - FRAG_OVERHEAD;
                       qm = \<lparr>frags = Map.empty(first \<mapsto> \<lparr>fr_size = uint (sz - init_overhead), nxt_free = 0\<rparr>,
                                last \<mapsto> \<lparr>fr_size = 0, nxt_free = 0\<rparr>), bytes = (\<lambda>_. 0), first_frag = first, last_frag = last,
                                free_first = (\<lambda>_. 0), free_no = (\<lambda>_. 0)\<rparr>
                     in map_option Some (fm_insert_free first qm))"

subsection \<open>malloc, free, realloc\<close>

partial_function (option) bucket_loop :: "fm_block \<Rightarrow> int \<Rightarrow> link \<Rightarrow> link option option" where
  "bucket_loop qm sz f =
     Option.bind (get_link qm f) (\<lambda>a.
       if a = 0 then Some None
       else Option.bind (frags qm a) (\<lambda>fr. if fr_size fr \<ge> sz then Some (Some f) else bucket_loop qm sz (Next a)))"

declare bucket_loop.simps [code]

function find_frag :: "fm_block \<Rightarrow> int \<Rightarrow> int \<Rightarrow> (int \<times> link) option option" where
  "find_frag qm sz hash =
     (if hash < F_HASH_SIZE then
        (case bucket_loop qm sz (Bucket hash) of
           None \<Rightarrow> None
         | Some (Some f) \<Rightarrow> Some (Some (hash, f))
         | Some None \<Rightarrow> find_frag qm sz (hash + 1))
      else Some None)"
  by auto
termination by (relation "measure (\<lambda>(qm, sz, hash). nat (F_HASH_SIZE - hash))") auto

definition detach :: "int \<Rightarrow> link \<Rightarrow> int \<Rightarrow> fm_block \<Rightarrow> fm_block option" where
  "detach hash f a qm =
     (case frags qm a of
        None \<Rightarrow> None
      | Some frag \<Rightarrow>
          (let qm = set_link f (nxt_free frag) qm in Some (qm\<lparr>free_no := (free_no qm)(hash := free_no qm hash - 1)\<rparr>)))"

text \<open>The address returned and the pool; \<open>None\<close> is the use of a place that is no fragment, or \<open>abort\<close>.\<close>

definition fm_malloc :: "u64 \<Rightarrow> fm_block \<Rightarrow> (int \<times> fm_block) option" where
  "fm_malloc sz qm =
     (let sz = uint (ROUNDUP sz)
      in case find_frag qm sz (GET_HASH sz) of
           None \<Rightarrow> None
         | Some None \<Rightarrow> Some (0, qm)
         | Some (Some (hash, f)) \<Rightarrow>
             (case get_link qm f of
                None \<Rightarrow> None
              | Some a \<Rightarrow>
                  Option.bind (detach hash f a qm) (\<lambda>qm.
                    map_option (\<lambda>qm. (a + FRAG_OVERHEAD, qm)) (fm_split_frag a sz (set_next a 0 qm)))))"

definition fm_free :: "int \<Rightarrow> fm_block \<Rightarrow> fm_block option" where
  "fm_free p qm = (if p = 0 then Some qm else fm_insert_free (p - FRAG_OVERHEAD) qm)"

partial_function (option) detach_loop :: "fm_block \<Rightarrow> int \<Rightarrow> link \<Rightarrow> link option" where
  "detach_loop qm n f =
     Option.bind (get_link qm f) (\<lambda>a. if a = 0 then None else if a = n then Some f else detach_loop qm n (Next a))"

declare detach_loop.simps [code]

definition memcpy :: "int \<Rightarrow> int \<Rightarrow> int \<Rightarrow> fm_block \<Rightarrow> fm_block" where
  "memcpy d s n qm = qm\<lparr>bytes := (\<lambda>x. if d \<le> x \<and> x < d + n then bytes qm (x - d + s) else bytes qm x)\<rparr>"

definition can_join :: "int \<Rightarrow> int \<Rightarrow> fm_block \<Rightarrow> bool option" where
  "can_join n diff qm =
     (if n < last_frag qm
      then map_option (\<lambda>nf. nxt_free nf \<noteq> 0 \<and> fr_size nf + FRAG_OVERHEAD \<ge> diff) (frags qm n)
      else Some False)"

definition join_next :: "int \<Rightarrow> int \<Rightarrow> int \<Rightarrow> fm_block \<Rightarrow> fm_block option" where
  "join_next a n sz qm =
     (case (frags qm a, frags qm n) of
        (Some f, Some nf) \<Rightarrow>
          (let hash = GET_HASH (fr_size nf); joined = fr_size f + (fr_size nf + FRAG_OVERHEAD)
           in Option.bind (detach_loop qm n (Bucket hash)) (\<lambda>pf.
              Option.bind (detach hash pf n qm) (\<lambda>qm.
                let qm = set_size a joined qm
                in if joined > sz then fm_split_frag a sz qm else Some qm)))
      | _ \<Rightarrow> None)"

definition move_block :: "int \<Rightarrow> u64 \<Rightarrow> int \<Rightarrow> fm_block \<Rightarrow> (int \<times> fm_block) option" where
  "move_block p sz orig_size qm =
     Option.bind (fm_malloc sz qm) (\<lambda>(ptr, qm).
       let qm = (if ptr \<noteq> 0 then memcpy ptr p orig_size qm else qm)
       in map_option (Pair ptr) (fm_free p qm))"

definition fm_realloc :: "int \<Rightarrow> u64 \<Rightarrow> fm_block \<Rightarrow> (int \<times> fm_block) option" where
  "fm_realloc p sz qm =
     (if sz = 0 then (if p \<noteq> 0 then map_option (Pair 0) (fm_free p qm) else Some (0, qm))
      else if p = 0 then fm_malloc sz qm
      else
        (case frags qm (p - FRAG_OVERHEAD) of
           None \<Rightarrow> None
         | Some f \<Rightarrow>
             (let a = p - FRAG_OVERHEAD; rsize = ROUNDUP sz; sz = uint rsize; orig_size = fr_size f
              in if fr_size f > sz then map_option (Pair p) (fm_split_frag a sz qm)
                 else if fr_size f < sz then
                   let diff = sz - fr_size f; n = FRAG_NEXT a f
                   in Option.bind (can_join n diff qm) (\<lambda>joins.
                        if joins then map_option (Pair p) (join_next a n sz qm) else move_block p rsize orig_size qm)
                 else Some (p, qm))))"

definition sh_realloc :: "int \<Rightarrow> u64 \<Rightarrow> fm_block \<Rightarrow> (int \<times> fm_block) option" where
  "sh_realloc p sz qm = Option.bind (fm_free p qm) (fm_malloc sz)"

definition shm_resize :: "int \<Rightarrow> u64 \<Rightarrow> fm_block \<Rightarrow> (int \<times> fm_block) option" where
  "shm_resize p s qm = (if p = 0 then fm_malloc s qm else sh_realloc p s qm)"

end
