(* ===== verification/Fm_Heap.thy ===== *)
theory Fm_Heap
  imports Fm_Malloc
begin

section \<open>The pool of the memory allocator\<close>

text \<open>
  A pool is well-formed (\<open>pool\<close>) when its fragments fill the space between the first and the end
  without gap or overlap, and each bucket links free fragments of its sizes. \<open>heap\<close> names the
  fragments in use and the free ones. Every operation keeps that, and its effect is stated over
  these two sets and the sizes.
\<close>


subsection \<open>Buckets\<close>

lemma big_hash_loop_range: "0 \<le> big_hash_loop k s \<and> big_hash_loop k s \<le> int k"
proof (induction k arbitrary: s)
  case (Suc k)
  have "0 \<le> big_hash_loop k (push_bit 1 s) \<and> big_hash_loop k (push_bit 1 s) \<le> int k" by (rule Suc.IH)
  then show ?case by simp
qed simp

text \<open>The value of the loop is the index of the highest bit.\<close>

lemma big_hash_loop_value:
  "k \<le> 63 \<Longrightarrow> i \<le> k \<Longrightarrow> bit s (63 - k + i) \<Longrightarrow> (\<forall>j. 63 - k + i < j \<longrightarrow> j \<le> 63 \<longrightarrow> \<not> bit s j) \<Longrightarrow>
    big_hash_loop k s = int i" for s :: u64
proof (induction k arbitrary: s)
  case (Suc k)
  show ?case
  proof (cases "i = Suc k")
    case True
    then show ?thesis using Suc.prems(1,3) by simp
  next
    case False
    then have i: "i \<le> k" "k \<le> 63" using Suc.prems by simp_all
    have shift: "bit (push_bit 1 s) j \<longleftrightarrow> 1 \<le> j \<and> j < 64 \<and> bit s (j - 1)" for j
      unfolding bit_push_bit_iff by auto
    have "\<not> bit s 63" using Suc.prems(1,4) i(1) by auto
    moreover have "big_hash_loop k (push_bit 1 s) = int i"
    proof (rule Suc.IH [OF i(2,1)])
      show "bit (push_bit 1 s) (63 - k + i)" unfolding shift using Suc.prems(1,3) i by (auto simp: Suc_diff_le numeral_eq_Suc)
      show "\<forall>j. 63 - k + i < j \<longrightarrow> j \<le> 63 \<longrightarrow> \<not> bit (push_bit 1 s) j"
        unfolding shift using Suc.prems(1,4) i by auto
    qed
    ultimately show ?thesis by simp
  qed
qed simp

lemma big_hash_idx_value:
  assumes "2 ^ i \<le> s" "s < 2 ^ Suc i" "i < 64"
  shows "big_hash_idx (of_int s) = int i"
proof -
  have s: "0 \<le> s" "s < 2 ^ 64" 
    using assms power_increasing [of "Suc i" 64 "2::int"] by (auto intro: order_trans [OF zero_le_power])
  have u: "uint (of_int s :: u64) = s" using s by (simp add: uint_word_of_int take_bit_int_eq_self_iff)
  have bit: "bit (of_int s :: u64) j \<longleftrightarrow> j < 64 \<and> odd (s div 2 ^ j)" for j
    unfolding bit_word_of_int_iff by (simp add: bit_iff_odd)
  have "s div 2 ^ i = 1" using assms(1,2) by (simp add: div_pos_geq)
  moreover have "s div 2 ^ j = 0" if "i < j" for j
    using s(1) assms(2) power_increasing [of "Suc i" j "2::int"] that by (intro div_pos_pos_trivial) auto
  ultimately have "bit (of_int s :: u64) i" "\<forall>j. i < j \<longrightarrow> j \<le> 63 \<longrightarrow> \<not> bit (of_int s :: u64) j"
    using assms(3) by (simp_all add: bit)
  then show ?thesis unfolding big_hash_idx_def using big_hash_loop_value [of 63 i "of_int s"] assms(3) by simp
qed

lemma highest_bit: "1 \<le> (s :: int) \<Longrightarrow> s < 2 ^ n \<Longrightarrow> \<exists>i<n. 2 ^ i \<le> s \<and> s < 2 ^ Suc i"
proof (induction n)
  case (Suc n)
  then show ?case by (cases "s < 2 ^ n") (auto intro: less_SucI)
qed simp

lemma GET_HASH_big:
  assumes "16384 < s" "s < 2 ^ 64"
  obtains i where "14 \<le> i" "i < 64" "2 ^ i \<le> s" "s < 2 ^ Suc i" "GET_HASH s = 2035 + int i"
proof -
  obtain i where i: "i < 64" "2 ^ i \<le> s" "s < 2 ^ Suc i" using highest_bit [of s 64] assms(1) assms(2) by force
  have "14 \<le> i"
  proof (rule ccontr)
    assume "\<not> 14 \<le> i"
    then have "(2::int) ^ Suc i \<le> 2 ^ 14" by (intro power_increasing) auto
    then show False using i(3) assms(1) by simp
  qed
  moreover have "GET_HASH s = 2035 + int i" using big_hash_idx_value [OF i(2,3,1)] assms(1) by (simp add: GET_HASH_def)
  ultimately show thesis using that i by blast
qed

lemma GET_HASH_range:
  assumes "0 \<le> s" "s < 2 ^ 64"
  shows "0 \<le> GET_HASH s \<and> GET_HASH s < 2099"
proof (cases "s \<le> 16384")
  case True
  then show ?thesis using assms(1) by (auto simp: GET_HASH_def)
next
  case False
  then obtain i where "i < 64" "GET_HASH s = 2035 + int i" using GET_HASH_big [of s] assms(2) by auto
  then show ?thesis by simp
qed

lemma GET_HASH_mono:
  assumes "0 \<le> s" "s \<le> t" "t < 2 ^ 64"
  shows "GET_HASH s \<le> GET_HASH t"
proof (cases "t \<le> 16384")
  case True
  then show ?thesis using assms(2) by (simp add: GET_HASH_def zdiv_mono1)
next
  case t: False
  then obtain j where j: "14 \<le> j" "t < 2 ^ Suc j" "GET_HASH t = 2035 + int j" using GET_HASH_big [of t] assms(3) by auto
  show ?thesis
  proof (cases "s \<le> 16384")
    case True
    then have "GET_HASH s \<le> 2048" by (simp add: GET_HASH_def)
    then show ?thesis using j by simp
  next
    case False
    then obtain i where i: "2 ^ i \<le> s" "GET_HASH s = 2035 + int i" using GET_HASH_big [of s] assms(2,3) by auto
    have "(2::int) ^ i < 2 ^ Suc j" using i(1) j(2) assms(2) by linarith
    then have "i < Suc j" by (rule power_less_imp_less_exp [rotated]) simp
    then show ?thesis using i(2) j(3) by simp
  qed
qed


subsection \<open>The row of fragments and the free lists\<close>

text \<open>Sizes and links of the headers; a row of fragments that fill the space from \<open>s\<close> to \<open>e\<close>.\<close>

definition sizes :: "fm_block \<Rightarrow> int \<Rightarrow> int option" where
  "sizes qm a = map_option fr_size (frags qm a)"

definition nexts :: "fm_block \<Rightarrow> int \<Rightarrow> int option" where
  "nexts qm a = map_option nxt_free (frags qm a)"

fun tiled :: "(int \<Rightarrow> int option) \<Rightarrow> int \<Rightarrow> int list \<Rightarrow> int \<Rightarrow> bool" where
  "tiled S s [] e \<longleftrightarrow> s = e"
| "tiled S s (a # as) e \<longleftrightarrow> a = s \<and> (\<exists>n\<ge>0. 8 dvd n \<and> S a = Some n \<and> tiled S (a + 16 + n) as e)"

fun linked :: "(int \<Rightarrow> int option) \<Rightarrow> int \<Rightarrow> int list \<Rightarrow> int \<Rightarrow> bool" where
  "linked N p [] q \<longleftrightarrow> p = q"
| "linked N p (a # as) q \<longleftrightarrow> p = a \<and> a \<noteq> 0 \<and> (\<exists>n. N a = Some n \<and> linked N n as q)"

lemma tiled_append: "tiled S s (as @ bs) e \<longleftrightarrow> (\<exists>m. tiled S s as m \<and> tiled S m bs e)"
  by (induction as arbitrary: s) auto

lemma tiled_le: "tiled S s as e \<Longrightarrow> s \<le> e"
  by (induction as arbitrary: s) force+

lemma tiled_cong: "(\<And>a. a \<in> set as \<Longrightarrow> S' a = S a) \<Longrightarrow> tiled S' s as e = tiled S s as e"
  by (induction as arbitrary: s) auto

lemma tiled_in:
  "tiled S s as e \<Longrightarrow> a \<in> set as \<Longrightarrow> \<exists>n\<ge>0. 8 dvd n \<and> S a = Some n \<and> s \<le> a \<and> a + 16 + n \<le> e"
proof (induction as arbitrary: s)
  case (Cons b as)
  then show ?case using tiled_le by force
qed simp

lemma tiled_split:
  assumes "tiled S s as e" "a \<in> set as"
  obtains us vs n where "as = us @ a # vs" "tiled S s us a" "0 \<le> n" "8 dvd n" "S a = Some n" "tiled S (a + 16 + n) vs e"
  using assms by (auto simp: tiled_append dest!: split_list)

lemma tiled_apart:
  assumes "tiled S s as e" "a \<in> set as" "b \<in> set as" "a < b" "S a = Some n"
  shows "a + 16 + n \<le> b"
proof -
  obtain us vs m where s: "as = us @ a # vs" "tiled S s us a" "S a = Some m" "tiled S (a + 16 + m) vs e"
    using tiled_split [OF assms(1,2)] by metis
  have "b \<notin> set us" using tiled_in [OF s(2), of b] assms(4) by auto
  then have "b \<in> set vs" using s(1) assms(3,4) by auto
  then show ?thesis using tiled_in [OF s(4)] s(3) assms(5) by auto
qed

lemma tiled_distinct: "tiled S s as e \<Longrightarrow> distinct as"
proof (induction as arbitrary: s)
  case (Cons a as)
  then obtain n where "0 \<le> n" "tiled S (a + 16 + n) as e" by auto
  then show ?case using Cons.IH tiled_in [of S "a + 16 + n" as e a] by auto
qed simp

text \<open>Cutting a fragment in two, and joining it with the one behind it.\<close>

lemma tiled_cut:
  assumes "tiled S s (us @ a # vs) e" "S a = Some n" "0 \<le> m" "8 dvd m" "m + 16 \<le> n"
  shows "tiled (S(a := Some m, a + 16 + m := Some (n - m - 16))) s (us @ a # (a + 16 + m) # vs) e"
proof -
  let ?S = "S(a := Some m, a + 16 + m := Some (n - m - 16))"
  have u: "tiled S s us a" "tiled S (a + 16 + n) vs e" "8 dvd n" using assms(1,2) by (auto simp: tiled_append)
  have "tiled ?S s us a = tiled S s us a"
    by (rule tiled_cong) (use tiled_in [OF u(1)] assms(3) in fastforce)
  moreover have "tiled ?S (a + 16 + n) vs e = tiled S (a + 16 + n) vs e"
    by (rule tiled_cong) (use tiled_in [OF u(2)] assms(3,5) in fastforce)
  ultimately show ?thesis using u assms(3-5) by (auto simp: tiled_append add.commute)
qed

lemma tiled_join:
  assumes "tiled S s (us @ a # b # vs) e" "S a = Some n" "S b = Some m"
  shows "tiled (S(a := Some (n + (m + 16)))) s (us @ a # vs) e"
proof -
  let ?S = "S(a := Some (n + (m + 16)))"
  have u: "tiled S s us a" "b = a + 16 + n" "tiled S (b + 16 + m) vs e" "8 dvd n" "8 dvd m" "0 \<le> n" "0 \<le> m"
    using assms by (auto simp: tiled_append)
  have "tiled ?S s us a = tiled S s us a"
    by (rule tiled_cong) (use tiled_in [OF u(1)] in fastforce)
  moreover have "tiled ?S (b + 16 + m) vs e = tiled S (b + 16 + m) vs e"
    by (rule tiled_cong) (use tiled_in [OF u(3)] u(2,6,7) in fastforce)
  moreover have "b + 16 + m = a + 16 + (n + (m + 16))" using u(2) by simp
  ultimately have "tiled ?S s us a" "tiled ?S (a + 16 + (n + (m + 16))) vs e" using u(1,3) by metis+
  then show ?thesis using u(4-7) by (auto simp: tiled_append)
qed

lemma tiled_next:
  assumes "tiled S s as e" "a \<in> set as" "S a = Some n" "a + 16 + n < e"
  obtains us vs where "as = us @ a # (a + 16 + n) # vs"
proof -
  obtain us vs m where s: "as = us @ a # vs" "S a = Some m" "tiled S (a + 16 + m) vs e"
    using tiled_split [OF assms(1,2)] by metis
  then show thesis using that assms(3,4) by (cases vs) auto
qed

lemma linked_append: "linked N p (as @ bs) q \<longleftrightarrow> (\<exists>r. linked N p as r \<and> linked N r bs q)"
  by (induction as arbitrary: p) auto

lemma linked_cong: "(\<And>a. a \<in> set as \<Longrightarrow> N' a = N a) \<Longrightarrow> linked N' p as q = linked N p as q"
  by (induction as arbitrary: p) auto

text \<open>The link in front of what follows \<open>us\<close> in a list.\<close>

definition link_at :: "int \<Rightarrow> int list \<Rightarrow> link" where
  "link_at h us = (if us = [] then Bucket h else Next (last us))"

lemma link_at_simps [simp]: "link_at h [] = Bucket h" "link_at h (us @ [a]) = Next a"
  by (simp_all add: link_at_def)

lemma get_link_at:
  assumes "linked (nexts qm) (free_first qm h) us r"
  shows "get_link qm (link_at h us) = Some r"
  using assms by (cases us rule: rev_cases) (auto simp: get_link_def nexts_def linked_append)

lemma head_of: "linked N r zs 0 \<Longrightarrow> r = 0 \<longleftrightarrow> zs = []"
  by (cases zs) auto

lemma insert_loop_spec:
  "linked (nexts qm) (free_first qm h) us r \<Longrightarrow> linked (nexts qm) r zs 0 \<Longrightarrow>
    \<exists>ws vs. zs = ws @ vs \<and> insert_loop qm sz (link_at h us) = Some (link_at h (us @ ws))"
proof (induction zs arbitrary: us r)
  case Nil
  then have "insert_loop qm sz (link_at h us) = Some (link_at h us)"
    by (subst insert_loop.simps) (simp add: get_link_at)
  then show ?case by simp
next
  case (Cons z zs)
  then obtain n where n: "r = z" "z \<noteq> 0" "nexts qm z = Some n" "linked (nexts qm) n zs 0" by auto
  then obtain fr where "frags qm z = Some fr" by (auto simp: nexts_def)
  note z = n(1,2) this n(3,4)
  have u: "linked (nexts qm) (free_first qm h) (us @ [z]) n" using Cons.prems(1) z by (simp add: linked_append)
  have "insert_loop qm sz (link_at h us) = (if sz \<le> fr_size fr then Some (link_at h us) else insert_loop qm sz (link_at h (us @ [z])))"
    by (subst insert_loop.simps) (simp add: get_link_at [OF Cons.prems(1)] z(1-3))
  moreover obtain ws vs where "zs = ws @ vs" "insert_loop qm sz (link_at h (us @ [z])) = Some (link_at h (us @ [z] @ ws))"
    using Cons.IH [OF u z(5)] by auto
  ultimately show ?case
    by (cases "sz \<le> fr_size fr") (force intro: exI [of _ "[]"] exI [of _ "z # ws"])+
qed

lemma bucket_loop_spec:
  "linked (nexts qm) (free_first qm h) us r \<Longrightarrow> linked (nexts qm) r zs 0 \<Longrightarrow>
    (\<forall>z\<in>set zs. the (sizes qm z) < sz) \<and> bucket_loop qm sz (link_at h us) = Some None \<or>
    (\<exists>ws z vs. zs = ws @ z # vs \<and> sz \<le> the (sizes qm z) \<and> bucket_loop qm sz (link_at h us) = Some (Some (link_at h (us @ ws))))"
proof (induction zs arbitrary: us r)
  case Nil
  then have "bucket_loop qm sz (link_at h us) = Some None"
    by (subst bucket_loop.simps) (simp add: get_link_at)
  then show ?case by simp
next
  case (Cons z zs)
  then obtain n where n: "r = z" "z \<noteq> 0" "nexts qm z = Some n" "linked (nexts qm) n zs 0" by auto
  then obtain fr where "frags qm z = Some fr" by (auto simp: nexts_def)
  note z = n(1,2) this n(3,4)
  have u: "linked (nexts qm) (free_first qm h) (us @ [z]) n" using Cons.prems(1) z by (simp add: linked_append)
  have b: "bucket_loop qm sz (link_at h us) =
      (if sz \<le> fr_size fr then Some (Some (link_at h us)) else bucket_loop qm sz (link_at h (us @ [z])))"
    by (subst bucket_loop.simps) (simp add: get_link_at [OF Cons.prems(1)] z(1-3))
  have s: "the (sizes qm z) = fr_size fr" using z(3) by (simp add: sizes_def)
  show ?case
  proof (cases "sz \<le> fr_size fr")
    case True
    then show ?thesis using b s by (intro disjI2 exI [of _ "[]"]) auto
  next
    case False
    from Cons.IH [OF u z(5)] show ?thesis
    proof (elim disjE exE conjE)
      fix ws y vs
      assume "zs = ws @ y # vs" "sz \<le> the (sizes qm y)" "bucket_loop qm sz (link_at h (us @ [z])) = Some (Some (link_at h ((us @ [z]) @ ws)))"
      then show ?thesis using b False by (intro disjI2 exI [of _ "z # ws"] exI [of _ y] exI [of _ vs]) auto
    qed (use b s False in auto)
  qed
qed

lemma detach_loop_spec:
  "linked (nexts qm) (free_first qm h) us r \<Longrightarrow> linked (nexts qm) r zs 0 \<Longrightarrow> n \<in> set zs \<Longrightarrow>
    \<exists>ws vs. zs = ws @ n # vs \<and> detach_loop qm n (link_at h us) = Some (link_at h (us @ ws))"
proof (induction zs arbitrary: us r)
  case (Cons z zs)
  then obtain m where z: "r = z" "z \<noteq> 0" "nexts qm z = Some m" "linked (nexts qm) m zs 0"
    by auto
  have u: "linked (nexts qm) (free_first qm h) (us @ [z]) m" using Cons.prems(1) z by (simp add: linked_append)
  have b: "detach_loop qm n (link_at h us) = (if z = n then Some (link_at h us) else detach_loop qm n (link_at h (us @ [z])))"
    by (subst detach_loop.simps) (simp add: get_link_at [OF Cons.prems(1)] z(1,2))
  show ?case
  proof (cases "z = n")
    case True
    then show ?thesis using b by (intro exI [of _ "[]"] exI [of _ zs]) auto
  next
    case False
    then obtain ws vs where "zs = ws @ n # vs" "detach_loop qm n (link_at h (us @ [z])) = Some (link_at h ((us @ [z]) @ ws))"
      using Cons.IH [OF u z(4)] Cons.prems(3) by auto
    then show ?thesis using b False by (intro exI [of _ "z # ws"] exI [of _ vs]) auto
  qed
qed simp


subsection \<open>The pool\<close>

definition pool :: "fm_block \<Rightarrow> int list \<Rightarrow> (int \<Rightarrow> int list) \<Rightarrow> bool" where
  "pool qm as fl \<longleftrightarrow>
     0 < first_frag qm \<and> 8 dvd first_frag qm \<and> last_frag qm + 16 \<le> 2 ^ 64 \<and>
     tiled (sizes qm) (first_frag qm) as (last_frag qm + 16) \<and>
     (\<forall>h. 0 \<le> h \<and> h < 2099 \<longrightarrow>
        linked (nexts qm) (free_first qm h) (fl h) 0 \<and> distinct (fl h) \<and> free_no qm h = int (length (fl h)) \<and>
        (\<forall>a\<in>set (fl h). a \<in> set as \<and> GET_HASH (the (sizes qm a)) = h))"

text \<open>The fragments in use. The link of such a fragment is null, by which \<open>fm_realloc\<close> knows it.\<close>

definition used :: "fm_block \<Rightarrow> int list \<Rightarrow> (int \<Rightarrow> int list) \<Rightarrow> int set" where
  "used qm as fl = {a \<in> set as. a \<notin> set (fl (GET_HASH (the (sizes qm a))))}"

definition marked :: "fm_block \<Rightarrow> int set \<Rightarrow> bool" where
  "marked qm X \<longleftrightarrow> (\<forall>a\<in>X. nexts qm a = Some 0)"

lemma poolD:
  assumes "pool qm as fl"
  shows "0 < first_frag qm" "8 dvd first_frag qm" "last_frag qm + 16 \<le> 2 ^ 64" "tiled (sizes qm) (first_frag qm) as (last_frag qm + 16)"
  using assms by (simp_all add: pool_def)

lemma pool_bucket:
  assumes "pool qm as fl" "0 \<le> h" "h < 2099"
  shows "linked (nexts qm) (free_first qm h) (fl h) 0" "distinct (fl h)" "free_no qm h = int (length (fl h))"
    "\<And>a. a \<in> set (fl h) \<Longrightarrow> a \<in> set as \<and> GET_HASH (the (sizes qm a)) = h"
  using assms by (simp_all add: pool_def)

lemma pool_frag:
  assumes "pool qm as fl" "a \<in> set as"
  obtains n where "sizes qm a = Some n" "0 \<le> n" "8 dvd n" "0 < a" "first_frag qm \<le> a" "a + 16 + n \<le> last_frag qm + 16" "n < 2 ^ 64"
    "0 \<le> GET_HASH n" "GET_HASH n < 2099"
proof -
  obtain n where n: "n \<ge> 0" "8 dvd n" "sizes qm a = Some n" "first_frag qm \<le> a" "a + 16 + n \<le> last_frag qm + 16"
    using tiled_in [OF poolD(4) [OF assms(1)] assms(2)] by auto
  moreover have "n < 2 ^ 64" using n poolD(1,3) [OF assms(1)] by linarith
  ultimately show thesis using that poolD(1) [OF assms(1)] GET_HASH_range [of n] by force
qed

lemma sizes_nexts: "sizes qm a \<noteq> None \<longleftrightarrow> nexts qm a \<noteq> None"
  by (simp add: sizes_def nexts_def)

lemma set_next_fields [simp]:
  "sizes (set_next a n qm) = sizes qm" "nexts (set_next a n qm) = (nexts qm)(a := map_option (\<lambda>_. n) (nexts qm a))"
  "bytes (set_next a n qm) = bytes qm" "first_frag (set_next a n qm) = first_frag qm" "last_frag (set_next a n qm) = last_frag qm"
  "free_first (set_next a n qm) = free_first qm" "free_no (set_next a n qm) = free_no qm"
  by (auto simp: set_next_def sizes_def nexts_def option.map_comp o_def)

lemma set_link_fields [simp]:
  "sizes (set_link l n qm) = sizes qm" "bytes (set_link l n qm) = bytes qm" "first_frag (set_link l n qm) = first_frag qm"
  "last_frag (set_link l n qm) = last_frag qm" "free_no (set_link l n qm) = free_no qm"
  by (simp_all add: set_link_def sizes_def [of "qm\<lparr>free_first := x\<rparr>" for x] sizes_def [of qm] split: link.split)
    (auto simp: set_link_def sizes_def split: link.split)

lemma upd_fields [simp]:
  "sizes (qm\<lparr>free_no := x\<rparr>) = sizes qm" "nexts (qm\<lparr>free_no := x\<rparr>) = nexts qm"
  "sizes (qm\<lparr>free_first := y\<rparr>) = sizes qm" "nexts (qm\<lparr>free_first := y\<rparr>) = nexts qm"
  "sizes (qm\<lparr>bytes := z\<rparr>) = sizes qm" "nexts (qm\<lparr>bytes := z\<rparr>) = nexts qm"
  by (auto simp: sizes_def nexts_def)

lemma set_link_Bucket: "set_link (Bucket h) n qm = qm\<lparr>free_first := (free_first qm)(h := n)\<rparr>"
  and set_link_Next: "set_link (Next a) n qm = set_next a n qm"
  by (simp_all add: set_link_def)

text \<open>Storing a pointer behind \<open>us\<close>: the list of this bucket gets a new tail, the others stay.\<close>

lemma set_link_at:
  assumes "linked (nexts qm) (free_first qm h) us r" "distinct us" "linked (nexts qm) n vs 0" "set us \<inter> set vs = {}"
  shows "linked (nexts (set_link (link_at h us) n qm)) (free_first (set_link (link_at h us) n qm) h) (us @ vs) 0"
    and "h' \<noteq> h \<Longrightarrow> set us \<inter> set ws = {} \<Longrightarrow> linked (nexts qm) (free_first qm h') ws 0 \<Longrightarrow>
      linked (nexts (set_link (link_at h us) n qm)) (free_first (set_link (link_at h us) n qm) h') ws 0"
    and "x \<notin> set us \<Longrightarrow> nexts (set_link (link_at h us) n qm) x = nexts qm x"
proof -
  show "linked (nexts (set_link (link_at h us) n qm)) (free_first (set_link (link_at h us) n qm) h) (us @ vs) 0"
  proof (cases us rule: rev_cases)
    case Nil
    then show ?thesis using assms(3) by (simp add: set_link_Bucket)
  next
    case (snoc us' x)
    have x: "nexts qm x \<noteq> None" "linked (nexts qm) (free_first qm h) us' x" "x \<noteq> 0" "x \<notin> set us'" "x \<notin> set vs"
      using assms snoc by (auto simp: linked_append)
    let ?N = "(nexts qm)(x := map_option (\<lambda>_. n) (nexts qm x))"
    have "linked ?N (free_first qm h) us' x = linked (nexts qm) (free_first qm h) us' x" by (rule linked_cong) (use x(4) in auto)
    moreover have "linked ?N n vs 0 = linked (nexts qm) n vs 0" by (rule linked_cong) (use x(5) in auto)
    ultimately show ?thesis using x assms(3) snoc by (auto simp: set_link_Next linked_append)
  qed
  show "linked (nexts (set_link (link_at h us) n qm)) (free_first (set_link (link_at h us) n qm) h') ws 0"
    if "h' \<noteq> h" "set us \<inter> set ws = {}" "linked (nexts qm) (free_first qm h') ws 0"
  proof (cases us rule: rev_cases)
    case Nil
    then show ?thesis using that by (simp add: set_link_Bucket)
  next
    case (snoc us' x)
    let ?N = "(nexts qm)(x := map_option (\<lambda>_. n) (nexts qm x))"
    have "linked ?N (free_first qm h') ws 0 = linked (nexts qm) (free_first qm h') ws 0"
      by (rule linked_cong) (use that(2) snoc in auto)
    then show ?thesis using that(3) snoc by (simp add: set_link_Next)
  qed
  show "nexts (set_link (link_at h us) n qm) x = nexts qm x" if "x \<notin> set us"
    using that by (cases us rule: rev_cases) (auto simp: set_link_Bucket set_link_Next)
qed

text \<open>What an operation that only relinks keeps.\<close>

definition relinks :: "fm_block \<Rightarrow> fm_block \<Rightarrow> bool" where
  "relinks qm qm' \<longleftrightarrow>
     sizes qm' = sizes qm \<and> bytes qm' = bytes qm \<and> first_frag qm' = first_frag qm \<and> last_frag qm' = last_frag qm"

lemma insert_free_spec:
  assumes "pool qm as fl" "a \<in> used qm as fl" "marked qm (used qm as fl - {a})"
  shows "\<exists>qm' fl'. fm_insert_free a qm = Some qm' \<and> pool qm' as fl' \<and> used qm' as fl' = used qm as fl - {a} \<and>
    relinks qm qm' \<and> marked qm' (used qm' as fl')"
proof -
  have a: "a \<in> set as" using assms(2) by (simp add: used_def)
  obtain n where n: "sizes qm a = Some n" "0 < a" "0 \<le> GET_HASH n" "GET_HASH n < 2099"
    using pool_frag [OF assms(1) a] by metis
  let ?h = "GET_HASH n"
  have fresh: "a \<notin> set (fl h)" if "0 \<le> h" "h < 2099" for h
    using assms(2) n(1) pool_bucket(4) [OF assms(1) that, of a] by (auto simp: used_def)
  note b = pool_bucket [OF assms(1) n(3,4)]
  obtain frag where frag: "frags qm a = Some frag" "fr_size frag = n" using n(1) by (auto simp: sizes_def)
  obtain us vs where uv: "fl ?h = us @ vs"
    "(if n > 16384 then insert_loop qm n (Bucket ?h) else Some (Bucket ?h)) = Some (link_at ?h us)"
  proof (cases "n > 16384")
    case True
    then show ?thesis using insert_loop_spec [of qm ?h "[]" "free_first qm ?h" "fl ?h" n] b(1) that by auto
  next
    case False
    then show ?thesis using that [of "[]" "fl ?h"] by simp
  qed
  obtain r where r: "linked (nexts qm) (free_first qm ?h) us r" "linked (nexts qm) r vs 0"
    using b(1) uv(1) by (auto simp: linked_append)
  let ?q1 = "set_next a r qm"
  let ?q2 = "set_link (link_at ?h us) a ?q1"
  let ?q3 = "?q2\<lparr>free_no := (free_no ?q2)(?h := free_no ?q2 ?h + 1)\<rparr>"
  let ?fl = "fl(?h := us @ a # vs)"
  have run: "fm_insert_free a qm = Some ?q3"
    unfolding fm_insert_free_def frag(1) option.case frag(2) Let_def uv(2) get_link_at [OF r(1)] by simp
  have na: "nexts qm a \<noteq> None" using n(1) sizes_nexts by force
  have cong: "linked (nexts ?q1) p xs q = linked (nexts qm) p xs q" if "a \<notin> set xs" for p xs q
    by (rule linked_cong) (use that in auto)
  have auv: "a \<notin> set us" "a \<notin> set vs" using fresh [OF n(3,4)] uv(1) by simp_all
  have l1: "linked (nexts ?q1) (free_first ?q1 ?h) us r" "linked (nexts ?q1) a (a # vs) 0"
    using r na auv n(2) cong by auto
  have d: "distinct us" "set us \<inter> set (a # vs) = {}" using b(2) uv(1) auv by auto
  have lh: "linked (nexts ?q3) (free_first ?q3 ?h) (us @ a # vs) 0" using set_link_at(1) [OF l1(1) d(1) l1(2) d(2)] by simp
  have lo: "linked (nexts ?q3) (free_first ?q3 h) (fl h) 0" if "h \<noteq> ?h" "0 \<le> h" "h < 2099" for h
  proof -
    have "set us \<inter> set (fl h) = {}" using pool_bucket(4) [OF assms(1) that(2,3)] b(4) uv(1) that(1) by fastforce
    moreover have "linked (nexts ?q1) (free_first ?q1 h) (fl h) 0"
      using cong [OF fresh [OF that(2,3)]] pool_bucket(1) [OF assms(1) that(2,3)] by simp
    ultimately show ?thesis using set_link_at(2) [OF l1(1) d(1) l1(2) d(2) that(1)] by simp
  qed
  have "pool ?q3 as ?fl"
    unfolding pool_def
  proof (intro conjI allI impI)
    fix h :: int
    assume h: "0 \<le> h \<and> h < 2099"
    show "linked (nexts ?q3) (free_first ?q3 h) (?fl h) 0" using lh lo h by (cases "h = ?h") auto
    show "distinct (?fl h)" using pool_bucket(2) [OF assms(1)] h uv(1) auv by (cases "h = ?h") (use b(2) in auto)
    show "free_no ?q3 h = int (length (?fl h))" using pool_bucket(3) [OF assms(1)] h b(3) uv(1) by auto
    show "\<forall>x\<in>set (?fl h). x \<in> set as \<and> GET_HASH (the (sizes ?q3 x)) = h"
      using pool_bucket(4) [OF assms(1)] h b(4) uv(1) a n(1) by (cases "h = ?h") auto
  qed (use poolD [OF assms(1)] in simp_all)
  moreover have us: "used ?q3 as ?fl = used qm as fl - {a}" 
    using uv(1) n(1) by (auto simp: used_def)
  moreover have "marked ?q3 (used ?q3 as ?fl)"
  proof -
    have "nexts ?q3 x = nexts qm x" if "x \<in> used qm as fl - {a}" for x
    proof -
      have "x \<notin> set us" using that b(4) uv(1) by (auto simp: used_def)
      then show ?thesis using set_link_at(3) [OF l1(1) d(1) l1(2) d(2)] that by simp
    qed
    then show ?thesis unfolding us using assms(3) by (simp add: marked_def)
  qed
  moreover have "relinks qm ?q3" by (simp add: relinks_def)
  ultimately show ?thesis using run by blast
qed


lemma bucket_apart:
  assumes "pool qm as fl" "0 \<le> h" "h < 2099" "0 \<le> h'" "h' < 2099" "h \<noteq> h'"
  shows "set (fl h) \<inter> set (fl h') = {}"
  using pool_bucket(4) [OF assms(1-3)] pool_bucket(4) [OF assms(1,4,5)] assms(6) by blast

lemma detach_spec:
  assumes "pool qm as fl" "0 \<le> h" "h < 2099" "fl h = ws @ z # vs" "marked qm (used qm as fl)"
  shows "\<exists>qm'. detach h (link_at h ws) z qm = Some qm' \<and> pool qm' as (fl(h := ws @ vs)) \<and>
    used qm' as (fl(h := ws @ vs)) = insert z (used qm as fl) \<and> z \<notin> used qm as fl \<and> relinks qm qm' \<and> marked qm' (used qm as fl)"
proof -
  note b = pool_bucket [OF assms(1-3)]
  have z: "z \<in> set as" "GET_HASH (the (sizes qm z)) = h" using b(4) [of z] assms(4) by simp_all
  obtain r m where r: "linked (nexts qm) (free_first qm h) ws z" "nexts qm z = Some m" "linked (nexts qm) m vs 0"
    using b(1) assms(4) by (auto simp: linked_append)
  obtain frag where frag: "frags qm z = Some frag" "nxt_free frag = m" using r(2) by (auto simp: nexts_def)
  let ?q2 = "set_link (link_at h ws) m qm"
  let ?q3 = "?q2\<lparr>free_no := (free_no ?q2)(h := free_no ?q2 h - 1)\<rparr>"
  let ?fl = "fl(h := ws @ vs)"
  have run: "detach h (link_at h ws) z qm = Some ?q3"
    unfolding detach_def frag(1) option.case frag(2) Let_def by simp
  have d: "distinct ws" "set ws \<inter> set vs = {}" "z \<notin> set ws" "z \<notin> set vs" using b(2) assms(4) by auto
  have lh: "linked (nexts ?q3) (free_first ?q3 h) (ws @ vs) 0" using set_link_at(1) [OF r(1) d(1) r(3) d(2)] by simp
  have lo: "linked (nexts ?q3) (free_first ?q3 h') (fl h') 0" if "h' \<noteq> h" "0 \<le> h'" "h' < 2099" for h'
  proof -
    have "set ws \<inter> set (fl h') = {}" using bucket_apart [OF assms(1-3) that(2,3)] that(1) assms(4) by auto
    then show ?thesis using set_link_at(2) [OF r(1) d(1) r(3) d(2) that(1)] pool_bucket(1) [OF assms(1) that(2,3)] by simp
  qed
  have "pool ?q3 as ?fl"
    unfolding pool_def
  proof (intro conjI allI impI)
    fix h' :: int
    assume h: "0 \<le> h' \<and> h' < 2099"
    show "linked (nexts ?q3) (free_first ?q3 h') (?fl h') 0" using lh lo h by (cases "h' = h") auto
    show "distinct (?fl h')" using pool_bucket(2) [OF assms(1)] h b(2) assms(4) by (cases "h' = h") auto
    show "free_no ?q3 h' = int (length (?fl h'))" using pool_bucket(3) [OF assms(1)] h b(3) assms(4) by auto
    show "\<forall>x\<in>set (?fl h'). x \<in> set as \<and> GET_HASH (the (sizes ?q3 x)) = h'"
      using pool_bucket(4) [OF assms(1)] h b(4) assms(4) by (cases "h' = h") auto
  qed (use poolD [OF assms(1)] in simp_all)
  moreover have "used ?q3 as ?fl = insert z (used qm as fl)" "z \<notin> used qm as fl"
    using assms(4) z d by (auto simp: used_def)
  moreover have "marked ?q3 (used qm as fl)"
  proof -
    have "nexts ?q3 x = nexts qm x" if "x \<in> used qm as fl" for x
    proof -
      have "x \<notin> set ws" using that b(4) assms(4) by (auto simp: used_def)
      then show ?thesis using set_link_at(3) [OF r(1) d(1) r(3) d(2)] that by simp
    qed
    then show ?thesis using assms(5) by (simp add: marked_def)
  qed
  moreover have "relinks qm ?q3" by (simp add: relinks_def)
  ultimately show ?thesis using run by blast
qed

declare find_frag.simps [simp del]

lemma find_frag_spec:
  assumes "pool qm as fl" "0 \<le> hash"
  shows "find_frag qm sz hash = Some None \<and> (\<forall>h. hash \<le> h \<and> h < 2099 \<longrightarrow> (\<forall>a\<in>set (fl h). the (sizes qm a) < sz)) \<or>
    (\<exists>h ws z vs. hash \<le> h \<and> h < 2099 \<and> fl h = ws @ z # vs \<and> sz \<le> the (sizes qm z) \<and>
      find_frag qm sz hash = Some (Some (h, link_at h ws)))"
  using assms(2)
proof (induction "nat (2099 - hash)" arbitrary: hash rule: less_induct)
  case less
  show ?case
  proof (cases "hash < 2099")
    case False
    then show ?thesis by (subst find_frag.simps) simp
  next
    case True
    have "linked (nexts qm) (free_first qm hash) (fl hash) 0" using pool_bucket(1) [OF assms(1) less(2) True] .
    from bucket_loop_spec [of qm hash "[]" _ "fl hash" sz] this
    consider (none) "\<forall>z\<in>set (fl hash). the (sizes qm z) < sz" "bucket_loop qm sz (Bucket hash) = Some None"
      | (found) ws z vs where "fl hash = ws @ z # vs" "sz \<le> the (sizes qm z)" "bucket_loop qm sz (Bucket hash) = Some (Some (link_at hash ws))"
      by fastforce
    then show ?thesis
    proof cases
      case none
      then have f: "find_frag qm sz hash = find_frag qm sz (hash + 1)" using True by (subst find_frag.simps) simp
      have "nat (2099 - (hash + 1)) < nat (2099 - hash)" "0 \<le> hash + 1" using True less(2) by simp_all
      from less(1) [OF this] show ?thesis
      proof (elim disjE exE conjE)
        assume a: "find_frag qm sz (hash + 1) = Some None" "\<forall>h. hash + 1 \<le> h \<and> h < 2099 \<longrightarrow> (\<forall>a\<in>set (fl h). the (sizes qm a) < sz)"
        have "\<forall>a\<in>set (fl h). the (sizes qm a) < sz" if "hash \<le> h" "h < 2099" for h
        proof (cases "h = hash")
          case False
          then have "hash + 1 \<le> h" using that(1) by simp
          then show ?thesis using a(2) that(2) by blast
        qed (use none(1) in simp)
        then show ?thesis using f a(1) by auto
      next
        fix h ws z vs
        assume "hash + 1 \<le> h" "h < 2099" "fl h = ws @ z # vs" "sz \<le> the (sizes qm z)" "find_frag qm sz (hash + 1) = Some (Some (h, link_at h ws))"
        then show ?thesis using f by (intro disjI2 exI [of _ h] exI [of _ ws] exI [of _ z] exI [of _ vs]) simp
      qed
    next
      case found
      then have "find_frag qm sz hash = Some (Some (hash, link_at hash ws))" using True by (subst find_frag.simps) simp
      then show ?thesis using found True by blast
    qed
  qed
qed


text \<open>A pool with the headers of the fragments in use and of the free ones.\<close>

definition heap :: "fm_block \<Rightarrow> int set \<Rightarrow> int set \<Rightarrow> bool" where
  "heap qm U F \<longleftrightarrow> (\<exists>as fl. pool qm as fl \<and> U = used qm as fl \<and> F = set as - U \<and> marked qm U)"

definition bounds_of :: "fm_block \<Rightarrow> int \<times> int" where
  "bounds_of qm = (first_frag qm, last_frag qm)"

lemma heap_frag:
  assumes "heap qm U F" "a \<in> U \<union> F"
  obtains n where "sizes qm a = Some n" "0 \<le> n" "8 dvd n" "0 < a" "first_frag qm \<le> a" "a + 16 + n \<le> last_frag qm + 16" "n < 2 ^ 64"
proof -
  obtain as fl where "pool qm as fl" "a \<in> set as" using assms by (auto simp: heap_def used_def)
  then show thesis using that pool_frag by metis
qed

lemma heap_apart:
  assumes "heap qm U F" "a \<in> U \<union> F" "b \<in> U \<union> F" "a < b"
  shows "a + 16 + the (sizes qm a) \<le> b"
proof -
  obtain as fl where "pool qm as fl" "a \<in> set as" "b \<in> set as" using assms by (auto simp: heap_def used_def)
  then show ?thesis using tiled_apart [OF poolD(4)] pool_frag assms(4) by (metis option.sel)
qed

lemma heap_marked: "heap qm U F \<Longrightarrow> a \<in> U \<Longrightarrow> nexts qm a = Some 0"
  by (auto simp: heap_def marked_def)

lemma insert_heap:
  assumes "pool qm as fl" "a \<in> used qm as fl" "marked qm (used qm as fl - {a})"
  shows "\<exists>qm'. fm_insert_free a qm = Some qm' \<and> heap qm' (used qm as fl - {a}) (set as - (used qm as fl - {a})) \<and> relinks qm qm'"
  using insert_free_spec [OF assms] by (auto simp: heap_def) metis

lemma free_heap:
  assumes "heap qm U F" "a \<in> U"
  shows "\<exists>qm'. fm_insert_free a qm = Some qm' \<and> heap qm' (U - {a}) (insert a F) \<and> relinks qm qm'"
proof -
  obtain as fl where h: "pool qm as fl" "U = used qm as fl" "F = set as - U" "marked qm U" using assms(1) by (auto simp: heap_def)
  have "set as - (U - {a}) = insert a F" using h(2,3) assms(2) by (auto simp: used_def)
  moreover have "marked qm (used qm as fl - {a})" "a \<in> used qm as fl" using h(2,4) assms(2) by (simp_all add: marked_def)
  ultimately show ?thesis using insert_heap [OF h(1)] h(2) by metis
qed

text \<open>A fragment in use after its header was cut short, with a new header behind it.\<close>

lemma cut_pool:
  assumes "pool qm as fl" "a \<in> used qm as fl" "marked qm (used qm as fl)" "sizes qm a = Some n" "0 \<le> s" "8 dvd s" "s + 16 \<le> n"
  defines "z \<equiv> a + 16 + s"
  defines "q \<equiv> set_size a s qm"
  defines "qm1 \<equiv> q\<lparr>frags := (frags q)(z \<mapsto> \<lparr>fr_size = n - s - 16, nxt_free = 0\<rparr>)\<rparr>"
  shows "\<exists>as'. pool qm1 as' fl \<and> used qm1 as' fl = insert z (used qm as fl) \<and> set as' = insert z (set as) \<and> z \<notin> set as \<and>
    marked qm1 (used qm as fl) \<and> sizes qm1 = (sizes qm)(a := Some s, z := Some (n - s - 16)) \<and>
    bytes qm1 = bytes qm \<and> bounds_of qm1 = bounds_of qm"
proof -
  have a: "a \<in> set as" using assms(2) by (simp add: used_def)
  note t = poolD(4) [OF assms(1)]
  have z: "z \<notin> set as" using tiled_apart [OF t a _ _ assms(4), of z] assms(5,7) by (auto simp: z_def)
  obtain us vs where uv: "as = us @ a # vs" using split_list [OF a] by blast
  obtain fr where fr: "frags qm a = Some fr" using assms(4) by (auto simp: sizes_def)
  have S: "sizes qm1 = (sizes qm)(a := Some s, z := Some (n - s - 16))"
    using fr assms(5) by (auto simp: qm1_def q_def set_size_def sizes_def z_def)
  have N: "nexts qm1 = (nexts qm)(z := Some 0)"
    using fr assms(5) by (auto simp: qm1_def q_def set_size_def nexts_def z_def)
  have f: "first_frag qm1 = first_frag qm" "last_frag qm1 = last_frag qm" "free_first qm1 = free_first qm" "free_no qm1 = free_no qm"
    "bytes qm1 = bytes qm"
    by (simp_all add: qm1_def q_def set_size_def)
  let ?as = "us @ a # z # vs"
  have "tiled (sizes qm1) (first_frag qm1) ?as (last_frag qm1 + 16)"
    unfolding S z_def f using tiled_cut [of "sizes qm" "first_frag qm" us a vs "last_frag qm + 16" n s] t uv assms(4-7) by simp
  moreover have b: "linked (nexts qm1) (free_first qm1 h) (fl h) 0 \<and> distinct (fl h) \<and> free_no qm1 h = int (length (fl h)) \<and>
      (\<forall>x\<in>set (fl h). x \<in> set ?as \<and> GET_HASH (the (sizes qm1 x)) = h)" if "0 \<le> h" "h < 2099" for h
  proof -
    note b = pool_bucket [OF assms(1) that]
    have "z \<notin> set (fl h)" using b(4) z by blast
    moreover have "a \<notin> set (fl h)" using assms(2) b(4) [of a] by (auto simp: used_def)
    moreover from calculation(1) have "linked (nexts qm1) (free_first qm h) (fl h) 0 = linked (nexts qm) (free_first qm h) (fl h) 0"
      unfolding N by (intro linked_cong) auto
    ultimately show ?thesis using b uv f S by auto
  qed
  moreover have "0 < first_frag qm1" "8 dvd first_frag qm1" "last_frag qm1 + 16 \<le> 2 ^ 64" using poolD(1-3) [OF assms(1)] f by simp_all
  ultimately have "pool qm1 ?as fl" unfolding pool_def by blast
  moreover have "used qm1 ?as fl = insert z (used qm as fl)"
  proof -
    have nz: "z \<notin> set (fl h)" "a \<notin> set (fl h)" if "0 \<le> h" "h < 2099" for h
      using pool_bucket(4) [OF assms(1) that] z assms(2) by (auto simp: used_def)
    have r: "0 \<le> GET_HASH s" "GET_HASH s < 2099" "0 \<le> GET_HASH (n - s - 16)" "GET_HASH (n - s - 16) < 2099"
    proof -
      have "n < 2 ^ 64" using pool_frag [OF assms(1) a] assms(4) by (metis option.inject)
      then have "s < 2 ^ 64" "0 \<le> n - s - 16" "n - s - 16 < 2 ^ 64" using assms(5,7) by linarith+
      then show "0 \<le> GET_HASH s" "GET_HASH s < 2099" "0 \<le> GET_HASH (n - s - 16)" "GET_HASH (n - s - 16) < 2099"
        using GET_HASH_range [OF assms(5)] GET_HASH_range [of "n - s - 16"] by blast+
    qed
    have "x \<in> used qm1 ?as fl \<longleftrightarrow> x \<in> insert z (used qm as fl)" for x
    proof -
      consider "x = z" | "x = a" | "x \<noteq> z" "x \<noteq> a" by blast
      then show ?thesis
        using nz r assms(2,5) z uv by cases (auto simp: used_def S z_def)
    qed
    then show ?thesis by blast
  qed
  moreover have "marked qm1 (used qm as fl)" using assms(3) z by (auto simp: marked_def N used_def)
  moreover have "set ?as = insert z (set as)" using uv by auto
  ultimately show ?thesis using z S f by (intro exI [of _ ?as]) (simp add: bounds_of_def)
qed

lemma split_spec:
  assumes "heap qm U F" "a \<in> U" "sizes qm a = Some n" "0 \<le> s" "8 dvd s" "s \<le> n"
  shows "\<exists>qm' F'. fm_split_frag a s qm = Some qm' \<and> heap qm' U F' \<and> bytes qm' = bytes qm \<and> bounds_of qm' = bounds_of qm \<and>
    (\<exists>m. sizes qm' a = Some m \<and> s \<le> m \<and> m \<le> n) \<and> (\<forall>b\<in>U \<union> F - {a}. sizes qm' b = sizes qm b)"
proof -
  obtain as fl where h: "pool qm as fl" "U = used qm as fl" "F = set as - U" "marked qm U" using assms(1) by (auto simp: heap_def)
  obtain fr where fr: "frags qm a = Some fr" "fr_size fr = n" using assms(3) by (auto simp: sizes_def)
  have sub: "U \<subseteq> set as" using h(2) by (auto simp: used_def)
  show ?thesis
  proof (cases "n - s > 16 + 16384 \<or> n - s \<ge> 16 + s")
    case True
    then have s16: "s + 16 \<le> n" using assms(4) by auto
    let ?q = "set_size a s qm" and ?z = "a + 16 + s"
    let ?qm1 = "?q\<lparr>frags := (frags ?q)(?z \<mapsto> \<lparr>fr_size = n - s - 16, nxt_free = 0\<rparr>)\<rparr>"
    have run: "fm_split_frag a s qm = fm_insert_free ?z ?qm1"
      using fr True by (simp add: fm_split_frag_def Let_def)
    obtain as' where p: "pool ?qm1 as' fl" "used ?qm1 as' fl = insert ?z U" "set as' = insert ?z (set as)" "?z \<notin> set as"
      "marked ?qm1 U" "sizes ?qm1 = (sizes qm)(a := Some s, ?z := Some (n - s - 16))" "bytes ?qm1 = bytes qm" "bounds_of ?qm1 = bounds_of qm"
      using cut_pool [OF h(1) _ _ assms(3-5) s16] h(2,4) assms(2) by metis
    have zU: "?z \<notin> U" using p(4) sub by blast
    obtain qm' where q: "fm_insert_free ?z ?qm1 = Some qm'" "heap qm' U (set as' - U)" "relinks ?qm1 qm'"
      using insert_heap [OF p(1), of ?z] p(2,5) zU by auto
    have "sizes qm' a = Some s" "\<forall>b\<in>U \<union> F - {a}. sizes qm' b = sizes qm b"
      using q(3) p(4,6) assms(4) sub h(3) by (auto simp: relinks_def)
    then show ?thesis using run q p(7,8) assms(4,6) by (auto simp: relinks_def bounds_of_def)
  next
    case False
    then have "fm_split_frag a s qm = Some qm" using fr by (simp add: fm_split_frag_def Let_def)
    then show ?thesis using assms by auto
  qed
qed

subsection \<open>Rounding\<close>

lemma and_not_mask_word: "x AND NOT (mask k) = push_bit k (drop_bit k x)" for x :: u64
  by (rule bit_eqI) (auto simp: bit_simps)

lemma and_not_7: "uint (x AND NOT 7) = uint x div 8 * 8" for x :: u64
proof -
  have "(7 :: u64) = mask 3" by (simp add: mask_eq_exp_minus_1)
  then have "x AND NOT 7 = push_bit 3 (drop_bit 3 x)" by (simp only: and_not_mask_word)
  moreover have "uint (push_bit 3 (drop_bit 3 x)) = uint x div 8 * 8"
  proof -
    have "0 \<le> uint x div 8 * 8" "uint x div 8 * 8 < 2 ^ 64" using uint_lt2p [of x] by (auto simp: pos_imp_zdiv_nonneg_iff)
    then show ?thesis by (simp add: push_bit_eq_mult uint_word_ariths drop_bit_eq_div uint_div)
  qed
  ultimately show ?thesis by simp
qed

lemma ROUNDUP_value: "uint (ROUNDUP s) = (uint s + 7) mod 2 ^ 64 div 8 * 8"
  unfolding ROUNDUP_def and_not_7 by (simp add: uint_word_ariths)

lemma ROUNDUP_fits: "uint s \<le> 2 ^ 64 - 8 \<Longrightarrow> uint s \<le> uint (ROUNDUP s) \<and> uint (ROUNDUP s) < uint s + 8"
  unfolding ROUNDUP_value by simp presburger

lemma ROUNDUP_multiple: "8 dvd uint (ROUNDUP s)" "0 \<le> uint (ROUNDUP s)" "uint (ROUNDUP s) < 2 ^ 64"
  using uint_lt2p [of "ROUNDUP s"] by (simp_all add: ROUNDUP_value)

subsection \<open>malloc and free\<close>

lemma set_next_heap:
  assumes "pool qm as fl" "a \<in> used qm as fl" "marked qm (used qm as fl - {a})"
  shows "heap (set_next a 0 qm) (used qm as fl) (set as - used qm as fl)"
proof -
  have fresh: "a \<notin> set (fl h)" if "0 \<le> h" "h < 2099" for h
    using assms(2) pool_bucket(4) [OF assms(1) that, of a] by (auto simp: used_def)
  have "linked (nexts (set_next a 0 qm)) p (fl h) 0 = linked (nexts qm) p (fl h) 0" if "0 \<le> h" "h < 2099" for p h
    by (rule linked_cong) (use fresh [OF that] in auto)
  then have "pool (set_next a 0 qm) as fl" using assms(1) by (simp add: pool_def)
  moreover have "used (set_next a 0 qm) as fl = used qm as fl" by (simp add: used_def)
  moreover obtain n where "sizes qm a = Some n" using pool_frag [OF assms(1)] assms(2) by (auto simp: used_def)
  then have "nexts qm a \<noteq> None" using sizes_nexts by force
  then have "marked (set_next a 0 qm) (used qm as fl)" using assms(3) by (auto simp: marked_def)
  ultimately show ?thesis unfolding heap_def by metis
qed

lemma free_listed:
  assumes "pool qm as fl" "a \<in> set as - used qm as fl" "sizes qm a = Some n"
  shows "a \<in> set (fl (GET_HASH n))"
  using assms by (auto simp: used_def)

lemma malloc_spec:
  assumes "heap qm U F"
  shows "(\<forall>a\<in>F. the (sizes qm a) < uint (ROUNDUP sz)) \<and> fm_malloc sz qm = Some (0, qm) \<or>
    (\<exists>a qm' F'. a \<in> F \<and> uint (ROUNDUP sz) \<le> the (sizes qm a) \<and> fm_malloc sz qm = Some (a + 16, qm') \<and> heap qm' (insert a U) F' \<and>
      bytes qm' = bytes qm \<and> bounds_of qm' = bounds_of qm \<and> uint (ROUNDUP sz) \<le> the (sizes qm' a) \<and> (\<forall>b\<in>U. sizes qm' b = sizes qm b))"
proof -
  obtain as fl where h: "pool qm as fl" "U = used qm as fl" "F = set as - U" "marked qm U" using assms by (auto simp: heap_def)
  let ?r = "uint (ROUNDUP sz)"
  note r = ROUNDUP_multiple [of sz]
  have h0: "0 \<le> GET_HASH ?r" using GET_HASH_range [OF r(2,3)] by blast
  from find_frag_spec [OF h(1) h0, of ?r] show ?thesis
  proof (elim disjE exE conjE)
    assume none: "find_frag qm ?r (GET_HASH ?r) = Some None" "\<forall>h. GET_HASH ?r \<le> h \<and> h < 2099 \<longrightarrow> (\<forall>a\<in>set (fl h). the (sizes qm a) < ?r)"
    have "the (sizes qm a) < ?r" if a: "a \<in> F" for a
    proof (rule ccontr)
      obtain n where n: "sizes qm a = Some n" "0 \<le> n" "n < 2 ^ 64" "GET_HASH n < 2099"
        using pool_frag [OF h(1), of a] a h(3) by (metis DiffE)
      assume "\<not> the (sizes qm a) < ?r"
      then have "GET_HASH ?r \<le> GET_HASH n" using GET_HASH_mono [OF r(2) _ n(3)] n(1) by simp
      moreover have "a \<in> set (fl (GET_HASH n))" using free_listed [OF h(1) _ n(1)] a h(2,3) by simp
      ultimately show False using none(2) n(4) \<open>\<not> the (sizes qm a) < ?r\<close> by blast
    qed
    moreover have "fm_malloc sz qm = Some (0, qm)" using none(1) by (simp add: fm_malloc_def Let_def)
    ultimately show ?thesis by blast
  next
    fix hs ws z vs
    assume f: "GET_HASH ?r \<le> hs" "hs < 2099" "fl hs = ws @ z # vs" "?r \<le> the (sizes qm z)" "find_frag qm ?r (GET_HASH ?r) = Some (Some (hs, link_at hs ws))"
    then have h1: "0 \<le> hs" using h0 by simp
    have m: "marked qm (used qm as fl)" using h(2,4) by simp
    obtain qm1 where d: "detach hs (link_at hs ws) z qm = Some qm1" "pool qm1 as (fl(hs := ws @ vs))"
      "used qm1 as (fl(hs := ws @ vs)) = insert z U" "z \<notin> U" "relinks qm qm1" "marked qm1 U"
      using detach_spec [OF h(1) h1 f(2,3) m] h(2) by metis
    have z: "z \<in> F" using pool_bucket(4) [OF h(1) h1 f(2), of z] f(3) d(4) h(3) by simp
    obtain n where n: "sizes qm z = Some n" using pool_frag [OF h(1), of z] z h(3) by (metis DiffE)
    have link: "get_link qm (link_at hs ws) = Some z"
      using pool_bucket(1) [OF h(1) h1 f(2)] f(3) get_link_at by (auto simp: linked_append)
    let ?qm2 = "set_next z 0 qm1"
    have "heap ?qm2 (insert z U) (set as - insert z U)"
      using set_next_heap [OF d(2), of z] d(3,4,6) by simp
    moreover have sz2: "sizes ?qm2 = sizes qm" "bytes ?qm2 = bytes qm" "bounds_of ?qm2 = bounds_of qm"
      using d(5) by (simp_all add: relinks_def bounds_of_def)
    ultimately obtain qm' F' where s: "fm_split_frag z ?r ?qm2 = Some qm'" "heap qm' (insert z U) F'" "bytes qm' = bytes qm"
      "bounds_of qm' = bounds_of qm" "\<exists>m. sizes qm' z = Some m \<and> ?r \<le> m \<and> m \<le> n"
      "\<forall>b\<in>insert z U \<union> (set as - insert z U) - {z}. sizes qm' b = sizes qm b"
      using split_spec [of ?qm2 "insert z U" "set as - insert z U" z n ?r] n f(4) r(1,2) by auto
    have "fm_malloc sz qm = Some (z + 16, qm')"
      using f(5) link d(1) s(1) by (simp add: fm_malloc_def Let_def)
    moreover have "\<forall>b\<in>U. sizes qm' b = sizes qm b" using s(6) d(4) by auto
    ultimately show ?thesis using z f(4) s(2-5) by (intro disjI2 exI [of _ z] exI [of _ qm'] exI [of _ F']) auto
  qed
qed

lemma fm_free_spec:
  assumes "heap qm U F" "a \<in> U"
  shows "\<exists>qm'. fm_free (a + 16) qm = Some qm' \<and> heap qm' (U - {a}) (insert a F) \<and> relinks qm qm'"
proof -
  have "a + 16 \<noteq> 0" using heap_frag [OF assms(1), of a] assms(2) by (metis UnI1 add_pos_pos less_numeral_extra(3) zero_less_numeral)
  then show ?thesis using free_heap [OF assms] by (simp add: fm_free_def)
qed

lemma memcpy_heap [simp]: "heap (memcpy d s n qm) U F = heap qm U F" "sizes (memcpy d s n qm) = sizes qm"
    "bounds_of (memcpy d s n qm) = bounds_of qm"
  by (simp_all add: memcpy_def heap_def pool_def used_def marked_def bounds_of_def)

subsection \<open>realloc\<close>

lemma memcpy_bounds [simp]: "first_frag (memcpy d s n qm) = first_frag qm" "last_frag (memcpy d s n qm) = last_frag qm"
  by (simp_all add: memcpy_def)

lemma pool_fragD:
  assumes "pool qm as fl" "a \<in> set as" "sizes qm a = Some n"
  shows "0 \<le> n" "8 dvd n" "0 < a" "a + 16 + n \<le> last_frag qm + 16" "n < 2 ^ 64"
  by (rule pool_frag [OF assms(1,2)], use assms(3) in simp)+

lemma join_pool:
  assumes "pool qm as fl" "a \<in> used qm as fl" "z \<in> used qm as fl" "sizes qm a = Some n" "z = a + 16 + n" "sizes qm z = Some m"
    and "marked qm (used qm as fl - {z})"
  shows "heap (set_size a (n + (m + 16)) qm) (used qm as fl - {z}) (set as - used qm as fl)"
    and "sizes (set_size a (n + (m + 16)) qm) = (sizes qm)(a := Some (n + (m + 16)))"
proof -
  note t = poolD(4) [OF assms(1)]
  have az: "a \<in> set as" "z \<in> set as" using assms(2,3) by (simp_all add: used_def)
  note na = pool_fragD [OF assms(1) az(1) assms(4)] and nz = pool_fragD [OF assms(1) az(2) assms(6)]
  then have lt: "a + 16 + n < last_frag qm + 16" using assms(5) by simp
  obtain us vs where uv: "as = us @ a # z # vs" using tiled_next [OF t az(1) assms(4) lt] assms(5) by metis
  obtain fr where fr: "frags qm a = Some fr" using assms(4) by (auto simp: sizes_def)
  let ?q = "set_size a (n + (m + 16)) qm"
  show S: "sizes ?q = (sizes qm)(a := Some (n + (m + 16)))" using fr by (auto simp: set_size_def sizes_def)
  have N: "nexts ?q = nexts qm" using fr by (auto simp: set_size_def nexts_def)
  have f: "first_frag ?q = first_frag qm" "last_frag ?q = last_frag qm" "free_first ?q = free_first qm" "free_no ?q = free_no qm"
    by (simp_all add: set_size_def)
  let ?as = "us @ a # vs"
  have d: "distinct as" by (rule tiled_distinct [OF t])
  have fresh: "a \<notin> set (fl h)" "z \<notin> set (fl h)" if "0 \<le> h" "h < 2099" for h
    using assms(2,3) pool_bucket(4) [OF assms(1) that] by (auto simp: used_def)
  have "tiled (sizes ?q) (first_frag ?q) ?as (last_frag ?q + 16)"
    unfolding S f using tiled_join [of "sizes qm" "first_frag qm" us a z vs "last_frag qm + 16" n m] t uv assms(4,6) by simp
  moreover have "linked (nexts ?q) (free_first ?q h) (fl h) 0 \<and> distinct (fl h) \<and> free_no ?q h = int (length (fl h)) \<and>
      (\<forall>x\<in>set (fl h). x \<in> set ?as \<and> GET_HASH (the (sizes ?q x)) = h)" if "0 \<le> h" "h < 2099" for h
    using pool_bucket [OF assms(1) that] fresh [OF that] uv unfolding S N f by auto
  moreover have "0 < first_frag ?q" "8 dvd first_frag ?q" "last_frag ?q + 16 \<le> 2 ^ 64" using poolD(1-3) [OF assms(1)] f by simp_all
  ultimately have p: "pool ?q ?as fl" unfolding pool_def by blast
  have "0 \<le> n + (m + 16)" "n + (m + 16) < 2 ^ 64"
    using na(1,3) nz(1,4) assms(5) poolD(3) [OF assms(1)] by linarith+
  then have r: "0 \<le> GET_HASH (n + (m + 16))" "GET_HASH (n + (m + 16)) < 2099" using GET_HASH_range by blast+
  have u: "used ?q ?as fl = used qm as fl - {z}"
  proof -
    have "x \<in> used ?q ?as fl \<longleftrightarrow> x \<in> used qm as fl - {z}" for x
    proof (cases "x = a")
      case True
      then show ?thesis using fresh [OF r] assms(2) d uv by (auto simp: used_def S)
    next
      case False
      then show ?thesis using d uv by (auto simp: used_def S)
    qed
    then show ?thesis by blast
  qed
  have "set ?as - (used qm as fl - {z}) = set as - used qm as fl" using uv d assms(3) by (auto simp: used_def)
  moreover have "marked ?q (used qm as fl - {z})" using assms(7) by (simp add: marked_def N)
  ultimately show "heap ?q (used qm as fl - {z}) (set as - used qm as fl)" unfolding heap_def using p u by metis
qed

lemma join_spec:
  assumes "heap qm U F" "a \<in> U" "sizes qm a = Some n" "z = a + 16 + n" "z \<in> F" "0 \<le> s" "8 dvd s"
    and "s \<le> n + (the (sizes qm z) + 16)"
  shows "\<exists>qm' F'. join_next a z s qm = Some qm' \<and> heap qm' U F' \<and> bytes qm' = bytes qm \<and> bounds_of qm' = bounds_of qm \<and>
    s \<le> the (sizes qm' a) \<and> (\<forall>b\<in>U - {a}. sizes qm' b = sizes qm b)"
proof -
  obtain as fl where h: "pool qm as fl" "U = used qm as fl" "F = set as - U" "marked qm U" using assms(1) by (auto simp: heap_def)
  obtain m where m: "sizes qm z = Some m" "0 \<le> GET_HASH m" "GET_HASH m < 2099" using pool_frag [OF h(1), of z] assms(5) h(3) by (metis DiffE)
  obtain f nf where fr: "frags qm a = Some f" "fr_size f = n" "frags qm z = Some nf" "fr_size nf = m"
    using assms(3) m(1) by (auto simp: sizes_def)
  have "z \<in> set (fl (GET_HASH m))" using free_listed [OF h(1) _ m(1)] assms(5) h(2,3) by simp
  then obtain ws vs where w: "fl (GET_HASH m) = ws @ z # vs" "detach_loop qm z (Bucket (GET_HASH m)) = Some (link_at (GET_HASH m) ws)"
    using detach_loop_spec [of qm "GET_HASH m" "[]" "free_first qm (GET_HASH m)" "fl (GET_HASH m)" z] pool_bucket(1) [OF h(1) m(2,3)]
    by auto
  have mk: "marked qm (used qm as fl)" using h(2,4) by simp
  obtain qm1 where d: "detach (GET_HASH m) (link_at (GET_HASH m) ws) z qm = Some qm1" "pool qm1 as (fl(GET_HASH m := ws @ vs))"
      "used qm1 as (fl(GET_HASH m := ws @ vs)) = insert z U" "z \<notin> U" "relinks qm qm1" "marked qm1 U"
    using detach_spec [OF h(1) m(2,3) w(1) mk] h(2) by metis
  let ?q = "set_size a (n + (m + 16)) qm1" and ?fl = "fl(GET_HASH m := ws @ vs)"
  have S1: "sizes qm1 = sizes qm" using d(5) by (simp add: relinks_def)
  have "used qm1 as ?fl - {z} = U" using d(3,4) by auto
  then have j: "heap ?q U (set as - insert z U)" "sizes ?q = (sizes qm)(a := Some (n + (m + 16)))"
    using join_pool [OF d(2), of a z n m] assms(2-4) m(1) d(3,6) S1 by simp_all
  have b: "bytes ?q = bytes qm" "bounds_of ?q = bounds_of qm" using d(5) by (simp_all add: set_size_def relinks_def bounds_of_def)
  have run: "join_next a z s qm = (if n + (m + 16) > s then fm_split_frag a s ?q else Some ?q)"
    using fr w(2) d(1) by (simp add: join_next_def Let_def)
  have le: "s \<le> n + (m + 16)" using assms(8) m(1) by simp
  have sa: "sizes ?q a = Some (n + (m + 16))" using j(2) by simp
  obtain qm' F' where s: "fm_split_frag a s ?q = Some qm'" "heap qm' U F'" "bytes qm' = bytes ?q" "bounds_of qm' = bounds_of ?q"
      "\<exists>k. sizes qm' a = Some k \<and> s \<le> k \<and> k \<le> n + (m + 16)" "\<forall>b\<in>U \<union> (set as - insert z U) - {a}. sizes qm' b = sizes ?q b"
    using split_spec [OF j(1) assms(2) sa assms(6,7) le] by metis
  show ?thesis
  proof (cases "n + (m + 16) > s")
    case True
    then show ?thesis using run s b j(2) by (intro exI [of _ qm'] exI [of _ F']) auto
  next
    case False
    then show ?thesis using run j b sa le by (intro exI [of _ ?q] exI [of _ "set as - insert z U"]) auto
  qed
qed

lemma ROUNDUP_idem: "ROUNDUP (ROUNDUP sz) = ROUNDUP sz"
proof -
  obtain k where k: "uint (ROUNDUP sz) = 8 * k" using ROUNDUP_multiple(1) [of sz] by (auto elim: dvdE)
  then have "0 \<le> k" "8 * k + 7 < 2 ^ 64" using ROUNDUP_multiple(2,3) [of sz] by auto
  then have "(8 * k + 7) mod 2 ^ 64 div 8 * 8 = 8 * k" by simp
  then show ?thesis unfolding word_uint_eq_iff ROUNDUP_value [of "ROUNDUP sz"] k .
qed

lemma heap_pos: "heap qm U F \<Longrightarrow> a \<in> U \<union> F \<Longrightarrow> 0 < a"
  by (rule heap_frag)

lemma heap_next:
  assumes "heap qm U F" "a \<in> U" "sizes qm a = Some n" "a + 16 + n < last_frag qm + 16"
  shows "a + 16 + n \<in> U \<union> F"
proof -
  obtain as fl where h: "pool qm as fl" "U = used qm as fl" "F = set as - U" using assms(1) by (auto simp: heap_def)
  have "a \<in> set as" using h(2) assms(2) by (simp add: used_def)
  then obtain us vs where "as = us @ a # (a + 16 + n) # vs" using tiled_next [OF poolD(4) [OF h(1)] _ assms(3,4)] by blast
  then have "a + 16 + n \<in> set as" by simp
  then show ?thesis using h(3) by blast
qed

lemma heap_disjoint: "heap qm U F \<Longrightarrow> U \<inter> F = {}"
  by (auto simp: heap_def)

text \<open>
  A block is resized where it is, or moved with its contents, or, when there is no memory for
  it, given back.
\<close>

lemma realloc_spec:
  assumes "heap qm U F" "a \<in> U" "sizes qm a = Some n" "sz \<noteq> 0"
  shows "\<exists>p qm' U' F'. fm_realloc (a + 16) sz qm = Some (p, qm') \<and> heap qm' U' F' \<and> bounds_of qm' = bounds_of qm \<and>
    (\<forall>b\<in>U - {a}. sizes qm' b = sizes qm b) \<and>
    (p = a + 16 \<and> U' = U \<and> bytes qm' = bytes qm \<and> uint (ROUNDUP sz) \<le> the (sizes qm' a) \<or>
     p \<noteq> 0 \<and> p - 16 \<in> F \<and> U' = insert (p - 16) (U - {a}) \<and> bytes qm' = bytes (memcpy p (a + 16) n qm) \<and>
       n \<le> the (sizes qm' (p - 16)) \<and> uint (ROUNDUP sz) \<le> the (sizes qm' (p - 16)) \<or>
     p = 0 \<and> U' = U - {a} \<and> bytes qm' = bytes qm \<and> n < uint (ROUNDUP sz) \<and> (\<forall>b\<in>F. the (sizes qm b) < uint (ROUNDUP sz)))"
proof -
  let ?r = "uint (ROUNDUP sz)"
  note r = ROUNDUP_multiple [of sz]
  obtain fr where fr: "frags qm a = Some fr" "fr_size fr = n" using assms(3) by (auto simp: sizes_def)
  have a: "0 < a" "0 \<le> n" "a + 16 + n \<le> last_frag qm + 16" 
    using heap_frag [OF assms(1), of a] assms(2,3) by (metis UnI1 option.inject)+
  let ?z = "FRAG_NEXT a fr"
  have z: "?z = a + 16 + n" using fr(2) by (simp add: FRAG_NEXT_def)
  have run: "fm_realloc (a + 16) sz qm =
      (if n > ?r then map_option (Pair (a + 16)) (fm_split_frag a ?r qm)
       else if n < ?r then
         Option.bind (can_join ?z (?r - n) qm) (\<lambda>joins.
           if joins then map_option (Pair (a + 16)) (join_next a ?z ?r qm) else move_block (a + 16) (ROUNDUP sz) n qm)
       else Some (a + 16, qm))"
    using a fr assms(4) by (simp add: fm_realloc_def Let_def)
  consider (shrink) "n > ?r" | (same) "n = ?r" | (grow) "n < ?r" by linarith
  then show ?thesis
  proof cases
    case shrink
    obtain qm' F' where "fm_split_frag a ?r qm = Some qm'" "heap qm' U F'" "bytes qm' = bytes qm" "bounds_of qm' = bounds_of qm"
        "\<exists>m. sizes qm' a = Some m \<and> ?r \<le> m \<and> m \<le> n" "\<forall>b\<in>U \<union> F - {a}. sizes qm' b = sizes qm b"
      using split_spec [OF assms(1-3) r(2,1)] shrink by fastforce
    then show ?thesis using run shrink by (intro exI [of _ "a + 16"] exI [of _ qm'] exI [of _ U] exI [of _ F']) auto
  next
    case same
    then show ?thesis using run assms by (intro exI [of _ "a + 16"] exI [of _ qm] exI [of _ U] exI [of _ F]) auto
  next
    case grow
    define joins where "joins \<longleftrightarrow> ?z < last_frag qm \<and> nexts qm ?z \<noteq> Some 0 \<and> ?r - n \<le> the (sizes qm ?z) + 16"
    have next_frag: "?z \<in> U \<union> F" if "?z < last_frag qm"
      using heap_next [OF assms(1-3)] that z by simp
    have cj: "can_join ?z (?r - n) qm = Some joins"
    proof (cases "?z < last_frag qm")
      case True
      then obtain nf where "frags qm ?z = Some nf" using heap_frag [OF assms(1) next_frag] by (auto simp: sizes_def)
      then show ?thesis using True by (auto simp: can_join_def joins_def nexts_def sizes_def)
    qed (simp add: can_join_def joins_def)
    show ?thesis
    proof (cases joins)
      case True
      then have "?z \<notin> U" using heap_marked [OF assms(1)] by (auto simp: joins_def)
      then have "?z \<in> F" using next_frag True by (auto simp: joins_def)
      moreover have "?r \<le> n + (the (sizes qm ?z) + 16)" using True by (simp add: joins_def)
      ultimately obtain qm' F' where "join_next a ?z ?r qm = Some qm'" "heap qm' U F'" "bytes qm' = bytes qm" "bounds_of qm' = bounds_of qm"
          "?r \<le> the (sizes qm' a)" "\<forall>b\<in>U - {a}. sizes qm' b = sizes qm b"
        using join_spec [OF assms(1-3) z _ r(2,1)] by metis
      then show ?thesis using run grow cj True by (intro exI [of _ "a + 16"] exI [of _ qm'] exI [of _ U] exI [of _ F']) simp
    next
      case False
      have mv: "fm_realloc (a + 16) sz qm = move_block (a + 16) (ROUNDUP sz) n qm" using run grow cj False by simp
      from malloc_spec [OF assms(1), of "ROUNDUP sz"] show ?thesis
      proof (elim disjE exE conjE)
        assume none: "\<forall>b\<in>F. the (sizes qm b) < uint (ROUNDUP (ROUNDUP sz))" "fm_malloc (ROUNDUP sz) qm = Some (0, qm)"
        obtain qm' where q: "fm_free (a + 16) qm = Some qm'" "heap qm' (U - {a}) (insert a F)" "relinks qm qm'"
          using fm_free_spec [OF assms(1,2)] by blast
        have "fm_realloc (a + 16) sz qm = Some (0, qm')" unfolding mv using none(2) q(1) by (simp add: move_block_def)
        then show ?thesis using q none(1) grow
          by (intro exI [of _ 0] exI [of _ qm'] exI [of _ "U - {a}"] exI [of _ "insert a F"]) (simp add: relinks_def bounds_of_def ROUNDUP_idem)
      next
        fix c qm1 F1
        assume c: "c \<in> F" "fm_malloc (ROUNDUP sz) qm = Some (c + 16, qm1)" "heap qm1 (insert c U) F1" "bytes qm1 = bytes qm"
          "bounds_of qm1 = bounds_of qm" "uint (ROUNDUP (ROUNDUP sz)) \<le> the (sizes qm1 c)" "\<forall>b\<in>U. sizes qm1 b = sizes qm b"
        have cU: "c \<notin> U" "0 < c" using c(1) heap_disjoint [OF assms(1)] heap_pos [OF assms(1), of c] by auto
        let ?qm2 = "memcpy (c + 16) (a + 16) n qm1"
        have "heap ?qm2 (insert c U) F1" using c(3) by simp
        then obtain qm' where q: "fm_free (a + 16) ?qm2 = Some qm'" "heap qm' (insert c U - {a}) (insert a F1)" "relinks ?qm2 qm'"
          using fm_free_spec [of ?qm2 "insert c U" F1 a] assms(2) by auto
        have "insert c U - {a} = insert c (U - {a})" using assms(2) cU by auto
        moreover have "fm_realloc (a + 16) sz qm = Some (c + 16, qm')" unfolding mv using c(2) q(1) cU(2) by (simp add: move_block_def)
        moreover have "bytes qm' = bytes (memcpy (c + 16) (a + 16) n qm)" using q(3) unfolding relinks_def memcpy_def c(4) by simp
        ultimately show ?thesis using q(2,3) c cU grow
          by (intro exI [of _ "c + 16"] exI [of _ qm'] exI [of _ "insert c (U - {a})"] exI [of _ "insert a F1"])
            (simp add: relinks_def bounds_of_def ROUNDUP_idem)
      qed
    qed
  qed
qed


subsection \<open>A new pool\<close>

lemma uint_minus: "y \<le> x \<Longrightarrow> uint (x - y) = uint x - uint y" for x y :: u64
  by (simp add: uint_minus_simple_alt word_le_def uint_minus_simple_iff)

lemma init_spec:
  assumes "0 < uint address" "uint address + uint sz \<le> 2 ^ 64"
  shows "fm_malloc_init address sz = Some None \<or>
    (\<exists>qm. fm_malloc_init address sz = Some (Some qm) \<and> heap qm {} {first_frag qm} \<and> uint address \<le> first_frag qm \<and>
      last_frag qm + 16 \<le> uint address + uint sz)"
proof -
  let ?start = "ROUNDUP address"
  let ?sz1 = "sz - (?start - address)"
  let ?sz2 = "ROUNDDOWN ?sz1"
  consider "sz < ?start - address" | "\<not> sz < ?start - address" "?sz1 < 24"
    | "\<not> sz < ?start - address" "\<not> ?sz1 < 24" "?sz2 < 33624"
    | (ok) "\<not> sz < ?start - address" "\<not> ?sz1 < 24" "\<not> ?sz2 < 33624" by blast
  then show ?thesis
  proof cases
    case ok
    have u: "uint ?sz1 = uint sz - uint (?start - address)" using ok(1) by (intro uint_minus) simp
    have fits: "uint address \<le> 2 ^ 64 - 8"
    proof (rule ccontr)
      assume n: "\<not> uint address \<le> 2 ^ 64 - 8"
      then have "(uint address + 7) mod 2 ^ 64 = (uint address + 7 - 2 ^ 64) mod 2 ^ 64" by (simp add: mod_pos_geq)
      also have "\<dots> = uint address + 7 - 2 ^ 64" using n uint_lt2p [of address] by (intro mod_pos_pos_trivial) simp_all
      finally have "uint ?start = (uint address + 7 - 2 ^ 64) div 8 * 8" by (simp only: ROUNDUP_value)
      also have "\<dots> = 0" using n uint_lt2p [of address] by simp
      finally have "?start = 0" by (simp add: word_uint_eq_iff)
      then have "uint (?start - address) = 2 ^ 64 - uint address" using assms(1) uint_lt2p [of address] by (simp add: uint_word_ariths zmod_zminus1_eq_if mod_pos_pos_trivial)
      then show False using u ok(2) assms(2) by (simp add: word_less_def)
    qed
    then have s: "uint address \<le> uint ?start" "uint ?start < uint address + 8" "8 dvd uint ?start"
      using ROUNDUP_fits [OF fits] ROUNDUP_multiple(1) by simp_all
    have d: "uint (?start - address) = uint ?start - uint address" using s(1) by (intro uint_minus) (simp add: word_le_def)
    have z: "uint ?sz2 = uint ?sz1 div 8 * 8" unfolding ROUNDDOWN_def by (rule and_not_7)
    then have z2: "uint ?sz2 \<le> uint ?sz1" "8 dvd uint ?sz2" by simp_all
    have z3: "33624 \<le> uint ?sz2" using ok(3) by (simp add: word_less_def)
    have rest: "uint (?sz2 - 33624) = uint ?sz2 - 33624" using z3 by (subst uint_minus) (simp_all add: word_le_def)
    let ?first = "uint ?start + 33608" and ?last = "uint ?start + uint ?sz2 - 16"
    let ?qm = "\<lparr>frags = Map.empty(?first \<mapsto> \<lparr>fr_size = uint (?sz2 - 33624), nxt_free = 0\<rparr>,
        ?last \<mapsto> \<lparr>fr_size = 0, nxt_free = 0\<rparr>), bytes = (\<lambda>_. 0), first_frag = ?first, last_frag = ?last,
        free_first = (\<lambda>_. 0), free_no = (\<lambda>_. 0)\<rparr>"
    have size: "sizes ?qm ?first = Some (uint ?sz2 - 33624)" using rest by (simp add: sizes_def)
    have "pool ?qm [?first] (\<lambda>_. [])"
      unfolding pool_def using size s z2 z3 u d assms by (auto simp: dvd_add dvd_diff)
    moreover have "used ?qm [?first] (\<lambda>_. []) = {?first}" by (auto simp: used_def)
    ultimately obtain qm' where q: "fm_insert_free ?first ?qm = Some qm'" "heap qm' {} {?first}" "relinks ?qm qm'"
      using insert_heap [of ?qm "[?first]" "\<lambda>_. []" ?first] by (auto simp: marked_def)
    have "fm_malloc_init address sz = Some (Some qm')"
      using ok q(1) by (simp add: fm_malloc_init_def Let_def)
    then show ?thesis using q(2,3) s z2 u d by (auto simp: relinks_def)
  qed (simp_all add: fm_malloc_init_def Let_def)
qed

end
