(* ===== verification/Fm_Client.thy ===== *)
theory Fm_Client
  imports Fm_Heap
begin

section \<open>Users of the memory allocator\<close>

text \<open>
  What the rest of the server relies on, as the locale \<open>allocator\<close>: from its laws follows that
  over every sequence of requests the blocks held never overlap. It is interpreted for private
  memory, which resizes with \<open>fm_realloc\<close>, and for shared memory, which does with \<open>shm_resize\<close>.
  The properties of the allocator follow.
\<close>

subsection \<open>Users of an allocator\<close>

text \<open>
  A user holds blocks with the sizes that it asked for, and asks for a new block, gives one back
  or has one resized. The operations are parameters: private memory resizes by \<open>fm_realloc\<close>,
  shared memory by \<open>shm_resize\<close>.
\<close>

datatype request = Malloc u64 | Free nat | Resize nat u64

definition without :: "nat \<Rightarrow> 'a list \<Rightarrow> 'a list" where
  "without i xs = take i xs @ drop (Suc i) xs"

fun serve :: "(u64 \<Rightarrow> 's \<Rightarrow> (int \<times> 's) option) \<Rightarrow> (int \<Rightarrow> 's \<Rightarrow> 's option) \<Rightarrow> (int \<Rightarrow> u64 \<Rightarrow> 's \<Rightarrow> (int \<times> 's) option) \<Rightarrow>
    request \<Rightarrow> 's \<times> (int \<times> u64) list \<Rightarrow> ('s \<times> (int \<times> u64) list) option" where
  "serve alloc release resize (Malloc n) (s, live) =
     map_option (\<lambda>(p, s). (s, if p = 0 then live else live @ [(p, n)])) (alloc n s)"
| "serve alloc release resize (Free i) (s, live) =
     (if i < length live then map_option (\<lambda>s. (s, without i live)) (release (fst (live ! i)) s) else Some (s, live))"
| "serve alloc release resize (Resize i n) (s, live) =
     (if i < length live
      then map_option (\<lambda>(p, s). (s, if p = 0 then without i live else live[i := (p, n)])) (resize (fst (live ! i)) n s)
      else Some (s, live))"

fun serve_all :: "(u64 \<Rightarrow> 's \<Rightarrow> (int \<times> 's) option) \<Rightarrow> (int \<Rightarrow> 's \<Rightarrow> 's option) \<Rightarrow> (int \<Rightarrow> u64 \<Rightarrow> 's \<Rightarrow> (int \<times> 's) option) \<Rightarrow>
    request list \<Rightarrow> 's \<times> (int \<times> u64) list \<Rightarrow> ('s \<times> (int \<times> u64) list) option" where
  "serve_all alloc release resize [] s = Some s"
| "serve_all alloc release resize (r # rs) s = Option.bind (serve alloc release resize r s) (serve_all alloc release resize rs)"

fun sane :: "request \<Rightarrow> bool" where
  "sane (Malloc n) \<longleftrightarrow> uint n \<le> 2 ^ 64 - 8"
| "sane (Free i) \<longleftrightarrow> True"
| "sane (Resize i n) \<longleftrightarrow> uint n \<le> 2 ^ 64 - 8"

lemma set_without: "distinct xs \<Longrightarrow> i < length xs \<Longrightarrow> set (without i xs) = set xs - {xs ! i}"
proof -
  assume d: "distinct xs" "i < length xs"
  have "xs = take i xs @ xs ! i # drop (Suc i) xs" using d(2) by (rule id_take_nth_drop)
  then show ?thesis using d(1) unfolding without_def
    by (metis Diff_insert_absorb Un_insert_right disjoint_insert(1) distinct_append distinct.simps(2) list.simps(15) set_append Un_iff)
qed

lemma map_without: "map f (without i xs) = without i (map f xs)"
  by (simp add: without_def take_map drop_map)

lemma distinct_without: "distinct xs \<Longrightarrow> distinct (without i xs)"
  by (auto simp: without_def set_take_disj_set_drop_if_distinct)

text \<open>
  What an allocator promises: the blocks \<open>B\<close> in use lie apart within the pool, a new or resized
  block is none of the others and has room for what was asked, and the others keep their room.
\<close>

locale allocator =
  fixes ok :: "'s \<Rightarrow> int set \<Rightarrow> bool"
    and room :: "'s \<Rightarrow> int \<Rightarrow> int"
    and extent :: "'s \<Rightarrow> int \<times> int"
    and alloc :: "u64 \<Rightarrow> 's \<Rightarrow> (int \<times> 's) option"
    and release :: "int \<Rightarrow> 's \<Rightarrow> 's option"
    and resize :: "int \<Rightarrow> u64 \<Rightarrow> 's \<Rightarrow> (int \<times> 's) option"
  assumes apart: "ok s B \<Longrightarrow> p \<in> B \<Longrightarrow> q \<in> B \<Longrightarrow> p < q \<Longrightarrow> p + room s p \<le> q"
    and inside: "ok s B \<Longrightarrow> p \<in> B \<Longrightarrow> fst (extent s) \<le> p \<and> p + room s p \<le> snd (extent s) \<and> 8 dvd p"
    and alloc_law: "ok s B \<Longrightarrow> uint n \<le> 2 ^ 64 - 8 \<Longrightarrow> \<exists>p s'. alloc n s = Some (p, s') \<and> extent s' = extent s \<and>
      (\<forall>q\<in>B. room s' q = room s q) \<and> (p = 0 \<and> ok s' B \<or> p \<noteq> 0 \<and> p \<notin> B \<and> ok s' (insert p B) \<and> uint n \<le> room s' p)"
    and release_law: "ok s B \<Longrightarrow> p \<in> B \<Longrightarrow> \<exists>s'. release p s = Some s' \<and> extent s' = extent s \<and>
      (\<forall>q\<in>B - {p}. room s' q = room s q) \<and> ok s' (B - {p})"
    and resize_law: "ok s B \<Longrightarrow> p \<in> B \<Longrightarrow> uint n \<le> 2 ^ 64 - 8 \<Longrightarrow> \<exists>p' s'. resize p n s = Some (p', s') \<and> extent s' = extent s \<and>
      (\<forall>q\<in>B - {p}. room s' q = room s q) \<and>
      (p' = 0 \<and> ok s' (B - {p}) \<or> p' \<noteq> 0 \<and> p' \<notin> B - {p} \<and> ok s' (insert p' (B - {p})) \<and> uint n \<le> room s' p')"
begin

definition held :: "'s \<times> (int \<times> u64) list \<Rightarrow> bool" where
  "held c \<longleftrightarrow> ok (fst c) (set (map fst (snd c))) \<and> distinct (map fst (snd c)) \<and> (\<forall>(p, n)\<in>set (snd c). uint n \<le> room (fst c) p)"

lemma heldI:
  "ok s (set (map fst live)) \<Longrightarrow> distinct (map fst live) \<Longrightarrow> (\<And>q m. (q, m) \<in> set live \<Longrightarrow> uint m \<le> room s q) \<Longrightarrow> held (s, live)"
  by (auto simp: held_def)

lemma heldD:
  assumes "held (s, live)"
  shows "ok s (set (map fst live))" "distinct (map fst live)" "\<And>q m. (q, m) \<in> set live \<Longrightarrow> uint m \<le> room s q"
  using assms by (auto simp: held_def)

lemma held_without:
  assumes "held (s, live)" "i < length live" "\<forall>q\<in>set (map fst live) - {fst (live ! i)}. room s' q = room s q"
  shows "set (map fst (without i live)) = set (map fst live) - {fst (live ! i)}" "distinct (map fst (without i live))"
    "\<And>q m. (q, m) \<in> set (without i live) \<Longrightarrow> uint m \<le> room s' q"
proof -
  note h = heldD [OF assms(1)]
  show B: "set (map fst (without i live)) = set (map fst live) - {fst (live ! i)}"
    using set_without [OF h(2), of i] assms(2) by (simp add: map_without)
  show "distinct (map fst (without i live))" using distinct_without [OF h(2), of i] by (simp add: map_without)
  show "uint m \<le> room s' q" if "(q, m) \<in> set (without i live)" for q m
  proof -
    have "q \<in> set (map fst (without i live))" using that by force
    moreover have "(q, m) \<in> set live" using that by (auto simp: without_def dest: in_set_takeD in_set_dropD)
    ultimately show ?thesis using assms(3) h(3) B by metis
  qed
qed

lemma serve_malloc:
  assumes "held (s, live)" "uint n \<le> 2 ^ 64 - 8"
  shows "\<exists>s' live'. serve alloc release resize (Malloc n) (s, live) = Some (s', live') \<and> held (s', live') \<and> extent s' = extent s"
proof -
  note h = heldD [OF assms(1)]
  obtain p s' where a: "alloc n s = Some (p, s')" "extent s' = extent s" "\<forall>q\<in>set (map fst live). room s' q = room s q"
    "p = 0 \<and> ok s' (set (map fst live)) \<or> p \<noteq> 0 \<and> p \<notin> set (map fst live) \<and> ok s' (insert p (set (map fst live))) \<and> uint n \<le> room s' p"
    using alloc_law [OF h(1) assms(2)] by blast
  have k: "uint m \<le> room s' q" if "(q, m) \<in> set live" for q m
  proof -
    have "q \<in> set (map fst live)" using that by force
    then show ?thesis using a(3) h(3) [OF that] by metis
  qed
  have "held (s', if p = 0 then live else live @ [(p, n)])"
  proof (cases "p = 0")
    case True
    then show ?thesis using heldI [of s' live] a(4) h(2) k by simp
  next
    case False
    have "held (s', live @ [(p, n)])"
      by (rule heldI) (use False a(4) h(2) k in auto)
    then show ?thesis using False by simp
  qed
  then show ?thesis using a(1,2) by simp
qed

lemma serve_free:
  assumes "held (s, live)"
  shows "\<exists>s' live'. serve alloc release resize (Free i) (s, live) = Some (s', live') \<and> held (s', live') \<and> extent s' = extent s"
proof (cases "i < length live")
  case True
  note h = heldD [OF assms]
  have p: "fst (live ! i) \<in> set (map fst live)" using True by simp
  obtain s' where a: "release (fst (live ! i)) s = Some s'" "extent s' = extent s"
    "\<forall>q\<in>set (map fst live) - {fst (live ! i)}. room s' q = room s q" "ok s' (set (map fst live) - {fst (live ! i)})"
    using release_law [OF h(1) p] by blast
  note w = held_without [OF assms True a(3)]
  have "held (s', without i live)" by (rule heldI) (use a(4) w in auto)
  then show ?thesis using True a(1,2) by simp
qed (use assms in simp)

lemma serve_resize:
  assumes "held (s, live)" "uint n \<le> 2 ^ 64 - 8"
  shows "\<exists>s' live'. serve alloc release resize (Resize i n) (s, live) = Some (s', live') \<and> held (s', live') \<and> extent s' = extent s"
proof (cases "i < length live")
  case i: True
  note h = heldD [OF assms(1)]
  let ?B = "set (map fst live) - {fst (live ! i)}"
  have p: "fst (live ! i) \<in> set (map fst live)" using i by simp
  obtain p' s' where a: "resize (fst (live ! i)) n s = Some (p', s')" "extent s' = extent s" "\<forall>q\<in>?B. room s' q = room s q"
    "p' = 0 \<and> ok s' ?B \<or> p' \<noteq> 0 \<and> p' \<notin> ?B \<and> ok s' (insert p' ?B) \<and> uint n \<le> room s' p'"
    using resize_law [OF h(1) p assms(2)] by blast
  note w = held_without [OF assms(1) i a(3)]
  have "held (s', if p' = 0 then without i live else live[i := (p', n)])"
  proof (cases "p' = 0")
    case True
    have "held (s', without i live)" by (rule heldI) (use True a(4) w in auto)
    then show ?thesis using True by simp
  next
    case False
    have u: "live[i := (p', n)] = take i live @ (p', n) # drop (Suc i) live" using i by (rule upd_conv_take_nth_drop)
    have s: "set (live[i := (p', n)]) = insert (p', n) (set (without i live))" unfolding u by (auto simp: without_def)
    have f: "p' \<notin> set (map fst (without i live))" using a(4) False w(1) by blast
    have "held (s', live[i := (p', n)])"
    proof (rule heldI)
      have "set (map fst (live[i := (p', n)])) = insert p' ?B" using s w(1) by simp
      then show "ok s' (set (map fst (live[i := (p', n)])))" using a(4) False by simp
      show "distinct (map fst (live[i := (p', n)]))" using w(2) f unfolding u without_def by auto
      show "uint m \<le> room s' q" if "(q, m) \<in> set (live[i := (p', n)])" for q m
        using that s a(4) False w(3) by auto
    qed
    then show ?thesis using False by simp
  qed
  then show ?thesis using i a(1,2) by simp
qed (use assms in simp)

lemma serve_held:
  assumes "held (s, live)" "sane r"
  shows "\<exists>s' live'. serve alloc release resize r (s, live) = Some (s', live') \<and> held (s', live') \<and> extent s' = extent s"
  using assms serve_malloc serve_free serve_resize by (cases r) simp_all

lemma serve_all_held:
  assumes "held (s, live)" "list_all sane rs"
  shows "\<exists>s' live'. serve_all alloc release resize rs (s, live) = Some (s', live') \<and> held (s', live') \<and> extent s' = extent s"
  using assms
proof (induction rs arbitrary: s live)
  case (Cons r rs)
  obtain s1 live1 where s1: "serve alloc release resize r (s, live) = Some (s1, live1)" "held (s1, live1)" "extent s1 = extent s"
    using serve_held [OF Cons.prems(1), of r] Cons.prems(2) by auto
  then show ?case using Cons.IH [OF s1(2)] Cons.prems(2) by auto
qed simp

text \<open>Whatever is asked for, the blocks held never overlap and stay inside the pool.\<close>

lemma blocks_apart:
  assumes "ok s {}" "list_all sane rs"
  shows "\<exists>s' live. serve_all alloc release resize rs (s, []) = Some (s', live) \<and>
    (\<forall>i<length live. case live ! i of (p, n) \<Rightarrow> fst (extent s) \<le> p \<and> p + uint n \<le> snd (extent s) \<and> 8 dvd p \<and>
       (\<forall>j<length live. i \<noteq> j \<longrightarrow> p + uint n \<le> fst (live ! j) \<or> fst (live ! j) + uint (snd (live ! j)) \<le> p))"
proof -
  have "held (s, [])" using assms(1) by (simp add: held_def)
  then obtain s' live where a: "serve_all alloc release resize rs (s, []) = Some (s', live)" "held (s', live)" "extent s' = extent s"
    using serve_all_held [OF _ assms(2)] by blast
  have h: "ok s' (set (map fst live))" "distinct (map fst live)" "\<And>i. i < length live \<Longrightarrow> uint (snd (live ! i)) \<le> room s' (fst (live ! i))"
    using a(2) by (auto simp: held_def split_beta)
  have "fst (extent s) \<le> p \<and> p + uint n \<le> snd (extent s) \<and> 8 dvd p \<and>
      (\<forall>j<length live. i \<noteq> j \<longrightarrow> p + uint n \<le> fst (live ! j) \<or> fst (live ! j) + uint (snd (live ! j)) \<le> p)"
    if i: "i < length live" "live ! i = (p, n)" for i p n
  proof -
    have p: "p \<in> set (map fst live)" "uint n \<le> room s' p" using i h(3) [OF i(1)] nth_mem [OF i(1)] by force+
    have "p + uint n \<le> fst (live ! j) \<or> fst (live ! j) + uint (snd (live ! j)) \<le> p" if j: "j < length live" "i \<noteq> j" for j
    proof -
      have q: "fst (live ! j) \<in> set (map fst live)" using j(1) by simp
      have "fst (live ! j) \<noteq> p" using h(2) i j by (metis fst_conv length_map nth_eq_iff_index_eq nth_map)
      then show ?thesis using apart [OF h(1) p(1) q] apart [OF h(1) q p(1)] p(2) h(3) [OF j(1)] by linarith
    qed
    then show ?thesis using inside [OF h(1) p(1)] p(2) a(3) by fastforce
  qed
  then show ?thesis using a(1) by (intro exI [of _ s'] exI [of _ live]) auto
qed

end


subsection \<open>The pool is an allocator\<close>

definition headers :: "int set \<Rightarrow> int set" where
  "headers B = (\<lambda>p. p - 16) ` B"

definition fm_ok :: "fm_block \<Rightarrow> int set \<Rightarrow> bool" where
  "fm_ok qm B \<longleftrightarrow> (\<exists>F. heap qm (headers B) F)"

definition fm_room :: "fm_block \<Rightarrow> int \<Rightarrow> int" where
  "fm_room qm p = the (sizes qm (p - 16))"

definition fm_extent :: "fm_block \<Rightarrow> int \<times> int" where
  "fm_extent qm = (first_frag qm + 16, last_frag qm + 16)"

lemma in_headers [simp]: "a \<in> headers B \<longleftrightarrow> a + 16 \<in> B"
  by (force simp: headers_def)

lemma headers_simps [simp]: "headers (insert p B) = insert (p - 16) (headers B)" "headers (B - {p}) = headers B - {p - 16}" "headers {} = {}"
  by (auto simp: set_eq_iff)

lemma tiled_aligned: "tiled S s as e \<Longrightarrow> 8 dvd s \<Longrightarrow> a \<in> set as \<Longrightarrow> 8 dvd a"
proof (induction as arbitrary: s)
  case (Cons b as)
  then obtain n where n: "8 dvd n" "tiled S (b + 16 + n) as e" "b = s" by auto
  have "8 dvd b + 16 + n" using n(1,3) Cons.prems(2) by simp
  then show ?case using Cons.IH [OF n(2)] Cons.prems(2,3) n(3) by auto
qed simp

lemma heap_aligned: "heap qm U F \<Longrightarrow> a \<in> U \<Longrightarrow> 8 dvd a"
  unfolding heap_def used_def using tiled_aligned poolD(2,4) by blast

lemma fm_apart: "fm_ok qm B \<Longrightarrow> p \<in> B \<Longrightarrow> q \<in> B \<Longrightarrow> p < q \<Longrightarrow> p + fm_room qm p \<le> q"
proof -
  assume a: "fm_ok qm B" "p \<in> B" "q \<in> B" "p < q"
  then obtain F where "heap qm (headers B) F" by (auto simp: fm_ok_def)
  from heap_apart [OF this, of "p - 16" "q - 16"] a show ?thesis by (simp add: fm_room_def)
qed

lemma fm_inside: "fm_ok qm B \<Longrightarrow> p \<in> B \<Longrightarrow> fst (fm_extent qm) \<le> p \<and> p + fm_room qm p \<le> snd (fm_extent qm) \<and> 8 dvd p"
proof -
  assume a: "fm_ok qm B" "p \<in> B"
  then obtain F where h: "heap qm (headers B) F" by (auto simp: fm_ok_def)
  have p: "p - 16 \<in> headers B \<union> F" using a(2) by simp
  have "8 dvd p - 16" by (rule heap_aligned [OF h]) (use a(2) in simp)
  then have "8 dvd (p - 16) + 16" by (intro dvd_add) simp_all
  moreover obtain n where "sizes qm (p - 16) = Some n" "first_frag qm \<le> p - 16" "p - 16 + 16 + n \<le> last_frag qm + 16"
    using heap_frag [OF h p] by blast
  ultimately show ?thesis by (simp add: fm_room_def fm_extent_def)
qed

lemma fm_extent_bounds: "bounds_of qm' = bounds_of qm \<Longrightarrow> fm_extent qm' = fm_extent qm"
  by (simp add: bounds_of_def fm_extent_def)

lemma fm_alloc_law:
  assumes "fm_ok qm B" "uint n \<le> 2 ^ 64 - 8"
  shows "\<exists>p qm'. fm_malloc n qm = Some (p, qm') \<and> fm_extent qm' = fm_extent qm \<and> (\<forall>q\<in>B. fm_room qm' q = fm_room qm q) \<and>
    (p = 0 \<and> fm_ok qm' B \<or> p \<noteq> 0 \<and> p \<notin> B \<and> fm_ok qm' (insert p B) \<and> uint n \<le> fm_room qm' p)"
proof -
  obtain F where h: "heap qm (headers B) F" using assms(1) by (auto simp: fm_ok_def)
  from malloc_spec [OF h, of n] show ?thesis
  proof (elim disjE exE conjE)
    fix a qm' F'
    assume a: "a \<in> F" "fm_malloc n qm = Some (a + 16, qm')" "heap qm' (insert a (headers B)) F'" "bounds_of qm' = bounds_of qm"
      "uint (ROUNDUP n) \<le> the (sizes qm' a)" "\<forall>b\<in>headers B. sizes qm' b = sizes qm b"
    have "0 < a" using heap_pos [OF h] a(1) by blast
    moreover have "a + 16 \<notin> B" using heap_disjoint [OF h] a(1) by auto
    moreover have "fm_ok qm' (insert (a + 16) B)" using a(3) by (auto simp: fm_ok_def)
    moreover have "uint n \<le> fm_room qm' (a + 16)" using a(5) ROUNDUP_fits [OF assms(2)] by (simp add: fm_room_def)
    moreover have "\<forall>q\<in>B. fm_room qm' q = fm_room qm q" using a(6) by (simp add: fm_room_def)
    ultimately show ?thesis using a(2) fm_extent_bounds [OF a(4)] by (intro exI [of _ "a + 16"] exI [of _ qm']) simp
  qed (use assms(1) in auto)
qed

lemma fm_release_law:
  assumes "fm_ok qm B" "p \<in> B"
  shows "\<exists>qm'. fm_free p qm = Some qm' \<and> fm_extent qm' = fm_extent qm \<and> (\<forall>q\<in>B - {p}. fm_room qm' q = fm_room qm q) \<and> fm_ok qm' (B - {p})"
proof -
  obtain F where h: "heap qm (headers B) F" using assms(1) by (auto simp: fm_ok_def)
  have a: "p - 16 \<in> headers B" using assms(2) by simp
  obtain qm' where q: "fm_free (p - 16 + 16) qm = Some qm'" "heap qm' (headers B - {p - 16}) (insert (p - 16) F)" "relinks qm qm'"
    using fm_free_spec [OF h a] by blast
  have "fm_ok qm' (B - {p})" unfolding fm_ok_def headers_simps using q(2) by blast
  moreover have "fm_extent qm' = fm_extent qm" "\<forall>q\<in>B - {p}. fm_room qm' q = fm_room qm q"
    using q(3) by (simp_all add: relinks_def fm_extent_def fm_room_def)
  ultimately show ?thesis using q(1) by simp
qed

lemma fm_resize_law:
  assumes "fm_ok qm B" "p \<in> B" "uint n \<le> 2 ^ 64 - 8"
  shows "\<exists>p' qm'. fm_realloc p n qm = Some (p', qm') \<and> fm_extent qm' = fm_extent qm \<and> (\<forall>q\<in>B - {p}. fm_room qm' q = fm_room qm q) \<and>
    (p' = 0 \<and> fm_ok qm' (B - {p}) \<or> p' \<noteq> 0 \<and> p' \<notin> B - {p} \<and> fm_ok qm' (insert p' (B - {p})) \<and> uint n \<le> fm_room qm' p')"
proof (cases "n = 0")
  case True
  obtain qm' where "fm_free p qm = Some qm'" "fm_extent qm' = fm_extent qm" "\<forall>q\<in>B - {p}. fm_room qm' q = fm_room qm q" "fm_ok qm' (B - {p})"
    using fm_release_law [OF assms(1,2)] by blast
  moreover have "p \<noteq> 0"
  proof -
    obtain F where h: "heap qm (headers B) F" using assms(1) by (auto simp: fm_ok_def)
    have "0 < p - 16" by (rule heap_pos [OF h]) (use assms(2) in simp)
    then show ?thesis by simp
  qed
  ultimately show ?thesis using True by (simp add: fm_realloc_def)
next
  case False
  obtain F where h: "heap qm (headers B) F" using assms(1) by (auto simp: fm_ok_def)
  have a: "p - 16 \<in> headers B" using assms(2) by simp
  obtain m where m: "sizes qm (p - 16) = Some m" using heap_frag [OF h, of "p - 16"] a by blast
  have pos: "0 < p - 16" by (rule heap_pos [OF h]) (use a in simp)
  obtain p' qm' U' F' where r: "fm_realloc p n qm = Some (p', qm')" "heap qm' U' F'" "bounds_of qm' = bounds_of qm"
      "\<forall>b\<in>headers B - {p - 16}. sizes qm' b = sizes qm b"
      "p' = p \<and> U' = headers B \<and> uint (ROUNDUP n) \<le> the (sizes qm' (p - 16)) \<or>
       p' \<noteq> 0 \<and> p' - 16 \<in> F \<and> U' = insert (p' - 16) (headers B - {p - 16}) \<and> uint (ROUNDUP n) \<le> the (sizes qm' (p' - 16)) \<or>
       p' = 0 \<and> U' = headers B - {p - 16}"
    using realloc_spec [OF h a m False] by (simp only: diff_add_cancel) metis
  have rooms: "\<forall>q\<in>B - {p}. fm_room qm' q = fm_room qm q" using r(4) by (simp add: fm_room_def)
  from r(5) consider (same) "p' = p" "U' = headers B" "uint (ROUNDUP n) \<le> the (sizes qm' (p - 16))"
    | (moved) "p' \<noteq> 0" "p' - 16 \<in> F" "U' = insert (p' - 16) (headers B - {p - 16})" "uint (ROUNDUP n) \<le> the (sizes qm' (p' - 16))"
    | (lost) "p' = 0" "U' = headers B - {p - 16}" by blast
  then have "p' = 0 \<and> fm_ok qm' (B - {p}) \<or> p' \<noteq> 0 \<and> p' \<notin> B - {p} \<and> fm_ok qm' (insert p' (B - {p})) \<and> uint n \<le> fm_room qm' p'"
  proof cases
    case same
    have "insert p (B - {p}) = B" using assms(2) by blast
    then have "fm_ok qm' (insert p' (B - {p}))" using same(1,2) r(2) by (auto simp: fm_ok_def)
    then show ?thesis using same(1,3) pos ROUNDUP_fits [OF assms(3)] by (simp add: fm_room_def)
  next
    case moved
    have "p' - 16 \<notin> headers B" using heap_disjoint [OF h] moved(2) by blast
    then have "p' \<notin> B" by simp
    moreover have "fm_ok qm' (insert p' (B - {p}))" unfolding fm_ok_def headers_simps using moved(3) r(2) by auto
    ultimately show ?thesis using moved(1,4) ROUNDUP_fits [OF assms(3)] by (simp add: fm_room_def)
  next
    case lost
    then show ?thesis using r(2) by (auto simp: fm_ok_def)
  qed
  then show ?thesis using r(1) rooms fm_extent_bounds [OF r(3)] by blast
qed

lemma shm_resize_law:
  assumes "fm_ok qm B" "p \<in> B" "uint n \<le> 2 ^ 64 - 8"
  shows "\<exists>p' qm'. shm_resize p n qm = Some (p', qm') \<and> fm_extent qm' = fm_extent qm \<and> (\<forall>q\<in>B - {p}. fm_room qm' q = fm_room qm q) \<and>
    (p' = 0 \<and> fm_ok qm' (B - {p}) \<or> p' \<noteq> 0 \<and> p' \<notin> B - {p} \<and> fm_ok qm' (insert p' (B - {p})) \<and> uint n \<le> fm_room qm' p')"
proof -
  obtain q1 where q1: "fm_free p qm = Some q1" "fm_extent q1 = fm_extent qm" "\<forall>q\<in>B - {p}. fm_room q1 q = fm_room qm q" "fm_ok q1 (B - {p})"
    using fm_release_law [OF assms(1,2)] by blast
  obtain p' q2 where q2: "fm_malloc n q1 = Some (p', q2)" "fm_extent q2 = fm_extent q1" "\<forall>q\<in>B - {p}. fm_room q2 q = fm_room q1 q"
    "p' = 0 \<and> fm_ok q2 (B - {p}) \<or> p' \<noteq> 0 \<and> p' \<notin> B - {p} \<and> fm_ok q2 (insert p' (B - {p})) \<and> uint n \<le> fm_room q2 p'"
    using fm_alloc_law [OF q1(4) assms(3)] by blast
  have "p \<noteq> 0"
  proof -
    obtain F where h: "heap qm (headers B) F" using assms(1) by (auto simp: fm_ok_def)
    have "0 < p - 16" by (rule heap_pos [OF h]) (use assms(2) in simp)
    then show ?thesis by simp
  qed
  then have "shm_resize p n qm = Some (p', q2)" using q1(1) q2(1) by (simp add: shm_resize_def sh_realloc_def)
  then show ?thesis using q1(2,3) q2(2-4) by simp
qed

interpretation pkg: allocator fm_ok fm_room fm_extent fm_malloc fm_free fm_realloc
  by unfold_locales (fact fm_apart fm_inside fm_alloc_law fm_release_law fm_resize_law)+

interpretation shm: allocator fm_ok fm_room fm_extent fm_malloc fm_free shm_resize
  by unfold_locales (fact fm_apart fm_inside fm_alloc_law fm_release_law shm_resize_law)+

subsection \<open>Properties\<close>

lemma init_ok:
  assumes "0 < uint address" "uint address + uint sz \<le> 2 ^ 64" "fm_malloc_init address sz = Some (Some qm)"
  shows "fm_ok qm {}" "heap qm {} {first_frag qm}" "uint address \<le> fst (fm_extent qm)" "snd (fm_extent qm) \<le> uint address + uint sz"
  using init_spec [OF assms(1,2)] assms(3) by (auto simp: fm_ok_def fm_extent_def)

text \<open>
  C28: Whatever sequence of allocations, frees and reallocations a process makes of a new pool,
  no operation leaves the headers of the pool, and the blocks that it holds lie inside the memory
  given to the pool, are aligned to 8 and never overlap.\<close>

theorem pool_blocks_apart:
  assumes "0 < uint address" "uint address + uint sz \<le> 2 ^ 64" "fm_malloc_init address sz = Some (Some qm)" "list_all sane rs"
  shows "\<exists>qm' live. serve_all fm_malloc fm_free fm_realloc rs (qm, []) = Some (qm', live) \<and>
    (\<forall>i<length live. case live ! i of (p, n) \<Rightarrow> uint address \<le> p \<and> p + uint n \<le> uint address + uint sz \<and> 8 dvd p \<and>
       (\<forall>j<length live. i \<noteq> j \<longrightarrow> p + uint n \<le> fst (live ! j) \<or> fst (live ! j) + uint (snd (live ! j)) \<le> p))"
proof -
  note ok = init_ok [OF assms(1-3)]
  obtain qm' live where r: "serve_all fm_malloc fm_free fm_realloc rs (qm, []) = Some (qm', live)"
    "\<forall>i<length live. case live ! i of (p, n) \<Rightarrow> fst (fm_extent qm) \<le> p \<and> p + uint n \<le> snd (fm_extent qm) \<and> 8 dvd p \<and>
       (\<forall>j<length live. i \<noteq> j \<longrightarrow> p + uint n \<le> fst (live ! j) \<or> fst (live ! j) + uint (snd (live ! j)) \<le> p)"
    using pkg.blocks_apart [OF ok(1) assms(4)] by blast
  have "case live ! i of (p, n) \<Rightarrow> uint address \<le> p \<and> p + uint n \<le> uint address + uint sz \<and> 8 dvd p \<and>
       (\<forall>j<length live. i \<noteq> j \<longrightarrow> p + uint n \<le> fst (live ! j) \<or> fst (live ! j) + uint (snd (live ! j)) \<le> p)"
    if "i < length live" for i
    using r(2) [rule_format, OF that] ok(3,4) by (auto split: prod.splits)
  then show ?thesis using r(1) by blast
qed

definition demo_pool :: fm_block where
  "demo_pool = the (the (fm_malloc_init 4096 100000))"

definition demo_requests :: "request list" where
  "demo_requests = [Malloc 20000, Malloc 17000, Free 0, Resize 0 18000]"

lemma demo_pool_init: "fm_malloc_init 4096 100000 = Some (Some demo_pool)"
proof -
  have "map_option (map_option first_frag) (fm_malloc_init 4096 100000) = Some (Some 37704)" by code_simp
  then show ?thesis by (auto simp: demo_pool_def)
qed

lemma pool_blocks_apart_witness:
  "map_option snd (serve_all fm_malloc fm_free fm_realloc demo_requests (demo_pool, [])) = Some [(37720, 18000)] \<and>
   (37720 :: int) + 18000 \<le> 4096 + 100000"
proof -
  have "list_all sane demo_requests" by code_simp
  from pool_blocks_apart [OF _ _ demo_pool_init this] obtain qm live where r:
    "serve_all fm_malloc fm_free fm_realloc demo_requests (demo_pool, []) = Some (qm, live)"
    "\<forall>i<length live. case live ! i of (p, n) \<Rightarrow> uint (4096 :: u64) \<le> p \<and> p + uint n \<le> uint (4096 :: u64) + uint (100000 :: u64) \<and> 8 dvd p \<and>
       (\<forall>j<length live. i \<noteq> j \<longrightarrow> p + uint n \<le> fst (live ! j) \<or> fst (live ! j) + uint (snd (live ! j)) \<le> p)"
    by auto
  have e: "map_option snd (serve_all fm_malloc fm_free fm_realloc demo_requests (demo_pool, [])) = Some [(37720, 18000)]" by code_simp
  then have "live = [(37720, 18000)]" using r(1) by simp
  then show ?thesis using r(2) e by auto
qed

text \<open>
  C29: An allocation succeeds exactly when some free fragment has room for the rounded size. It then
  takes such a fragment, whose rest may become a free fragment of its own, and changes neither the
  contents of memory nor the fragments in use.\<close>

theorem malloc_finds_room:
  assumes "heap qm U F"
  shows "if \<exists>a\<in>F. uint (ROUNDUP sz) \<le> the (sizes qm a)
    then \<exists>a\<in>F. \<exists>qm' F'. uint (ROUNDUP sz) \<le> the (sizes qm a) \<and> fm_malloc sz qm = Some (a + 16, qm') \<and> heap qm' (insert a U) F' \<and>
      bytes qm' = bytes qm \<and> uint (ROUNDUP sz) \<le> the (sizes qm' a) \<and> (\<forall>b\<in>U. sizes qm' b = sizes qm b)
    else fm_malloc sz qm = Some (0, qm)"
proof (cases "\<exists>a\<in>F. uint (ROUNDUP sz) \<le> the (sizes qm a)")
  case True
  then obtain a qm' F' where "a \<in> F" "uint (ROUNDUP sz) \<le> the (sizes qm a)" "fm_malloc sz qm = Some (a + 16, qm')" "heap qm' (insert a U) F'"
      "bytes qm' = bytes qm" "uint (ROUNDUP sz) \<le> the (sizes qm' a)" "\<forall>b\<in>U. sizes qm' b = sizes qm b"
    using malloc_spec [OF assms, of sz] by fastforce
  then show ?thesis unfolding if_P [OF True] by blast
next
  case False
  then show ?thesis using malloc_spec [OF assms, of sz] by auto
qed

lemma demo_pool_heap: "heap demo_pool {} {37704}"
proof -
  have "first_frag demo_pool = 37704" by code_simp
  then show ?thesis using init_ok(2) [OF _ _ demo_pool_init] by simp
qed

lemma malloc_finds_room_witness: "fm_malloc 70000 demo_pool = Some (0, demo_pool)"
proof -
  have "sizes demo_pool 37704 = Some 66376" "uint (ROUNDUP 70000 :: u64) = 70000" by code_simp+
  then show ?thesis using malloc_finds_room [OF demo_pool_heap, of 70000] by simp
qed


definition demo_busy :: fm_block where
  "demo_busy = fst (the (serve_all fm_malloc fm_free fm_realloc [Malloc 20000] (demo_pool, [])))"

lemma demo_busy_heap: "\<exists>F. heap demo_busy {37704} F"
proof -
  have "pkg.held (demo_pool, [])" using init_ok(1) [OF _ _ demo_pool_init] by (simp add: pkg.held_def)
  then obtain qm live where h: "serve_all fm_malloc fm_free fm_realloc [Malloc 20000] (demo_pool, []) = Some (qm, live)" "pkg.held (qm, live)"
    using pkg.serve_all_held [of demo_pool "[]" "[Malloc 20000]"] by auto
  have "map_option snd (serve_all fm_malloc fm_free fm_realloc [Malloc 20000] (demo_pool, [])) = Some [(37720, 20000)]" by code_simp
  then have "live = [(37720, 20000)]" using h(1) by simp
  moreover have "demo_busy = qm" using h(1) by (simp add: demo_busy_def)
  ultimately show ?thesis using h(2) by (auto simp: pkg.held_def fm_ok_def)
qed


text \<open>
  C40: A reallocation that fails has freed the block: null is returned and the fragment is no
  longer in use, so its owner, who by the C standard still holds it, uses freed memory.\<close>

theorem failed_realloc_frees:
  assumes "heap qm U F" "a \<in> U" "sz \<noteq> 0" "fm_realloc (a + 16) sz qm = Some (0, qm')"
  shows "\<exists>F'. heap qm' (U - {a}) F'"
proof -
  obtain n where n: "sizes qm a = Some n" using heap_frag [OF assms(1), of a] assms(2) by blast
  have "0 < a" using heap_pos [OF assms(1)] assms(2) by blast
  then show ?thesis using realloc_spec [OF assms(1,2) n assms(3)] assms(4) by auto
qed

lemma failed_realloc_frees_witness: "\<exists>qm F. fm_realloc 37720 90000 demo_busy = Some (0, qm) \<and> heap qm {} F"
proof -
  obtain F where h: "heap demo_busy {37704} F" using demo_busy_heap by blast
  have "map_option fst (fm_realloc 37720 90000 demo_busy) = Some 0" by code_simp
  then obtain qm where q: "fm_realloc 37720 90000 demo_busy = Some (0, qm)" by auto
  then show ?thesis using failed_realloc_frees [OF h, of 37704 90000 qm] by auto
qed

text \<open>A size within 7 of \<open>2 ^ 64\<close> is rounded to 0: the block returned has no room for it.\<close>

lemma huge_malloc_succeeds:
  assumes "heap qm U F" "F \<noteq> {}" "2 ^ 64 - 8 < uint sz"
  shows "\<exists>p qm'. fm_malloc sz qm = Some (p, qm') \<and> p \<noteq> 0"
proof -
  have "(uint sz + 7) mod 2 ^ 64 = (uint sz + 7 - 2 ^ 64) mod 2 ^ 64" using assms(3) by (simp add: mod_pos_geq)
  also have "\<dots> = uint sz + 7 - 2 ^ 64" using assms(3) uint_lt2p [of sz] by (intro mod_pos_pos_trivial) simp_all
  finally have "uint (ROUNDUP sz) = (uint sz + 7 - 2 ^ 64) div 8 * 8" by (simp only: ROUNDUP_value)
  also have "\<dots> = 0" using assms(3) uint_lt2p [of sz] by simp
  finally have r: "uint (ROUNDUP sz) = 0" .
  obtain a where a: "a \<in> F" using assms(2) by blast
  then obtain n where "sizes qm a = Some n" "0 \<le> n" using heap_frag [OF assms(1), of a] by blast
  then have "\<not> (\<forall>a\<in>F. the (sizes qm a) < uint (ROUNDUP sz))" using a r by force
  then obtain c qm' where "c \<in> F" "fm_malloc sz qm = Some (c + 16, qm')" using malloc_spec [OF assms(1), of sz] by blast
  moreover have "0 < c" using heap_pos [OF assms(1)] calculation(1) by blast
  ultimately show ?thesis by auto
qed

end
